(* ===== verification/Prelude.thy ===== *)
theory Prelude
  imports Main "HOL-Library.Word"
begin

text \<open>
  Shared vocabulary of the development: the machine integers of
  \<^verbatim>\<open>kernel/types.h\<close>, byte-addressed memory, little-endian encodings of machine words,
  outcomes of kernel code that may panic or go to sleep, and the generic facts about them that the
  component theories use.

  Collections of simplification rules: \<open>page_simps\<close> (arithmetic of page numbers and page
  table indices) and \<open>mem_simps\<close> (reading memory that has just been written).
\<close>

unbundle bit_operations_syntax

named_theorems page_simps "arithmetic of pages and page-table indices"
named_theorems mem_simps "reads of updated memory"

subsection \<open>Machine integers and memory\<close>

type_synonym u8 = "8 word"
type_synonym u16 = "16 word"
type_synonym u32 = "32 word"
type_synonym u64 = "64 word"

text \<open>Physical memory, one byte per 64-bit address.\<close>

type_synonym memory = "u64 \<Rightarrow> u8"

text \<open>The \<open>n\<close> bytes from address \<open>a\<close> on, and memory with a list of bytes stored at \<open>a\<close>.
  The offset of \<open>x\<close> from \<open>a\<close> is the (wrapping) difference \<open>x - a\<close>.\<close>

definition bytes :: "memory \<Rightarrow> u64 \<Rightarrow> nat \<Rightarrow> u8 list" where
  "bytes m a n = map (\<lambda>i. m (a + of_nat i)) [0..<n]"

definition put_bytes :: "memory \<Rightarrow> u64 \<Rightarrow> u8 list \<Rightarrow> memory" where
  "put_bytes m a bs = (\<lambda>x. if unat (x - a) < length bs then bs ! unat (x - a) else m x)"

subsection \<open>Little-endian encoding of words\<close>

definition le_bytes :: "nat \<Rightarrow> 'a::len word \<Rightarrow> u8 list" where
  "le_bytes n w = map (\<lambda>i. ucast (drop_bit (8 * i) w)) [0..<n]"

primrec of_le :: "u8 list \<Rightarrow> 'a::len word" where
  "of_le [] = 0"
| "of_le (b # bs) = ucast b OR push_bit 8 (of_le bs)"

text \<open>A load or store of a 64-bit word at an address.\<close>

definition load64 :: "memory \<Rightarrow> u64 \<Rightarrow> u64" where
  "load64 m a = of_le (bytes m a 8)"

definition store64 :: "memory \<Rightarrow> u64 \<Rightarrow> u64 \<Rightarrow> memory" where
  "store64 m a v = put_bytes m a (le_bytes 8 v)"

text \<open>A C \<^verbatim>\<open>int\<close> that holds a value: the value wrapped to 32 bits, with its sign.\<close>

definition int32 :: "int \<Rightarrow> int" where
  "int32 x = sint (word_of_int x :: u32)"

text \<open>The bytes of a string literal, without the null byte that ends it.\<close>

definition cstr :: "string \<Rightarrow> u8 list" where
  "cstr s = map of_char s"

subsection \<open>Outcomes\<close>

text \<open>
  Channels that kernel code sleeps on: the addresses that \<^verbatim>\<open>sleep\<close> and
  \<^verbatim>\<open>wakeup\<close> are called with.
\<close>

datatype chan =
    NoChan
  | ChTicks
  | ChLog
  | ChProc nat
  | ChSleeplock nat
  | ChPipeRead u64
  | ChPipeWrite u64
  | ChCons
  | ChUart
  | ChDiskFree
  | ChBuf nat

text \<open>
  Kernel code that does not return normally: a call of \<^verbatim>\<open>panic\<close> with its message, a
  call of \<^verbatim>\<open>sleep\<close>, after which the thread only continues when some other thread
  has run, an endless loop, behaviour that C leaves undefined, or a computation longer than the fuel
  or the input given to the model.
\<close>

datatype stop = Panic string | Sleeps chan | Spins | Undef | OutOfFuel

type_synonym 'a res = "stop + 'a"

definition bindE :: "'e + 'a \<Rightarrow> ('a \<Rightarrow> 'e + 'b) \<Rightarrow> 'e + 'b" where
  "bindE r f = (case r of Inl e \<Rightarrow> Inl e | Inr x \<Rightarrow> f x)"

text \<open>A loop over a list whose body may stop.\<close>

primrec foldE :: "('a \<Rightarrow> 's \<Rightarrow> 'e + 's) \<Rightarrow> 'a list \<Rightarrow> 's \<Rightarrow> 'e + 's" where
  "foldE f [] s = Inr s"
| "foldE f (x # xs) s = bindE (f x s) (foldE f xs)"

subsection \<open>Facts about outcomes\<close>

lemma bindE_simps [simp]:
  "bindE (Inl e) f = Inl e"
  "bindE (Inr x) f = f x"
  by (simp_all add: bindE_def)

lemma bindE_eq_Inr: "bindE r f = Inr y \<longleftrightarrow> (\<exists>x. r = Inr x \<and> f x = Inr y)"
  by (cases r) auto

lemma bindE_eq_Inl: "bindE r f = Inl e \<longleftrightarrow> r = Inl e \<or> (\<exists>x. r = Inr x \<and> f x = Inl e)"
  by (cases r) auto

lemma bindE_cong [fundef_cong]:
  "r = r' \<Longrightarrow> (\<And>x. r' = Inr x \<Longrightarrow> f x = f' x) \<Longrightarrow> bindE r f = bindE r' f'"
  by (cases r') auto

lemma bindE_assoc: "bindE (bindE r f) g = bindE r (\<lambda>x. bindE (f x) g)"
  by (cases r) auto

lemma foldE_append: "foldE f (xs @ ys) s = bindE (foldE f xs s) (foldE f ys)"
  by (induction xs arbitrary: s) (auto simp: bindE_def split: sum.splits)

subsection \<open>What a computation establishes\<close>

text \<open>
  If it returns, the state satisfies a predicate: for computations that return a value and a state
  and for those that return a state only.
\<close>

definition pres :: "('s \<Rightarrow> bool) \<Rightarrow> ('x \<times> 's) res \<Rightarrow> bool" where
  "pres P r \<longleftrightarrow> (\<forall>x t. r = Inr (x, t) \<longrightarrow> P t)"

definition pres1 :: "('s \<Rightarrow> bool) \<Rightarrow> 's res \<Rightarrow> bool" where
  "pres1 P r \<longleftrightarrow> (\<forall>t. r = Inr t \<longrightarrow> P t)"

lemma pres_Inr [simp]: "pres P (Inr (x, t)) = P t" "pres1 P (Inr t) = P t"
  by (simp_all add: pres_def pres1_def)

lemma pres_Inl [simp]: "pres P (Inl e)" "pres1 P (Inl e)"
  by (simp_all add: pres_def pres1_def)

lemma presD: "pres P r \<Longrightarrow> r = Inr (x, t) \<Longrightarrow> P t" "pres1 P r' \<Longrightarrow> r' = Inr t \<Longrightarrow> P t"
  by (simp_all add: pres_def pres1_def)

lemma pres_bind:
  "pres P r \<Longrightarrow> (\<And>x t. r = Inr (x, t) \<Longrightarrow> P t \<Longrightarrow> pres P (f (x, t))) \<Longrightarrow> pres P (bindE r f)"
  "pres1 P r' \<Longrightarrow> (\<And>t. r' = Inr t \<Longrightarrow> P t \<Longrightarrow> pres P (g t)) \<Longrightarrow> pres P (bindE r' g)"
  by (auto simp: pres_def pres1_def bindE_eq_Inr)

lemma pres1_bind:
  "pres P r \<Longrightarrow> (\<And>x t. r = Inr (x, t) \<Longrightarrow> P t \<Longrightarrow> pres1 P (f (x, t))) \<Longrightarrow> pres1 P (bindE r f)"
  "pres1 P r' \<Longrightarrow> (\<And>t. r' = Inr t \<Longrightarrow> P t \<Longrightarrow> pres1 P (g t)) \<Longrightarrow> pres1 P (bindE r' g)"
  by (auto simp: pres_def pres1_def bindE_eq_Inr)

lemma pres_pure_bind:
  "(\<And>x. r = Inr x \<Longrightarrow> pres P (f x)) \<Longrightarrow> pres P (bindE r f)"
  "(\<And>x. r = Inr x \<Longrightarrow> pres1 P (g x)) \<Longrightarrow> pres1 P (bindE r g)"
  by (auto simp: pres_def pres1_def bindE_eq_Inr)

lemma pres1_foldE:
  "(\<And>x t. x \<in> set xs \<Longrightarrow> P t \<Longrightarrow> pres1 P (f x t)) \<Longrightarrow> P s \<Longrightarrow> pres1 P (foldE f xs s)"
  by (induction xs arbitrary: s) (auto intro!: pres1_bind(2))

lemma pres_mono: "pres P r \<Longrightarrow> (\<And>t. P t \<Longrightarrow> Q t) \<Longrightarrow> pres Q r"
  by (auto simp: pres_def)

subsection \<open>Facts about words\<close>

lemma unat_less_exp: "unat (a :: 'a::len word) < 2 ^ LENGTH('a)"
  by (rule unsigned_less)

lemma unat_u64_less [simp]: "unat (a :: u64) < 18446744073709551616"
  using unat_less_exp [of a] by simp

lemma unat_minus_1_u64 [simp]: "unat (- 1 :: u64) = 18446744073709551615"
  by (simp add: unsigned_minus_1_eq_mask mask_eq_exp_minus_1)

lemma and_not_mask_eq: "(a :: 'a::len word) AND NOT (mask n) = push_bit n (drop_bit n a)"
  by (rule bit_word_eqI) (auto simp: bit_simps)

lemma unat_push_drop_bit:
  "unat (push_bit n (drop_bit n (a :: 'a::len word))) = unat a div 2 ^ n * 2 ^ n"
proof -
  have "unat a div 2 ^ n * 2 ^ n < 2 ^ LENGTH('a)"
    using unat_less_exp [of a] by (meson div_times_less_eq_dividend le_less_trans)
  then show ?thesis
    unfolding unsigned_push_bit_eq unat_drop_bit_eq
    by (simp add: push_bit_eq_mult drop_bit_eq_div take_bit_eq_mod)
qed

lemma unat_take_bit_eq: "unat (take_bit n (a :: 'a::len word)) = unat a mod 2 ^ n"
  by (simp add: unsigned_take_bit_eq flip: take_bit_eq_mod)

lemma unat_of_nat_small: "n < 2 ^ LENGTH('a) \<Longrightarrow> unat (of_nat n :: 'a::len word) = n"
  by (simp add: unat_of_nat take_bit_eq_mod)

lemma unat_add_small:
  "unat (a :: 'a::len word) + unat b < 2 ^ LENGTH('a) \<Longrightarrow> unat (a + b) = unat a + unat b"
  by (simp add: unat_word_ariths)

lemma unat_ucast_up: "LENGTH('a) \<le> LENGTH('b) \<Longrightarrow> unat (ucast (a :: 'a::len word) :: 'b::len word) = unat a"
proof -
  assume "LENGTH('a) \<le> LENGTH('b)"
  then have "unat a < 2 ^ LENGTH('b)"
    using unat_less_exp [of a] by (meson less_le_trans one_le_numeral power_increasing)
  then show ?thesis by (simp add: unsigned_ucast_eq take_bit_nat_eq_self)
qed

lemma int32_id: "- (2 ^ 31) \<le> x \<Longrightarrow> x < 2 ^ 31 \<Longrightarrow> int32 x = x"
  by (simp add: int32_def signed_of_int signed_take_bit_int_eq_self)

lemma int32_range: "- (2 ^ 31) \<le> int32 x" "int32 x < 2 ^ 31"
  using sint_range_size [of "word_of_int x :: u32"] by (simp_all add: int32_def word_size)

subsection \<open>Facts about encodings\<close>

lemma length_bytes [simp]: "length (bytes m a n) = n"
  by (simp add: bytes_def)

lemma nth_bytes [simp]: "i < n \<Longrightarrow> bytes m a n ! i = m (a + of_nat i)"
  by (simp add: bytes_def)

lemma bytes_0 [simp]: "bytes m a 0 = []"
  by (simp add: bytes_def)

lemma bytes_Suc: "bytes m a (Suc n) = m a # bytes m (a + 1) n"
  by (rule nth_equalityI) (auto simp: nth_Cons algebra_simps split: nat.split)

lemma length_le_bytes [simp]: "length (le_bytes n w) = n"
  by (simp add: le_bytes_def)

lemma bit_of_le:
  "bit (of_le bs :: 'a::len word) k \<longleftrightarrow>
     k < LENGTH('a) \<and> k div 8 < length bs \<and> bit (bs ! (k div 8)) (k mod 8)"
proof (induction bs arbitrary: k)
  case Nil
  then show ?case by simp
next
  case (Cons b bs)
  show ?case
  proof (cases "k < 8")
    case True
    with Cons show ?thesis by (auto simp: bit_simps)
  next
    case False
    then obtain j where k: "k = j + 8" by (metis add.commute le_Suc_ex not_less)
    then have "k div 8 = Suc (j div 8)" "k mod 8 = j mod 8" by simp_all
    with Cons [of j] show ?thesis
      by (auto simp: k bit_simps dest: bit_imp_le_length)
  qed
qed

lemma of_le_le_bytes: "LENGTH('a) = 8 * n \<Longrightarrow> of_le (le_bytes n w) = (w :: 'a::len word)"
  by (rule bit_word_eqI) (auto simp: bit_of_le le_bytes_def bit_simps)

lemma le_bytes_of_le:
  "length bs = n \<Longrightarrow> 8 * n \<le> LENGTH('a) \<Longrightarrow> le_bytes n (of_le bs :: 'a::len word) = bs"
  by (intro nth_equalityI bit_word_eqI) (auto simp: bit_of_le le_bytes_def bit_simps)

subsection \<open>Facts about memory\<close>

lemma put_bytes_apply:
  "put_bytes m a bs x = (if unat (x - a) < length bs then bs ! unat (x - a) else m x)"
  by (simp add: put_bytes_def)

lemma bytes_put_bytes_same:
  assumes "length bs = n" "n < 2 ^ 64"
  shows "bytes (put_bytes m a bs) a n = bs"
proof (rule nth_equalityI)
  fix i assume "i < length (bytes (put_bytes m a bs) a n)"
  then have "i < n" by simp
  with assms have "unat (of_nat i :: u64) = i" by (intro unat_of_nat_small) simp
  with \<open>i < n\<close> assms show "bytes (put_bytes m a bs) a n ! i = bs ! i"
    by (simp add: put_bytes_apply)
qed (use assms in simp)

lemma bytes_cong:
  "(\<And>i. i < n \<Longrightarrow> m (a + of_nat i) = m' (a + of_nat i)) \<Longrightarrow> bytes m a n = bytes m' a n"
  by (simp add: bytes_def)

lemma load64_store64_same [mem_simps]: "load64 (store64 m a v) a = v"
  by (simp add: load64_def store64_def bytes_put_bytes_same of_le_le_bytes)

lemma of_le_zeros: "of_le (map (\<lambda>_. 0) xs) = 0"
  by (induction xs) simp_all

lemma load64_zeros [simp]: "load64 (\<lambda>_. 0) a = 0"
  by (simp add: load64_def bytes_def of_le_zeros)

lemma load64_cong:
  "(\<And>i. i < 8 \<Longrightarrow> m (a + of_nat i) = m' (a + of_nat i)) \<Longrightarrow> load64 m a = load64 m' a"
  by (simp add: load64_def cong: bytes_cong)

lemma store64_other: "8 \<le> unat (x - a) \<Longrightarrow> store64 m a v x = m x"
  by (simp add: store64_def put_bytes_apply)

end
