(* ===== verification/Riscv.thy ===== *)
theory Riscv
  imports Prelude
begin

text \<open>
  The machine and its address arithmetic: \<^verbatim>\<open>kernel/riscv.h\<close>,
  \<^verbatim>\<open>kernel/memlayout.h\<close> and \<^verbatim>\<open>kernel/param.h\<close>. The control
  registers of one hart are a record whose selectors are the \<^verbatim>\<open>r_\<close> functions and
  whose updates are the \<^verbatim>\<open>w_\<close> functions of the header; the page macros are
  functions on 64-bit words. The lemmas turn the macros into arithmetic on natural numbers and give
  the two facts the page tables rest on: a page-table entry stores a physical page and its flags
  without loss, and the three indices of a virtual address identify its page.
\<close>

subsection \<open>Control registers\<close>

record hart =
  mhartid :: u64
  mstatus :: u64
  mepc :: u64
  sstatus :: u64
  sip :: u64
  sie :: u64
  mie :: u64
  sepc :: u64
  medeleg :: u64
  mideleg :: u64
  stvec :: u64
  mtvec :: u64
  satp :: u64
  mscratch :: u64
  scause :: u64
  stval :: u64
  tp :: u64

definition SSTATUS_SPP :: u64 where "SSTATUS_SPP = push_bit 8 1"
definition SSTATUS_SPIE :: u64 where "SSTATUS_SPIE = push_bit 5 1"
definition SSTATUS_SIE :: u64 where "SSTATUS_SIE = push_bit 1 1"

definition intr_on :: "'a hart_scheme \<Rightarrow> 'a hart_scheme" where
  "intr_on h = h\<lparr>sstatus := sstatus h OR SSTATUS_SIE\<rparr>"

definition intr_off :: "'a hart_scheme \<Rightarrow> 'a hart_scheme" where
  "intr_off h = h\<lparr>sstatus := sstatus h AND NOT SSTATUS_SIE\<rparr>"

definition intr_get :: "'a hart_scheme \<Rightarrow> bool" where
  "intr_get h \<longleftrightarrow> sstatus h AND SSTATUS_SIE \<noteq> 0"

subsection \<open>Parameters and layout\<close>

abbreviation (input) NPROC :: nat where "NPROC \<equiv> 64"
abbreviation (input) NCPU :: nat where "NCPU \<equiv> 8"
abbreviation (input) NOFILE :: nat where "NOFILE \<equiv> 16"
abbreviation (input) NFILE :: nat where "NFILE \<equiv> 100"
abbreviation (input) PGSIZE :: u64 where "PGSIZE \<equiv> 4096"
abbreviation (input) PTE_V :: u64 where "PTE_V \<equiv> 1"
abbreviation (input) PTE_R :: u64 where "PTE_R \<equiv> 2"
abbreviation (input) PTE_W :: u64 where "PTE_W \<equiv> 4"
abbreviation (input) PTE_X :: u64 where "PTE_X \<equiv> 8"
abbreviation (input) PTE_U :: u64 where "PTE_U \<equiv> 16"

definition KERNBASE :: u64 where "KERNBASE = 0x80000000"
definition PHYSTOP :: u64 where "PHYSTOP = KERNBASE + 128 * 1024 * 1024"
definition UART0 :: u64 where "UART0 = 0x10000000"
definition VIRTIO0 :: u64 where "VIRTIO0 = 0x10001000"
definition CLINT :: u64 where "CLINT = 0x2000000"
definition PLIC :: u64 where "PLIC = 0x0c000000"
definition MAXVA :: u64 where "MAXVA = push_bit (9 + 9 + 9 + 12 - 1) 1"
definition TRAMPOLINE :: u64 where "TRAMPOLINE = MAXVA - PGSIZE"
definition TRAPFRAME :: u64 where "TRAPFRAME = TRAMPOLINE - PGSIZE"

definition KSTACK :: "nat \<Rightarrow> u64" where
  "KSTACK p = TRAMPOLINE - (of_nat p + 1) * 2 * PGSIZE"

subsection \<open>Page macros\<close>

definition PGROUNDUP :: "u64 \<Rightarrow> u64" where
  "PGROUNDUP sz = (sz + PGSIZE - 1) AND NOT (PGSIZE - 1)"

definition PGROUNDDOWN :: "u64 \<Rightarrow> u64" where
  "PGROUNDDOWN a = a AND NOT (PGSIZE - 1)"

definition PA2PTE :: "u64 \<Rightarrow> u64" where
  "PA2PTE pa = push_bit 10 (drop_bit 12 pa)"

definition PTE2PA :: "u64 \<Rightarrow> u64" where
  "PTE2PA pte = push_bit 12 (drop_bit 10 pte)"

definition PTE_FLAGS :: "u64 \<Rightarrow> u64" where
  "PTE_FLAGS pte = pte AND 0x3FF"

definition PXSHIFT :: "nat \<Rightarrow> nat" where
  "PXSHIFT level = 12 + 9 * level"

definition PX :: "nat \<Rightarrow> u64 \<Rightarrow> u64" where
  "PX level va = drop_bit (PXSHIFT level) va AND 0x1FF"

definition MAKE_SATP :: "u64 \<Rightarrow> u64" where
  "MAKE_SATP pagetable = push_bit 60 8 OR drop_bit 12 pagetable"

text \<open>The alignment test of the code, \<^verbatim>\<open>a % PGSIZE == 0\<close>.\<close>

definition page_aligned :: "u64 \<Rightarrow> bool" where
  "page_aligned a \<longleftrightarrow> a mod PGSIZE = 0"

subsection \<open>Interrupt enable bit\<close>

lemma SSTATUS_SIE_exp: "SSTATUS_SIE = 2 ^ 1"
  by (simp add: SSTATUS_SIE_def)

lemma intr_get_bit: "intr_get h \<longleftrightarrow> bit (sstatus h) 1"
  unfolding intr_get_def SSTATUS_SIE_exp by (simp only: and_exp_eq_0_iff_not_bit not_not)

lemma intr_simps [simp]: "intr_get (intr_on h)" "\<not> intr_get (intr_off h)"
  by (simp_all add: intr_get_bit intr_on_def intr_off_def SSTATUS_SIE_def bit_simps)

lemma intr_off_id: "\<not> intr_get h \<Longrightarrow> intr_off h = h"
proof -
  assume "\<not> intr_get h"
  then have "sstatus h AND NOT SSTATUS_SIE = sstatus h"
    by (intro bit_word_eqI) (auto simp: intr_get_bit SSTATUS_SIE_def bit_simps)
  then show ?thesis by (simp add: intr_off_def)
qed

lemma intr_on_off: "intr_get h \<Longrightarrow> intr_on (intr_off h) = h"
proof -
  assume "intr_get h"
  then have "(sstatus h AND NOT SSTATUS_SIE) OR SSTATUS_SIE = sstatus h"
    by (intro bit_word_eqI) (auto simp: intr_get_bit SSTATUS_SIE_def bit_simps)
  then show ?thesis by (simp add: intr_on_def intr_off_def)
qed

subsection \<open>Rounding to pages\<close>

lemma u64_4095: "(4095 :: u64) = mask 12"
  by (simp add: mask_eq_exp_minus_1)

lemma unat_PGROUNDDOWN [page_simps]: "unat (PGROUNDDOWN a) = unat a div 4096 * 4096"
  using unat_push_drop_bit [of 12 a]
  by (simp add: PGROUNDDOWN_def u64_4095 and_not_mask_eq)

lemma PGROUNDUP_eq: "PGROUNDUP sz = PGROUNDDOWN (sz + 4095)"
  by (simp add: PGROUNDUP_def PGROUNDDOWN_def add.commute)

lemma unat_PGROUNDUP:
  "unat sz + 4095 < 2 ^ 64 \<Longrightarrow> unat (PGROUNDUP sz) = (unat sz + 4095) div 4096 * 4096"
  by (simp add: PGROUNDUP_eq unat_PGROUNDDOWN unat_word_ariths)

lemma page_aligned_iff: "page_aligned a \<longleftrightarrow> unat a mod 4096 = 0"
  by (simp add: page_aligned_def unat_mod_distrib flip: unat_eq_zero)

lemma PGROUNDDOWN_aligned [simp]: "page_aligned (PGROUNDDOWN a)"
  by (simp add: page_aligned_iff unat_PGROUNDDOWN)

lemma PGROUNDUP_aligned [simp]: "page_aligned (PGROUNDUP a)"
  by (simp add: PGROUNDUP_eq)

lemma PGROUNDDOWN_id [simp]: "page_aligned a \<Longrightarrow> PGROUNDDOWN a = a"
proof -
  assume "page_aligned a"
  then have "unat (PGROUNDDOWN a) = unat a"
    by (auto simp: unat_PGROUNDDOWN page_aligned_iff)
  then show ?thesis by (simp only: word_unat_eq_iff)
qed

lemma page_aligned_0 [simp]: "page_aligned 0"
  by (simp add: page_aligned_def)

lemma page_aligned_dvd: "page_aligned a \<longleftrightarrow> 4096 dvd unat a"
  by (simp add: page_aligned_iff dvd_eq_mod_eq_0)

lemma page_aligned_add: "page_aligned a \<Longrightarrow> page_aligned b \<Longrightarrow> page_aligned (a + b)"
  unfolding page_aligned_dvd unat_word_ariths by (intro dvd_mod dvd_add) simp_all

lemma page_aligned_diff: "page_aligned a \<Longrightarrow> page_aligned b \<Longrightarrow> page_aligned (a - b)"
  unfolding page_aligned_dvd unat_sub_if' by (auto intro!: dvd_diff_nat dvd_add)

text \<open>An address lies within the page of an aligned address iff it rounds down to it.\<close>

lemma in_page_iff:
  assumes "page_aligned p"
  shows "unat (x - p) < 4096 \<longleftrightarrow> PGROUNDDOWN x = p"
proof -
  from assms obtain k where k: "unat p = 4096 * k"
    by (auto simp: page_aligned_dvd)
  have p: "4096 * Suc k \<le> 18446744073709551616"
    using unat_u64_less [of p] unfolding k by simp
  have pages: "a div 4096 = k \<longleftrightarrow> 4096 * k \<le> a \<and> a < 4096 * Suc k" for a :: nat
    by (auto simp: div_nat_eqI dividend_less_times_div intro!: div_nat_eqI)
  have "unat (x - p) < 4096 \<longleftrightarrow> 4096 * k \<le> unat x \<and> unat x < 4096 * Suc k"
  proof (cases "unat p \<le> unat x")
    case True
    then show ?thesis by (auto simp: unat_sub_if' k)
  next
    case False
    with p show ?thesis by (auto simp: unat_sub_if' k)
  qed
  moreover have "PGROUNDDOWN x = p \<longleftrightarrow> unat x div 4096 = k"
    unfolding word_unat_eq_iff unat_PGROUNDDOWN k by simp
  ultimately show ?thesis by (simp only: pages)
qed

lemma PGROUNDDOWN_offset:
  assumes "page_aligned p" "unat d < 4096"
  shows "PGROUNDDOWN (p + d) = p"
  using in_page_iff [OF assms(1), of "p + d"] assms(2) by simp

subsection \<open>Page-table entries\<close>

lemma small_flags_bit: "f < 1024 \<Longrightarrow> bit (f :: u64) n \<Longrightarrow> n < 10"
proof -
  assume "f < 1024" "bit f n"
  then have "unat f < 1024" "bit (unat f) n"
    by (simp_all add: word_less_nat_alt bit_unsigned_iff)
  then have "2 ^ n < (1024 :: nat)"
    by (metis bit_iff_odd div_less even_zero le_less_trans not_le)
  then have "2 ^ n < (2 :: nat) ^ 10" by simp
  then show "n < 10" by (rule power_less_imp_less_exp [rotated]) simp
qed

lemma u64_1023: "(1023 :: u64) = mask 10"
  by (simp add: mask_eq_exp_minus_1)

lemma PTE2PA_mk: "f < 1024 \<Longrightarrow> PTE2PA (PA2PTE pa OR f) = PGROUNDDOWN pa"
  apply (rule bit_word_eqI)
  apply (simp add: PTE2PA_def PA2PTE_def PGROUNDDOWN_def u64_4095 and_not_mask_eq bit_simps)
  apply (auto dest: small_flags_bit)
  done

lemma PTE_FLAGS_mk: "f < 1024 \<Longrightarrow> PTE_FLAGS (PA2PTE pa OR f) = f"
  apply (rule bit_word_eqI)
  apply (simp add: PTE_FLAGS_def PA2PTE_def u64_1023 bit_simps)
  apply (auto dest: small_flags_bit)
  done

subsection \<open>Page-table indices\<close>

lemma unat_PX [page_simps]: "unat (PX level va) = unat va div 2 ^ (12 + 9 * level) mod 512"
proof -
  have "(511 :: u64) = mask 9" by (simp add: mask_eq_exp_minus_1)
  then have "PX level va = take_bit 9 (drop_bit (12 + 9 * level) va)"
    by (simp only: PX_def PXSHIFT_def take_bit_eq_mask)
  then show ?thesis
    by (simp only: unat_take_bit_eq unat_drop_bit_eq) (simp add: drop_bit_eq_div)
qed

lemma PX_less: "PX level va < 512"
  by (simp add: word_less_nat_alt unat_PX)

lemma MAXVA_eq: "MAXVA = 274877906944"
  by (simp add: MAXVA_def)

lemma less_MAXVA_iff: "va < MAXVA \<longleftrightarrow> unat va < 274877906944"
  by (simp add: MAXVA_eq word_less_nat_alt)

lemma div_split:
  fixes x :: nat
  assumes "x < 274877906944"
  shows "x div 4096 = (x div 1073741824 mod 512) * 262144 + (x div 2097152 mod 512) * 512
    + x div 4096 mod 512"
proof -
  have split2: "y = a * 512 + d \<Longrightarrow> a = b * 512 + c \<Longrightarrow> y = b * 262144 + c * 512 + d"
    for y a b c d :: nat by simp
  define y where "y = x div 4096"
  have "y = y div 512 div 512 * 262144 + y div 512 mod 512 * 512 + y mod 512"
    by (rule split2 [of y "y div 512"]) (rule div_mult_mod_eq [symmetric])+
  moreover have "x div 2097152 = y div 512" "x div 1073741824 = y div 512 div 512"
    by (simp_all add: y_def flip: div_mult2_eq)
  moreover have "y div 512 div 512 mod 512 = y div 512 div 512"
    using assms by (simp add: y_def flip: div_mult2_eq)
  ultimately show ?thesis unfolding y_def [symmetric] by (simp only:)
qed

text \<open>The three indices of a virtual address below \<open>MAXVA\<close> identify its page.\<close>

lemma PX_inj:
  assumes "va < MAXVA" "vb < MAXVA"
    and "PX 2 va = PX 2 vb" "PX 1 va = PX 1 vb" "PX 0 va = PX 0 vb"
  shows "PGROUNDDOWN va = PGROUNDDOWN vb"
proof -
  have eqs: "unat va div 1073741824 mod 512 = unat vb div 1073741824 mod 512"
    "unat va div 2097152 mod 512 = unat vb div 2097152 mod 512"
    "unat va div 4096 mod 512 = unat vb div 4096 mod 512"
    using assms(3-5) [THEN arg_cong, of unat] by (simp_all add: unat_PX)
  have "unat va div 4096 = unat vb div 4096 mod 512 +
      (unat vb div 1073741824 mod 512 * 262144 + unat vb div 2097152 mod 512 * 512)"
    using div_split [of "unat va"] assms(1) unfolding less_MAXVA_iff eqs by (simp only: add.commute)
  also have "\<dots> = unat vb div 4096"
    using div_split [of "unat vb"] assms(2) unfolding less_MAXVA_iff by (simp only: add.commute)
  finally show ?thesis by (simp only: word_unat_eq_iff unat_PGROUNDDOWN)
qed

lemma PX_PGROUNDDOWN [simp]: "PX level (PGROUNDDOWN va) = PX level va"
proof -
  have "unat va div 4096 * 4096 div 2 ^ (12 + 9 * level) = unat va div 2 ^ (12 + 9 * level)"
    by (simp add: power_add div_mult2_eq)
  then show ?thesis by (simp add: word_unat_eq_iff unat_PX unat_PGROUNDDOWN)
qed

subsection \<open>Slots of a page-table page\<close>

text \<open>The address of entry \<open>i\<close> of the page-table page at \<open>p\<close>, \<^verbatim>\<open>&pagetable[i]\<close>.\<close>

definition slot :: "u64 \<Rightarrow> u64 \<Rightarrow> u64" where
  "slot p i = p + 8 * i"

lemma unat_slot_offset: "i < 512 \<Longrightarrow> k < 8 \<Longrightarrow> unat (8 * i + of_nat k :: u64) = 8 * unat i + k"
  by (simp add: unat_word_ariths unat_of_nat_small word_less_nat_alt)

lemma slot_in_page:
  assumes "page_aligned p" "i < 512" "k < 8"
  shows "PGROUNDDOWN (slot p i + of_nat k) = p"
proof -
  have "unat (8 * i + of_nat k :: u64) < 4096"
    using unat_slot_offset [OF assms(2,3)] assms(2,3) by (simp add: word_less_nat_alt)
  with assms(1) have "PGROUNDDOWN (p + (8 * i + of_nat k)) = p"
    by (rule PGROUNDDOWN_offset)
  then show ?thesis by (simp add: slot_def add.assoc)
qed

lemma slot_page [simp]: "page_aligned p \<Longrightarrow> i < 512 \<Longrightarrow> PGROUNDDOWN (slot p i) = p"
  using slot_in_page [of p i 0] by simp

lemma load64_store64_slot:
  assumes "i < 512" "j < 512" "i \<noteq> j"
  shows "load64 (store64 m (slot p i) v) (slot p j) = load64 m (slot p j)"
proof (rule load64_cong)
  fix k :: nat assume k: "k < 8"
  let ?d = "8 * j + of_nat k :: u64"
  have j: "unat ?d = 8 * unat j + k" using assms(2) k by (rule unat_slot_offset)
  have i: "unat (8 * i) = 8 * unat i" using unat_slot_offset [OF assms(1), of 0] by simp
  have ne: "unat i \<noteq> unat j" using assms(3) by (simp add: word_unat_eq_iff)
  have d: "slot p j + of_nat k - slot p i = ?d - 8 * i" by (simp add: slot_def)
  have "8 \<le> unat (?d - 8 * i)"
  proof (cases "unat i < unat j")
    case True
    then show ?thesis using k by (simp add: unat_sub_if' i j)
  next
    case False
    with ne have "unat j < unat i" by simp
    moreover have "unat i < 512" using assms(1) by (simp add: word_less_nat_alt)
    ultimately show ?thesis using k by (simp add: unat_sub_if' i j)
  qed
  then show "store64 m (slot p i) v (slot p j + of_nat k) = m (slot p j + of_nat k)"
    by (intro store64_other) (simp only: d)
qed

text \<open>A store into one page leaves the other pages alone.\<close>

lemma store64_slot_other:
  assumes "page_aligned p" "i < 512" "PGROUNDDOWN x \<noteq> p"
  shows "store64 m (slot p i) v x = m x"
proof (rule store64_other, rule ccontr)
  assume "\<not> 8 \<le> unat (x - slot p i)"
  then have k: "unat (x - slot p i) < 8" by simp
  have "x = slot p i + of_nat (unat (x - slot p i))" by simp
  with slot_in_page [OF assms(1,2) k] assms(3) show False by metis
qed

text \<open>Memory that agrees on a page has the same entries there.\<close>

lemma load64_slot_cong:
  assumes "page_aligned p" "i < 512" "\<And>x. PGROUNDDOWN x = p \<Longrightarrow> m x = m' x"
  shows "load64 m (slot p i) = load64 m' (slot p i)"
  by (rule load64_cong) (use assms slot_in_page in blast)

end
