(* ===== verification/Kstring.thy ===== *)
theory Kstring
  imports Riscv
begin

text \<open>
  The memory and string routines of \<^verbatim>\<open>kernel/string.c\<close>, as loops over
  byte-addressed memory. Pointers are 64-bit addresses and each assignment through a pointer is a
  function update, so the routines read what they have written when source and destination overlap,
  as the code does. Loop counters that only count down from an unsigned length are natural numbers;
  a routine that returns its destination pointer is modelled by the memory it leaves.

  The lemmas give closed forms: what \<^verbatim>\<open>memset\<close> and \<^verbatim>\<open>memmove\<close>
  leave at each address (overlapping regions included), the order \<^verbatim>\<open>memcmp\<close> and
  \<^verbatim>\<open>strncmp\<close> decide, and the strings the copying routines leave.
\<close>

subsection \<open>The routines\<close>

primrec memset_loop :: "memory \<Rightarrow> u64 \<Rightarrow> u8 \<Rightarrow> nat \<Rightarrow> nat \<Rightarrow> memory" where
  "memset_loop m cdst c i 0 = m"
| "memset_loop m cdst c i (Suc k) = memset_loop (m(cdst + of_nat i := c)) cdst c (Suc i) k"

definition memset :: "memory \<Rightarrow> u64 \<Rightarrow> u32 \<Rightarrow> u32 \<Rightarrow> memory" where
  "memset m dst c n = memset_loop m dst (ucast c) 0 (unat n)"

primrec memcmp_loop :: "memory \<Rightarrow> u64 \<Rightarrow> u64 \<Rightarrow> nat \<Rightarrow> int" where
  "memcmp_loop m s1 s2 0 = 0"
| "memcmp_loop m s1 s2 (Suc n) =
     (if m s1 \<noteq> m s2 then uint (m s1) - uint (m s2) else memcmp_loop m (s1 + 1) (s2 + 1) n)"

definition memcmp :: "memory \<Rightarrow> u64 \<Rightarrow> u64 \<Rightarrow> u32 \<Rightarrow> int" where
  "memcmp m v1 v2 n = memcmp_loop m v1 v2 (unat n)"

primrec copy_forward :: "memory \<Rightarrow> u64 \<Rightarrow> u64 \<Rightarrow> nat \<Rightarrow> memory" where
  "copy_forward m d s 0 = m"
| "copy_forward m d s (Suc n) = copy_forward (m(d := m s)) (d + 1) (s + 1) n"

primrec copy_backward :: "memory \<Rightarrow> u64 \<Rightarrow> u64 \<Rightarrow> nat \<Rightarrow> memory" where
  "copy_backward m d s 0 = m"
| "copy_backward m d s (Suc n) = copy_backward (m(d - 1 := m (s - 1))) (d - 1) (s - 1) n"

definition memmove :: "memory \<Rightarrow> u64 \<Rightarrow> u64 \<Rightarrow> u32 \<Rightarrow> memory" where
  "memmove m dst src n =
     (if src < dst \<and> src + ucast n > dst
      then copy_backward m (dst + ucast n) (src + ucast n) (unat n)
      else copy_forward m dst src (unat n))"

definition memcpy :: "memory \<Rightarrow> u64 \<Rightarrow> u64 \<Rightarrow> u32 \<Rightarrow> memory" where
  "memcpy m dst src n = memmove m dst src n"

primrec strncmp_loop :: "memory \<Rightarrow> u64 \<Rightarrow> u64 \<Rightarrow> nat \<Rightarrow> int" where
  "strncmp_loop m p q 0 = 0"
| "strncmp_loop m p q (Suc n) =
     (if m p \<noteq> 0 \<and> m p = m q then strncmp_loop m (p + 1) (q + 1) n
      else uint (m p) - uint (m q))"

definition strncmp :: "memory \<Rightarrow> u64 \<Rightarrow> u64 \<Rightarrow> u32 \<Rightarrow> int" where
  "strncmp m p q n = strncmp_loop m p q (unat n)"

primrec zero_fill :: "memory \<Rightarrow> u64 \<Rightarrow> nat \<Rightarrow> memory" where
  "zero_fill m s 0 = m"
| "zero_fill m s (Suc n) = zero_fill (m(s := 0)) (s + 1) n"

primrec strncpy_loop :: "memory \<Rightarrow> u64 \<Rightarrow> u64 \<Rightarrow> nat \<Rightarrow> memory" where
  "strncpy_loop m s t 0 = m"
| "strncpy_loop m s t (Suc n) =
     (let m' = m(s := m t) in
      if m t \<noteq> 0 then strncpy_loop m' (s + 1) (t + 1) n else zero_fill m' (s + 1) n)"

definition strncpy :: "memory \<Rightarrow> u64 \<Rightarrow> u64 \<Rightarrow> int \<Rightarrow> memory" where
  "strncpy m s t n = strncpy_loop m s t (nat n)"

text \<open>The loop is entered with \<open>n > 0\<close>; its argument is \<open>n - 1\<close>, the value tested after \<^verbatim>\<open>--n\<close>.\<close>

primrec safestrcpy_loop :: "memory \<Rightarrow> u64 \<Rightarrow> u64 \<Rightarrow> nat \<Rightarrow> memory" where
  "safestrcpy_loop m s t 0 = m(s := 0)"
| "safestrcpy_loop m s t (Suc n) =
     (let m' = m(s := m t) in
      if m t \<noteq> 0 then safestrcpy_loop m' (s + 1) (t + 1) n else m'(s + 1 := 0))"

definition safestrcpy :: "memory \<Rightarrow> u64 \<Rightarrow> u64 \<Rightarrow> int \<Rightarrow> memory" where
  "safestrcpy m s t n = (if n \<le> 0 then m else safestrcpy_loop m s t (nat n - 1))"

partial_function (option) strlen_loop :: "memory \<Rightarrow> u64 \<Rightarrow> nat \<Rightarrow> nat option" where
  "strlen_loop m s n = (if m (s + of_nat n) = 0 then Some n else strlen_loop m s (Suc n))"

definition strlen :: "memory \<Rightarrow> u64 \<Rightarrow> nat option" where
  "strlen m s = strlen_loop m s 0"

text \<open>The bytes of \<open>xs\<close>, which are not NUL, stand at \<open>p\<close> and are followed by a NUL.\<close>

definition cstring :: "memory \<Rightarrow> u64 \<Rightarrow> u8 list \<Rightarrow> bool" where
  "cstring m p xs \<longleftrightarrow> bytes m p (length xs) = xs \<and> 0 \<notin> set xs \<and> m (p + of_nat (length xs)) = 0"

subsection \<open>Regions\<close>

lemma unat_of_nat_lt: "n < 2 ^ 64 \<Longrightarrow> unat (of_nat n :: u64) = n"
  by (rule unat_of_nat_small) simp

lemma unat_sub_Suc:
  fixes x a :: u64
  shows "x \<noteq> a \<Longrightarrow> unat (x - (a + 1)) = unat (x - a) - 1"
  using unat_minus_one [of "x - a"] by (simp add: diff_diff_eq)

lemma unat_sub_self_iff: "unat (x - a :: u64) = 0 \<longleftrightarrow> x = a"
  by (simp add: unat_eq_0)

lemma region_Suc:
  fixes x a :: u64
  assumes "Suc n < 2 ^ 64"
  shows "unat (x - a) < Suc n \<longleftrightarrow> x = a \<or> unat (x - (a + 1)) < n"
proof (cases "x = a")
  case False
  then have "unat (x - a) \<noteq> 0" by (simp add: unat_sub_self_iff)
  with False show ?thesis using unat_sub_Suc [OF False] by auto
qed simp

subsection \<open>memset\<close>

lemma memset_loop_apply:
  "i + k < 2 ^ 64 \<Longrightarrow>
   memset_loop m d c i k x = (if i \<le> unat (x - d) \<and> unat (x - d) < i + k then c else m x)"
proof (induction k arbitrary: i m)
  case 0
  then show ?case by auto
next
  case (Suc k)
  then have i: "unat (of_nat i :: u64) = i" by (intro unat_of_nat_lt) simp
  have "x = d + of_nat i \<longleftrightarrow> x - d = of_nat i" by (auto simp: algebra_simps)
  also have "\<dots> \<longleftrightarrow> unat (x - d) = i" using i by (simp add: word_unat_eq_iff)
  finally have eq: "x = d + of_nat i \<longleftrightarrow> unat (x - d) = i" .
  let ?m = "m(d + of_nat i := c)"
  have "memset_loop ?m d c (Suc i) k x =
      (if Suc i \<le> unat (x - d) \<and> unat (x - d) < Suc i + k then c else ?m x)"
    by (rule Suc.IH) (use Suc.prems in simp)
  with eq show ?case by (auto simp: Suc_le_eq)
qed

text \<open>\<^verbatim>\<open>memset\<close> writes exactly the \<open>n\<close> bytes from \<open>dst\<close> on.\<close>

lemma memset_apply:
  "memset m dst c n x = (if unat (x - dst) < unat n then ucast c else m x)"
  using unat_less_exp [of n] by (simp add: memset_def memset_loop_apply)

lemma memset_page:
  "page_aligned p \<Longrightarrow> memset m p c 4096 x = (if PGROUNDDOWN x = p then ucast c else m x)"
  by (simp add: memset_apply in_page_iff)

subsection \<open>memmove\<close>

lemma copy_forward_apply:
  "n < 2 ^ 64 \<Longrightarrow> d = s \<or> n \<le> unat (d - s) \<Longrightarrow>
   copy_forward m d s n x = (if unat (x - d) < n then m (s + (x - d)) else m x)"
proof (induction n arbitrary: m d s)
  case 0
  then show ?case by simp
next
  case (Suc n)
  let ?m = "m(d := m s)"
  have IH: "copy_forward ?m (d + 1) (s + 1) n x =
      (if unat (x - (d + 1)) < n then ?m (s + (x - d)) else ?m x)"
  proof -
    have "d + 1 = s + 1 \<or> n \<le> unat (d + 1 - (s + 1))"
      using Suc.prems(2) by (simp only: add_diff_cancel_right add_right_cancel) auto
    moreover have "s + 1 + (x - (d + 1)) = s + (x - d)" by simp
    ultimately show ?thesis
      using Suc.IH [of "d + 1" "s + 1" ?m] Suc.prems(1) by (simp del: fun_upd_apply)
  qed
  show ?case
  proof (cases "x = d")
    case True
    with IH Suc.prems show ?thesis by simp
  next
    case False
    have "?m (s + (x - d)) = m (s + (x - d))" if "unat (x - d) < Suc n"
    proof (cases "d = s")
      case False
      have "s + (x - d) \<noteq> d"
      proof
        assume "s + (x - d) = d"
        then have "x - d = d - s" by (simp add: algebra_simps)
        with that Suc.prems(2) False show False by simp
      qed
      then show ?thesis by simp
    qed simp
    with IH False show ?thesis using region_Suc [of n x d] Suc.prems(1) by simp
  qed
qed

lemma copy_backward_apply:
  "n < 2 ^ 64 \<Longrightarrow> s = d \<or> n \<le> unat (s - d) \<Longrightarrow>
   copy_backward m (d + of_nat n) (s + of_nat n) n x =
     (if unat (x - d) < n then m (s + (x - d)) else m x)"
proof (induction n arbitrary: m)
  case 0
  then show ?case by simp
next
  case (Suc n)
  let ?m = "m(d + of_nat n := m (s + of_nat n))"
  have n: "unat (of_nat n :: u64) = n" using Suc.prems by (intro unat_of_nat_lt) simp
  have IH: "copy_backward ?m (d + of_nat n) (s + of_nat n) n x =
      (if unat (x - d) < n then ?m (s + (x - d)) else ?m x)"
    using Suc.prems by (intro Suc.IH) auto
  have eq: "x = d + of_nat n \<longleftrightarrow> unat (x - d) = n"
    using n by (metis add_diff_cancel_left' diff_add_cancel add.commute word_unat_eq_iff)
  have "?m (s + (x - d)) = m (s + (x - d))" if less: "unat (x - d) < n" and "s \<noteq> d"
  proof -
    have "s + (x - d) \<noteq> d + of_nat n"
    proof
      assume "s + (x - d) = d + of_nat n"
      then have "s - d = of_nat n - (x - d)" by (simp add: algebra_simps)
      moreover have "unat (of_nat n - y) = n - unat y" if "unat y < n" for y :: u64
        using that n by (simp add: unat_sub_if')
      ultimately have "unat (s - d) = n - unat (x - d)" using less by (simp only:)
      with Suc.prems(2) \<open>s \<noteq> d\<close> less show False by simp
    qed
    then show ?thesis by simp
  qed
  then have "?m (s + (x - d)) = m (s + (x - d))" if "unat (x - d) < n"
    using that eq by (cases "s = d") auto
  moreover have "copy_backward m (d + of_nat (Suc n)) (s + of_nat (Suc n)) (Suc n) x =
      copy_backward ?m (d + of_nat n) (s + of_nat n) n x"
    by simp
  ultimately show ?case using IH eq by (auto simp: less_Suc_eq)
qed

text \<open>
  \<^verbatim>\<open>memmove\<close> copies as if through an intermediate buffer, whether or not the
  regions overlap, as long as neither wraps around the end of the address space.
\<close>

lemma memmove_apply:
  assumes "unat src + unat n < 2 ^ 64" "unat dst + unat n \<le> 2 ^ 64"
  shows "memmove m dst src n x =
    (if unat (x - dst) < unat n then m (src + (x - dst)) else m x)"
proof -
  have n: "unat (ucast n :: u64) = unat n" by (simp add: unat_ucast_up)
  then have ucast: "ucast n = (of_nat (unat n) :: u64)" by simp
  have lt: "unat n < 2 ^ 64" using unat_less_exp [of n] by simp
  have sn: "unat (src + ucast n) = unat src + unat n"
    using assms(1) n by (simp add: unat_add_small)
  show ?thesis
  proof (cases "src < dst \<and> src + ucast n > dst")
    case True
    then have "unat src < unat dst" "unat dst < unat src + unat n"
      by (simp_all add: word_less_nat_alt sn)
    then have "unat n \<le> unat (src - dst)" using assms by (simp add: unat_sub_if')
    with True lt show ?thesis
      using copy_backward_apply [of "unat n" src dst m x] by (simp add: memmove_def)
  next
    case False
    then have "dst = src \<or> unat n \<le> unat (dst - src)"
      using assms sn by (auto simp: word_less_nat_alt unat_sub_if' not_less word_unat_eq_iff)
    with lt have "copy_forward m dst src (unat n) x =
        (if unat (x - dst) < unat n then m (src + (x - dst)) else m x)"
      by (intro copy_forward_apply)
    with False show ?thesis unfolding memmove_def by (simp only: if_False)
  qed
qed

subsection \<open>memcmp\<close>

lemma memcmp_loop_eq_0: "memcmp_loop m a b n = 0 \<longleftrightarrow> bytes m a n = bytes m b n"
  by (induction n arbitrary: a b) (auto simp: bytes_Suc word_uint_eq_iff)

text \<open>The sign of the result is the lexicographic order of the two byte strings.\<close>

lemma memcmp_loop_less_0:
  "memcmp_loop m a b n < 0 \<longleftrightarrow> ord_class.lexordp (bytes m a n) (bytes m b n)"
proof (induction n arbitrary: a b)
  case 0
  then show ?case by simp
next
  case (Suc n)
  then show ?case by (auto simp: bytes_Suc word_less_def word_uint_eq_iff)
qed

subsection \<open>Strings\<close>

lemma cstring_Nil [simp]: "cstring m p [] \<longleftrightarrow> m p = 0"
  by (simp add: cstring_def)

lemma cstring_Cons [simp]:
  "cstring m p (x # xs) \<longleftrightarrow> m p = x \<and> x \<noteq> 0 \<and> cstring m (p + 1) xs"
  by (auto simp: cstring_def bytes_Suc algebra_simps)

lemma cstring_nth:
  "cstring m p xs \<Longrightarrow> i < length xs \<Longrightarrow> m (p + of_nat i) \<noteq> 0"
  by (metis cstring_def nth_bytes nth_mem)

text \<open>\<^verbatim>\<open>strlen\<close> returns, with the length of the string, wherever there is one.\<close>

lemma strlen_cstring:
  assumes "cstring m p xs"
  shows "strlen m p = Some (length xs)"
proof -
  have "strlen_loop m p k = Some (length xs)" if "k \<le> length xs" for k
    using that
  proof (induction rule: inc_induct)
    case base
    with assms show ?case by (subst strlen_loop.simps) (simp add: cstring_def)
  next
    case (step k)
    with assms show ?case by (subst strlen_loop.simps) (simp add: cstring_nth)
  qed
  then show ?thesis by (simp add: strlen_def)
qed

lemma strncmp_loop_cstring:
  "cstring m p xs \<Longrightarrow> cstring m q ys \<Longrightarrow> strncmp_loop m p q n = 0 \<longleftrightarrow> take n xs = take n ys"
proof (induction n arbitrary: p q xs ys)
  case 0
  then show ?case by simp
next
  case (Suc n)
  then show ?case by (cases xs; cases ys) (auto simp: word_uint_eq_iff)
qed

text \<open>\<^verbatim>\<open>strncmp\<close> compares at most \<open>n\<close> characters of two strings.\<close>

lemma strncmp_cstring:
  assumes "cstring m p xs" "cstring m q ys"
  shows "strncmp m p q n = 0 \<longleftrightarrow> take (unat n) xs = take (unat n) ys"
  using strncmp_loop_cstring [OF assms] by (simp add: strncmp_def)

subsection \<open>Copying strings\<close>

text \<open>The \<open>a\<close> bytes from \<open>s\<close> on and the \<open>b\<close> bytes from \<open>t\<close> on do not meet.\<close>

definition apart :: "u64 \<Rightarrow> nat \<Rightarrow> u64 \<Rightarrow> nat \<Rightarrow> bool" where
  "apart s a t b \<longleftrightarrow> (\<forall>i<a. \<forall>j<b. s + of_nat i \<noteq> t + of_nat j)"

lemma apart_Suc:
  assumes "apart s (Suc a) t (Suc b)"
  shows "apart (s + 1) a (t + 1) b"
  unfolding apart_def
proof (intro allI impI)
  fix i j assume "i < a" "j < b"
  with assms have "s + of_nat (Suc i) \<noteq> t + of_nat (Suc j)" by (auto simp: apart_def)
  then show "s + 1 + of_nat i \<noteq> t + 1 + of_nat j" by (simp add: algebra_simps)
qed

lemma apart_head:
  assumes "apart s (Suc a) t b" "i < b"
  shows "t + of_nat i \<noteq> s"
proof -
  from assms have "s + of_nat 0 \<noteq> t + of_nat i" unfolding apart_def by blast
  then show ?thesis by simp
qed

lemma cstring_upd_other:
  "cstring m p xs \<Longrightarrow> (\<And>i. i \<le> length xs \<Longrightarrow> p + of_nat i \<noteq> a) \<Longrightarrow> cstring (m(a := v)) p xs"
  unfolding cstring_def using bytes_cong [of "length xs" "m(a := v)" p m] by simp

lemma cstring_tail_upd:
  assumes "cstring m t (c # xs)" "apart s (Suc a) t (Suc (length (c # xs)))"
  shows "cstring (m(s := v)) (t + 1) xs"
proof (rule cstring_upd_other)
  show "cstring m (t + 1) xs" using assms(1) by simp
  fix i assume "i \<le> length xs"
  then have "Suc i < Suc (length (c # xs))" by simp
  from apart_head [OF assms(2) this] show "t + 1 + of_nat i \<noteq> s" by (simp add: algebra_simps)
qed

lemma zero_fill_apply:
  "n < 2 ^ 64 \<Longrightarrow> zero_fill m s n x = (if unat (x - s) < n then 0 else m x)"
proof (induction n arbitrary: m s)
  case 0
  then show ?case by simp
next
  case (Suc n)
  have "zero_fill (m(s := 0)) (s + 1) n x =
      (if unat (x - (s + 1)) < n then 0 else (m(s := 0)) x)"
    by (rule Suc.IH) (use Suc.prems in simp)
  with Suc.prems region_Suc [of n x s] show ?case by auto
qed


lemma safestrcpy_loop_frame:
  "k < 2 ^ 32 \<Longrightarrow> k < unat (x - s) \<Longrightarrow> safestrcpy_loop m s t k x = m x"
proof (induction k arbitrary: m s t)
  case 0
  then show ?case by auto
next
  case (Suc k)
  then have "x \<noteq> s" by auto
  with Suc.prems have "k < unat (x - (s + 1))" by (simp add: unat_sub_Suc del: diff_diff_eq)
  moreover from this have "safestrcpy_loop (m(s := m t)) (s + 1) (t + 1) k x = (m(s := m t)) x"
    by (intro Suc.IH) (use Suc.prems in simp)
  ultimately show ?case using \<open>x \<noteq> s\<close> by (auto simp: Let_def)
qed

text \<open>
  \<^verbatim>\<open>safestrcpy\<close> leaves a NUL-terminated string: the source string, cut to fit.
\<close>

lemma safestrcpy_loop_cstring:
  "k < 2 ^ 32 \<Longrightarrow> cstring m t xs \<Longrightarrow> apart s (Suc k) t (Suc (length xs)) \<Longrightarrow>
   cstring (safestrcpy_loop m s t k) s (take k xs)"
proof (induction k arbitrary: m s t xs)
  case 0
  then show ?case by simp
next
  case (Suc k)
  show ?case
  proof (cases xs)
    case Nil
    with Suc.prems show ?thesis by (simp add: Let_def)
  next
    case (Cons c xs')
    let ?m = "m(s := c)"
    have tail: "cstring ?m (t + 1) xs'"
      using Suc.prems(2,3) unfolding Cons by (rule cstring_tail_upd)
    have "cstring (safestrcpy_loop ?m (s + 1) (t + 1) k) (s + 1) (take k xs')"
      by (rule Suc.IH [OF _ tail]) (use Suc.prems in \<open>auto simp: Cons intro: apart_Suc\<close>)
    moreover have "safestrcpy_loop ?m (s + 1) (t + 1) k s = c"
      using safestrcpy_loop_frame [of k s "s + 1" ?m "t + 1"] Suc.prems(1)
      by simp
    moreover have "m t = c" "c \<noteq> 0" using Suc.prems(2) by (simp_all add: Cons)
    ultimately show ?thesis by (simp add: Cons Let_def)
  qed
qed

lemma safestrcpy_cstring:
  assumes "0 < n" "n < 2 ^ 31" "cstring m t xs" "apart s (nat n) t (Suc (length xs))"
  shows "cstring (safestrcpy m s t n) s (take (nat n - 1) xs)"
    and "nat n \<le> unat (x - s) \<Longrightarrow> safestrcpy m s t n x = m x"
  using safestrcpy_loop_cstring [of "nat n - 1" m t xs s]
    safestrcpy_loop_frame [of "nat n - 1" x s m t] assms
  by (auto simp: safestrcpy_def)

end
