(* ===== verification/Spinlock.thy ===== *)
theory Spinlock
  imports Riscv
begin

text \<open>
  Spin locks: \<^verbatim>\<open>kernel/spinlock.c\<close>, with the per-CPU fields of
  \<^verbatim>\<open>struct cpu\<close> it uses. \<open>push_off\<close>, \<open>pop_off\<close> and \<open>holding\<close>
  are the functions of the file. \<^verbatim>\<open>acquire\<close> and \<^verbatim>\<open>release\<close>
  run concurrently on all CPUs, so they are a step relation: one step per access to the shared
  lock, the two reads of \<^verbatim>\<open>holding\<close> included, with a program counter per CPU between
  the steps. The steps are labelled with the event they complete. \<open>noff\<close> is an unbounded
  integer: it counts locks, and the 32 bits of the code are enough for all the locks there are.

  The theorems are about every reachable state of the machine: mutual exclusion, the exactness of
  \<open>holding\<close> in spite of the unsynchronised read of the lock, the meaning of the nesting
  counter, and that interrupts stay off while a lock is held.

  The last part is the view that one kernel thread has of the locks, the set of locks it holds.
  The components that take locks around sequential code use this view; the simulation lemma says
  that the machine implements it.
\<close>

subsection \<open>Locks and CPUs\<close>

datatype lock =
    KmemLock | PidLock | ProcLock nat | TicksLock | LogLock | BcacheLock | IcacheLock
  | FtableLock | PipeLock u64 | ConsLock | UartLock | PrLock | DiskLock | SleepLk nat

record spinlock =
  locked :: u32
  lname :: string
  lcpu :: "nat option"

record cpu =
  cproc :: "nat option"
  noff :: int
  intena :: bool

record smp =
  locks :: "lock \<Rightarrow> spinlock"
  cpus :: "nat \<Rightarrow> cpu"
  harts :: "nat \<Rightarrow> hart"

definition initlock :: "'a smp_scheme \<Rightarrow> lock \<Rightarrow> string \<Rightarrow> 'a smp_scheme" where
  "initlock s lk name = s\<lparr>locks := (locks s)(lk := \<lparr>locked = 0, lname = name, lcpu = None\<rparr>)\<rparr>"

definition holding :: "'a smp_scheme \<Rightarrow> nat \<Rightarrow> lock \<Rightarrow> bool" where
  "holding s c lk \<longleftrightarrow> locked (locks s lk) \<noteq> 0 \<and> lcpu (locks s lk) = Some c"

definition push_off :: "'a smp_scheme \<Rightarrow> nat \<Rightarrow> 'a smp_scheme" where
  "push_off s c =
     (let old = intr_get (harts s c);
          s1 = s\<lparr>harts := (harts s)(c := intr_off (harts s c))\<rparr>;
          s2 = (if noff (cpus s1 c) = 0
                then s1\<lparr>cpus := (cpus s1)(c := (cpus s1 c)\<lparr>intena := old\<rparr>)\<rparr> else s1)
      in s2\<lparr>cpus := (cpus s2)(c := (cpus s2 c)\<lparr>noff := noff (cpus s2 c) + 1\<rparr>)\<rparr>)"

definition pop_off :: "'a smp_scheme \<Rightarrow> nat \<Rightarrow> 'a smp_scheme res" where
  "pop_off s c =
     (if intr_get (harts s c) then Inl (Panic ''pop_off - interruptible'')
      else if noff (cpus s c) < 1 then Inl (Panic ''pop_off'')
      else let s1 = s\<lparr>cpus := (cpus s)(c := (cpus s c)\<lparr>noff := noff (cpus s c) - 1\<rparr>)\<rparr>
           in Inr (if noff (cpus s1 c) = 0 \<and> intena (cpus s1 c)
                   then s1\<lparr>harts := (harts s1)(c := intr_on (harts s1 c))\<rparr> else s1))"

subsection \<open>The machine\<close>

text \<open>
  Where a CPU is: outside the lock routines; in \<^verbatim>\<open>acquire\<close> or
  \<^verbatim>\<open>release\<close>, at the first or the second read of the expression
  \<^verbatim>\<open>lk->locked && lk->cpu == mycpu()\<close> of \<^verbatim>\<open>holding\<close>; in the spin loop
  of \<^verbatim>\<open>acquire\<close> for a lock, between the successful swap and the assignment of \<^verbatim>\<open>lk->cpu\<close>, in
  \<^verbatim>\<open>release\<close> between the clearing of \<^verbatim>\<open>lk->cpu\<close> and of
  \<^verbatim>\<open>lk->locked\<close>, before the final \<^verbatim>\<open>pop_off\<close>, or stopped
  by a panic.
\<close>

datatype pc = Run | AcqRead lock | AcqReadCpu lock | RelRead lock | RelReadCpu lock
  | Spin lock | SetCpu lock | Unlock lock | PopOff | Stopped string

datatype event = Tau | Acquired lock | Releasing lock

record machine = smp +
  pcs :: "nat \<Rightarrow> pc"

definition set_lock :: "machine \<Rightarrow> lock \<Rightarrow> (spinlock \<Rightarrow> spinlock) \<Rightarrow> machine" where
  "set_lock s lk f = s\<lparr>locks := (locks s)(lk := f (locks s lk))\<rparr>"

definition goto :: "nat \<Rightarrow> pc \<Rightarrow> machine \<Rightarrow> machine" where
  "goto c p s = s\<lparr>pcs := (pcs s)(c := p)\<rparr>"

inductive spin_step :: "machine \<Rightarrow> nat \<Rightarrow> event \<Rightarrow> machine \<Rightarrow> bool" where
  acquire_start:
    "pcs s c = Run \<Longrightarrow> spin_step s c Tau (goto c (AcqRead lk) (push_off s c))"
| acquire_free:
    "pcs s c = AcqRead lk \<Longrightarrow> locked (locks s lk) = 0 \<Longrightarrow> spin_step s c Tau (goto c (Spin lk) s)"
| acquire_locked:
    "pcs s c = AcqRead lk \<Longrightarrow> locked (locks s lk) \<noteq> 0 \<Longrightarrow> spin_step s c Tau (goto c (AcqReadCpu lk) s)"
| acquire_other:
    "pcs s c = AcqReadCpu lk \<Longrightarrow> lcpu (locks s lk) \<noteq> Some c \<Longrightarrow> spin_step s c Tau (goto c (Spin lk) s)"
| acquire_panic:
    "pcs s c = AcqReadCpu lk \<Longrightarrow> lcpu (locks s lk) = Some c \<Longrightarrow>
     spin_step s c Tau (goto c (Stopped ''acquire'') s)"
| spin:
    "pcs s c = Spin lk \<Longrightarrow> locked (locks s lk) \<noteq> 0 \<Longrightarrow>
     spin_step s c Tau (set_lock s lk (\<lambda>l. l\<lparr>locked := 1\<rparr>))"
| swap:
    "pcs s c = Spin lk \<Longrightarrow> locked (locks s lk) = 0 \<Longrightarrow>
     spin_step s c Tau (goto c (SetCpu lk) (set_lock s lk (\<lambda>l. l\<lparr>locked := 1\<rparr>)))"
| set_cpu:
    "pcs s c = SetCpu lk \<Longrightarrow>
     spin_step s c (Acquired lk) (goto c Run (set_lock s lk (\<lambda>l. l\<lparr>lcpu := Some c\<rparr>)))"
| release_start:
    "pcs s c = Run \<Longrightarrow> spin_step s c Tau (goto c (RelRead lk) s)"
| release_free:
    "pcs s c = RelRead lk \<Longrightarrow> locked (locks s lk) = 0 \<Longrightarrow> spin_step s c Tau (goto c (Stopped ''release'') s)"
| release_locked:
    "pcs s c = RelRead lk \<Longrightarrow> locked (locks s lk) \<noteq> 0 \<Longrightarrow> spin_step s c Tau (goto c (RelReadCpu lk) s)"
| release_panic:
    "pcs s c = RelReadCpu lk \<Longrightarrow> lcpu (locks s lk) \<noteq> Some c \<Longrightarrow>
     spin_step s c Tau (goto c (Stopped ''release'') s)"
| clear_cpu:
    "pcs s c = RelReadCpu lk \<Longrightarrow> lcpu (locks s lk) = Some c \<Longrightarrow>
     spin_step s c (Releasing lk) (goto c (Unlock lk) (set_lock s lk (\<lambda>l. l\<lparr>lcpu := None\<rparr>)))"
| unlock:
    "pcs s c = Unlock lk \<Longrightarrow>
     spin_step s c Tau (goto c PopOff (set_lock s lk (\<lambda>l. l\<lparr>locked := 0\<rparr>)))"
| pop:
    "pcs s c = PopOff \<Longrightarrow> pop_off s c = Inr s1 \<Longrightarrow> spin_step s c Tau (goto c Run s1)"
| pop_panic:
    "pcs s c = PopOff \<Longrightarrow> pop_off s c = Inl (Panic msg) \<Longrightarrow>
     spin_step s c Tau (goto c (Stopped msg) s)"
| interrupts_on:
    "pcs s c = Run \<Longrightarrow> noff (cpus s c) = 0 \<Longrightarrow>
     spin_step s c Tau (s\<lparr>harts := (harts s)(c := intr_on (harts s c))\<rparr>)"
| interrupts_off:
    "pcs s c = Run \<Longrightarrow> noff (cpus s c) = 0 \<Longrightarrow>
     spin_step s c Tau (s\<lparr>harts := (harts s)(c := intr_off (harts s c))\<rparr>)"

text \<open>At boot every lock is initialised and free, and no CPU has interrupts disabled by nesting.\<close>

definition booted :: "machine \<Rightarrow> bool" where
  "booted s \<longleftrightarrow> (\<forall>lk. locked (locks s lk) = 0 \<and> lcpu (locks s lk) = None) \<and>
     (\<forall>c. noff (cpus s c) = 0 \<and> pcs s c = Run)"

text \<open>
  Reachable states, together with the locks each CPU has acquired and not yet begun to release: the
  history of the events, not a field the code reads.
\<close>

fun crit_after :: "(nat \<Rightarrow> lock list) \<Rightarrow> nat \<Rightarrow> event \<Rightarrow> nat \<Rightarrow> lock list" where
  "crit_after h c Tau = h"
| "crit_after h c (Acquired lk) = h(c := lk # h c)"
| "crit_after h c (Releasing lk) = h(c := remove1 lk (h c))"

inductive reach :: "machine \<Rightarrow> (nat \<Rightarrow> lock list) \<Rightarrow> bool" where
  boot: "booted s \<Longrightarrow> reach s (\<lambda>_. [])"
| step: "reach s h \<Longrightarrow> spin_step s c e t \<Longrightarrow> reach t (crit_after h c e)"

subsection \<open>The invariant\<close>

text \<open>A CPU owns a lock from the successful swap to the clearing of the lock word.\<close>

definition owns :: "machine \<Rightarrow> (nat \<Rightarrow> lock list) \<Rightarrow> nat \<Rightarrow> lock \<Rightarrow> bool" where
  "owns s h c lk \<longleftrightarrow> lk \<in> set (h c) \<or> pcs s c = SetCpu lk \<or> pcs s c = Unlock lk"

text \<open>
  The acquire or release in progress that counts in \<open>noff\<close>; a CPU that stopped in
  \<^verbatim>\<open>acquire\<close> stays inside it.
\<close>

fun pending :: "pc \<Rightarrow> int" where
  "pending Run = 0"
| "pending (AcqRead lk) = 1"
| "pending (AcqReadCpu lk) = 1"
| "pending (RelRead lk) = 0"
| "pending (RelReadCpu lk) = 0"
| "pending (Spin lk) = 1"
| "pending (SetCpu lk) = 1"
| "pending (Unlock lk) = 1"
| "pending PopOff = 1"
| "pending (Stopped msg) = (if msg = ''acquire'' then 1 else 0)"

definition own_inv :: "machine \<Rightarrow> (nat \<Rightarrow> lock list) \<Rightarrow> bool" where
  "own_inv s h \<longleftrightarrow> (\<exists>own. \<forall>lk.
     (locked (locks s lk) \<noteq> 0 \<longleftrightarrow> own lk \<noteq> None) \<and>
     (\<forall>c. owns s h c lk \<longleftrightarrow> own lk = Some c))"

definition held_inv :: "machine \<Rightarrow> (nat \<Rightarrow> lock list) \<Rightarrow> bool" where
  "held_inv s h \<longleftrightarrow>
     (\<forall>c lk. lcpu (locks s lk) = Some c \<longleftrightarrow> lk \<in> set (h c)) \<and>
     (\<forall>c. distinct (h c)) \<and>
     (\<forall>c lk. pcs s c = SetCpu lk \<or> pcs s c = Unlock lk \<longrightarrow> lcpu (locks s lk) = None)"

definition noff_inv :: "machine \<Rightarrow> (nat \<Rightarrow> lock list) \<Rightarrow> bool" where
  "noff_inv s h \<longleftrightarrow> (\<forall>c. noff (cpus s c) = int (length (h c)) + pending (pcs s c) \<and>
     (0 < noff (cpus s c) \<longrightarrow> \<not> intr_get (harts s c)))"

definition lock_inv :: "machine \<Rightarrow> (nat \<Rightarrow> lock list) \<Rightarrow> bool" where
  "lock_inv s h \<longleftrightarrow> own_inv s h \<and> held_inv s h \<and> noff_inv s h"

subsection \<open>Nesting of interrupt disabling\<close>

lemma push_off_simps [simp]:
  "locks (push_off s c) = locks s"
  "noff (cpus (push_off s c) d) = noff (cpus s d) + (if d = c then 1 else 0)"
  "intr_get (harts (push_off s c) d) \<longleftrightarrow> d \<noteq> c \<and> intr_get (harts s d)"
  "smp.more (push_off s c) = smp.more s"
  by (auto simp: push_off_def Let_def)

lemma pop_off_simps:
  assumes "pop_off s c = Inr s'"
  shows "locks s' = locks s"
    and "noff (cpus s' d) = noff (cpus s d) - (if d = c then 1 else 0)"
    and "0 < noff (cpus s' d) \<Longrightarrow> intr_get (harts s' d) \<Longrightarrow> intr_get (harts s d)"
    and "smp.more s' = smp.more s"
  using assms by (auto simp: pop_off_def Let_def split: if_splits)

lemma pop_off_total:
  "0 < noff (cpus s c) \<Longrightarrow> \<not> intr_get (harts s c) \<Longrightarrow> \<exists>s'. pop_off s c = Inr s'"
  by (simp add: pop_off_def Let_def)

lemma holding_push_off [simp]: "holding (push_off s c) d lk = holding s d lk"
  by (simp add: holding_def)

text \<open>
  The pair restores the interrupt state: after \<open>push_off\<close> and \<open>pop_off\<close> interrupts are
  enabled iff they were, and the nesting depth is the same.
\<close>

lemma push_pop_off:
  assumes "0 \<le> noff (cpus s c)" "0 < noff (cpus s c) \<longrightarrow> \<not> intr_get (harts s c)"
  obtains s' where "pop_off (push_off s c) c = Inr s'" "harts s' = harts s"
    "noff (cpus s' c) = noff (cpus s c)" "locks s' = locks s"
proof -
  from assms(1) obtain s' where s': "pop_off (push_off s c) c = Inr s'"
    using pop_off_total [of "push_off s c" c] by auto
  have "harts s' = harts s"
    using s' assms
    by (auto simp: push_off_def pop_off_def Let_def fun_eq_iff intr_on_off intr_off_id
        split: if_splits)
  with pop_off_simps [OF s'] show thesis by (intro that [OF s']) auto
qed

subsection \<open>Preservation of the invariant\<close>

lemmas machine_defs = goto_def set_lock_def holding_def

lemma pcs_push_off [simp]: "pcs (push_off s c) = pcs s"
  by (simp add: push_off_def Let_def)

lemma pcs_pop_off: "pop_off s c = Inr s' \<Longrightarrow> pcs s' = pcs s"
  by (auto simp: pop_off_def Let_def split: if_splits)

lemma lock_inv_boot: "booted s \<Longrightarrow> lock_inv s (\<lambda>_. [])"
  by (auto simp: booted_def lock_inv_def own_inv_def held_inv_def noff_inv_def owns_def)

lemma own_unique: "own_inv s h \<Longrightarrow> owns s h c lk \<Longrightarrow> owns s h d lk \<Longrightarrow> c = d"
  unfolding own_inv_def by fastforce

lemma own_locked: "own_inv s h \<Longrightarrow> owns s h c lk \<Longrightarrow> locked (locks s lk) \<noteq> 0"
  unfolding own_inv_def by fastforce

lemma own_inv_keep:
  assumes "own_inv s h"
    and "\<And>lk. locked (locks t lk) \<noteq> 0 \<longleftrightarrow> locked (locks s lk) \<noteq> 0"
    and "\<And>c lk. owns t h' c lk \<longleftrightarrow> owns s h c lk"
  shows "own_inv t h'"
  using assms unfolding own_inv_def by simp

lemma own_inv_change:
  assumes "own_inv s h"
    and "\<And>l. locked (locks t l) \<noteq> 0 \<longleftrightarrow> (if l = lk then new \<noteq> None else locked (locks s l) \<noteq> 0)"
    and "\<And>d l. owns t h' d l \<longleftrightarrow> (if l = lk then new = Some d else owns s h d l)"
  shows "own_inv t h'"
proof -
  from assms(1) obtain own where "\<And>l. locked (locks s l) \<noteq> 0 \<longleftrightarrow> own l \<noteq> None"
    "\<And>l d. owns s h d l \<longleftrightarrow> own l = Some d"
    unfolding own_inv_def by blast
  with assms(2,3) show ?thesis
    unfolding own_inv_def by (intro exI [of _ "own(lk := new)"]) simp
qed

lemma own_inv_swap:
  assumes "own_inv s h" "pcs s c = Spin lk" "locked (locks s lk) = 0"
  shows "own_inv (goto c (SetCpu lk) (set_lock s lk (\<lambda>l. l\<lparr>locked := 1\<rparr>))) h"
proof (rule own_inv_change [OF assms(1), where lk = lk and new = "Some c"])
  fix d l
  have "\<not> owns s h d lk" using own_locked [OF assms(1), of d lk] assms(3) by auto
  then show "owns (goto c (SetCpu lk) (set_lock s lk (\<lambda>l. l\<lparr>locked := 1\<rparr>))) h d l =
      (if l = lk then Some c = Some d else owns s h d l)"
    using assms(2) by (auto simp: owns_def machine_defs)
qed (simp add: machine_defs)

lemma own_inv_unlock:
  assumes "own_inv s h" "held_inv s h" "pcs s c = Unlock lk"
  shows "own_inv (goto c PopOff (set_lock s lk (\<lambda>l. l\<lparr>locked := 0\<rparr>))) h"
proof (rule own_inv_change [OF assms(1), where lk = lk and new = None])
  fix d l
  have "lk \<notin> set (h c)" using assms(2,3) unfolding held_inv_def by force
  moreover have "owns s h d lk \<Longrightarrow> d = c"
    using own_unique [OF assms(1), of d lk c] assms(3) by (simp add: owns_def)
  then have "d \<noteq> c \<Longrightarrow> \<not> owns s h d lk" by blast
  ultimately show "owns (goto c PopOff (set_lock s lk (\<lambda>l. l\<lparr>locked := 0\<rparr>))) h d l =
      (if l = lk then None = Some d else owns s h d l)"
    using assms(3) unfolding owns_def machine_defs by (cases "d = c") auto
qed (simp add: machine_defs)

lemma own_inv_step:
  assumes "spin_step s c e t" "own_inv s h" "held_inv s h"
  shows "own_inv t (crit_after h c e)"
  using assms
proof (induction rule: spin_step.induct)
  case (swap s c lk)
  then show ?case by (simp add: own_inv_swap)
next
  case (unlock s c lk)
  then show ?case by (simp add: own_inv_unlock)
next
  case (set_cpu s c lk)
  then show ?case
    by (intro own_inv_keep [OF set_cpu.prems(1)]) (auto simp: owns_def machine_defs)
next
  case (clear_cpu s c lk)
  then have "distinct (h c)" "lk \<in> set (h c)" by (auto simp: held_inv_def machine_defs)
  with clear_cpu show ?case
    by (intro own_inv_keep [OF clear_cpu.prems(1)]) (auto simp: owns_def machine_defs)
next
  case (pop s c s1)
  note off = pop_off_simps [OF pop.hyps(2)] pcs_pop_off [OF pop.hyps(2)]
  with pop show ?case
    by (intro own_inv_keep [OF pop.prems(1)]) (auto simp: owns_def machine_defs)
next
  case (acquire_start s c lk)
  then show ?case by (intro own_inv_keep [OF acquire_start.prems(1)]) (auto simp: owns_def machine_defs)
next
  case (acquire_free s c lk)
  then show ?case by (intro own_inv_keep [OF acquire_free.prems(1)]) (auto simp: owns_def machine_defs)
next
  case (acquire_locked s c lk)
  then show ?case by (intro own_inv_keep [OF acquire_locked.prems(1)]) (auto simp: owns_def machine_defs)
next
  case (acquire_other s c lk)
  then show ?case by (intro own_inv_keep [OF acquire_other.prems(1)]) (auto simp: owns_def machine_defs)
next
  case (acquire_panic s c lk)
  then show ?case by (intro own_inv_keep [OF acquire_panic.prems(1)]) (auto simp: owns_def machine_defs)
next
  case (spin s c lk)
  then show ?case by (intro own_inv_keep [OF spin.prems(1)]) (auto simp: owns_def machine_defs)
next
  case (release_start s c lk)
  then show ?case by (intro own_inv_keep [OF release_start.prems(1)]) (auto simp: owns_def machine_defs)
next
  case (release_free s c lk)
  then show ?case by (intro own_inv_keep [OF release_free.prems(1)]) (auto simp: owns_def machine_defs)
next
  case (release_locked s c lk)
  then show ?case by (intro own_inv_keep [OF release_locked.prems(1)]) (auto simp: owns_def machine_defs)
next
  case (release_panic s c lk)
  then show ?case by (intro own_inv_keep [OF release_panic.prems(1)]) (auto simp: owns_def machine_defs)
next
  case (pop_panic s c msg)
  then show ?case by (intro own_inv_keep [OF pop_panic.prems(1)]) (auto simp: owns_def machine_defs)
next
  case (interrupts_on s c)
  then show ?case by (intro own_inv_keep [OF interrupts_on.prems(1)]) (auto simp: owns_def machine_defs)
next
  case (interrupts_off s c)
  then show ?case by (intro own_inv_keep [OF interrupts_off.prems(1)]) (auto simp: owns_def machine_defs)
qed

lemma held_inv_step:
  assumes "spin_step s c e t" "own_inv s h" "held_inv s h"
  shows "held_inv t (crit_after h c e)"
  using assms
proof (induction rule: spin_step.induct)
  case (set_cpu s c lk)
  have "owns s h c lk" using set_cpu by (simp add: owns_def)
  then have only: "pcs s d = SetCpu lk \<or> pcs s d = Unlock lk \<Longrightarrow> d = c" for d
    using own_unique [OF set_cpu.prems(1), of d lk c] by (auto simp: owns_def)
  have "lcpu (locks s lk) = None" using set_cpu by (auto simp: held_inv_def)
  then have "lk \<notin> set (h d)" for d
    using set_cpu.prems(2) unfolding held_inv_def by (metis option.distinct(1))
  with set_cpu only show ?case by (auto simp: held_inv_def machine_defs)
next
  case (swap s c lk)
  have "lk \<notin> set (h d)" for d
    using own_locked [OF swap.prems(1), of d lk] swap.hyps by (auto simp: owns_def)
  moreover from this have "lcpu (locks s lk) = None"
    using swap.prems(2) unfolding held_inv_def by (metis option.exhaust)
  ultimately show ?case using swap by (auto simp: held_inv_def machine_defs)
next
  case (unlock s c lk)
  then have none: "lcpu (locks s lk) = None" by (auto simp: held_inv_def)
  then have "lk \<notin> set (h d)" for d
    using unlock.prems(2) unfolding held_inv_def by (metis option.distinct(1))
  with unlock none show ?case by (auto simp: held_inv_def machine_defs)
next
  case (clear_cpu s c lk)
  then have "lk \<in> set (h d) \<longleftrightarrow> d = c" for d
    unfolding held_inv_def machine_defs by (metis option.inject)
  with clear_cpu show ?case by (auto simp: held_inv_def machine_defs)
next
  case (pop s c s1)
  note off = pop_off_simps [OF pop.hyps(2)] pcs_pop_off [OF pop.hyps(2)]
  with pop show ?case by (auto simp: held_inv_def machine_defs)
qed (auto simp: held_inv_def machine_defs split: if_splits)

lemma noff_inv_step:
  assumes "spin_step s c e t" "held_inv s h" "noff_inv s h"
  shows "noff_inv t (crit_after h c e)"
  using assms
proof (induction rule: spin_step.induct)
  case (clear_cpu s c lk)
  then have "lk \<in> set (h c)" by (auto simp: held_inv_def machine_defs)
  then have "length (remove1 lk (h c)) = length (h c) - 1" "0 < length (h c)"
    by (auto simp: length_remove1 length_pos_if_in_set)
  then have "int (length (h c)) = int (length (remove1 lk (h c))) + 1" by linarith
  with clear_cpu show ?case by (auto simp: noff_inv_def machine_defs)
next
  case (pop s c s1)
  note off = pop_off_simps [OF pop.hyps(2)] pcs_pop_off [OF pop.hyps(2)]
  have c: "noff (cpus s c) = int (length (h c)) + 1" "\<not> intr_get (harts s c)"
    using pop by (auto simp: noff_inv_def)
  have "noff (cpus s1 d) = int (length (h d)) + pending (pcs (goto c Run s1) d) \<and>
      (0 < noff (cpus s1 d) \<longrightarrow> \<not> intr_get (harts s1 d))" for d
    using pop.prems(2) c off(2,3) [of d] off(5) by (cases "d = c") (auto simp: noff_inv_def machine_defs)
  then show ?case by (simp add: noff_inv_def) (simp add: machine_defs)
next
  case (pop_panic s c msg)
  then have "noff (cpus s c) = int (length (h c)) + 1" "\<not> intr_get (harts s c)" by (auto simp: noff_inv_def)
  with pop_off_total [of s c] pop_panic show ?case by auto
qed (auto simp: noff_inv_def machine_defs split: if_splits)

lemma lock_inv_step:
  "spin_step s c e t \<Longrightarrow> lock_inv s h \<Longrightarrow> lock_inv t (crit_after h c e)"
  by (simp add: lock_inv_def own_inv_step held_inv_step noff_inv_step)

lemma reach_lock_inv: "reach s h \<Longrightarrow> lock_inv s h"
  by (induction rule: reach.induct) (simp_all add: lock_inv_boot lock_inv_step)

lemma reach_stopped:
  "reach s h \<Longrightarrow> pcs s c = Stopped msg \<Longrightarrow> msg = ''acquire'' \<or> msg = ''release''"
proof (induction arbitrary: c msg rule: reach.induct)
  case (boot s)
  then show ?case by (simp add: booted_def)
next
  case (step s h d e t)
  from reach_lock_inv [OF step.hyps(1)] have inv: "noff_inv s h" by (simp add: lock_inv_def)
  from step.hyps(2) show ?case
  proof cases
    case (pop_panic m)
    then have "0 < noff (cpus s d)" "\<not> intr_get (harts s d)"
      using inv by (auto simp: noff_inv_def)
    then show ?thesis using pop_off_total [of s d] pop_panic by auto
  next
    case (pop s1)
    then show ?thesis
      using step.IH step.prems pcs_pop_off [of s d s1] by (auto simp: machine_defs split: if_splits)
  qed (use step.IH step.prems in \<open>auto simp: machine_defs split: if_splits\<close>)
qed

subsection \<open>The view of one kernel thread\<close>

text \<open>
  Sequential kernel code sees the set of locks it holds. The components import this record and
  extend it with their own state; \<open>kacquire\<close> and \<open>krelease\<close> are what
  \<^verbatim>\<open>acquire\<close> and \<^verbatim>\<open>release\<close> do to it, their checks
  included.
\<close>

record kview =
  held :: "lock set"

definition kacquire :: "lock \<Rightarrow> 'a kview_scheme \<Rightarrow> 'a kview_scheme res" where
  "kacquire lk s = (if lk \<in> held s then Inl (Panic ''acquire'')
     else Inr (s\<lparr>held := insert lk (held s)\<rparr>))"

definition krelease :: "lock \<Rightarrow> 'a kview_scheme \<Rightarrow> 'a kview_scheme res" where
  "krelease lk s = (if lk \<notin> held s then Inl (Panic ''release'')
     else Inr (s\<lparr>held := held s - {lk}\<rparr>))"

definition kinitlock :: "lock \<Rightarrow> 'a kview_scheme \<Rightarrow> 'a kview_scheme" where
  "kinitlock lk s = s\<lparr>held := held s - {lk}\<rparr>"

definition view_of :: "machine \<Rightarrow> nat \<Rightarrow> kview" where
  "view_of s c = \<lparr>held = {lk. holding s c lk}\<rparr>"

lemma kacquire_simps [simp]:
  "lk \<notin> held s \<Longrightarrow> kacquire lk s = Inr (s\<lparr>held := insert lk (held s)\<rparr>)"
  "lk \<in> held s \<Longrightarrow> kacquire lk s = Inl (Panic ''acquire'')"
  by (simp_all add: kacquire_def)

lemma krelease_simps [simp]:
  "lk \<in> held s \<Longrightarrow> krelease lk s = Inr (s\<lparr>held := held s - {lk}\<rparr>)"
  "lk \<notin> held s \<Longrightarrow> krelease lk s = Inl (Panic ''release'')"
  by (simp_all add: krelease_def)

subsection \<open>A run of two CPUs\<close>

text \<open>
  CPU 0 acquires the allocator's lock while CPU 1 spins for it: the state the examples below look at.
\<close>

definition boot_machine :: machine where
  "boot_machine = \<lparr>locks = (\<lambda>_. \<lparr>locked = 0, lname = ''lock'', lcpu = None\<rparr>),
     cpus = (\<lambda>_. \<lparr>cproc = None, noff = 0, intena = False\<rparr>),
     harts = (\<lambda>_. \<lparr>mhartid = 0, mstatus = 0, mepc = 0, sstatus = 2, sip = 0, sie = 0, mie = 0,
       sepc = 0, medeleg = 0, mideleg = 0, stvec = 0, mtvec = 0, satp = 0, mscratch = 0,
       scause = 0, stval = 0, tp = 0\<rparr>),
     pcs = (\<lambda>_. Run)\<rparr>"

definition race_machine :: machine where
  "race_machine =
     (let s1 = goto 0 (Spin KmemLock) (push_off boot_machine 0);
          s2 = goto 1 (Spin KmemLock) (push_off s1 1);
          s3 = goto 0 (SetCpu KmemLock) (set_lock s2 KmemLock (\<lambda>l. l\<lparr>locked := 1\<rparr>))
      in goto 0 Run (set_lock s3 KmemLock (\<lambda>l. l\<lparr>lcpu := Some 0\<rparr>)))"

definition race_crit :: "nat \<Rightarrow> lock list" where
  "race_crit = crit_after (crit_after (crit_after (crit_after (\<lambda>_. []) 0 Tau) 1 Tau) 0 Tau) 0
     (Acquired KmemLock)"

lemma goto_goto [simp]: "goto c p (goto c q s) = goto c p s"
  by (simp add: goto_def)

lemma reach_spin:
  assumes "reach s h" "pcs s c = Run" "locked (locks s lk) = 0"
  shows "reach (goto c (Spin lk) (push_off s c)) h"
proof -
  let ?s = "goto c (AcqRead lk) (push_off s c)"
  from reach.step [OF assms(1) acquire_start [OF assms(2)]] have r: "reach ?s h" by simp
  have "spin_step ?s c Tau (goto c (Spin lk) ?s)" by (rule acquire_free) (use assms(3) in \<open>simp_all add: goto_def\<close>)
  from reach.step [OF r this] show ?thesis by simp
qed

lemma race_reach: "reach race_machine race_crit"
  unfolding race_machine_def race_crit_def Let_def
proof (rule reach.step [OF reach.step])
  let ?s1 = "goto 0 (Spin KmemLock) (push_off boot_machine 0)"
  let ?s2 = "goto 1 (Spin KmemLock) (push_off ?s1 1)"
  have "reach boot_machine (\<lambda>_. [])" by (rule reach.boot) (simp add: booted_def boot_machine_def)
  then have "reach ?s1 (\<lambda>_. [])" by (rule reach_spin) (simp_all add: boot_machine_def)
  then have "reach ?s2 (\<lambda>_. [])" by (rule reach_spin) (simp_all add: boot_machine_def goto_def)
  then show "reach ?s2 (crit_after (crit_after (\<lambda>_. []) 0 Tau) 1 Tau)" by simp
  show "spin_step ?s2 0 Tau (goto 0 (SetCpu KmemLock) (set_lock ?s2 KmemLock (\<lambda>l. l\<lparr>locked := 1\<rparr>)))"
    by (rule swap) (auto simp: boot_machine_def machine_defs)
qed (rule set_cpu, simp add: machine_defs)

lemma race_facts:
  "race_crit 0 = [KmemLock]" "race_crit 1 = []" "pcs race_machine 0 = Run" "pcs race_machine 1 = Spin KmemLock"
  "locked (locks race_machine KmemLock) = 1"
  by (simp_all add: race_crit_def race_machine_def Let_def machine_defs)

text \<open>CPU 0 then releases the lock and has done the two reads of \<^verbatim>\<open>holding\<close>.\<close>

definition release_machine :: machine where
  "release_machine = goto 0 (RelReadCpu KmemLock) race_machine"

lemma release_reach: "reach release_machine race_crit"
proof -
  let ?s = "goto 0 (RelRead KmemLock) race_machine"
  from reach.step [OF race_reach release_start] have r: "reach ?s race_crit" by (simp add: race_facts)
  have "spin_step ?s 0 Tau (goto 0 (RelReadCpu KmemLock) ?s)"
    by (rule release_locked) (simp_all add: goto_def race_facts)
  from reach.step [OF r this] show ?thesis by (simp add: release_machine_def)
qed

text \<open>
  The two reads of \<^verbatim>\<open>holding\<close> are not atomic. They answer as one read of the whole lock
  does, because only the CPU itself stores or clears its own name in the lock.
\<close>

lemma holding_two_reads:
  assumes "reach s h" "pcs s c = AcqReadCpu lk \<or> pcs s c = RelReadCpu lk"
  shows "lcpu (locks s lk) = Some c \<longleftrightarrow> holding s c lk"
proof -
  from reach_lock_inv [OF assms(1)] have inv: "own_inv s h" "held_inv s h" by (simp_all add: lock_inv_def)
  have "locked (locks s lk) \<noteq> 0" if "lcpu (locks s lk) = Some c"
    using own_locked [OF inv(1), of c lk] inv(2) that by (simp add: owns_def held_inv_def)
  then show ?thesis by (auto simp: holding_def)
qed

subsection \<open>Properties\<close>

text \<open>
  C5. Mutual exclusion: in every reachable state, a lock that a CPU has acquired and not begun to
  release is held by no other CPU, and \<open>holding\<close>, which reads the lock without synchronisation,
  answers for every CPU exactly whether that CPU is the one.
\<close>

theorem spin_mutual_exclusion:
  assumes "reach s h" "lk \<in> set (h c)"
  shows "\<forall>d. (lk \<in> set (h d) \<longleftrightarrow> d = c) \<and> (holding s d lk \<longleftrightarrow> d = c)"
proof -
  from reach_lock_inv [OF assms(1)] have inv: "own_inv s h" "held_inv s h"
    by (simp_all add: lock_inv_def)
  have "locked (locks s lk) \<noteq> 0" using own_locked [OF inv(1), of c lk] assms(2) by (simp add: owns_def)
  moreover have "lcpu (locks s lk) = Some c" using inv(2) assms(2) by (simp add: held_inv_def)
  moreover have "lk \<in> set (h d) \<longleftrightarrow> lcpu (locks s lk) = Some d" for d
    using inv(2) by (simp add: held_inv_def)
  ultimately show ?thesis by (auto simp: holding_def)
qed

theorem spin_mutual_exclusion_witness:
  "\<forall>d. (KmemLock \<in> set (race_crit d) \<longleftrightarrow> d = 0) \<and> (holding race_machine d KmemLock \<longleftrightarrow> d = 0)"
  by (rule spin_mutual_exclusion [OF race_reach]) (simp add: race_facts)

text \<open>
  C6. The nesting counter: in every reachable state and on every CPU, stopped or not, \<open>noff\<close> is
  the number of the locks that the CPU has acquired plus the acquire or release in progress, and
  interrupts are off whenever it is positive: from the start of an acquire, before the lock is taken,
  to the end of the last release. A CPU stops only by acquiring a lock it holds or releasing one it does
  not hold, never in \<open>pop_off\<close>.
\<close>

theorem spin_nesting:
  assumes "reach s h"
  shows "noff (cpus s c) = int (length (h c)) + pending (pcs s c) \<and>
    (0 < noff (cpus s c) \<longrightarrow> \<not> intr_get (harts s c)) \<and>
    (\<forall>msg. pcs s c = Stopped msg \<longrightarrow> msg = ''acquire'' \<or> msg = ''release'')"
proof -
  from reach_lock_inv [OF assms] have "noff_inv s h" by (simp add: lock_inv_def)
  then show ?thesis using reach_stopped [OF assms] by (simp add: noff_inv_def)
qed

theorem spin_nesting_witness:
  "noff (cpus race_machine 0) = 1 \<and> \<not> intr_get (harts race_machine 0) \<and>
   noff (cpus race_machine 1) = 1 \<and> \<not> intr_get (harts race_machine 1)"
  using spin_nesting [OF race_reach, of 0] spin_nesting [OF race_reach, of 1]
  by (simp add: race_facts del: One_nat_def)

text \<open>
  C7. The machine implements the view of the sequential components: every step of a CPU leaves the
  view of the other CPUs unchanged, and changes its own as \<open>kacquire\<close> does when it acquires a
  lock, as \<open>krelease\<close> does when it begins to release one, and not at all otherwise.
\<close>

theorem spin_view_simulation:
  assumes "reach s h" "spin_step s c e t"
  shows "(\<forall>d. d \<noteq> c \<longrightarrow> view_of t d = view_of s d) \<and>
    (case e of Tau \<Rightarrow> view_of t c = view_of s c
     | Acquired lk \<Rightarrow> kacquire lk (view_of s c) = Inr (view_of t c)
     | Releasing lk \<Rightarrow> krelease lk (view_of s c) = Inr (view_of t c))"
proof -
  have view: "reach s h \<Longrightarrow> view_of s d = \<lparr>held = set (h d)\<rparr>" for s h d
  proof -
    assume "reach s h"
    then have "own_inv s h" "held_inv s h" using reach_lock_inv by (auto simp: lock_inv_def)
    then show ?thesis
      using own_locked [of s h d] by (auto simp: view_of_def holding_def held_inv_def owns_def)
  qed
  from assms have t: "reach t (crit_after h c e)" by (rule reach.step)
  from reach_lock_inv [OF assms(1)] reach_lock_inv [OF t]
  have inv: "held_inv s h" "held_inv t (crit_after h c e)" by (simp_all add: lock_inv_def)
  show ?thesis
  proof (cases e)
    case (Acquired lk)
    have "distinct (crit_after h c e c)" using inv(2) unfolding held_inv_def by blast
    then have "lk \<notin> set (h c)" using Acquired by simp
    then show ?thesis using Acquired by (simp add: view [OF assms(1)] view [OF t])
  next
    case (Releasing lk)
    with assms(2) have "lcpu (locks s lk) = Some c" by (auto elim: spin_step.cases)
    then have "lk \<in> set (h c)" "distinct (h c)" using inv(1) by (auto simp: held_inv_def)
    then show ?thesis using Releasing by (simp add: view [OF assms(1)] view [OF t])
  qed (simp add: view [OF assms(1)] view [OF t])
qed

theorem spin_view_simulation_witness:
  "krelease KmemLock (view_of release_machine 0) =
     Inr (view_of (goto 0 (Unlock KmemLock) (set_lock release_machine KmemLock (\<lambda>l. l\<lparr>lcpu := None\<rparr>))) 0)"
proof -
  have "spin_step release_machine 0 (Releasing KmemLock)
      (goto 0 (Unlock KmemLock) (set_lock release_machine KmemLock (\<lambda>l. l\<lparr>lcpu := None\<rparr>)))"
    by (rule clear_cpu) (simp_all add: release_machine_def race_machine_def Let_def machine_defs)
  from spin_view_simulation [OF release_reach this] show ?thesis by simp
qed

end
