(* ===== verification/Kalloc.thy ===== *)
theory Kalloc
  imports Kstring Spinlock "HOL-Library.Multiset"
begin

text \<open>
  The physical page allocator, \<^verbatim>\<open>kernel/kalloc.c\<close>. The free list is threaded
  through the free pages themselves: the first word of a free page is the address of the next one.
  The state is physical memory, \<^verbatim>\<open>kmem.freelist\<close> and the link-time symbol
  \<^verbatim>\<open>end\<close>.

  The invariant \<open>kmem_inv\<close> relates the list in memory to a list of page addresses. The locale
  \<open>page_allocator\<close> is the contract the clients rely on; its lemmas are about any sequence of
  calls. The allocator of the code is an interpretation of it.
\<close>

subsection \<open>State and operations\<close>

record phys = kview +
  kend :: u64
  mem :: memory
  freelist :: u64

definition kfree :: "u64 \<Rightarrow> 'a phys_scheme \<Rightarrow> 'a phys_scheme res" where
  "kfree pa s =
     (if pa mod PGSIZE \<noteq> 0 \<or> pa < kend s \<or> pa \<ge> PHYSTOP then Inl (Panic ''kfree'')
      else bindE (kacquire KmemLock (s\<lparr>mem := memset (mem s) pa 1 4096\<rparr>)) (\<lambda>s.
           krelease KmemLock (s\<lparr>mem := store64 (mem s) pa (freelist s), freelist := pa\<rparr>)))"

definition kalloc :: "'a phys_scheme \<Rightarrow> (u64 \<times> 'a phys_scheme) res" where
  "kalloc s =
     bindE (kacquire KmemLock s) (\<lambda>s.
       let r = freelist s;
           s = (if r \<noteq> 0 then s\<lparr>freelist := load64 (mem s) r\<rparr> else s)
       in bindE (krelease KmemLock s) (\<lambda>s.
         Inr (r, if r \<noteq> 0 then s\<lparr>mem := memset (mem s) r 5 4096\<rparr> else s)))"

lemma kfree_below: "kfree p s = Inr s' \<Longrightarrow> p < PHYSTOP"
  by (auto simp: kfree_def split: if_splits)

lemma PHYSTOP_eq: "PHYSTOP = 0x88000000"
  by (simp add: PHYSTOP_def KERNBASE_def)

lemma unat_next_page: "p < PHYSTOP \<Longrightarrow> unat (p + 4096) = unat p + 4096"
  by (simp add: PHYSTOP_eq word_less_nat_alt unat_word_ariths)

function freerange_loop :: "u64 \<Rightarrow> u64 \<Rightarrow> 'a phys_scheme \<Rightarrow> 'a phys_scheme res" where
  "freerange_loop p pa_end s =
     (if p + PGSIZE \<le> pa_end then bindE (kfree p s) (freerange_loop (p + PGSIZE) pa_end)
      else Inr s)"
  by pat_completeness auto
termination
proof (relation "measure (\<lambda>(p, e, s). 2 ^ 64 - unat p)", simp)
  fix p e :: u64 and s s' :: "'a phys_scheme"
  assume "kfree p s = Inr s'"
  then have "unat (p + 4096) = unat p + 4096" by (rule unat_next_page [OF kfree_below])
  then show "((p + 4096, e, s'), p, e, s) \<in> measure (\<lambda>(p, e, s). 2 ^ 64 - unat p)"
    using unat_u64_less [of "p + 4096"] by simp
qed

declare freerange_loop.simps [simp del]

definition freerange :: "u64 \<Rightarrow> u64 \<Rightarrow> 'a phys_scheme \<Rightarrow> 'a phys_scheme res" where
  "freerange pa_start pa_end s = freerange_loop (PGROUNDUP pa_start) pa_end s"

definition kinit :: "'a phys_scheme \<Rightarrow> 'a phys_scheme res" where
  "kinit s = freerange (kend s) PHYSTOP (kinitlock KmemLock s)"

subsection \<open>The free list\<close>

primrec free_chain :: "memory \<Rightarrow> u64 \<Rightarrow> u64 list \<Rightarrow> bool" where
  "free_chain m p [] \<longleftrightarrow> p = 0"
| "free_chain m p (a # as) \<longleftrightarrow> p = a \<and> a \<noteq> 0 \<and> free_chain m (load64 m a) as"

definition page_ok :: "u64 \<Rightarrow> u64 \<Rightarrow> bool" where
  "page_ok e p \<longleftrightarrow> page_aligned p \<and> e \<le> p \<and> p < PHYSTOP"

definition kmem_inv :: "'a phys_scheme \<Rightarrow> u64 list \<Rightarrow> bool" where
  "kmem_inv s xs \<longleftrightarrow> free_chain (mem s) (freelist s) xs \<and> distinct xs \<and>
     (\<forall>p\<in>set xs. page_ok (kend s) p) \<and> 0 < kend s \<and> KmemLock \<notin> held s"

text \<open>The contents of the pages outside a set are the same.\<close>

definition same_outside :: "u64 set \<Rightarrow> memory \<Rightarrow> memory \<Rightarrow> bool" where
  "same_outside P m m' \<longleftrightarrow> (\<forall>x. PGROUNDDOWN x \<notin> P \<longrightarrow> m' x = m x)"

subsection \<open>Facts about the free list\<close>

lemma same_outsideD: "same_outside P m m' \<Longrightarrow> PGROUNDDOWN x \<notin> P \<Longrightarrow> m' x = m x"
  by (simp add: same_outside_def)

lemma same_outside_refl [simp]: "same_outside P m m"
  by (simp add: same_outside_def)

lemma same_outside_trans:
  "same_outside P m m' \<Longrightarrow> same_outside Q m' m'' \<Longrightarrow> P \<subseteq> R \<Longrightarrow> Q \<subseteq> R \<Longrightarrow> same_outside R m m''"
  unfolding same_outside_def by (metis subsetD)

lemma same_outside_mono: "same_outside P m m' \<Longrightarrow> P \<subseteq> Q \<Longrightarrow> same_outside Q m m'"
  by (auto simp: same_outside_def)

lemma load64_same_outside:
  "same_outside P m m' \<Longrightarrow> page_aligned p \<Longrightarrow> i < 512 \<Longrightarrow> p \<notin> P \<Longrightarrow>
   load64 m' (slot p i) = load64 m (slot p i)"
  by (intro load64_slot_cong) (auto dest: same_outsideD)

lemma slot_0 [simp]: "slot p 0 = p"
  by (simp add: slot_def)

lemma load64_page_same_outside:
  "same_outside P m m' \<Longrightarrow> page_aligned p \<Longrightarrow> p \<notin> P \<Longrightarrow> load64 m' p = load64 m p"
  using load64_same_outside [of P m m' p 0] by simp

lemma same_outside_memset: "page_aligned p \<Longrightarrow> same_outside {p} m (memset m p c 4096)"
  by (simp add: same_outside_def memset_page)

lemma same_outside_store64:
  "page_aligned p \<Longrightarrow> i < 512 \<Longrightarrow> same_outside {p} m (store64 m (slot p i) v)"
  by (simp add: same_outside_def store64_slot_other)

lemma free_chain_frame:
  "free_chain m p xs \<Longrightarrow> same_outside P m m' \<Longrightarrow> set xs \<inter> P = {} \<Longrightarrow>
   \<forall>p\<in>set xs. page_aligned p \<Longrightarrow> free_chain m' p xs"
  by (induction xs arbitrary: p) (auto simp: load64_page_same_outside)

lemma page_ok_nonzero: "page_ok e p \<Longrightarrow> 0 < e \<Longrightarrow> p \<noteq> 0"
  by (auto simp: page_ok_def)

lemma kmem_inv_frame:
  assumes "kmem_inv s xs" "same_outside P (mem s) m'" "set xs \<inter> P = {}"
  shows "kmem_inv (s\<lparr>mem := m'\<rparr>) xs"
  using assms free_chain_frame [OF _ assms(2)] by (auto simp: kmem_inv_def page_ok_def)

subsection \<open>Behaviour of the operations\<close>

lemma kalloc_empty: "kmem_inv s [] \<Longrightarrow> kalloc s = Inr (0, s)"
  by (simp add: kmem_inv_def kalloc_def Let_def)

definition after_kalloc :: "u64 \<Rightarrow> 'a phys_scheme \<Rightarrow> 'a phys_scheme" where
  "after_kalloc p s = s\<lparr>freelist := load64 (mem s) p, mem := memset (mem s) p 5 4096\<rparr>"

definition after_kfree :: "u64 \<Rightarrow> 'a phys_scheme \<Rightarrow> 'a phys_scheme" where
  "after_kfree p s =
     s\<lparr>mem := store64 (memset (mem s) p 1 4096) p (freelist s), freelist := p\<rparr>"

lemma after_kalloc_simps [simp]:
  "held (after_kalloc p s) = held s"
  "kend (after_kalloc p s) = kend s"
  "mem (after_kalloc p s) = memset (mem s) p 5 4096"
  "phys.more (after_kalloc p s) = phys.more s"
  by (simp_all add: after_kalloc_def)

lemma after_kfree_simps [simp]:
  "held (after_kfree p s) = held s"
  "kend (after_kfree p s) = kend s"
  "phys.more (after_kfree p s) = phys.more s"
  by (simp_all add: after_kfree_def)

lemma kalloc_Cons:
  assumes "kmem_inv s (p # xs)"
  shows "kalloc s = Inr (p, after_kalloc p s)"
    and "kmem_inv (after_kalloc p s) xs"
proof -
  from assms have p: "page_aligned p" "p \<noteq> 0" "freelist s = p" "KmemLock \<notin> held s"
    by (auto simp: kmem_inv_def page_ok_def)
  then show "kalloc s = Inr (p, after_kalloc p s)"
    by (simp add: kalloc_def after_kalloc_def Let_def insert_absorb)
  have "free_chain (memset (mem s) p 5 4096) (load64 (mem s) p) xs"
    using assms by (intro free_chain_frame [OF _ same_outside_memset [OF p(1)]])
      (auto simp: kmem_inv_def page_ok_def)
  with assms show "kmem_inv (after_kalloc p s) xs" by (simp add: kmem_inv_def after_kalloc_def)
qed

lemma same_outside_after_kfree:
  assumes "page_aligned p"
  shows "same_outside {p} (mem s) (mem (after_kfree p s))"
  using same_outside_store64 [OF assms, of 0 "memset (mem s) p 1 4096" "freelist s"]
  by (auto simp: after_kfree_def intro: same_outside_trans [OF same_outside_memset [OF assms]])

lemma kfree_ok:
  assumes "kmem_inv s xs" "page_ok (kend s) p" "p \<notin> set xs"
  shows "kfree p s = Inr (after_kfree p s)"
    and "kmem_inv (after_kfree p s) (p # xs)"
proof -
  from assms have p: "page_aligned p" "kend s \<le> p" "p < PHYSTOP" "KmemLock \<notin> held s"
    by (auto simp: kmem_inv_def page_ok_def)
  have "p \<noteq> 0" using assms by (auto simp: kmem_inv_def dest: page_ok_nonzero)
  show "kfree p s = Inr (after_kfree p s)"
    using p by (simp add: kfree_def after_kfree_def page_aligned_def not_less)
  from assms have "free_chain (mem s) (freelist s) xs" "\<forall>q\<in>set xs. page_aligned q"
    by (auto simp: kmem_inv_def page_ok_def)
  then have "free_chain (mem (after_kfree p s)) (freelist s) xs"
    using assms(3) by (intro free_chain_frame [OF _ same_outside_after_kfree [OF p(1)]]) auto
  with assms \<open>p \<noteq> 0\<close> show "kmem_inv (after_kfree p s) (p # xs)"
    by (auto simp: kmem_inv_def after_kfree_def mem_simps)
qed


subsection \<open>The contract of a page allocator\<close>

text \<open>
  A client is a sequence of requests: allocate a page, or free the \<open>k\<close>-th page it holds.
\<close>

datatype page_req = Alloc | Free nat

fun page_client :: "('s \<Rightarrow> (u64 \<times> 's) res) \<Rightarrow> (u64 \<Rightarrow> 's \<Rightarrow> 's res) \<Rightarrow> page_req list \<Rightarrow>
    u64 list \<Rightarrow> 's \<Rightarrow> (u64 list \<times> 's) res" where
  "page_client al fr [] out s = Inr (out, s)"
| "page_client al fr (Alloc # rs) out s =
     bindE (al s) (\<lambda>(p, s). page_client al fr rs (if p = 0 then out else p # out) s)"
| "page_client al fr (Free k # rs) out s =
     (if k < length out
      then bindE (fr (out ! k) s) (page_client al fr rs (take k out @ drop (Suc k) out))
      else page_client al fr rs out s)"

locale page_allocator =
  fixes al :: "'s \<Rightarrow> (u64 \<times> 's) res"
    and fr :: "u64 \<Rightarrow> 's \<Rightarrow> 's res"
    and inv :: "'s \<Rightarrow> u64 list \<Rightarrow> bool"
    and managed :: "'s \<Rightarrow> u64 \<Rightarrow> bool"
  assumes alloc_none: "inv s [] \<Longrightarrow> al s = Inr (0, s)"
    and alloc_some: "inv s (p # xs) \<Longrightarrow>
      \<exists>s'. al s = Inr (p, s') \<and> inv s' xs \<and> managed s' = managed s"
    and free_some: "inv s xs \<Longrightarrow> managed s p \<Longrightarrow> p \<notin> set xs \<Longrightarrow>
      \<exists>s'. fr p s = Inr s' \<and> inv s' (p # xs) \<and> managed s' = managed s"
    and inv_distinct: "inv s xs \<Longrightarrow> distinct xs"
    and inv_managed: "inv s xs \<Longrightarrow> p \<in> set xs \<Longrightarrow> managed s p \<and> p \<noteq> 0"
begin

lemma mset_take_nth_drop:
  "k < length xs \<Longrightarrow> mset xs = add_mset (xs ! k) (mset (take k xs @ drop (Suc k) xs))"
  by (subst id_take_nth_drop) auto

text \<open>
  Whatever the client does, no call fails, and the pages it holds and the free pages are, together,
  the pages there were at the start.
\<close>

lemma client_conserves:
  assumes "inv s xs" "\<forall>p\<in>set out. managed s p" "distinct (out @ xs)"
  shows "\<exists>out' s' xs'. page_client al fr rs out s = Inr (out', s') \<and> inv s' xs' \<and>
    mset (out' @ xs') = mset (out @ xs)"
  using assms
proof (induction rs arbitrary: out s xs)
  case Nil
  then show ?case by fastforce
next
  case (Cons r rs)
  show ?case
  proof (cases r)
    case Alloc
    show ?thesis
    proof (cases xs)
      case Nil
      with Cons.prems have "al s = Inr (0, s)" by (simp add: alloc_none)
      with Alloc Cons.IH [OF Cons.prems] show ?thesis by simp
    next
      case (Cons p ys)
      with Cons.prems obtain s' where s': "al s = Inr (p, s')" "inv s' ys" "managed s' = managed s"
        using alloc_some by blast
      have "managed s p" "p \<noteq> 0" using inv_managed [OF Cons.prems(1)] Cons by auto
      with Cons.IH [of s' ys "p # out"] Cons.prems Cons s' Alloc show ?thesis by auto
    qed
  next
    case (Free k)
    show ?thesis
    proof (cases "k < length out")
      case False
      with Free Cons.IH [OF Cons.prems] show ?thesis by simp
    next
      case True
      let ?p = "out ! k" and ?rest = "take k out @ drop (Suc k) out"
      have split: "mset out = add_mset ?p (mset ?rest)" using True by (rule mset_take_nth_drop)
      have "?p \<in> set out" using True by simp
      with Cons.prems obtain s' where
        s': "fr ?p s = Inr s'" "inv s' (?p # xs)" "managed s' = managed s"
        using free_some [of s xs ?p] by auto
      have same: "mset (?rest @ ?p # xs) = mset (out @ xs)" using split by simp
      then have "distinct (?rest @ ?p # xs)" using Cons.prems(3) mset_eq_imp_distinct_iff by blast
      moreover have "\<forall>p\<in>set ?rest. managed s' p"
        using Cons.prems(2) s'(3) by (auto dest: in_set_takeD in_set_dropD)
      ultimately obtain out' s'' xs' where "page_client al fr rs ?rest s' = Inr (out', s'')"
        "inv s'' xs'" "mset (out' @ xs') = mset (?rest @ ?p # xs)"
        using Cons.IH [OF s'(2)] by blast
      with Free True s'(1) same show ?thesis by auto
    qed
  qed
qed

end

interpretation kmem: page_allocator kalloc kfree kmem_inv "\<lambda>s. page_ok (kend s)"
proof unfold_locales
  fix s :: "'a phys_scheme" and p xs
  show "kmem_inv s [] \<Longrightarrow> kalloc s = Inr (0, s)" by (rule kalloc_empty)
  show "kmem_inv s (p # xs) \<Longrightarrow>
      \<exists>s'. kalloc s = Inr (p, s') \<and> kmem_inv s' xs \<and> page_ok (kend s') = page_ok (kend s)"
    using kalloc_Cons by fastforce
  show "kmem_inv s xs \<Longrightarrow> page_ok (kend s) p \<Longrightarrow> p \<notin> set xs \<Longrightarrow>
      \<exists>s'. kfree p s = Inr s' \<and> kmem_inv s' (p # xs) \<and> page_ok (kend s') = page_ok (kend s)"
    using kfree_ok by fastforce
  show "kmem_inv s xs \<Longrightarrow> distinct xs" by (simp add: kmem_inv_def)
  show "kmem_inv s xs \<Longrightarrow> p \<in> set xs \<Longrightarrow> page_ok (kend s) p \<and> p \<noteq> 0"
    by (auto simp: kmem_inv_def dest: page_ok_nonzero)
qed

subsection \<open>Boot\<close>

lemma aligned_less_next:
  "page_aligned p \<Longrightarrow> page_aligned q \<Longrightarrow> p < PHYSTOP \<Longrightarrow> q < p + 4096 \<longleftrightarrow> q < p \<or> q = p"
  unfolding page_aligned_iff word_less_nat_alt [of q] unat_next_page word_unat_eq_iff
  by (auto elim!: dvdE)

lemma aligned_next_le:
  assumes "page_aligned p" "p \<le> PHYSTOP"
  shows "p + 4096 \<le> PHYSTOP \<longleftrightarrow> p < PHYSTOP"
proof (cases "p < PHYSTOP")
  case True
  have "unat p < 4096 * 0x88000" "unat p mod 4096 = 0"
    using assms True by (simp_all add: PHYSTOP_eq word_less_nat_alt page_aligned_iff)
  then have "unat p + 4096 \<le> 4096 * 0x88000" by (auto elim!: dvdE simp: mod_eq_0_iff_dvd)
  with True show ?thesis by (simp add: word_le_nat_alt unat_next_page) (simp add: PHYSTOP_eq)
next
  case False
  with assms have "p = PHYSTOP" by simp
  then show ?thesis by (simp add: PHYSTOP_eq)
qed

lemma freerange_loop_PHYSTOP:
  "kmem_inv s xs \<Longrightarrow> page_aligned p \<Longrightarrow> kend s \<le> p \<Longrightarrow> p \<le> PHYSTOP \<Longrightarrow>
   set xs = {q. page_ok (kend s) q \<and> q < p} \<Longrightarrow>
   \<exists>s' ys. freerange_loop p PHYSTOP s = Inr s' \<and> kmem_inv s' ys \<and> kend s' = kend s \<and>
     set ys = {q. page_ok (kend s) q}"
proof (induction p "PHYSTOP" s arbitrary: xs rule: freerange_loop.induct)
  case (1 p s)
  show ?case
  proof (cases "p < PHYSTOP")
    case True
    then have more: "p + 4096 \<le> PHYSTOP" using aligned_next_le 1 by simp
    have ok: "page_ok (kend s) p" using 1 True by (simp add: page_ok_def)
    have "p \<notin> set xs" using 1 by simp
    with kfree_ok [OF "1.prems"(1) ok]
    have free: "kfree p s = Inr (after_kfree p s)" "kmem_inv (after_kfree p s) (p # xs)" by auto
    have "set (p # xs) = {q. page_ok (kend s) q \<and> q < p + 4096}"
      using 1 ok True by (auto simp: aligned_less_next page_ok_def)
    moreover have "page_aligned (p + 4096)" using 1 by (intro page_aligned_add) (simp_all add: page_aligned_def)
    moreover have "kend s \<le> p + 4096"
      using 1 unat_next_page [OF True] by (simp add: word_le_nat_alt)
    ultimately have "\<exists>s' ys. freerange_loop (p + 4096) PHYSTOP (after_kfree p s) = Inr s' \<and>
        kmem_inv s' ys \<and> kend s' = kend s \<and> set ys = {q. page_ok (kend s) q}"
      using "1.hyps" [OF more free(1) free(2)] more by simp
    with free(1) more show ?thesis by (subst freerange_loop.simps) simp
  next
    case False
    with 1 have "p = PHYSTOP" by simp
    with 1 show ?thesis by (subst freerange_loop.simps) (auto simp: PHYSTOP_eq page_ok_def)
  qed
qed


text \<open>
  C10. \<^verbatim>\<open>kinit\<close> turns all of the memory after the kernel into free pages: started with
  an empty free list, it does not panic and leaves a well-formed list of distinct pages that are
  exactly the aligned addresses from \<^verbatim>\<open>end\<close> up to \<^verbatim>\<open>PHYSTOP\<close>.
\<close>

theorem kinit_frees_all:
  assumes "freelist s = 0" "0 < kend s" "kend s \<le> PHYSTOP"
  shows "\<exists>s' xs. kinit s = Inr s' \<and> kmem_inv s' xs \<and>
    set xs = {p. page_aligned p \<and> kend s \<le> p \<and> p < PHYSTOP}"
proof -
  let ?s = "kinitlock KmemLock s" and ?p = "PGROUNDUP (kend s)"
  have up: "unat ?p = (unat (kend s) + 4095) div 4096 * 4096"
    using assms(3) by (intro unat_PGROUNDUP) (simp add: PHYSTOP_eq word_le_nat_alt)
  have "(unat (kend s) + 4095) div 4096 \<le> (0x88000000 + 4095) div (4096::nat)"
    using assms(3) by (intro div_le_mono) (simp add: PHYSTOP_eq word_le_nat_alt)
  then have le: "kend s \<le> ?p" "?p \<le> PHYSTOP"
    using up div_mult_mod_eq [of "unat (kend s) + 4095" 4096]
      mod_less_divisor [of 4096 "unat (kend s) + 4095"]
    by (simp_all add: PHYSTOP_eq word_le_nat_alt del: mod_less_divisor)
  have none: "{q. page_ok (kend s) q \<and> q < ?p} = {}"
  proof (safe)
    fix q assume q: "page_ok (kend s) q" "q < ?p"
    then obtain k where k: "unat q = 4096 * k" by (auto simp: page_ok_def page_aligned_dvd)
    moreover have "unat (kend s) \<le> unat q" "unat q < unat ?p"
      using q by (simp_all add: page_ok_def word_le_nat_alt word_less_nat_alt)
    ultimately show "q \<in> {}" using up by simp
  qed
  have "kmem_inv ?s []" using assms by (simp add: kmem_inv_def kinitlock_def)
  from freerange_loop_PHYSTOP [OF this, of ?p] none le show ?thesis
    unfolding kinit_def freerange_def page_ok_def [symmetric] by (auto simp: kinitlock_def)
qed

definition kmem_sample :: phys where
  "kmem_sample = \<lparr>held = {}, kend = 0x87ffe000, mem = (\<lambda>_. 0), freelist = 0\<rparr>"

theorem kinit_frees_all_witness:
  "\<exists>s' xs. kinit kmem_sample = Inr s' \<and> kmem_inv s' xs \<and>
    set xs = {p. page_aligned p \<and> 0x87ffe000 \<le> p \<and> p < PHYSTOP}"
  using kinit_frees_all [of kmem_sample] by (simp add: kmem_sample_def PHYSTOP_eq)

text \<open>
  C11. The allocator never panics, never hands out a page that is still in use and never loses one:
  after any sequence of \<^verbatim>\<open>kalloc\<close> calls and of \<^verbatim>\<open>kfree\<close> calls on pages
  obtained from it, the pages the clients hold and the pages of the free list are distinct and are,
  together, the pages that were free at the start.
\<close>

theorem kalloc_conserves_pages:
  assumes "kmem_inv s xs"
  shows "\<exists>out s' xs'. page_client kalloc kfree rs [] s = Inr (out, s') \<and> kmem_inv s' xs' \<and>
    distinct (out @ xs') \<and> mset (out @ xs') = mset xs"
proof -
  have "distinct xs" using assms by (rule kmem.inv_distinct)
  moreover obtain out s' xs' where "page_client kalloc kfree rs [] s = Inr (out, s')"
    "kmem_inv s' xs'" "mset (out @ xs') = mset xs"
    using kmem.client_conserves [OF assms, of "[]" rs] \<open>distinct xs\<close> by auto
  ultimately show ?thesis using mset_eq_imp_distinct_iff by blast
qed

theorem kalloc_conserves_pages_witness:
  "\<exists>out s' xs'. page_client kalloc kfree [Alloc, Alloc, Free 0, Alloc] []
      (kmem_sample\<lparr>freelist := 0x87fff000\<rparr>) = Inr (out, s') \<and> kmem_inv s' xs' \<and>
    distinct (out @ xs') \<and> mset (out @ xs') = mset [0x87fff000]"
proof -
  have "kmem_inv (kmem_sample\<lparr>freelist := 0x87fff000\<rparr>) [0x87fff000]"
    by (simp add: kmem_inv_def kmem_sample_def page_ok_def page_aligned_def PHYSTOP_eq)
  then show ?thesis by (rule kalloc_conserves_pages)
qed

end
