(* ===== verification/Vm.thy ===== *)
theory Vm
  imports Kalloc
begin

text \<open>
  Virtual memory, \<^verbatim>\<open>kernel/vm.c\<close>. Page tables live in physical memory, as the three-level
  trees the hardware walks; the operations read and write their entries there. A kernel buffer that
  \<^verbatim>\<open>copyin\<close> or \<^verbatim>\<open>copyout\<close> moves data to or from is a list of bytes.
\<close>

subsection \<open>State and operations\<close>

record vm = phys +
  kernel_pagetable :: u64
  etext :: u64
  trampoline :: u64

fun walk_loop :: "nat \<Rightarrow> u64 \<Rightarrow> u64 \<Rightarrow> bool \<Rightarrow> 'a phys_scheme \<Rightarrow> (u64 \<times> 'a phys_scheme) res" where
  "walk_loop 0 pagetable va alloc s = Inr (slot pagetable (PX 0 va), s)"
| "walk_loop (Suc l) pagetable va alloc s =
     (let pte = slot pagetable (PX (Suc l) va); v = load64 (mem s) pte in
      if v AND PTE_V \<noteq> 0 then walk_loop l (PTE2PA v) va alloc s
      else if \<not> alloc then Inr (0, s)
      else bindE (kalloc s) (\<lambda>(p, s).
        if p = 0 then Inr (0, s)
        else let m1 = memset (mem s) p 0 4096; m2 = store64 m1 pte (PA2PTE p OR PTE_V)
             in walk_loop l p va alloc (s\<lparr>mem := m2\<rparr>)))"

definition walk :: "u64 \<Rightarrow> u64 \<Rightarrow> bool \<Rightarrow> 'a phys_scheme \<Rightarrow> (u64 \<times> 'a phys_scheme) res" where
  "walk pagetable va alloc s =
     (if va \<ge> MAXVA then Inl (Panic ''walk'') else walk_loop 2 pagetable va alloc s)"

definition walkaddr :: "u64 \<Rightarrow> u64 \<Rightarrow> 'a phys_scheme \<Rightarrow> u64 res" where
  "walkaddr pagetable va s =
     (if va \<ge> MAXVA then Inr 0
      else bindE (walk pagetable va False s) (\<lambda>(pte, s).
        if pte = 0 then Inr 0
        else if load64 (mem s) pte AND PTE_V = 0 then Inr 0
        else if load64 (mem s) pte AND PTE_U = 0 then Inr 0
        else Inr (PTE2PA (load64 (mem s) pte))))"

lemma walk_below_MAXVA: "walk pagetable va alloc s = Inr r \<Longrightarrow> va < MAXVA"
  by (simp add: walk_def split: if_splits)

lemma unat_next_va: "a < MAXVA \<Longrightarrow> unat (a + 4096) = unat a + 4096"
  by (simp add: less_MAXVA_iff unat_word_ariths)

lemma page_loop_decreases: "a < MAXVA \<Longrightarrow> 2 ^ 64 - unat (a + 4096) < 2 ^ 64 - unat a"
  by (simp add: unat_next_va less_MAXVA_iff)

function mappages_loop :: "u64 \<Rightarrow> u64 \<Rightarrow> u64 \<Rightarrow> u64 \<Rightarrow> u64 \<Rightarrow> 'a phys_scheme \<Rightarrow>
    (int \<times> 'a phys_scheme) res" where
  "mappages_loop pagetable a lst pa perm s =
     bindE (walk pagetable a True s) (\<lambda>(pte, s).
       if pte = 0 then Inr (- 1, s)
       else if load64 (mem s) pte AND PTE_V \<noteq> 0 then Inl (Panic ''remap'')
       else let s = s\<lparr>mem := store64 (mem s) pte (PA2PTE pa OR perm OR PTE_V)\<rparr> in
         if a = lst then Inr (0, s)
         else mappages_loop pagetable (a + PGSIZE) lst (pa + PGSIZE) perm s)"
  by pat_completeness auto
termination
  by (relation "measure (\<lambda>(_, a, _). 2 ^ 64 - unat a)")
    (auto dest!: walk_below_MAXVA page_loop_decreases)

declare mappages_loop.simps [simp del]

definition mappages :: "u64 \<Rightarrow> u64 \<Rightarrow> u64 \<Rightarrow> u64 \<Rightarrow> u64 \<Rightarrow> 'a phys_scheme \<Rightarrow>
    (int \<times> 'a phys_scheme) res" where
  "mappages pagetable va sz pa perm s =
     mappages_loop pagetable (PGROUNDDOWN va) (PGROUNDDOWN (va + sz - 1)) pa perm s"

function uvmunmap_loop :: "u64 \<Rightarrow> u64 \<Rightarrow> u64 \<Rightarrow> bool \<Rightarrow> 'a phys_scheme \<Rightarrow> 'a phys_scheme res" where
  "uvmunmap_loop pagetable a stop do_free s =
     (if a < stop
      then bindE (walk pagetable a False s) (\<lambda>(pte, s).
        if pte = 0 then Inl (Panic ''uvmunmap: walk'')
        else let v = load64 (mem s) pte in
          if v AND PTE_V = 0 then Inl (Panic ''uvmunmap: not mapped'')
          else if PTE_FLAGS v = PTE_V then Inl (Panic ''uvmunmap: not a leaf'')
          else bindE (if do_free then kfree (PTE2PA v) s else Inr s) (\<lambda>s.
            uvmunmap_loop pagetable (a + PGSIZE) stop do_free
              (s\<lparr>mem := store64 (mem s) pte 0\<rparr>)))
      else Inr s)"
  by pat_completeness auto
termination
  by (relation "measure (\<lambda>(_, a, _). 2 ^ 64 - unat a)")
    (auto dest!: walk_below_MAXVA page_loop_decreases)

declare uvmunmap_loop.simps [simp del]

definition uvmunmap :: "u64 \<Rightarrow> u64 \<Rightarrow> u64 \<Rightarrow> bool \<Rightarrow> 'a phys_scheme \<Rightarrow> 'a phys_scheme res" where
  "uvmunmap pagetable va npages do_free s =
     (if va mod PGSIZE \<noteq> 0 then Inl (Panic ''uvmunmap: not aligned'')
      else uvmunmap_loop pagetable va (va + npages * PGSIZE) do_free s)"

definition uvmcreate :: "'a phys_scheme \<Rightarrow> (u64 \<times> 'a phys_scheme) res" where
  "uvmcreate s = bindE (kalloc s) (\<lambda>(pagetable, s).
     if pagetable = 0 then Inr (0, s)
     else Inr (pagetable, s\<lparr>mem := memset (mem s) pagetable 0 4096\<rparr>))"

text \<open>
  \<^verbatim>\<open>uvminit\<close> ignores the results of \<^verbatim>\<open>kalloc\<close> and
  \<^verbatim>\<open>mappages\<close>, as the code does: with no memory it would use page 0.
\<close>

definition uvminit :: "u64 \<Rightarrow> u8 list \<Rightarrow> 'a phys_scheme \<Rightarrow> 'a phys_scheme res" where
  "uvminit pagetable src s =
     (if length src \<ge> 4096 then Inl (Panic ''inituvm: more than a page'')
      else bindE (kalloc s) (\<lambda>(p, s).
        bindE (mappages pagetable 0 PGSIZE p (PTE_W OR PTE_R OR PTE_X OR PTE_U)
                 (s\<lparr>mem := memset (mem s) p 0 4096\<rparr>)) (\<lambda>(_, s).
          Inr (s\<lparr>mem := put_bytes (mem s) p src\<rparr>))))"

text \<open>The page count is an \<^verbatim>\<open>int\<close>: truncated to 32 bits and sign-extended again.\<close>

definition uvmdealloc :: "u64 \<Rightarrow> u64 \<Rightarrow> u64 \<Rightarrow> 'a phys_scheme \<Rightarrow> (u64 \<times> 'a phys_scheme) res" where
  "uvmdealloc pagetable oldsz newsz s =
     (if newsz \<ge> oldsz then Inr (oldsz, s)
      else if PGROUNDUP newsz < PGROUNDUP oldsz
      then let npages = scast (ucast ((PGROUNDUP oldsz - PGROUNDUP newsz) div PGSIZE) :: u32)
           in bindE (uvmunmap pagetable (PGROUNDUP newsz) npages True s) (\<lambda>s. Inr (newsz, s))
      else Inr (newsz, s))"

lemma mappages_below_MAXVA:
  "mappages pagetable va sz pa perm s = Inr r \<Longrightarrow> PGROUNDDOWN va < MAXVA"
  unfolding mappages_def
  by (subst (asm) mappages_loop.simps) (auto simp: bindE_eq_Inr dest: walk_below_MAXVA)

lemma page_loop_decreases_down:
  assumes "PGROUNDDOWN a < MAXVA"
  shows "2 ^ 64 - unat (a + 4096) < 2 ^ 64 - unat a"
proof -
  have "unat a div 4096 * 4096 < 274877906944"
    using assms by (simp add: less_MAXVA_iff unat_PGROUNDDOWN)
  then have "unat a < 274877906944 + 4096" by linarith
  then show ?thesis by (simp add: unat_word_ariths)
qed

function uvmalloc_loop :: "u64 \<Rightarrow> u64 \<Rightarrow> u64 \<Rightarrow> u64 \<Rightarrow> 'a phys_scheme \<Rightarrow>
    (u64 \<times> 'a phys_scheme) res" where
  "uvmalloc_loop pagetable a oldsz newsz s =
     (if a < newsz
      then bindE (kalloc s) (\<lambda>(p, s).
        if p = 0 then bindE (uvmdealloc pagetable a oldsz s) (\<lambda>(_, s). Inr (0, s))
        else bindE (mappages pagetable a PGSIZE p (PTE_W OR PTE_X OR PTE_R OR PTE_U)
                      (s\<lparr>mem := memset (mem s) p 0 4096\<rparr>)) (\<lambda>(r, s).
          if r \<noteq> 0
          then bindE (kfree p s) (\<lambda>s.
            bindE (uvmdealloc pagetable a oldsz s) (\<lambda>(_, s). Inr (0, s)))
          else uvmalloc_loop pagetable (a + PGSIZE) oldsz newsz s))
      else Inr (newsz, s))"
  by pat_completeness auto
termination
  by (relation "measure (\<lambda>(_, a, _). 2 ^ 64 - unat a)")
    (auto dest!: mappages_below_MAXVA page_loop_decreases_down)

declare uvmalloc_loop.simps [simp del]

definition uvmalloc :: "u64 \<Rightarrow> u64 \<Rightarrow> u64 \<Rightarrow> 'a phys_scheme \<Rightarrow> (u64 \<times> 'a phys_scheme) res" where
  "uvmalloc pagetable oldsz newsz s =
     (if newsz < oldsz then Inr (oldsz, s)
      else uvmalloc_loop pagetable (PGROUNDUP oldsz) (PGROUNDUP oldsz) newsz s)"

text \<open>
  \<^verbatim>\<open>freewalk\<close> recurses along the entries it finds in memory, so it takes fuel; the depth of
  a page table, 3, is enough.
\<close>

fun freewalk :: "nat \<Rightarrow> u64 \<Rightarrow> 'a phys_scheme \<Rightarrow> 'a phys_scheme res" where
  "freewalk 0 pagetable s = Inl OutOfFuel"
| "freewalk (Suc n) pagetable s =
     bindE (foldE (\<lambda>i s.
       let pte = load64 (mem s) (slot pagetable (of_nat i)) in
       if pte AND PTE_V \<noteq> 0 \<and> pte AND (PTE_R OR PTE_W OR PTE_X) = 0
       then bindE (freewalk n (PTE2PA pte) s) (\<lambda>s.
         Inr (s\<lparr>mem := store64 (mem s) (slot pagetable (of_nat i)) 0\<rparr>))
       else if pte AND PTE_V \<noteq> 0 then Inl (Panic ''freewalk: leaf'')
       else Inr s) [0..<512] s) (kfree pagetable)"

definition uvmfree :: "u64 \<Rightarrow> u64 \<Rightarrow> 'a phys_scheme \<Rightarrow> 'a phys_scheme res" where
  "uvmfree pagetable sz s =
     bindE (if sz > 0 then uvmunmap pagetable 0 (PGROUNDUP sz div PGSIZE) True s else Inr s)
       (freewalk 3 pagetable)"

function uvmcopy_loop :: "u64 \<Rightarrow> u64 \<Rightarrow> u64 \<Rightarrow> u64 \<Rightarrow> 'a phys_scheme \<Rightarrow> (int \<times> 'a phys_scheme) res" where
  "uvmcopy_loop old new i sz s =
     (if i < sz
      then bindE (walk old i False s) (\<lambda>(pte, s).
        if pte = 0 then Inl (Panic ''uvmcopy: pte should exist'')
        else if load64 (mem s) pte AND PTE_V = 0 then Inl (Panic ''uvmcopy: page not present'')
        else let pa = PTE2PA (load64 (mem s) pte); flags = PTE_FLAGS (load64 (mem s) pte) in
          bindE (kalloc s) (\<lambda>(p, s).
            if p = 0 then bindE (uvmunmap new 0 (i div PGSIZE) True s) (\<lambda>s. Inr (- 1, s))
            else bindE (mappages new i PGSIZE p flags (s\<lparr>mem := memmove (mem s) p pa 4096\<rparr>))
              (\<lambda>(r, s).
                if r \<noteq> 0
                then bindE (kfree p s) (\<lambda>s.
                  bindE (uvmunmap new 0 (i div PGSIZE) True s) (\<lambda>s. Inr (- 1, s)))
                else uvmcopy_loop old new (i + PGSIZE) sz s)))
      else Inr (0, s))"
  by pat_completeness auto
termination
  by (relation "measure (\<lambda>(_, _, i, _). 2 ^ 64 - unat i)")
    (auto dest!: walk_below_MAXVA page_loop_decreases)

declare uvmcopy_loop.simps [simp del]

definition uvmcopy :: "u64 \<Rightarrow> u64 \<Rightarrow> u64 \<Rightarrow> 'a phys_scheme \<Rightarrow> (int \<times> 'a phys_scheme) res" where
  "uvmcopy old new sz s = uvmcopy_loop old new 0 sz s"

definition uvmclear :: "u64 \<Rightarrow> u64 \<Rightarrow> 'a phys_scheme \<Rightarrow> 'a phys_scheme res" where
  "uvmclear pagetable va s = bindE (walk pagetable va False s) (\<lambda>(pte, s).
     if pte = 0 then Inl (Panic ''uvmclear'')
     else Inr (s\<lparr>mem := store64 (mem s) pte (load64 (mem s) pte AND NOT PTE_U)\<rparr>))"

text \<open>
  The number of bytes of the current page that one round of the copy loops moves, at least one and
  at most the number left.
\<close>

definition chunk :: "u64 \<Rightarrow> u64 \<Rightarrow> u64" where
  "chunk va left =
     (let n = PGSIZE - (va - PGROUNDDOWN va) in if n > left then left else n)"

lemma unat_page_offset: "unat (va - PGROUNDDOWN va) = unat va mod 4096"
proof -
  have "unat (PGROUNDDOWN va) \<le> unat va" by (simp add: unat_PGROUNDDOWN)
  then show ?thesis
    by (simp add: unat_sub_if' unat_PGROUNDDOWN minus_div_mult_eq_mod)
qed

lemma unat_page_rest: "unat (4096 - (va - PGROUNDDOWN va)) = 4096 - unat va mod 4096"
proof -
  have rest: "unat (4096 - w) = 4096 - unat w" if "unat w < 4096" for w :: u64
    using that by (simp add: unat_sub_if')
  show ?thesis by (subst rest) (simp_all only: unat_page_offset mod_less_divisor zero_less_numeral)
qed

lemma unat_chunk: "unat (chunk va left) = min (unat left) (4096 - unat va mod 4096)"
  by (simp add: chunk_def Let_def word_less_nat_alt unat_page_rest)

lemma chunk_decreases: "left \<noteq> 0 \<Longrightarrow> unat (left - chunk va left) < unat left"
proof -
  assume "left \<noteq> 0"
  then have "0 < unat left" by (simp add: unat_gt_0)
  moreover have "unat va mod 4096 < 4096" by simp
  ultimately show ?thesis by (simp add: unat_sub_if' unat_chunk)
qed

function copyout :: "u64 \<Rightarrow> u64 \<Rightarrow> u8 list \<Rightarrow> u64 \<Rightarrow> 'a phys_scheme \<Rightarrow>
    (int \<times> 'a phys_scheme) res" where
  "copyout pagetable dstva src left s =
     (if left > 0
      then let va0 = PGROUNDDOWN dstva in bindE (walkaddr pagetable va0 s) (\<lambda>pa0.
        if pa0 = 0 then Inr (- 1, s)
        else let n = chunk dstva left in
          copyout pagetable (va0 + PGSIZE) (drop (unat n) src) (left - n)
            (s\<lparr>mem := put_bytes (mem s) (pa0 + (dstva - va0)) (take (unat n) src)\<rparr>))
      else Inr (0, s))"
  by pat_completeness auto
termination
  by (relation "measure (\<lambda>(_, _, _, left, _). unat left)") (auto simp: chunk_decreases)

declare copyout.simps [simp del]

text \<open>
  \<^verbatim>\<open>copyin\<close> returns its result code and the bytes it stored through
  \<^verbatim>\<open>dst\<close>, which are fewer than asked for when it fails.
\<close>

function copyin :: "u64 \<Rightarrow> u64 \<Rightarrow> u64 \<Rightarrow> 'a phys_scheme \<Rightarrow> (int \<times> u8 list) res" where
  "copyin pagetable srcva left s =
     (if left > 0
      then let va0 = PGROUNDDOWN srcva in bindE (walkaddr pagetable va0 s) (\<lambda>pa0.
        if pa0 = 0 then Inr (- 1, [])
        else let n = chunk srcva left in
          bindE (copyin pagetable (va0 + PGSIZE) (left - n) s) (\<lambda>(r, bs).
            Inr (r, bytes (mem s) (pa0 + (srcva - va0)) (unat n) @ bs)))
      else Inr (0, []))"
  by pat_completeness auto
termination
  by (relation "measure (\<lambda>(_, _, left, _). unat left)") (auto simp: chunk_decreases)

declare copyin.simps [simp del]

text \<open>
  The inner loop of \<^verbatim>\<open>copyinstr\<close>: copy at most \<open>n\<close> bytes from \<open>p\<close> up to a
  null byte. The result is the bytes stored, with the null byte if there is one, and
  \<^verbatim>\<open>got_null\<close>.
\<close>

primrec copyinstr_page :: "memory \<Rightarrow> u64 \<Rightarrow> nat \<Rightarrow> u8 list \<times> bool" where
  "copyinstr_page m p 0 = ([], False)"
| "copyinstr_page m p (Suc n) =
     (if m p = 0 then ([0], True)
      else let (bs, got_null) = copyinstr_page m (p + 1) n in (m p # bs, got_null))"

function copyinstr :: "u64 \<Rightarrow> u64 \<Rightarrow> u64 \<Rightarrow> 'a phys_scheme \<Rightarrow> (int \<times> u8 list) res" where
  "copyinstr pagetable srcva left s =
     (if left > 0
      then let va0 = PGROUNDDOWN srcva in bindE (walkaddr pagetable va0 s) (\<lambda>pa0.
        if pa0 = 0 then Inr (- 1, [])
        else let n = chunk srcva left;
                 (bs, got_null) = copyinstr_page (mem s) (pa0 + (srcva - va0)) (unat n)
          in if got_null then Inr (0, bs)
             else bindE (copyinstr pagetable (va0 + PGSIZE) (left - n) s) (\<lambda>(r, cs).
               Inr (r, bs @ cs)))
      else Inr (- 1, []))"
  by pat_completeness auto
termination
  by (relation "measure (\<lambda>(_, _, left, _). unat left)") (auto simp: chunk_decreases)

declare copyinstr.simps [simp del]

subsection \<open>The kernel's page table\<close>

definition kvmmap :: "u64 \<Rightarrow> u64 \<Rightarrow> u64 \<Rightarrow> u64 \<Rightarrow> 'a vm_scheme \<Rightarrow> 'a vm_scheme res" where
  "kvmmap va pa sz perm s =
     bindE (mappages (kernel_pagetable s) va sz pa perm s) (\<lambda>(r, s).
       if r \<noteq> 0 then Inl (Panic ''kvmmap'') else Inr s)"

definition kvminit :: "'a vm_scheme \<Rightarrow> 'a vm_scheme res" where
  "kvminit s = bindE (kalloc s) (\<lambda>(p, s).
     foldE (\<lambda>(va, pa, sz, perm). kvmmap va pa sz perm)
       [(UART0, UART0, PGSIZE, PTE_R OR PTE_W),
        (VIRTIO0, VIRTIO0, PGSIZE, PTE_R OR PTE_W),
        (CLINT, CLINT, 0x10000, PTE_R OR PTE_W),
        (PLIC, PLIC, 0x400000, PTE_R OR PTE_W),
        (KERNBASE, KERNBASE, etext s - KERNBASE, PTE_R OR PTE_X),
        (etext s, etext s, PHYSTOP - etext s, PTE_R OR PTE_W),
        (TRAMPOLINE, trampoline s, PGSIZE, PTE_R OR PTE_X)]
       (s\<lparr>kernel_pagetable := p, mem := memset (mem s) p 0 4096\<rparr>))"

definition kvminithart :: "'a vm_scheme \<Rightarrow> hart \<Rightarrow> hart" where
  "kvminithart s h = h\<lparr>satp := MAKE_SATP (kernel_pagetable s)\<rparr>"

definition kvmpa :: "u64 \<Rightarrow> 'a vm_scheme \<Rightarrow> u64 res" where
  "kvmpa va s = bindE (walk (kernel_pagetable s) va False s) (\<lambda>(pte, s).
     if pte = 0 then Inl (Panic ''kvmpa'')
     else if load64 (mem s) pte AND PTE_V = 0 then Inl (Panic ''kvmpa'')
     else Inr (PTE2PA (load64 (mem s) pte) + va mod PGSIZE))"

end
