(* ===== verification/Pagetable.thy ===== *)
theory Pagetable
  imports Vm
begin

text \<open>
  What the page tables in physical memory mean. \<open>node\<close> follows a path of indices from the root,
  \<open>pt_pages\<close> are the pages of the tree and \<open>lookup\<close> is the entry of a virtual address. In a
  well-formed tree no page is reached by two paths, so a store to one entry changes one mapping:
  the frame lemmas of this theory. On top of them stand the properties of \<open>walk\<close>,
  \<open>mappages\<close> and \<open>uvmunmap\<close>.
\<close>

subsection \<open>Trees in memory\<close>

definition child :: "memory \<Rightarrow> u64 \<Rightarrow> u64 \<Rightarrow> u64 option" where
  "child m p i = (let v = load64 m (slot p i) in if v AND PTE_V \<noteq> 0 then Some (PTE2PA v) else None)"

primrec node :: "memory \<Rightarrow> u64 \<Rightarrow> u64 list \<Rightarrow> u64 option" where
  "node m p [] = Some p"
| "node m p (i # ks) = (case child m p i of None \<Rightarrow> None | Some q \<Rightarrow> node m q ks)"

definition idx :: "u64 list \<Rightarrow> bool" where
  "idx ks \<longleftrightarrow> length ks \<le> 2 \<and> (\<forall>i\<in>set ks. i < 512)"

definition vpath :: "u64 \<Rightarrow> u64 list" where
  "vpath va = [PX 2 va, PX 1 va]"

definition lookup :: "memory \<Rightarrow> u64 \<Rightarrow> u64 \<Rightarrow> u64" where
  "lookup m r va =
     (case node m r (vpath va) of None \<Rightarrow> 0 | Some q \<Rightarrow> load64 m (slot q (PX 0 va)))"

definition pt_pages :: "memory \<Rightarrow> u64 \<Rightarrow> u64 set" where
  "pt_pages m r = {q. \<exists>ks. idx ks \<and> node m r ks = Some q}"

definition pt_wf :: "memory \<Rightarrow> u64 \<Rightarrow> bool" where
  "pt_wf m r \<longleftrightarrow> page_aligned r \<and> 0 \<notin> pt_pages m r \<and>
     (\<forall>ks js q. idx ks \<longrightarrow> idx js \<longrightarrow> node m r ks = Some q \<longrightarrow> node m r js = Some q \<longrightarrow> ks = js)"

text \<open>
  An entry that points to a page of the tree has no permission bits, and the upper half of the
  root, which is for addresses from \<open>MAXVA\<close> on, is empty.
\<close>

definition inner_ok :: "memory \<Rightarrow> u64 \<Rightarrow> bool" where
  "inner_ok m r \<longleftrightarrow> (\<forall>ks p i. idx (ks @ [i]) \<longrightarrow> node m r ks = Some p \<longrightarrow>
     load64 m (slot p i) AND PTE_V \<noteq> 0 \<longrightarrow>
     PTE_FLAGS (load64 m (slot p i)) = PTE_V \<and> (ks = [] \<longrightarrow> i < 256))"

lemma node_append:
  "node m p (ks @ js) = (case node m p ks of None \<Rightarrow> None | Some q \<Rightarrow> node m q js)"
  by (induction ks arbitrary: p) (simp_all split: option.split)

lemma node_snoc: "node m p (ks @ [i]) = (case node m p ks of None \<Rightarrow> None | Some q \<Rightarrow> child m q i)"
  by (simp add: node_append split: option.split)

lemma idx_snoc: "idx (ks @ [i]) \<longleftrightarrow> idx ks \<and> length ks \<le> 1 \<and> i < 512"
  by (auto simp: idx_def)

lemma idx_Nil [simp]: "idx []"
  by (simp add: idx_def)

lemma idx_vpath [simp]: "idx (vpath va)" "length (vpath va) = 2"
  by (simp_all add: idx_def vpath_def PX_less)

lemma vpath_PGROUNDDOWN [simp]: "vpath (PGROUNDDOWN va) = vpath va"
  by (simp add: vpath_def)

lemma PTE2PA_aligned [simp]: "page_aligned (PTE2PA v)"
proof -
  have "PTE2PA v = PTE2PA v AND NOT (mask 12)"
    unfolding PTE2PA_def by (rule bit_word_eqI) (auto simp: bit_simps)
  also have "\<dots> = PGROUNDDOWN (PTE2PA v)" by (simp add: PGROUNDDOWN_def u64_4095)
  finally show ?thesis by (metis PGROUNDDOWN_aligned)
qed

lemma child_aligned: "child m p i = Some q \<Longrightarrow> page_aligned q"
  by (auto simp: child_def Let_def split: if_splits)

lemma node_aligned: "node m r ks = Some q \<Longrightarrow> page_aligned r \<Longrightarrow> page_aligned q"
  by (cases ks rule: rev_cases) (auto simp: node_snoc dest: child_aligned split: option.splits)

lemma node_in_pages: "node m r ks = Some q \<Longrightarrow> idx ks \<Longrightarrow> q \<in> pt_pages m r"
  by (auto simp: pt_pages_def)

lemma root_in_pages [simp]: "r \<in> pt_pages m r"
  by (rule node_in_pages [of _ _ "[]"]) simp_all

lemma pt_wf_aligned: "pt_wf m r \<Longrightarrow> q \<in> pt_pages m r \<Longrightarrow> page_aligned q"
  by (auto simp: pt_wf_def pt_pages_def dest: node_aligned)

lemma pt_wf_nonzero: "pt_wf m r \<Longrightarrow> q \<in> pt_pages m r \<Longrightarrow> q \<noteq> 0"
  by (auto simp: pt_wf_def)

lemma pt_wf_inj:
  "pt_wf m r \<Longrightarrow> idx ks \<Longrightarrow> idx js \<Longrightarrow> node m r ks = Some q \<Longrightarrow> node m r js = Some q \<Longrightarrow> ks = js"
  by (auto simp: pt_wf_def)

lemma slot_nonzero: "page_aligned q \<Longrightarrow> q \<noteq> 0 \<Longrightarrow> i < 512 \<Longrightarrow> slot q i \<noteq> 0"
  using slot_page [of q i] PGROUNDDOWN_id [OF page_aligned_0] by metis

subsection \<open>Stores that a tree does not see\<close>

lemma child_same_outside:
  "same_outside P m m' \<Longrightarrow> page_aligned p \<Longrightarrow> i < 512 \<Longrightarrow> p \<notin> P \<Longrightarrow> child m' p i = child m p i"
  by (simp add: child_def load64_same_outside)

lemma node_frame:
  assumes "same_outside P m m'" "page_aligned r" "pt_pages m r \<inter> P = {}" "idx ks"
  shows "node m' r ks = node m r ks"
  using assms(4)
proof (induction ks rule: rev_induct)
  case (snoc i ks)
  then have "node m' r ks = node m r ks" "idx ks" "i < 512" by (simp_all add: idx_snoc)
  then show ?case
    using assms(1-3) node_aligned node_in_pages
    by (auto simp: node_snoc split: option.splits intro!: child_same_outside) (metis disjoint_iff)+
qed simp

lemma pt_pages_cong: "(\<And>ks. idx ks \<Longrightarrow> node m' r ks = node m r ks) \<Longrightarrow> pt_pages m' r = pt_pages m r"
  unfolding pt_pages_def by auto

lemma pt_wf_cong:
  assumes "\<And>ks. idx ks \<Longrightarrow> node m' r ks = node m r ks"
  shows "pt_wf m' r = pt_wf m r"
proof -
  have "pt_pages m' r = pt_pages m r" using assms by (rule pt_pages_cong)
  then show ?thesis unfolding pt_wf_def by (simp add: assms)
qed

lemma pt_frame:
  assumes "same_outside P m m'" "page_aligned r" "pt_pages m r \<inter> P = {}"
  shows "pt_pages m' r = pt_pages m r" "pt_wf m' r = pt_wf m r" "lookup m' r va = lookup m r va"
proof -
  have n: "idx ks \<Longrightarrow> node m' r ks = node m r ks" for ks using assms by (rule node_frame)
  show "pt_pages m' r = pt_pages m r" using n by (rule pt_pages_cong)
  show "pt_wf m' r = pt_wf m r" using n by (rule pt_wf_cong)
  have "load64 m' (slot q (PX 0 va)) = load64 m (slot q (PX 0 va))"
    if "node m r (vpath va) = Some q" for q
  proof (rule load64_same_outside [OF assms(1)])
    show "page_aligned q" using that assms(2) by (rule node_aligned)
    show "q \<notin> P" using node_in_pages [OF that] assms(3) by auto
  qed (simp add: PX_less)
  then show "lookup m' r va = lookup m r va" by (simp add: lookup_def n split: option.split)
qed

lemma inner_ok_frame:
  assumes "same_outside P m m'" "page_aligned r" "pt_pages m r \<inter> P = {}"
  shows "inner_ok m' r = inner_ok m r"
proof -
  have n: "idx ks \<Longrightarrow> node m' r ks = node m r ks" for ks using assms by (rule node_frame)
  have "load64 m' (slot p i) = load64 m (slot p i)" if "node m r ks = Some p" "idx (ks @ [i])" for ks p i
    using that assms(3) node_in_pages [OF that(1)] node_aligned [OF that(1) assms(2)]
    by (intro load64_same_outside [OF assms(1)]) (auto simp: idx_snoc)
  with n show ?thesis unfolding inner_ok_def by (auto simp: idx_snoc)
qed

subsection \<open>A store to a last-level entry\<close>

lemma leaf_store:
  assumes wf: "pt_wf m r" and q: "node m r ks = Some q" "idx ks" "length ks = 2" and i: "i < 512"
    and m'_def: "m' = store64 m (slot q i) v"
  shows "idx js \<Longrightarrow> node m' r js = node m r js"
    and "pt_pages m' r = pt_pages m r"
    and "pt_wf m' r"
    and "inner_ok m' r = inner_ok m r"
    and "lookup m' r vb = (if vpath vb = ks \<and> PX 0 vb = i then v else lookup m r vb)"
proof -
  have al: "page_aligned r" using wf by (simp add: pt_wf_def)
  have qa: "page_aligned q" using q(1) al by (rule node_aligned)
  have out: "same_outside {q} m m'" unfolding m'_def using qa i by (rule same_outside_store64)
  show n: "idx js \<Longrightarrow> node m' r js = node m r js" for js
  proof (induction js rule: rev_induct)
    case (snoc j js)
    then have js: "node m' r js = node m r js" "idx js" "length js \<le> 1" "j < 512"
      by (simp_all add: idx_snoc)
    have "child m' p j = child m p j" if "node m r js = Some p" for p
    proof -
      have "p \<noteq> q" using pt_wf_inj [OF wf js(2) q(2)] that q js(3) by auto
      then show ?thesis
        using child_same_outside [OF out] node_aligned [OF that al] js(4) by simp
    qed
    with js show ?case by (simp add: node_snoc split: option.split)
  qed simp
  then show "pt_pages m' r = pt_pages m r" by (rule pt_pages_cong)
  show "pt_wf m' r" using wf pt_wf_cong [OF n] by simp
  have "load64 m' (slot p j) = load64 m (slot p j)" if "node m r js = Some p" "idx (js @ [j])" for js p j
    using that pt_wf_inj [OF wf _ q(2) that(1)] q node_aligned [OF that(1) al]
    by (intro load64_same_outside [OF out]) (auto simp: idx_snoc)
  then show "inner_ok m' r = inner_ok m r"
    unfolding inner_ok_def using n by (auto simp: idx_snoc)
  show "lookup m' r vb = (if vpath vb = ks \<and> PX 0 vb = i then v else lookup m r vb)"
  proof (cases "node m r (vpath vb)")
    case None
    then show ?thesis using n q by (auto simp: lookup_def)
  next
    case (Some p)
    show ?thesis
    proof (cases "p = q")
      case True
      then have "vpath vb = ks" using pt_wf_inj [OF wf _ q(2) Some] q by simp
      moreover have "lookup m' r vb = load64 m' (slot q (PX 0 vb))"
        "lookup m r vb = load64 m (slot q (PX 0 vb))"
        using Some True by (simp_all add: lookup_def n)
      moreover have "load64 m' (slot q (PX 0 vb)) =
          (if PX 0 vb = i then v else load64 m (slot q (PX 0 vb)))"
        using i by (simp add: m'_def mem_simps PX_less load64_store64_slot)
      ultimately show ?thesis by simp
    next
      case False
      then have "vpath vb \<noteq> ks" using Some q by auto
      moreover have "load64 m' (slot p (PX 0 vb)) = load64 m (slot p (PX 0 vb))"
        using out node_aligned [OF Some al] False
        by (intro load64_same_outside) (auto simp: PX_less)
      ultimately show ?thesis using Some by (simp add: lookup_def n)
    qed
  qed
qed


subsection \<open>A new page in the tree\<close>

lemma PTE_V_mk [simp]: "(PA2PTE p OR f OR 1) AND 1 \<noteq> 0" "(PA2PTE p OR 1) AND 1 \<noteq> 0"
proof -
  have "bit ((PA2PTE p OR f OR 1) AND 1) 0" "bit ((PA2PTE p OR 1) AND 1) 0"
    by (simp_all add: bit_simps)
  then show "(PA2PTE p OR f OR 1) AND 1 \<noteq> 0" "(PA2PTE p OR 1) AND 1 \<noteq> 0" by auto
qed

definition linked :: "memory \<Rightarrow> u64 \<Rightarrow> u64 \<Rightarrow> u64 \<Rightarrow> memory" where
  "linked m p i n = store64 (memset m n 0 4096) (slot p i) (PA2PTE n OR PTE_V)"

lemma load64_memset_0: "page_aligned n \<Longrightarrow> i < 512 \<Longrightarrow> load64 (memset m n 0 4096) (slot n i) = 0"
  using load64_slot_cong [of n i "memset m n 0 4096" "\<lambda>_. 0"] by (simp add: memset_page)

lemma linked_child:
  assumes "page_aligned p" "page_aligned n" "p \<noteq> n" "i < 512" "j < 512"
  shows "child (linked m p i n) n j = None"
    and "load64 (linked m p i n) (slot n j) = 0"
    and "child (linked m p i n) p j = (if j = i then Some n else child m p j)"
    and "page_aligned q \<Longrightarrow> q \<notin> {p, n} \<Longrightarrow> child (linked m p i n) q j = child m q j"
    and "same_outside {p, n} m (linked m p i n)"
proof -
  let ?m = "memset m n 0 4096"
  have out: "same_outside {p} ?m (linked m p i n)"
    unfolding linked_def using assms(1,4) by (rule same_outside_store64)
  have out0: "same_outside {n} m ?m" using assms(2) by (rule same_outside_memset)
  show all: "same_outside {p, n} m (linked m p i n)"
    using same_outside_trans [OF out0 out, of "{p, n}"] by simp
  have "load64 (linked m p i n) (slot n j) = load64 ?m (slot n j)"
    using out assms by (intro load64_same_outside) auto
  then show zero: "load64 (linked m p i n) (slot n j) = 0" using assms by (simp add: load64_memset_0)
  then show "child (linked m p i n) n j = None" by (simp add: child_def)
  have "child ?m p j = child m p j" using out0 assms by (intro child_same_outside) auto
  then show "child (linked m p i n) p j = (if j = i then Some n else child m p j)"
    using assms PTE2PA_mk [of 1 n]
    by (auto simp: child_def linked_def mem_simps load64_store64_slot Let_def)
  show "page_aligned q \<Longrightarrow> q \<notin> {p, n} \<Longrightarrow> child (linked m p i n) q j = child m q j"
    using all assms by (intro child_same_outside) auto
qed

lemma linked_node:
  assumes wf: "pt_wf m r" and p: "node m r ks = Some p" "idx (ks @ [i])" "child m p i = None"
    and n: "page_aligned n" "n \<notin> pt_pages m r"
    and "idx js"
  shows "node (linked m p i n) r js =
    (if take (Suc (length ks)) js = ks @ [i] then (if js = ks @ [i] then Some n else None)
     else node m r js)"
  using \<open>idx js\<close>
proof (induction js rule: rev_induct)
  case (snoc j js)
  let ?l = "Suc (length ks)"
  have al: "page_aligned r" using wf by (simp add: pt_wf_def)
  have i: "idx ks" "i < 512" using p(2) by (simp_all add: idx_snoc)
  have pa: "page_aligned p" using p(1) al by (rule node_aligned)
  have pn: "p \<noteq> n" using n(2) node_in_pages [OF p(1) i(1)] by auto
  have js: "idx js" "j < 512" using snoc.prems by (simp_all add: idx_snoc)
  note IH = snoc.IH [OF js(1)] and ch = linked_child [OF pa n(1) pn i(2) js(2)]
  show ?case
  proof (cases "take ?l js = ks @ [i]")
    case True
    then have "length js \<ge> ?l" by (metis length_append_singleton length_take min.bounded_iff order_refl)
    then have "take ?l (js @ [j]) = ks @ [i]" "js @ [j] \<noteq> ks @ [i]" using True by auto
    with True IH ch(1) show ?thesis by (auto simp: node_snoc)
  next
    case False
    have ex: "take ?l (js @ [j]) = ks @ [i] \<longleftrightarrow> js = ks \<and> j = i"
      using False by (cases "length js \<ge> ?l") auto
    show ?thesis
    proof (cases "node m r js")
      case None
      with False IH p(1) ex show ?thesis by (auto simp: node_snoc)
    next
      case (Some q)
      have qa: "page_aligned q" using Some al by (rule node_aligned)
      have "q \<noteq> n" using n(2) node_in_pages [OF Some js(1)] by auto
      moreover have "q = p \<longleftrightarrow> js = ks"
        using pt_wf_inj [OF wf js(1) i(1) Some] p(1) Some by auto
      ultimately show ?thesis
        using False IH Some ex ch(3,4) p(3) qa by (auto simp: node_snoc)
    qed
  qed
qed simp

lemma pt_linked:
  assumes wf: "pt_wf m r" and p: "node m r ks = Some p" "idx (ks @ [i])" "child m p i = None"
    and n: "page_aligned n" "n \<notin> pt_pages m r" "n \<noteq> 0"
  shows "pt_pages (linked m p i n) r = insert n (pt_pages m r)"
    and "pt_wf (linked m p i n) r"
    and "lookup (linked m p i n) r va = lookup m r va"
    and "node (linked m p i n) r (ks @ [i]) = Some n"
    and "same_outside {p, n} m (linked m p i n)"
    and "inner_ok m r \<Longrightarrow> (ks = [] \<Longrightarrow> i < 256) \<Longrightarrow> inner_ok (linked m p i n) r"
proof -
  let ?m = "linked m p i n" and ?l = "Suc (length ks)"
  have al: "page_aligned r" using wf by (simp add: pt_wf_def)
  have i: "idx ks" "i < 512" "length ks \<le> 1" using p(2) by (simp_all add: idx_snoc)
  have pa: "page_aligned p" using p(1) al by (rule node_aligned)
  have pn: "p \<noteq> n" using n(2) node_in_pages [OF p(1) i(1)] by auto
  note nd = linked_node [OF wf p n(1,2)] and ch = linked_child [OF pa n(1) pn i(2)]
  show new: "node ?m r (ks @ [i]) = Some n" using nd [OF p(2)] by simp
  show out: "same_outside {p, n} m ?m" using ch(5) [OF i(2)] .
  have gone: "node m r js = None" if "take ?l js = ks @ [i]" for js
  proof -
    have "js = (ks @ [i]) @ drop ?l js" using that append_take_drop_id by metis
    then show ?thesis using p(1,3) by (metis node_append node_snoc option.simps(4,5))
  qed
  have other: "node ?m r js = Some q \<Longrightarrow> idx js \<Longrightarrow>
      js = ks @ [i] \<and> q = n \<or> node m r js = Some q" for js q
    using nd [of js] by (auto split: if_splits)
  have old: "node m r js = Some q \<Longrightarrow> idx js \<Longrightarrow> node ?m r js = Some q" for js q
    using nd [of js] gone [of js] by auto
  show pages: "pt_pages ?m r = insert n (pt_pages m r)"
    unfolding pt_pages_def using other old new p(2) by blast
  show "pt_wf ?m r"
    unfolding pt_wf_def
  proof (intro conjI allI impI)
    show "0 \<notin> pt_pages ?m r" using pages n(3) wf by (auto simp: pt_wf_def)
    fix js js' q assume "idx js" "idx js'" "node ?m r js = Some q" "node ?m r js' = Some q"
    then show "js = js'" using other n(2) node_in_pages pt_wf_inj [OF wf] by metis
  qed (rule al)
  show "inner_ok m r \<Longrightarrow> (ks = [] \<Longrightarrow> i < 256) \<Longrightarrow> inner_ok ?m r"
    unfolding inner_ok_def
  proof (intro allI impI)
    fix js q j
    assume inner: "\<forall>js q j. idx (js @ [j]) \<longrightarrow> node m r js = Some q \<longrightarrow> load64 m (slot q j) AND 1 \<noteq> 0 \<longrightarrow>
        PTE_FLAGS (load64 m (slot q j)) = 1 \<and> (js = [] \<longrightarrow> j < 256)" and top: "ks = [] \<Longrightarrow> i < 256"
      and j: "idx (js @ [j])" "node ?m r js = Some q" "load64 ?m (slot q j) AND 1 \<noteq> 0"
    have js: "idx js" "j < 512" using j(1) by (simp_all add: idx_snoc)
    have "q \<noteq> n" using ch(2) [OF js(2)] j(3) by auto
    with other [OF j(2) js(1)] have old_q: "node m r js = Some q" by auto
    show "PTE_FLAGS (load64 ?m (slot q j)) = 1 \<and> (js = [] \<longrightarrow> j < 256)"
    proof (cases "q = p \<and> j = i")
      case True
      then have "js = ks" using pt_wf_inj [OF wf js(1) i(1) old_q] p(1) by simp
      with True top show ?thesis using PTE_FLAGS_mk [of 1 n] by (simp add: linked_def mem_simps)
    next
      case False
      have "load64 ?m (slot q j) = load64 m (slot q j)"
      proof (cases "q = p")
        case True
        then have "load64 ?m (slot q j) = load64 (memset m n 0 4096) (slot q j)"
          using False i(2) js(2) by (simp add: linked_def load64_store64_slot)
        also have "\<dots> = load64 m (slot q j)"
          using same_outside_memset [OF n(1)] True pa pn js(2) by (intro load64_same_outside) auto
        finally show ?thesis .
      next
        case False
        then show ?thesis
          using out node_aligned [OF old_q al] \<open>q \<noteq> n\<close> js(2) by (intro load64_same_outside) auto
      qed
      with inner [rule_format, OF j(1) old_q] j(3) show ?thesis by simp
    qed
  qed
  show "lookup ?m r va = lookup m r va"
  proof (cases "take ?l (vpath va) = ks @ [i]")
    case True
    then show ?thesis
      using nd [of "vpath va"] gone [of "vpath va"] ch(2) [of "PX 0 va"]
      by (auto simp: lookup_def PX_less)
  next
    case False
    then have same: "node ?m r (vpath va) = node m r (vpath va)" using nd [of "vpath va"] by simp
    show ?thesis
    proof (cases "node m r (vpath va)")
      case (Some q)
      have "q \<noteq> n" using n(2) node_in_pages [OF Some] by auto
      moreover have "q \<noteq> p" using pt_wf_inj [OF wf _ i(1) Some] p(1) i(3) by auto
      ultimately have "load64 ?m (slot q (PX 0 va)) = load64 m (slot q (PX 0 va))"
        using out node_aligned [OF Some al] by (intro load64_same_outside) (auto simp: PX_less)
      with Some same show ?thesis by (simp add: lookup_def)
    qed (simp add: lookup_def same)
  qed
qed


subsection \<open>Walking the tree\<close>

text \<open>A page table and the free pages beside it.\<close>

definition pt_inv :: "u64 \<Rightarrow> 'a phys_scheme \<Rightarrow> u64 list \<Rightarrow> bool" where
  "pt_inv r s xs \<longleftrightarrow> kmem_inv s xs \<and> pt_wf (mem s) r \<and> inner_ok (mem s) r \<and>
     pt_pages (mem s) r \<inter> set xs = {} \<and> (\<forall>q\<in>pt_pages (mem s) r. page_ok (kend s) q)"

definition only_mem :: "'a phys_scheme \<Rightarrow> 'a phys_scheme \<Rightarrow> bool" where
  "only_mem s s' \<longleftrightarrow> (\<exists>m f. s' = s\<lparr>mem := m, freelist := f\<rparr>)"

lemma only_mem_refl [simp]: "only_mem s s"
  unfolding only_mem_def by (rule exI [of _ "mem s"], rule exI [of _ "freelist s"]) simp

lemma only_memI: "s' = s\<lparr>mem := mem s', freelist := freelist s'\<rparr> \<Longrightarrow> only_mem s s'"
  unfolding only_mem_def by (rule exI [of _ "mem s'"], rule exI [of _ "freelist s'"])

lemma only_mem_upd:
  "only_mem s (s\<lparr>mem := m\<rparr>)" "only_mem s (after_kalloc n s)" "only_mem s (after_kfree n s)"
  by (auto intro: only_memI simp: after_kalloc_def after_kfree_def)

lemma only_mem_trans: "only_mem s t \<Longrightarrow> only_mem t u \<Longrightarrow> only_mem s u"
  by (rule only_memI) (auto simp: only_mem_def)

lemma only_mem_simps:
  assumes "only_mem s s'"
  shows "kend s' = kend s" "held s' = held s" "phys.more s' = phys.more s"
  using assms by (auto simp: only_mem_def)

text \<open>
  \<open>pt_to r L s xs s' ys\<close>: from state \<open>s\<close> with free pages \<open>xs\<close> to \<open>s'\<close> with
  \<open>ys\<close>, the table at \<open>r\<close> took the missing free pages into its tree, nothing outside its tree
  changed, and the entries of the virtual addresses are now those of \<open>L\<close>.
\<close>

definition pt_to :: "u64 \<Rightarrow> (u64 \<Rightarrow> u64) \<Rightarrow> 'a phys_scheme \<Rightarrow> u64 list \<Rightarrow> 'a phys_scheme \<Rightarrow>
    u64 list \<Rightarrow> bool" where
  "pt_to r L s xs s' ys \<longleftrightarrow>
     (\<exists>zs. xs = zs @ ys \<and> pt_pages (mem s') r = pt_pages (mem s) r \<union> set zs) \<and>
     pt_inv r s' ys \<and> (\<forall>va<MAXVA. lookup (mem s') r va = L va) \<and>
     same_outside (pt_pages (mem s') r) (mem s) (mem s') \<and>
     only_mem s s'"

lemma pt_to_refl: "pt_inv r s xs \<Longrightarrow> pt_to r (lookup (mem s) r) s xs s xs"
  unfolding pt_to_def by auto

lemma pt_to_trans:
  assumes "pt_to r L s xs t ys" "pt_to r L' t ys u zs"
  shows "pt_to r L' s xs u zs"
proof -
  have "same_outside (pt_pages (mem u) r) (mem s) (mem u)"
    using assms unfolding pt_to_def by (auto intro: same_outside_trans)
  then show ?thesis
    using assms unfolding pt_to_def by (auto simp: Un_assoc intro: only_mem_trans)
qed

lemma pt_to_weaken: "pt_to r L s xs t ys \<Longrightarrow> (\<And>va. va < MAXVA \<Longrightarrow> L va = L' va) \<Longrightarrow> pt_to r L' s xs t ys"
  unfolding pt_to_def by auto

lemma pt_to_comp:
  assumes "pt_to r L s xs t ys" "pt_to r L1 t ys u zs"
    and "\<And>va. va < MAXVA \<Longrightarrow> lookup (mem t) r va = L va \<Longrightarrow> L1 va = L2 va"
  shows "pt_to r L2 s xs u zs"
  using pt_to_weaken [OF pt_to_trans [OF assms(1,2)], of L2] assms(1,3) by (auto simp: pt_to_def)

lemma pt_to_simps:
  assumes "pt_to r L s xs t ys"
  shows "pt_inv r t ys" "va < MAXVA \<Longrightarrow> lookup (mem t) r va = L va"
    "kend t = kend s" "held t = held s"
  using assms by (auto simp: pt_to_def dest: only_mem_simps)

lemma walk_False:
  "va < MAXVA \<Longrightarrow> walk r va False s =
   Inr (case node (mem s) r (vpath va) of None \<Rightarrow> 0 | Some q \<Rightarrow> slot q (PX 0 va), s)"
  by (simp add: walk_def vpath_def numeral_2_eq_2 child_def Let_def) (simp only: not_le simp_thms)

lemma link_page:
  assumes inv: "pt_inv r s (n # ys)" and p: "node (mem s) r ks = Some p" "idx (ks @ [i])"
    "child (mem s) p i = None" and top: "ks = [] \<Longrightarrow> i < 256"
  shows "\<exists>s'. s' = (after_kalloc n s)\<lparr>mem := linked (mem (after_kalloc n s)) p i n\<rparr> \<and>
    pt_to r (lookup (mem s) r) s (n # ys) s' ys \<and> node (mem s') r (ks @ [i]) = Some n"
proof -
  let ?a = "after_kalloc n s" and ?s = "(after_kalloc n s)\<lparr>mem := linked (mem (after_kalloc n s)) p i n\<rparr>"
  have wf: "pt_wf (mem s) r" and fresh: "n \<notin> pt_pages (mem s) r" "set ys \<inter> pt_pages (mem s) r = {}"
    and kinv: "kmem_inv s (n # ys)"
    using inv by (auto simp: pt_inv_def)
  have al: "page_aligned r" using wf by (simp add: pt_wf_def)
  have n: "page_aligned n" "n \<noteq> 0" "n \<notin> set ys"
    using kinv by (auto simp: kmem_inv_def page_ok_def)
  have out: "same_outside {n} (mem s) (mem ?a)" using same_outside_memset [OF n(1)] by simp
  have "pt_pages (mem s) r \<inter> {n} = {}" using fresh by simp
  note fr = pt_frame [OF out al this] and nd = node_frame [OF out al this]
  have ks: "idx ks" "i < 512" "p \<in> pt_pages (mem s) r"
    using p node_in_pages by (auto simp: idx_snoc)
  have "p \<noteq> n" using ks(3) fresh(1) by auto
  then have "child (mem ?a) p i = None"
    using child_same_outside [OF out pt_wf_aligned [OF wf ks(3)] ks(2)] p(3) by simp
  then have "pt_wf (mem ?a) r" "node (mem ?a) r ks = Some p" "idx (ks @ [i])"
    "child (mem ?a) p i = None" "page_aligned n" "n \<notin> pt_pages (mem ?a) r" "n \<noteq> 0"
    using fr wf nd [OF ks(1)] p n fresh by simp_all
  note lk = pt_linked [OF this]
  have inner: "inner_ok (mem ?s) r"
    using lk(6) top inner_ok_frame [OF out al] inv fresh(1) by (simp add: pt_inv_def)
  have ok: "page_ok (kend s) n" using kinv by (simp add: kmem_inv_def)
  have kinv': "kmem_inv ?a ys" using kinv by (rule kalloc_Cons)
  have "kmem_inv ?s ys"
    using kinv' lk(5) by (rule kmem_inv_frame) (use n fresh ks(3) in auto)
  moreover have "same_outside (pt_pages (mem ?s) r) (mem s) (mem ?s)"
    using lk(1,5) fr(1) ks(3) by (auto intro: same_outside_trans [OF out])
  moreover have "only_mem s ?s" using only_mem_trans only_mem_upd by blast
  ultimately have "pt_to r (lookup (mem s) r) s (n # ys) ?s ys"
    unfolding pt_to_def pt_inv_def using lk fr n fresh inner ok inv
    by (intro conjI exI [of _ "[n]"]) (auto simp: pt_inv_def)
  with lk(4) show ?thesis by simp
qed

lemma PX_2_less:
  assumes "va < MAXVA"
  shows "PX 2 va < 256"
proof -
  have "unat va div 1073741824 < 256" using assms unfolding less_MAXVA_iff by simp
  then show ?thesis by (simp add: word_less_nat_alt [of _ 256] unat_PX)
qed

lemma walk_loop_True:
  assumes "l \<le> 2" "va < MAXVA" "pt_inv r s xs" "node (mem s) r (take (2 - l) (vpath va)) = Some p"
  shows "\<exists>pte s' ys. walk_loop l p va True s = Inr (pte, s') \<and>
    pt_to r (lookup (mem s) r) s xs s' ys \<and>
    (pte = 0 \<and> ys = [] \<or>
     (\<exists>q. node (mem s') r (vpath va) = Some q \<and> pte = slot q (PX 0 va)))"
  using assms
proof (induction l arbitrary: p s xs)
  case 0
  then show ?case using pt_to_refl by (fastforce simp: vpath_def)
next
  case (Suc l)
  let ?ks = "take (2 - Suc l) (vpath va)" and ?i = "PX (Suc l) va"
  from Suc.prems(1) have path: "take (2 - l) (vpath va) = ?ks @ [?i]"
    by (cases l) (auto simp: vpath_def numeral_2_eq_2)
  have idx: "idx (?ks @ [?i])"
    using idx_vpath [of va] set_take_subset [of "2 - l" "vpath va"]
    unfolding path [symmetric] idx_def by auto
  have top: "?ks = [] \<Longrightarrow> ?i < 256"
    using Suc.prems(1) PX_2_less [OF Suc.prems(2)] by (cases l) (auto simp: vpath_def numeral_2_eq_2)
  show ?case
  proof (cases "child (mem s) p ?i")
    case (Some q)
    then have "node (mem s) r (take (2 - l) (vpath va)) = Some q"
      unfolding path node_snoc using Suc.prems(4) by simp
    with Suc.IH [of s xs q] Suc.prems have *: "\<exists>pte s' ys. walk_loop l q va True s = Inr (pte, s') \<and>
      pt_to r (lookup (mem s) r) s xs s' ys \<and> (pte = 0 \<and> ys = [] \<or>
       (\<exists>q. node (mem s') r (vpath va) = Some q \<and> pte = slot q (PX 0 va)))" by simp
    have "walk_loop (Suc l) p va True s = walk_loop l q va True s"
      using Some by (simp add: child_def Let_def split: if_splits)
    with * show ?thesis by simp
  next
    case None
    then have v: "load64 (mem s) (slot p ?i) AND 1 = 0"
      by (auto simp: child_def Let_def split: if_splits)
    show ?thesis
    proof (cases xs)
      case Nil
      then have "kalloc s = Inr (0, s)" using Suc.prems(3) kalloc_empty by (auto simp: pt_inv_def)
      with v Nil pt_to_refl [OF Suc.prems(3)] show ?thesis by auto
    next
      case (Cons n ys)
      have ka: "kalloc s = Inr (n, after_kalloc n s)" and nz: "n \<noteq> 0"
        using Suc.prems(3) Cons kalloc_Cons by (auto simp: pt_inv_def kmem_inv_def)
      obtain t where t: "t = (after_kalloc n s)\<lparr>mem := linked (mem (after_kalloc n s)) p ?i n\<rparr>"
        "pt_to r (lookup (mem s) r) s (n # ys) t ys"
        "node (mem t) r (take (2 - l) (vpath va)) = Some n"
        using link_page [OF Suc.prems(3) [unfolded Cons] Suc.prems(4) idx None top]
        unfolding path by blast
      have step: "walk_loop (Suc l) p va True s = walk_loop l n va True t"
        using v ka nz by (simp add: Let_def t(1) linked_def)
      from Suc.IH [OF _ Suc.prems(2) pt_to_simps(1) [OF t(2)] t(3)] Suc.prems(1)
      obtain pte u zs where u: "walk_loop l n va True t = Inr (pte, u)"
        "pt_to r (lookup (mem t) r) t ys u zs"
        "pte = 0 \<and> zs = [] \<or> (\<exists>q. node (mem u) r (vpath va) = Some q \<and> pte = slot q (PX 0 va))"
        by auto
      have "pt_to r (lookup (mem s) r) s xs u zs"
        using pt_to_weaken [OF pt_to_trans [OF t(2) u(2)]] pt_to_simps(2) [OF t(2)] Cons by auto
      with step u show ?thesis by auto
    qed
  qed
qed

lemma walk_True:
  assumes "pt_inv r s xs" "va < MAXVA"
  shows "\<exists>pte s' ys. walk r va True s = Inr (pte, s') \<and> pt_to r (lookup (mem s) r) s xs s' ys \<and>
    (pte = 0 \<and> ys = [] \<or>
     (\<exists>q. node (mem s') r (vpath va) = Some q \<and> pte = slot q (PX 0 va)))"
  using walk_loop_True [OF _ assms(2,1), of 2 r] assms(2) by (simp add: walk_def)


subsection \<open>Writing an entry\<close>

text \<open>The entries with those of one page, or of a range of pages, replaced.\<close>

definition set_entry :: "(u64 \<Rightarrow> u64) \<Rightarrow> u64 \<Rightarrow> u64 \<Rightarrow> u64 \<Rightarrow> u64" where
  "set_entry L va v vb = (if PGROUNDDOWN vb = PGROUNDDOWN va then v else L vb)"

definition map_range :: "(u64 \<Rightarrow> u64) \<Rightarrow> u64 \<Rightarrow> nat \<Rightarrow> u64 \<Rightarrow> u64 \<Rightarrow> u64 \<Rightarrow> u64" where
  "map_range L a n pa perm vb =
     (if unat (vb - a) < 4096 * n then PA2PTE (pa + PGROUNDDOWN (vb - a)) OR perm OR PTE_V
      else L vb)"

definition unmap_range :: "(u64 \<Rightarrow> u64) \<Rightarrow> u64 \<Rightarrow> nat \<Rightarrow> u64 \<Rightarrow> u64" where
  "unmap_range L a n vb = (if unat (vb - a) < 4096 * n then 0 else L vb)"

lemma vpath_eq_iff:
  assumes "va < MAXVA" "vb < MAXVA"
  shows "vpath vb = vpath va \<and> PX 0 vb = PX 0 va \<longleftrightarrow> PGROUNDDOWN vb = PGROUNDDOWN va"
proof
  assume "PGROUNDDOWN vb = PGROUNDDOWN va"
  then show "vpath vb = vpath va \<and> PX 0 vb = PX 0 va"
    using vpath_PGROUNDDOWN PX_PGROUNDDOWN by metis
qed (use PX_inj [OF assms(2,1)] in \<open>simp add: vpath_def\<close>)

lemma pt_to_store:
  assumes "pt_inv r s xs" "node (mem s) r (vpath va) = Some q" "va < MAXVA"
  shows "pt_to r (set_entry (lookup (mem s) r) va v) s xs
    (s\<lparr>mem := store64 (mem s) (slot q (PX 0 va)) v\<rparr>) xs"
proof -
  let ?m = "store64 (mem s) (slot q (PX 0 va)) v"
  have wf: "pt_wf (mem s) r" using assms(1) by (simp add: pt_inv_def)
  note st = leaf_store [OF wf assms(2) idx_vpath PX_less [of 0 va] refl [of ?m]]
  have q: "q \<in> pt_pages (mem s) r" using assms(2) by (rule node_in_pages) simp
  have out: "same_outside {q} (mem s) ?m"
    using pt_wf_aligned [OF wf q] PX_less by (rule same_outside_store64)
  have "set xs \<inter> {q} = {}" using assms(1) q by (auto simp: pt_inv_def)
  with assms(1) out have "kmem_inv (s\<lparr>mem := ?m\<rparr>) xs"
    by (intro kmem_inv_frame) (auto simp: pt_inv_def)
  moreover have "same_outside (pt_pages (mem s) r) (mem s) ?m"
    using q out by (auto intro: same_outside_mono)
  ultimately show ?thesis
    using assms st vpath_eq_iff [OF assms(3)]
    by (auto simp: pt_to_def pt_inv_def set_entry_def only_mem_upd)
qed

lemma offset_page:
  assumes "page_aligned a"
  shows "PGROUNDDOWN (vb - a) = PGROUNDDOWN vb - a"
    and "unat (vb - a) < 4096 \<longleftrightarrow> PGROUNDDOWN vb = a"
proof -
  have "unat (vb - (PGROUNDDOWN vb)) < 4096" by (simp add: unat_page_offset)
  moreover have "page_aligned (PGROUNDDOWN vb - a)"
    using assms by (intro page_aligned_diff) simp_all
  ultimately have "PGROUNDDOWN ((PGROUNDDOWN vb - a) + (vb - PGROUNDDOWN vb)) = PGROUNDDOWN vb - a"
    by (intro PGROUNDDOWN_offset)
  then show "PGROUNDDOWN (vb - a) = PGROUNDDOWN vb - a" by simp
  show "unat (vb - a) < 4096 \<longleftrightarrow> PGROUNDDOWN vb = a" by (rule in_page_iff [OF assms])
qed


lemma next_page_offset:
  assumes "page_aligned a" "4096 * k < 2 ^ 63"
  shows "unat (vb - a) < 4096 * Suc k \<longleftrightarrow> PGROUNDDOWN vb = a \<or> unat (vb - (a + 4096)) < 4096 * k"
    and "PGROUNDDOWN vb = a \<Longrightarrow> \<not> unat (vb - (a + 4096)) < 4096 * k"
proof -
  have *: "vb - (a + 4096) = (vb - a) - 4096" by simp
  show not: "PGROUNDDOWN vb = a \<Longrightarrow> \<not> unat (vb - (a + 4096)) < 4096 * k"
  proof -
    assume "PGROUNDDOWN vb = a"
    then have l: "unat (vb - a) < 4096" using assms(1) offset_page by simp
    then have "unat ((vb - a) - 4096) = unat (vb - a) + 2 ^ 64 - 4096"
      by (subst unat_sub_if') simp
    with assms(2) show ?thesis unfolding * by simp
  qed
  show "unat (vb - a) < 4096 * Suc k \<longleftrightarrow> PGROUNDDOWN vb = a \<or> unat (vb - (a + 4096)) < 4096 * k"
  proof (cases "PGROUNDDOWN vb = a")
    case True
    then have "unat (vb - a) < 4096" using assms(1) offset_page by simp
    with True show ?thesis by simp
  next
    case False
    then have ge: "4096 \<le> unat (vb - a)" using assms(1) offset_page [of a vb] by simp
    then have "unat ((vb - a) - 4096) = unat (vb - a) - 4096" by (subst unat_sub_if') simp
    with False ge show ?thesis unfolding * by auto
  qed
qed

lemma map_range_Suc:
  assumes "page_aligned a" "4096 * k < 2 ^ 63"
  shows "map_range (set_entry L a (PA2PTE pa OR perm OR PTE_V)) (a + 4096) k (pa + 4096) perm =
    map_range L a (Suc k) pa perm"
proof
  fix vb
  have "page_aligned (a + 4096)" using assms by (intro page_aligned_add) (simp_all add: page_aligned_def)
  then show "map_range (set_entry L a (PA2PTE pa OR perm OR PTE_V)) (a + 4096) k (pa + 4096) perm vb =
      map_range L a (Suc k) pa perm vb"
    unfolding map_range_def next_page_offset(1) [OF assms]
    using next_page_offset(2) [OF assms, of vb] assms(1)
    by (auto simp: set_entry_def offset_page)
qed

lemma unmap_range_Suc:
  assumes "page_aligned a" "4096 * k < 2 ^ 63"
  shows "unmap_range (set_entry L a 0) (a + 4096) k = unmap_range L a (Suc k)"
  unfolding unmap_range_def next_page_offset(1) [OF assms]
  using next_page_offset(2) [OF assms] assms(1) by (auto simp: set_entry_def fun_eq_iff)

lemma map_range_0 [simp]: "map_range L a 0 pa perm = L" "unmap_range L a 0 = L"
  by (auto simp: map_range_def unmap_range_def)

text \<open>The start of the \<open>j\<close>-th page after an address.\<close>

definition nth_page :: "u64 \<Rightarrow> nat \<Rightarrow> u64" where
  "nth_page a j = a + of_nat (4096 * j)"

lemma nth_page_0 [simp]: "nth_page a 0 = a"
  by (simp add: nth_page_def)

lemma nth_page_Suc: "nth_page (a + 4096) j = nth_page a (Suc j)"
  by (simp add: nth_page_def algebra_simps)

lemma unat_nth_page:
  "unat a + 4096 * k \<le> 2 ^ 38 \<Longrightarrow> j \<le> k \<Longrightarrow> unat (nth_page a j) = unat a + 4096 * j"
  by (simp add: nth_page_def unat_word_ariths unat_of_nat take_bit_eq_mod)

lemma nth_page_MAXVA:
  "unat a + 4096 * k < 2 ^ 38 \<Longrightarrow> j \<le> k \<Longrightarrow> nth_page a j < MAXVA"
  "unat a + 4096 * k \<le> 2 ^ 38 \<Longrightarrow> j < k \<Longrightarrow> nth_page a j < MAXVA"
  using unat_nth_page [of a k j] by (simp_all add: less_MAXVA_iff)

lemma nth_page_aligned: "page_aligned a \<Longrightarrow> page_aligned (nth_page a j)"
  by (induction j arbitrary: a)
    (simp_all add: nth_page_Suc [symmetric] page_aligned_add page_aligned_def [of 4096])

lemma nth_page_neq: "unat a + 4096 * k \<le> 2 ^ 38 \<Longrightarrow> j < k \<Longrightarrow> nth_page a (Suc j) \<noteq> a"
  using unat_nth_page [of a k "Suc j"] by auto

lemma mappages_step:
  assumes "pt_inv r s xs" "a < MAXVA" "lookup (mem s) r a AND PTE_V = 0"
  shows "(\<exists>s'. pt_to r (lookup (mem s) r) s xs s' [] \<and>
      mappages_loop r a lst pa perm s = Inr (- 1, s')) \<or>
    (\<exists>s' ys. pt_to r (set_entry (lookup (mem s) r) a (PA2PTE pa OR perm OR PTE_V)) s xs s' ys \<and>
      mappages_loop r a lst pa perm s =
        (if a = lst then Inr (0, s') else mappages_loop r (a + PGSIZE) lst (pa + PGSIZE) perm s'))"
proof -
  obtain pte t ys where t: "walk r a True s = Inr (pte, t)" "pt_to r (lookup (mem s) r) s xs t ys"
    and pte: "pte = 0 \<and> ys = [] \<or> (\<exists>q. node (mem t) r (vpath a) = Some q \<and> pte = slot q (PX 0 a))"
    using walk_True [OF assms(1,2)] by blast
  note tinv = pt_to_simps(1) [OF t(2)]
  show ?thesis
  proof (cases "pte = 0")
    case True
    with pte t tinv have "ys = []"
      using slot_nonzero node_aligned PX_less pt_wf_nonzero node_in_pages
      unfolding pt_inv_def pt_wf_def by (metis idx_vpath(1))
    moreover have "mappages_loop r a lst pa perm s = Inr (- 1, t)"
      using t True by (subst mappages_loop.simps) simp
    ultimately show ?thesis using t(2) by blast
  next
    case False
    with pte obtain q where q: "node (mem t) r (vpath a) = Some q" "pte = slot q (PX 0 a)" by auto
    have v: "load64 (mem t) pte = lookup (mem s) r a"
      using pt_to_simps(2) [OF t(2) assms(2)] q by (simp add: lookup_def)
    let ?u = "t\<lparr>mem := store64 (mem t) pte (PA2PTE pa OR perm OR PTE_V)\<rparr>"
    have "pt_to r (set_entry (lookup (mem t) r) a (PA2PTE pa OR perm OR PTE_V)) t ys ?u ys"
      using pt_to_store [OF tinv q(1) assms(2)] q(2) by simp
    then have "pt_to r (set_entry (lookup (mem s) r) a (PA2PTE pa OR perm OR PTE_V)) s xs ?u ys"
      by (rule pt_to_comp [OF t(2)]) (simp add: set_entry_def)
    moreover have "mappages_loop r a lst pa perm s =
        (if a = lst then Inr (0, ?u) else mappages_loop r (a + PGSIZE) lst (pa + PGSIZE) perm ?u)"
      using t False v assms(3) by (subst mappages_loop.simps) (simp add: Let_def)
    ultimately show ?thesis by blast
  qed
qed

lemma mappages_loop_ok:
  assumes "pt_inv r s xs" "page_aligned a" "unat a + 4096 * k < 2 ^ 38"
    "\<forall>j\<le>k. lookup (mem s) r (nth_page a j) AND PTE_V = 0"
  shows "\<exists>rc s' ys. mappages_loop r a (nth_page a k) pa perm s = Inr (rc, s') \<and>
    (rc = 0 \<and> pt_to r (map_range (lookup (mem s) r) a (Suc k) pa perm) s xs s' ys \<or>
     rc = - 1 \<and> ys = [] \<and> (\<exists>j\<le>k. pt_to r (map_range (lookup (mem s) r) a j pa perm) s xs s' ys))"
  using assms
proof (induction k arbitrary: a pa s xs)
  case 0
  have a: "a < MAXVA" "lookup (mem s) r a AND 1 = 0" using 0 by (simp_all add: less_MAXVA_iff)
  from mappages_step [OF "0.prems"(1) a, of a pa perm] show ?case
    using map_range_Suc [OF "0.prems"(2), of 0 "lookup (mem s) r" pa perm] by auto
next
  case (Suc k)
  let ?L = "lookup (mem s) r" and ?lst = "nth_page a (Suc k)"
  let ?L1 = "set_entry ?L a (PA2PTE pa OR perm OR PTE_V)"
  have a: "a < MAXVA" "?L a AND 1 = 0"
    using Suc.prems(3) Suc.prems(4) [rule_format, of 0] by (simp_all add: less_MAXVA_iff)
  from mappages_step [OF Suc.prems(1) a, of ?lst pa perm]
  consider (fail) t where "pt_to r ?L s xs t []" "mappages_loop r a ?lst pa perm s = Inr (- 1, t)"
    | (more) t ys where "pt_to r ?L1 s xs t ys"
        "mappages_loop r a ?lst pa perm s =
          (if a = ?lst then Inr (0, t) else mappages_loop r (a + 4096) ?lst (pa + 4096) perm t)"
    by auto
  then show ?case
  proof cases
    case fail
    then show ?thesis by (intro exI [of _ "- 1"] exI [of _ t] exI [of _ "[]"]) (auto intro: exI [of _ 0])
  next
    case more
    have L: "lookup (mem t) r vb = ?L1 vb" if "vb < MAXVA" for vb
      using that by (rule pt_to_simps(2) [OF more(1)])
    have free: "\<forall>j\<le>k. lookup (mem t) r (nth_page (a + 4096) j) AND 1 = 0"
    proof (intro allI impI)
      fix j assume j: "j \<le> k"
      have "PGROUNDDOWN (nth_page a (Suc j)) \<noteq> a"
        using nth_page_neq [OF less_imp_le [OF Suc.prems(3)]] nth_page_aligned [OF Suc.prems(2)] j by simp
      then show "lookup (mem t) r (nth_page (a + 4096) j) AND 1 = 0"
        using L [of "nth_page a (Suc j)"] nth_page_MAXVA(1) [OF Suc.prems(3), of "Suc j"] j
          Suc.prems(2) Suc.prems(4) [rule_format, of "Suc j"]
        by (simp add: nth_page_Suc set_entry_def)
    qed
    have al: "page_aligned (a + 4096)" "unat (a + 4096) + 4096 * k < 2 ^ 38"
      using Suc.prems(3) nth_page_aligned [OF Suc.prems(2), of 1] unat_nth_page [OF less_imp_le [OF Suc.prems(3)], of 1]
      by (simp_all add: nth_page_def)
    have "a \<noteq> ?lst" using nth_page_neq [OF less_imp_le [OF Suc.prems(3)], of k] by auto
    with Suc.IH [OF pt_to_simps(1) [OF more(1)] al free, of "pa + 4096"] more(2)
    obtain rc u zs where u: "mappages_loop r a ?lst pa perm s = Inr (rc, u)"
      and alt: "rc = 0 \<and> pt_to r (map_range (lookup (mem t) r) (a + 4096) (Suc k) (pa + 4096) perm) t ys u zs \<or>
        rc = - 1 \<and> zs = [] \<and>
        (\<exists>j\<le>k. pt_to r (map_range (lookup (mem t) r) (a + 4096) j (pa + 4096) perm) t ys u zs)"
      by (auto simp: nth_page_Suc)
    have comb: "pt_to r (map_range ?L a (Suc n) pa perm) s xs u zs"
      if "pt_to r (map_range (lookup (mem t) r) (a + 4096) n (pa + 4096) perm) t ys u zs"
        "n \<le> Suc k" for n
    proof -
      have "4096 * n < 2 ^ 63" using that(2) Suc.prems(3) by simp
      from map_range_Suc [OF Suc.prems(2) this, of ?L pa perm, symmetric]
      show ?thesis by (auto intro!: pt_to_comp [OF more(1) that(1)] simp: map_range_def)
    qed
    from alt show ?thesis
    proof (elim disjE conjE exE)
      assume "rc = 0" "pt_to r (map_range (lookup (mem t) r) (a + 4096) (Suc k) (pa + 4096) perm) t ys u zs"
      with u comb [of "Suc k"] show ?thesis by auto
    next
      fix j assume "rc = - 1" "zs = []" "j \<le> k"
        "pt_to r (map_range (lookup (mem t) r) (a + 4096) j (pa + 4096) perm) t ys u zs"
      with u comb [of j] show ?thesis by auto
    qed
  qed
qed


subsection \<open>Removing mappings\<close>

text \<open>
  \<open>pt_un r L s xs s' ps\<close>: the entries are now those of \<open>L\<close>, the pages \<open>ps\<close> have joined
  the free pages \<open>xs\<close>, and nothing but the tree and those pages changed.
\<close>

definition pt_un :: "u64 \<Rightarrow> (u64 \<Rightarrow> u64) \<Rightarrow> 'a phys_scheme \<Rightarrow> u64 list \<Rightarrow> 'a phys_scheme \<Rightarrow>
    u64 list \<Rightarrow> bool" where
  "pt_un r L s xs s' ps \<longleftrightarrow>
     pt_pages (mem s') r = pt_pages (mem s) r \<and> pt_inv r s' (ps @ xs) \<and>
     (\<forall>va<MAXVA. lookup (mem s') r va = L va) \<and>
     same_outside (pt_pages (mem s) r \<union> set ps) (mem s) (mem s') \<and> only_mem s s'"

lemma pt_un_simps:
  assumes "pt_un r L s xs s' ps"
  shows "pt_inv r s' (ps @ xs)" "va < MAXVA \<Longrightarrow> lookup (mem s') r va = L va"
    "pt_pages (mem s') r = pt_pages (mem s) r" "kend s' = kend s" "held s' = held s"
  using assms by (auto simp: pt_un_def dest: only_mem_simps)

lemma pt_un_comp:
  assumes "pt_un r L s xs t ps" "pt_un r L1 t (ps @ xs) u qs"
    and "\<And>va. va < MAXVA \<Longrightarrow> lookup (mem t) r va = L va \<Longrightarrow> L1 va = L2 va"
  shows "pt_un r L2 s xs u (qs @ ps)"
proof -
  have "same_outside (pt_pages (mem s) r \<union> set (qs @ ps)) (mem s) (mem u)"
    by (rule same_outside_trans [of "pt_pages (mem s) r \<union> set ps" _ "mem t" "pt_pages (mem s) r \<union> set qs"])
      (use assms(1,2) in \<open>auto simp: pt_un_def\<close>)
  with assms show ?thesis unfolding pt_un_def by (auto intro: only_mem_trans)
qed

lemma kfree_beside_tree:
  assumes "pt_inv r s xs" "page_ok (kend s) p" "p \<notin> pt_pages (mem s) r" "p \<notin> set xs"
  shows "kfree p s = Inr (after_kfree p s)"
    "pt_un r (lookup (mem s) r) s xs (after_kfree p s) [p]"
    "\<And>ks. idx ks \<Longrightarrow> node (mem (after_kfree p s)) r ks = node (mem s) r ks"
proof -
  have inv: "kmem_inv s xs" "pt_wf (mem s) r" "page_aligned r" "page_aligned p"
    using assms(1,2) by (auto simp: pt_inv_def pt_wf_def page_ok_def)
  note k = kfree_ok [OF inv(1) assms(2,4)] and out = same_outside_after_kfree [OF inv(4), of s]
  show "kfree p s = Inr (after_kfree p s)" by (rule k)
  have "pt_pages (mem s) r \<inter> {p} = {}" using assms(3) by simp
  note fr = pt_frame [OF out inv(3) this]
  show "\<And>ks. idx ks \<Longrightarrow> node (mem (after_kfree p s)) r ks = node (mem s) r ks"
    using out inv(3) \<open>pt_pages (mem s) r \<inter> {p} = {}\<close> by (rule node_frame)
  show "pt_un r (lookup (mem s) r) s xs (after_kfree p s) [p]"
    using k(2) fr inv assms out inner_ok_frame [OF out inv(3) \<open>pt_pages (mem s) r \<inter> {p} = {}\<close>]
    by (auto simp: pt_un_def pt_inv_def only_mem_upd intro: same_outside_mono)
qed

lemma pt_un_store:
  assumes "pt_inv r s xs" "node (mem s) r (vpath va) = Some q" "va < MAXVA"
  shows "pt_un r (set_entry (lookup (mem s) r) va v) s xs
    (s\<lparr>mem := store64 (mem s) (slot q (PX 0 va)) v\<rparr>) []"
  using pt_to_store [OF assms, of v] by (auto simp: pt_to_def pt_un_def)

lemma uvmunmap_step:
  assumes "pt_inv r s xs" "a < MAXVA" "a < stop"
    and v: "v = lookup (mem s) r a" "v AND PTE_V \<noteq> 0" "PTE_FLAGS v \<noteq> PTE_V"
    and f: "do_free \<longrightarrow> page_ok (kend s) (PTE2PA v) \<and> PTE2PA v \<notin> pt_pages (mem s) r \<union> set xs"
  shows "\<exists>s'. uvmunmap_loop r a stop do_free s = uvmunmap_loop r (a + PGSIZE) stop do_free s' \<and>
    pt_un r (set_entry (lookup (mem s) r) a 0) s xs s' (if do_free then [PTE2PA v] else [])"
proof -
  let ?t = "if do_free then after_kfree (PTE2PA v) s else s"
    and ?ps = "if do_free then [PTE2PA v] else []"
  obtain q where q: "node (mem s) r (vpath a) = Some q"
    using v by (cases "node (mem s) r (vpath a)") (auto simp: lookup_def)
  have wf: "pt_wf (mem s) r" using assms(1) by (simp add: pt_inv_def)
  have "slot q (PX 0 a) \<noteq> 0"
    using wf q node_in_pages [OF q] by (intro slot_nonzero PX_less) (auto dest: pt_wf_aligned pt_wf_nonzero)
  moreover have "do_free \<Longrightarrow> kfree (PTE2PA v) s = Inr (after_kfree (PTE2PA v) s)"
    using f kfree_beside_tree(1) [OF assms(1)] by simp
  moreover have "load64 (mem s) (slot q (PX 0 a)) = v" using q v by (simp add: lookup_def)
  ultimately have step: "uvmunmap_loop r a stop do_free s = uvmunmap_loop r (a + PGSIZE) stop do_free
      (?t\<lparr>mem := store64 (mem ?t) (slot q (PX 0 a)) 0\<rparr>)"
    using assms(3) v(2,3) q walk_False [OF assms(2), of r s]
    by (cases do_free; subst uvmunmap_loop.simps; simp add: Let_def)
  have t: "pt_un r (lookup (mem s) r) s xs ?t ?ps" "node (mem ?t) r (vpath a) = Some q"
    using f kfree_beside_tree(2,3) [OF assms(1)] q assms(1) by (auto simp: pt_un_def)
  have "pt_un r (set_entry (lookup (mem ?t) r) a 0) ?t (?ps @ xs)
      (?t\<lparr>mem := store64 (mem ?t) (slot q (PX 0 a)) 0\<rparr>) []"
    using pt_un_simps(1) [OF t(1)] t(2) assms(2) by (rule pt_un_store)
  from pt_un_comp [OF t(1) this, of "set_entry (lookup (mem s) r) a 0"] step show ?thesis
    by (auto simp: set_entry_def)
qed


definition frames :: "memory \<Rightarrow> u64 \<Rightarrow> u64 \<Rightarrow> nat \<Rightarrow> u64 list" where
  "frames m r a n = map (\<lambda>j. PTE2PA (lookup m r (nth_page a j))) [0..<n]"

lemma frames_Suc: "frames m r a (Suc n) = PTE2PA (lookup m r a) # frames m r (a + 4096) n"
  by (simp add: frames_def upt_conv_Cons map_Suc_upt [symmetric] nth_page_Suc del: upt_Suc)

lemma set_entry_nth_page:
  assumes "page_aligned a" "unat a + 4096 * k \<le> 2 ^ 38" "j < k"
  shows "set_entry L a v (nth_page a (Suc j)) = L (nth_page a (Suc j))"
  using nth_page_neq [OF assms(2,3)] nth_page_aligned [OF assms(1)] assms(1)
  by (simp add: set_entry_def)

lemma uvmunmap_loop_ok:
  assumes "pt_inv r s xs" "page_aligned a" "unat a + 4096 * n \<le> 2 ^ 38"
    "\<forall>j<n. lookup (mem s) r (nth_page a j) AND PTE_V \<noteq> 0 \<and>
       PTE_FLAGS (lookup (mem s) r (nth_page a j)) \<noteq> PTE_V"
    "do_free \<longrightarrow> distinct (frames (mem s) r a n) \<and>
       (\<forall>p\<in>set (frames (mem s) r a n). page_ok (kend s) p \<and> p \<notin> pt_pages (mem s) r \<union> set xs)"
  shows "\<exists>s'. uvmunmap_loop r a (nth_page a n) do_free s = Inr s' \<and>
    pt_un r (unmap_range (lookup (mem s) r) a n) s xs s'
      (if do_free then rev (frames (mem s) r a n) else [])"
  using assms
proof (induction n arbitrary: a s xs)
  case 0
  then show ?case by (subst uvmunmap_loop.simps) (simp add: pt_un_def frames_def)
next
  case (Suc n)
  let ?L = "lookup (mem s) r" and ?stop = "nth_page a (Suc n)"
  let ?ps = "if do_free then [PTE2PA (?L a)] else []"
  have a: "a < MAXVA" "a < ?stop"
    using nth_page_MAXVA(2) [OF Suc.prems(3), of 0] unat_nth_page [OF Suc.prems(3), of "Suc n"]
    by (simp_all add: word_less_nat_alt)
  have f: "do_free \<longrightarrow> page_ok (kend s) (PTE2PA (?L a)) \<and> PTE2PA (?L a) \<notin> pt_pages (mem s) r \<union> set xs"
    using Suc.prems(5) by (simp add: frames_Suc)
  obtain t where t: "uvmunmap_loop r a ?stop do_free s = uvmunmap_loop r (a + 4096) ?stop do_free t"
    "pt_un r (set_entry ?L a 0) s xs t ?ps"
    using uvmunmap_step [OF Suc.prems(1) a refl _ _ f] Suc.prems(4) by fastforce
  note T = pt_un_simps [OF t(2)]
  have L: "lookup (mem t) r (nth_page (a + 4096) j) = ?L (nth_page (a + 4096) j)" if "j < n" for j
    using that T(2) [OF nth_page_MAXVA(2) [OF Suc.prems(3), of "Suc j"]]
      set_entry_nth_page [OF Suc.prems(2,3), of j] by (simp add: nth_page_Suc)
  have fr: "frames (mem t) r (a + 4096) n = frames (mem s) r (a + 4096) n"
    unfolding frames_def using L by (intro map_cong) auto
  have al: "page_aligned (a + 4096)" "unat (a + 4096) + 4096 * n \<le> 2 ^ 38"
    using Suc.prems(3) nth_page_aligned [OF Suc.prems(2), of 1] unat_nth_page [OF Suc.prems(3), of 1]
    by (simp_all add: nth_page_def)
  have "\<exists>u. uvmunmap_loop r (a + 4096) (nth_page (a + 4096) n) do_free t = Inr u \<and>
    pt_un r (unmap_range (lookup (mem t) r) (a + 4096) n) t (?ps @ xs) u
      (if do_free then rev (frames (mem t) r (a + 4096) n) else [])"
    using T al Suc.prems(4,5) L
    by (intro Suc.IH) (auto simp: fr frames_Suc nth_page_Suc)
  then obtain u where u: "uvmunmap_loop r a ?stop do_free s = Inr u"
    "pt_un r (unmap_range (lookup (mem t) r) (a + 4096) n) t (?ps @ xs) u
      (if do_free then rev (frames (mem s) r (a + 4096) n) else [])"
    using t(1) unfolding fr nth_page_Suc by auto
  have "4096 * n < 2 ^ 63" using Suc.prems(3) by simp
  note un = unmap_range_Suc [OF Suc.prems(2) this, of ?L, symmetric]
  have "pt_un r (unmap_range ?L a (Suc n)) s xs u
      ((if do_free then rev (frames (mem s) r (a + 4096) n) else []) @ ?ps)"
    unfolding un by (rule pt_un_comp [OF t(2) u(2)]) (simp add: unmap_range_def)
  with u(1) show ?case by (auto simp: frames_Suc)
qed

end
