(* ===== verification/UserMem.thy ===== *)
theory UserMem
  imports Pagetable
begin

text \<open>
  User memory as the rest of the kernel sees it. \<open>uspace\<close> is the address space a page table
  gives to user code: a partial function from virtual addresses to bytes. \<open>copyin\<close>,
  \<open>copyinstr\<close> and \<open>copyout\<close> are proved to read and to update that function, whatever the
  page boundaries and physical frames are, and the routines that grow, shrink and copy an address
  space to keep its invariant \<open>uvm_inv\<close>.
\<close>

subsection \<open>Address spaces\<close>

definition mapped :: "memory \<Rightarrow> u64 \<Rightarrow> u64 \<Rightarrow> bool" where
  "mapped m r va \<longleftrightarrow> lookup m r va AND PTE_V \<noteq> 0"

definition frame_of :: "memory \<Rightarrow> u64 \<Rightarrow> u64 \<Rightarrow> u64" where
  "frame_of m r va = PTE2PA (lookup m r va)"

definition user_ok :: "memory \<Rightarrow> u64 \<Rightarrow> u64 \<Rightarrow> bool" where
  "user_ok m r va \<longleftrightarrow> va < MAXVA \<and> mapped m r va \<and> lookup m r va AND PTE_U \<noteq> 0 \<and> frame_of m r va \<noteq> 0"

definition uspace :: "memory \<Rightarrow> u64 \<Rightarrow> u64 \<Rightarrow> u8 option" where
  "uspace m r va =
     (if user_ok m r va then Some (m (frame_of m r va + (va - PGROUNDDOWN va))) else None)"

text \<open>The longest readable prefix of \<open>n\<close> bytes at an address.\<close>

primrec uread :: "(u64 \<Rightarrow> u8 option) \<Rightarrow> u64 \<Rightarrow> nat \<Rightarrow> u8 list" where
  "uread U va 0 = []"
| "uread U va (Suc n) = (case U va of None \<Rightarrow> [] | Some b \<Rightarrow> b # uread U (va + 1) n)"

definition uwrite :: "(u64 \<Rightarrow> u8 option) \<Rightarrow> u64 \<Rightarrow> u8 list \<Rightarrow> u64 \<Rightarrow> u8 option" where
  "uwrite U a bs va = (if unat (va - a) < length bs then Some (bs ! unat (va - a)) else U va)"

text \<open>
  No frame is a page of the page table, and no two virtual pages share a frame.
\<close>

definition frames_ok :: "memory \<Rightarrow> u64 \<Rightarrow> bool" where
  "frames_ok m r \<longleftrightarrow>
     (\<forall>va<MAXVA. mapped m r va \<longrightarrow> frame_of m r va \<noteq> 0 \<and> frame_of m r va \<notin> pt_pages m r)"

definition frames_inj :: "memory \<Rightarrow> u64 \<Rightarrow> bool" where
  "frames_inj m r \<longleftrightarrow>
     (\<forall>va<MAXVA. \<forall>vb<MAXVA. mapped m r va \<longrightarrow> mapped m r vb \<longrightarrow>
        frame_of m r va = frame_of m r vb \<longrightarrow> PGROUNDDOWN va = PGROUNDDOWN vb)"

definition as_wf :: "memory \<Rightarrow> u64 \<Rightarrow> bool" where
  "as_wf m r \<longleftrightarrow> pt_wf m r \<and> frames_ok m r \<and> frames_inj m r"

lemma frames_okD: "frames_ok m r \<Longrightarrow> va < MAXVA \<Longrightarrow> mapped m r va \<Longrightarrow>
    frame_of m r va \<noteq> 0 \<and> frame_of m r va \<notin> pt_pages m r"
  by (simp add: frames_ok_def)

lemma frames_injD:
  "frames_inj m r \<Longrightarrow> va < MAXVA \<Longrightarrow> vb < MAXVA \<Longrightarrow> mapped m r va \<Longrightarrow> mapped m r vb \<Longrightarrow>
   frame_of m r va = frame_of m r vb \<Longrightarrow> PGROUNDDOWN va = PGROUNDDOWN vb"
  unfolding frames_inj_def by blast

lemma lookup_page [simp]: "lookup m r (PGROUNDDOWN va) = lookup m r va"
  by (simp add: lookup_def split: option.split)

lemma lookup_same_page: "PGROUNDDOWN va = PGROUNDDOWN vb \<Longrightarrow> lookup m r va = lookup m r vb"
  using lookup_page by metis

lemma MAXVA_page: "PGROUNDDOWN va < MAXVA \<longleftrightarrow> va < MAXVA"
proof -
  have "x div 4096 * 4096 < 4096 * 67108864 \<longleftrightarrow> x < 4096 * 67108864" for x :: nat
    by (metis div_less_iff_less_mult mult.commute nat_mult_less_cancel1 zero_less_numeral)
  from this [of "unat va"] show ?thesis by (simp add: less_MAXVA_iff unat_PGROUNDDOWN)
qed

lemma user_ok_page [simp]: "user_ok m r (PGROUNDDOWN va) = user_ok m r va"
  by (simp add: user_ok_def mapped_def frame_of_def MAXVA_page)

lemma user_ok_same_page: "PGROUNDDOWN va = PGROUNDDOWN vb \<Longrightarrow> user_ok m r va = user_ok m r vb"
  using user_ok_page by metis

lemma frame_of_aligned [simp]: "page_aligned (frame_of m r va)"
  by (simp add: frame_of_def)

lemma frame_of_page [simp]:
  "frame_of m r (PGROUNDDOWN va) = frame_of m r va" "mapped m r (PGROUNDDOWN va) = mapped m r va"
  by (simp_all add: frame_of_def mapped_def)

lemma user_okD: "user_ok m r va \<Longrightarrow> frame_of m r va \<noteq> 0 \<and> mapped m r va \<and> va < MAXVA"
  by (simp add: user_ok_def)

lemma walkaddr_eq:
  assumes "pt_wf (mem s) r"
  shows "walkaddr r va s = Inr (if user_ok (mem s) r va then frame_of (mem s) r va else 0)"
proof (cases "va < MAXVA")
  case True
  show ?thesis
  proof (cases "node (mem s) r (vpath va)")
    case None
    then show ?thesis
      using True walk_False [OF True, of r s]
      by (simp add: walkaddr_def user_ok_def mapped_def lookup_def leD)
  next
    case (Some q)
    have "slot q (PX 0 va) \<noteq> 0"
      using assms node_in_pages [OF Some]
      by (intro slot_nonzero PX_less) (auto dest: pt_wf_aligned pt_wf_nonzero)
    then show ?thesis
      using True walk_False [OF True, of r s] Some
      by (auto simp: walkaddr_def user_ok_def mapped_def frame_of_def lookup_def leD)
  qed
qed (simp add: walkaddr_def user_ok_def leI)

subsection \<open>Reading\<close>

lemma same_page_offset:
  assumes "unat va mod 4096 + i < 4096"
  shows "PGROUNDDOWN (va + of_nat i) = PGROUNDDOWN va"
    and "va + of_nat i - PGROUNDDOWN (va + of_nat i) = va - PGROUNDDOWN va + of_nat i"
proof -
  have "unat (va - PGROUNDDOWN va + of_nat i) < 4096"
    using assms by (simp add: unat_word_ariths(1) unat_page_offset unat_of_nat_small)
  then have "PGROUNDDOWN (PGROUNDDOWN va + (va - PGROUNDDOWN va + of_nat i)) = PGROUNDDOWN va"
    by (intro PGROUNDDOWN_offset) simp_all
  then show "PGROUNDDOWN (va + of_nat i) = PGROUNDDOWN va" by (simp add: algebra_simps)
  then show "va + of_nat i - PGROUNDDOWN (va + of_nat i) = va - PGROUNDDOWN va + of_nat i" by simp
qed

lemma uspace_in_page:
  "unat va mod 4096 + i < 4096 \<Longrightarrow> user_ok m r va \<Longrightarrow>
   uspace m r (va + of_nat i) = Some (m (frame_of m r va + (va - PGROUNDDOWN va) + of_nat i))"
  using same_page_offset [of va i] user_ok_same_page [of "va + of_nat i" va m r]
    lookup_same_page [of "va + of_nat i" va m r]
  by (simp add: uspace_def frame_of_def algebra_simps)

lemma uread_append:
  "length (uread U va n) = n \<Longrightarrow> uread U va (n + k) = uread U va n @ uread U (va + of_nat n) k"
proof (induction n arbitrary: va)
  case (Suc n)
  then show ?case using Suc.IH [of "va + 1"] by (auto split: option.splits simp: add.assoc)
qed simp

lemma uread_eq_bytes:
  "(\<And>i. i < n \<Longrightarrow> U (va + of_nat i) = Some (m (p + of_nat i))) \<Longrightarrow> uread U va n = bytes m p n"
proof (induction n arbitrary: va p)
  case (Suc n)
  have "U va = Some (m p)" using Suc.prems [of 0] by simp
  moreover have "uread U (va + 1) n = bytes m (p + 1) n"
    using Suc.prems [of "Suc _"] by (intro Suc.IH) (simp add: add.assoc)
  ultimately show ?case by (simp add: bytes_Suc)
qed (simp add: bytes_0)

lemma length_uread: "length (uread U va n) \<le> n"
  by (induction n arbitrary: va) (auto split: option.split)

lemma uread_chunk:
  assumes "user_ok m r va" "left \<noteq> 0"
  defines "n \<equiv> unat (chunk va left)"
  shows "uread (uspace m r) va (unat left) =
    bytes m (frame_of m r va + (va - PGROUNDDOWN va)) n @
    uread (uspace m r) (PGROUNDDOWN va + 4096) (unat (left - chunk va left))"
proof -
  let ?p = "frame_of m r va + (va - PGROUNDDOWN va)"
  have n: "n = min (unat left) (4096 - unat va mod 4096)" by (simp add: n_def unat_chunk)
  have rd: "uread (uspace m r) va n = bytes m ?p n"
  proof (rule uread_eq_bytes)
    fix i assume "i < n"
    then have "unat va mod 4096 + i < 4096" using n by auto
    then show "uspace m r (va + of_nat i) = Some (m (?p + of_nat i))"
      using assms(1) by (rule uspace_in_page)
  qed
  have k: "unat (left - chunk va left) = unat left - n"
    using n by (simp add: unat_sub_if' n_def)
  have split: "uread (uspace m r) va (n + (unat left - n)) =
      bytes m ?p n @ uread (uspace m r) (va + of_nat n) (unat left - n)"
    using uread_append [of "uspace m r" va n] rd by simp
  have "uread (uspace m r) (va + of_nat n) (unat left - n) =
      uread (uspace m r) (PGROUNDDOWN va + 4096) (unat left - n)"
  proof (cases "unat left = n")
    case False
    then have "n = 4096 - unat va mod 4096" using n by simp
    then have "n = unat (4096 - (va - PGROUNDDOWN va))" by (simp only: unat_page_rest)
    then have "of_nat n = (4096 - (va - PGROUNDDOWN va))" by simp
    then have "va + of_nat n = PGROUNDDOWN va + 4096" by (simp add: algebra_simps)
    then show ?thesis by simp
  qed simp
  with split k n show ?thesis by simp
qed

lemma copyin_eq:
  "pt_wf (mem s) r \<Longrightarrow> copyin r va left s =
   (let bs = uread (uspace (mem s) r) va (unat left)
    in Inr (if length bs = unat left then 0 else - 1, bs))"
proof (induction r va left s rule: copyin.induct)
  case (1 r va left s)
  let ?U = "uspace (mem s) r" and ?n = "chunk va left"
  show ?case
  proof (cases "left \<noteq> 0 \<and> user_ok (mem s) r va")
    case True
    then have l: "left > 0" "unat left \<noteq> 0" by (simp_all add: word_neq_0_conv [symmetric] unat_eq_0)
    have wa: "walkaddr r (PGROUNDDOWN va) s = Inr (frame_of (mem s) r va)" "frame_of (mem s) r va \<noteq> 0"
      using walkaddr_eq [OF "1.prems"] True user_okD by simp_all
    have IH: "copyin r (PGROUNDDOWN va + 4096) (left - ?n) s =
        (let bs = uread ?U (PGROUNDDOWN va + 4096) (unat (left - ?n))
         in Inr (if length bs = unat (left - ?n) then 0 else - 1, bs))"
      using "1.IH" [OF l(1) refl wa refl] "1.prems" by simp
    have "unat (left - ?n) = unat left - unat ?n" "unat ?n \<le> unat left"
      by (simp_all add: unat_sub_if' unat_chunk)
    then show ?thesis
      using l wa IH uread_chunk [of "mem s" r va left] True
      by (subst copyin.simps) (auto simp: Let_def)
  next
    case False
    show ?thesis
    proof (cases "left = 0")
      case True
      then show ?thesis by (subst copyin.simps) simp
    next
      case l: False
      then have "uread ?U va (unat left) = []" "unat left \<noteq> 0"
        using False by (cases "unat left"; simp add: uspace_def unat_eq_0)+
      with l False show ?thesis
        using walkaddr_eq [OF "1.prems", of "PGROUNDDOWN va"]
        by (subst copyin.simps) (simp add: Let_def word_neq_0_conv [symmetric])
    qed
  qed
qed


lemma copyinstr_page_eq:
  "copyinstr_page m p n =
   (let bs = bytes m p n in
    if 0 \<in> set bs then (takeWhile (\<lambda>b. b \<noteq> 0) bs @ [0], True) else (bs, False))"
proof (induction n arbitrary: p)
  case (Suc n)
  then show ?case by (auto simp: bytes_Suc Let_def)
qed (simp add: bytes_0)

lemma copyinstr_eq:
  "pt_wf (mem s) r \<Longrightarrow> copyinstr r va left s =
   (let bs = uread (uspace (mem s) r) va (unat left)
    in Inr (if 0 \<in> set bs then (0, takeWhile (\<lambda>b. b \<noteq> 0) bs @ [0]) else (- 1, bs)))"
proof (induction r va left s rule: copyinstr.induct)
  case (1 r va left s)
  let ?U = "uspace (mem s) r" and ?n = "chunk va left"
  show ?case
  proof (cases "left \<noteq> 0 \<and> user_ok (mem s) r va")
    case True
    let ?bs = "bytes (mem s) (frame_of (mem s) r va + (va - PGROUNDDOWN va)) (unat ?n)"
    have l: "left > 0" using True by (simp add: word_neq_0_conv [symmetric])
    have wa: "walkaddr r (PGROUNDDOWN va) s = Inr (frame_of (mem s) r va)" "frame_of (mem s) r va \<noteq> 0"
      using walkaddr_eq [OF "1.prems"] True user_okD by simp_all
    note rd = uread_chunk [of "mem s" r va left]
    show ?thesis
    proof (cases "0 \<in> set ?bs")
      case True
      then show ?thesis
        using l wa rd \<open>left \<noteq> 0 \<and> user_ok (mem s) r va\<close>
        by (subst copyinstr.simps) (auto simp: Let_def copyinstr_page_eq takeWhile_append1)
    next
      case False
      then have none: "copyinstr_page (mem s) (frame_of (mem s) r va + (va - PGROUNDDOWN va)) (unat ?n) =
          (?bs, False)" by (simp add: copyinstr_page_eq Let_def)
      have IH: "copyinstr r (PGROUNDDOWN va + 4096) (left - ?n) s =
          (let bs = uread ?U (PGROUNDDOWN va + 4096) (unat (left - ?n))
           in Inr (if 0 \<in> set bs then (0, takeWhile (\<lambda>b. b \<noteq> 0) bs @ [0]) else (- 1, bs)))"
        using "1.IH" [OF l refl wa refl none [symmetric], of ?bs False] "1.prems" by simp
      show ?thesis
        using l wa rd IH none False \<open>left \<noteq> 0 \<and> user_ok (mem s) r va\<close>
        by (subst copyinstr.simps) (auto simp: Let_def takeWhile_append)
    qed
  next
    case False
    show ?thesis
    proof (cases "left = 0")
      case True
      then show ?thesis by (subst copyinstr.simps) simp
    next
      case l: False
      then have "uread ?U va (unat left) = []" "unat left \<noteq> 0"
        using False by (cases "unat left"; simp add: uspace_def unat_eq_0)+
      with l False show ?thesis
        using walkaddr_eq [OF "1.prems", of "PGROUNDDOWN va"]
        by (subst copyinstr.simps) (simp add: Let_def word_neq_0_conv [symmetric])
    qed
  qed
qed


subsection \<open>Writing\<close>

lemma uwrite_append:
  assumes "length (bs @ cs) < 2 ^ 64"
  shows "uwrite (uwrite U a bs) (a + of_nat (length bs)) cs = uwrite U a (bs @ cs)"
proof
  fix va
  let ?n = "length bs" and ?d = "unat (va - a)"
  have un: "unat (of_nat ?n :: u64) = ?n" using assms by (simp add: unat_of_nat_small)
  have *: "va - (a + of_nat ?n) = (va - a) - of_nat ?n" by simp
  show "uwrite (uwrite U a bs) (a + of_nat ?n) cs va = uwrite U a (bs @ cs) va"
  proof (cases "?d < ?n")
    case True
    then have "unat (va - a - of_nat ?n) = ?d + 2 ^ 64 - ?n" by (simp add: unat_sub_if' un)
    then have "\<not> unat (va - a - of_nat ?n) < length cs" using assms by simp
    with True show ?thesis unfolding uwrite_def * by (simp add: nth_append)
  next
    case False
    then have "unat (va - a - of_nat ?n) = ?d - ?n" by (simp add: unat_sub_if' un)
    with False show ?thesis unfolding uwrite_def * by (auto simp: nth_append)
  qed
qed

lemma uwrite_Nil [simp]: "uwrite U a [] = U"
  by (simp add: uwrite_def fun_eq_iff)

lemma length_uread_cong:
  assumes "\<And>va. U va = None \<longleftrightarrow> U' va = None"
  shows "length (uread U va n) = length (uread U' va n)"
proof (induction n arbitrary: va)
  case (Suc n)
  then show ?case using assms [of va] by (cases "U va"; cases "U' va") auto
qed simp

text \<open>What a copy to user memory leaves alone.\<close>

definition copied :: "u64 \<Rightarrow> 'a phys_scheme \<Rightarrow> 'a phys_scheme \<Rightarrow> bool" where
  "copied r s s' \<longleftrightarrow> (\<exists>m. s' = s\<lparr>mem := m\<rparr>) \<and> as_wf (mem s') r \<and>
     lookup (mem s') r = lookup (mem s) r \<and> pt_pages (mem s') r = pt_pages (mem s) r \<and>
     same_outside {frame_of (mem s) r va | va. user_ok (mem s) r va} (mem s) (mem s')"

lemma user_ok_cong: "lookup m' r = lookup m r \<Longrightarrow> user_ok m' r = user_ok m r"
  by (simp add: fun_eq_iff user_ok_def mapped_def frame_of_def)

lemma copied_refl: "as_wf (mem s) r \<Longrightarrow> copied r s s"
  unfolding copied_def by (auto intro: exI [of _ "mem s"])

lemma copied_trans: "copied r s t \<Longrightarrow> copied r t u \<Longrightarrow> copied r s u"
proof -
  assume a: "copied r s t" and b: "copied r t u"
  then obtain m where "u = s\<lparr>mem := m\<rparr>" by (auto simp: copied_def)
  moreover from a b have "user_ok (mem t) r = user_ok (mem s) r" "frame_of (mem t) r = frame_of (mem s) r"
    using user_ok_cong [of "mem t" r "mem s"] by (simp_all add: copied_def frame_of_def fun_eq_iff)
  then have "same_outside {frame_of (mem s) r va | va. user_ok (mem s) r va} (mem s) (mem u)"
    using a b by (intro same_outside_trans [of _ "mem s" "mem t" _ "mem u"]) (auto simp: copied_def)
  ultimately show ?thesis using a b unfolding copied_def by (intro conjI exI [of _ m]) simp_all
qed

lemma frame_offset:
  "PGROUNDDOWN (frame_of m r va + (va - PGROUNDDOWN va)) = frame_of m r va"
  by (rule PGROUNDDOWN_offset) (simp_all add: unat_page_offset)

lemma near_same_page:
  assumes "unat va mod 4096 + n \<le> 4096" "unat (vb - va) < n"
  shows "PGROUNDDOWN vb = PGROUNDDOWN va"
  using same_page_offset(1) [of va "unat (vb - va)"] assms by simp

lemma write_chunk:
  assumes wf: "as_wf (mem s) r" and u: "user_ok (mem s) r va"
    and fits: "unat va mod 4096 + length bs \<le> 4096"
  defines "s' \<equiv> s\<lparr>mem := put_bytes (mem s) (frame_of (mem s) r va + (va - PGROUNDDOWN va)) bs\<rparr>"
  shows "copied r s s'"
    and "uspace (mem s') r = uwrite (uspace (mem s) r) va bs"
proof -
  let ?m = "mem s" and ?m' = "mem s'" and ?f = "frame_of (mem s) r va"
  let ?a = "?f + (va - PGROUNDDOWN va)"
  have len: "length bs < 2 ^ 64" using fits by simp
  have in_f: "unat (x - ?a) < length bs \<Longrightarrow> PGROUNDDOWN x = ?f" for x
  proof -
    assume "unat (x - ?a) < length bs"
    moreover have "unat ?a mod 4096 = unat va mod 4096"
      using unat_page_offset [of ?a] by (simp add: frame_offset unat_page_offset)
    ultimately show "PGROUNDDOWN x = ?f"
      using near_same_page [of ?a "length bs" x] fits by (simp add: frame_offset)
  qed
  have m': "?m' x = (if unat (x - ?a) < length bs then bs ! unat (x - ?a) else ?m x)" for x
    using len by (simp add: s'_def put_bytes_apply)
  have out: "same_outside {?f} ?m ?m'"
    unfolding same_outside_def using in_f by (simp only: m' singleton_iff) metis
  have "page_aligned r" "pt_pages ?m r \<inter> {?f} = {}" "pt_wf ?m r"
    using wf u by (auto simp: as_wf_def pt_wf_def dest!: user_okD frames_okD)
  note fr = pt_frame [OF out this(1,2)]
  have L: "lookup ?m' r = lookup ?m r" by (rule ext) (rule fr(3))
  have same: "mapped ?m' r = mapped ?m r" "frame_of ?m' r = frame_of ?m r"
    "user_ok ?m' r = user_ok ?m r"
    by (simp_all only: mapped_def frame_of_def fun_eq_iff user_ok_def L simp_thms)
  have "as_wf ?m' r" using wf unfolding as_wf_def frames_ok_def frames_inj_def same fr(1,2) .
  then show "copied r s s'"
    unfolding copied_def fr(1) L
    using u by (auto simp: s'_def [symmetric] intro!: same_outside_mono [OF out]) (auto simp: s'_def)
  show "uspace ?m' r = uwrite (uspace ?m r) va bs"
  proof
    fix vb
    show "uspace ?m' r vb = uwrite (uspace ?m r) va bs vb"
    proof (cases "PGROUNDDOWN vb = PGROUNDDOWN va")
      case True
      then have "user_ok ?m r vb" "frame_of ?m r vb = ?f"
        using u user_ok_same_page [OF True, of ?m r] lookup_same_page [OF True, of ?m r]
        by (simp_all add: frame_of_def)
      moreover have "?f + (vb - PGROUNDDOWN va) - ?a = vb - va" by simp
      ultimately show ?thesis using True by (simp add: uspace_def same m' uwrite_def)
    next
      case False
      then have far: "\<not> unat (vb - va) < length bs" using near_same_page fits by blast
      have "?m' (frame_of ?m r vb + (vb - PGROUNDDOWN vb)) = ?m (frame_of ?m r vb + (vb - PGROUNDDOWN vb))"
        if "user_ok ?m r vb"
        using out wf u that False frames_injD [of ?m r vb va]
        by (intro same_outsideD) (auto simp: frame_offset as_wf_def dest!: user_okD)
      with far show ?thesis by (simp add: uspace_def same uwrite_def)
    qed
  qed
qed


lemma uspace_dom_cong: "lookup m' r = lookup m r \<Longrightarrow> uspace m' r va = None \<longleftrightarrow> uspace m r va = None"
  using user_ok_cong [of m' r m] by (simp add: uspace_def fun_eq_iff)

lemma copyout_eq:
  "as_wf (mem s) r \<Longrightarrow> unat left \<le> length src \<Longrightarrow>
   \<exists>s'. copyout r va src left s =
       Inr (if length (uread (uspace (mem s) r) va (unat left)) = unat left then 0 else - 1, s') \<and>
     copied r s s' \<and>
     uspace (mem s') r = uwrite (uspace (mem s) r) va
       (take (length (uread (uspace (mem s) r) va (unat left))) src)"
proof (induction r va src left s rule: copyout.induct)
  case (1 r va src left s)
  let ?U = "uspace (mem s) r" and ?n = "chunk va left" and ?va = "PGROUNDDOWN va + 4096"
  have pt: "pt_wf (mem s) r" using "1.prems" by (simp add: as_wf_def)
  show ?case
  proof (cases "left \<noteq> 0 \<and> user_ok (mem s) r va")
    case True
    let ?bs = "take (unat ?n) src" and ?k = "unat (left - ?n)"
    let ?t = "s\<lparr>mem := put_bytes (mem s) (frame_of (mem s) r va + (va - PGROUNDDOWN va)) ?bs\<rparr>"
    have l: "left > 0" using True by (simp add: word_neq_0_conv [symmetric])
    have wa: "walkaddr r (PGROUNDDOWN va) s = Inr (frame_of (mem s) r va)" "frame_of (mem s) r va \<noteq> 0"
      using walkaddr_eq [OF pt] True user_okD by simp_all
    have n: "unat ?n = min (unat left) (4096 - unat va mod 4096)" by (rule unat_chunk)
    have k: "?k = unat left - unat ?n" "unat ?n \<le> unat left"
      using n by (simp_all add: unat_sub_if')
    have bs: "length ?bs = unat ?n" "unat va mod 4096 + length ?bs \<le> 4096"
      using "1.prems"(2) k(2) n mod_less_divisor [of 4096 "unat va"] by auto
    note w = write_chunk [OF "1.prems"(1) _ bs(2)]
    have t: "copied r s ?t" "uspace (mem ?t) r = uwrite ?U va ?bs" using w True by simp_all
    have "as_wf (mem ?t) r" "?k \<le> length (drop (unat ?n) src)"
      using t(1) k "1.prems"(2) by (auto simp: copied_def)
    from "1.IH" [OF l refl wa refl this] obtain u where
      u: "copyout r ?va (drop (unat ?n) src) (left - ?n) ?t =
          Inr (if length (uread (uspace (mem ?t) r) ?va ?k) = ?k then 0 else - 1, u)"
      "copied r ?t u" "uspace (mem u) r = uwrite (uspace (mem ?t) r) ?va
         (take (length (uread (uspace (mem ?t) r) ?va ?k)) (drop (unat ?n) src))" by blast
    have len: "length (uread (uspace (mem ?t) r) ?va ?k) = length (uread ?U ?va ?k)"
      using t(1) unfolding copied_def by (intro length_uread_cong uspace_dom_cong) blast
    let ?j = "length (uread ?U ?va ?k)"
    have tot: "length (uread ?U va (unat left)) = unat ?n + ?j"
      using uread_chunk [of "mem s" r va left] True by simp
    have "copyout r va src left s = copyout r ?va (drop (unat ?n) src) (left - ?n) ?t"
      using l wa by (subst copyout.simps) (simp add: Let_def)
    also have "\<dots> = Inr (if length (uread ?U va (unat left)) = unat left then 0 else - 1, u)"
      using u(1) k unfolding len tot by auto
    finally have res: "copyout r va src left s =
        Inr (if length (uread ?U va (unat left)) = unat left then 0 else - 1, u)" .
    have "uspace (mem u) r = uwrite ?U va (take (unat ?n + ?j) src)"
    proof (cases "?k = 0")
      case True
      then show ?thesis using u(3) t(2) by simp
    next
      case False
      then have "unat ?n = unat (4096 - (va - PGROUNDDOWN va))"
        using n k by (simp only: unat_page_rest) simp
      then have "of_nat (unat ?n) = 4096 - (va - PGROUNDDOWN va)" by simp
      then have "?va = va + of_nat (length ?bs)" using bs(1) by (simp add: algebra_simps)
      moreover have "length (?bs @ take ?j (drop (unat ?n) src)) < 2 ^ 64"
      proof -
        have "length (?bs @ take ?j (drop (unat ?n) src)) \<le> unat left"
          using bs(1) length_uread [of ?U ?va ?k] k by auto
        also have "\<dots> < 2 ^ 64" by simp
        finally show ?thesis .
      qed
      ultimately show ?thesis
        using u(3) t(2) uwrite_append [of ?bs "take ?j (drop (unat ?n) src)" ?U va]
        unfolding len by (simp add: take_add)
    qed
    with res copied_trans [OF t(1) u(2)] tot show ?thesis by (intro exI [of _ u]) simp
  next
    case False
    show ?thesis
    proof (cases "left = 0")
      case True
      then show ?thesis using copied_refl "1.prems"(1) by (subst copyout.simps) simp
    next
      case l: False
      then have "uread ?U va (unat left) = []" "unat left \<noteq> 0"
        using False by (cases "unat left"; simp add: uspace_def unat_eq_0)+
      with l False copied_refl [OF "1.prems"(1)] show ?thesis
        using walkaddr_eq [OF pt, of "PGROUNDDOWN va"]
        by (subst copyout.simps) (simp add: Let_def word_neq_0_conv [symmetric])
    qed
  qed
qed

lemma uread_full: "length (uread U va n) = n \<longleftrightarrow> (\<forall>i<n. U (va + of_nat i) \<noteq> None)"
proof (induction n arbitrary: va)
  case (Suc n)
  show ?case
    using Suc [of "va + 1"] by (simp add: All_less_Suc2 ac_simps split: option.split)
qed simp

lemma uread_uwrite:
  assumes "length bs < 2 ^ 64"
  shows "uread (uwrite U va bs) va (length bs) = bs"
proof -
  have "uread (uwrite U va bs) (va + of_nat k) (length bs - k) = drop k bs" if "k \<le> length bs" for k
    using that
  proof (induction "length bs - k" arbitrary: k)
    case (Suc n)
    then have k: "k < length bs" "length bs - k = Suc (length bs - Suc k)" by auto
    have "uwrite U va bs (va + of_nat k) = Some (bs ! k)"
      using k(1) assms by (simp add: uwrite_def unat_of_nat_small)
    moreover have "uread (uwrite U va bs) (va + of_nat (Suc k)) (length bs - Suc k) = drop (Suc k) bs"
      using Suc by (intro Suc.hyps) auto
    ultimately show ?case
      unfolding k(2) using Cons_nth_drop_Suc [OF k(1)] by (simp add: ac_simps)
  qed simp
  from this [of 0] show ?thesis by simp
qed

end
