(* ===== verification/Uvm.thy ===== *)
theory Uvm
  imports UserMem
begin

text \<open>
  The routines of \<^verbatim>\<open>kernel/vm.c\<close> that grow, shrink, copy and free user address spaces.
  The invariant \<open>uvm_inv\<close> says that a process of size \<open>sz\<close> has exactly its pages mapped
  below the trap frame; the pages of an address space are those of its page table and the frames it
  maps. The properties say what each routine does to \<open>uspace\<close>, on success and on failure, and
  that no physical page is lost or shared.
\<close>

subsection \<open>The pages of an address space\<close>

definition as_frames :: "memory \<Rightarrow> u64 \<Rightarrow> u64 set" where
  "as_frames m r = {frame_of m r va | va. va < MAXVA \<and> mapped m r va}"

definition as_pages :: "memory \<Rightarrow> u64 \<Rightarrow> u64 set" where
  "as_pages m r = pt_pages m r \<union> as_frames m r"

definition as_inv :: "u64 \<Rightarrow> 'a phys_scheme \<Rightarrow> u64 list \<Rightarrow> bool" where
  "as_inv r s xs \<longleftrightarrow> pt_inv r s xs \<and> as_wf (mem s) r \<and> as_frames (mem s) r \<inter> set xs = {}"

definition uvm_inv :: "u64 \<Rightarrow> u64 \<Rightarrow> 'a phys_scheme \<Rightarrow> u64 list \<Rightarrow> bool" where
  "uvm_inv r sz s xs \<longleftrightarrow> as_inv r s xs \<and> sz \<le> TRAPFRAME \<and>
     (\<forall>va<PGROUNDUP sz. mapped (mem s) r va \<and> PTE_FLAGS (lookup (mem s) r va) \<noteq> PTE_V \<and>
        page_ok (kend s) (frame_of (mem s) r va)) \<and>
     (\<forall>va<TRAPFRAME. PGROUNDUP sz \<le> va \<longrightarrow> \<not> mapped (mem s) r va)"

text \<open>A page that belongs to neither the address space nor the free list.\<close>

definition private_page :: "u64 \<Rightarrow> 'a phys_scheme \<Rightarrow> u64 list \<Rightarrow> u64 \<Rightarrow> bool" where
  "private_page r s xs p \<longleftrightarrow> page_ok (kend s) p \<and> p \<notin> as_pages (mem s) r \<and> p \<notin> set xs"

lemma as_invD:
  assumes "as_inv r s xs"
  shows "pt_inv r s xs" "kmem_inv s xs" "pt_wf (mem s) r" "as_wf (mem s) r" "page_aligned r"
    "as_pages (mem s) r \<inter> set xs = {}"
  using assms by (auto simp: as_inv_def pt_inv_def as_wf_def pt_wf_def as_pages_def)

lemma mapped_in_frames: "va < MAXVA \<Longrightarrow> mapped m r va \<Longrightarrow> frame_of m r va \<in> as_frames m r"
  by (auto simp: as_frames_def)

lemma as_wf_frames: "as_wf m r \<Longrightarrow> as_frames m r \<inter> pt_pages m r = {} \<and> 0 \<notin> as_frames m r"
  by (auto simp: as_wf_def as_frames_def dest: frames_okD)

subsection \<open>Changes outside an address space\<close>

lemma as_outside:
  assumes out: "same_outside P m m'" and wf: "as_wf m r" and P: "P \<inter> as_pages m r = {}"
  shows "lookup m' r = lookup m r" "uspace m' r = uspace m r" "as_pages m' r = as_pages m r"
    "pt_pages m' r = pt_pages m r" "as_frames m' r = as_frames m r" "as_wf m' r"
proof -
  have al: "page_aligned r" using wf by (simp add: as_wf_def pt_wf_def)
  have "pt_pages m r \<inter> P = {}" using P by (auto simp: as_pages_def)
  note fr = pt_frame [OF out al this]
  show L: "lookup m' r = lookup m r" by (rule ext) (rule fr(3))
  show pp: "pt_pages m' r = pt_pages m r" by (rule fr(1))
  have same: "mapped m' r = mapped m r" "frame_of m' r = frame_of m r" "user_ok m' r = user_ok m r"
    by (simp_all only: mapped_def frame_of_def fun_eq_iff user_ok_def L simp_thms)
  show af: "as_frames m' r = as_frames m r" by (simp only: as_frames_def same)
  show "as_pages m' r = as_pages m r" by (simp only: as_pages_def af pp)
  show "as_wf m' r" using wf unfolding as_wf_def frames_ok_def frames_inj_def same fr(1,2) .
  show "uspace m' r = uspace m r"
  proof
    fix va
    have "m' (frame_of m r va + (va - PGROUNDDOWN va)) = m (frame_of m r va + (va - PGROUNDDOWN va))"
      if "user_ok m r va"
      using that P mapped_in_frames [of va m r]
      by (intro same_outsideD [OF out]) (auto simp: frame_offset as_pages_def dest!: user_okD)
    then show "uspace m' r va = uspace m r va" by (simp add: uspace_def same)
  qed
qed

lemma as_inv_outside:
  assumes "as_inv r s xs" "same_outside P (mem s) (mem s')" "P \<inter> as_pages (mem s) r = {}"
    and "kmem_inv s' ys" "set ys \<inter> as_pages (mem s) r = {}" "only_mem s s'"
  shows "as_inv r s' ys"
proof -
  note o = as_outside [OF assms(2) as_invD(4) [OF assms(1)] assms(3)]
  have "pt_pages (mem s) r \<inter> P = {}" using assms(3) by (auto simp: as_pages_def)
  then have "inner_ok (mem s') r"
    using inner_ok_frame [OF assms(2) as_invD(5) [OF assms(1)]] assms(1)
    by (simp add: as_inv_def pt_inv_def)
  with assms o show ?thesis
    by (auto simp: as_inv_def pt_inv_def as_wf_def as_pages_def only_mem_simps(1))
qed

subsection \<open>Mapping a page\<close>

lemma small_word: "(\<And>n. bit (x :: u64) n \<Longrightarrow> n < 10) \<Longrightarrow> x < 1024"
proof -
  assume "\<And>n. bit x n \<Longrightarrow> n < 10"
  then have "x = take_bit 10 x" by (intro bit_word_eqI) (auto simp: bit_simps)
  then have "unat x = unat x mod 2 ^ 10" by (metis unat_take_bit_eq)
  then show "x < 1024" by (simp add: word_less_nat_alt)
qed

lemma pte_mk:
  assumes "perm < 1024"
  shows "PTE2PA (PA2PTE p OR perm OR PTE_V) = PGROUNDDOWN p"
    "PTE_FLAGS (PA2PTE p OR perm OR PTE_V) = perm OR PTE_V"
    "(PA2PTE p OR perm OR PTE_V) AND PTE_U \<noteq> 0 \<longleftrightarrow> perm AND PTE_U \<noteq> 0"
proof -
  have "perm OR 1 < 1024"
    using small_flags_bit [OF assms] by (intro small_word) (auto simp: bit_simps)
  then show "PTE2PA (PA2PTE p OR perm OR PTE_V) = PGROUNDDOWN p"
    "PTE_FLAGS (PA2PTE p OR perm OR PTE_V) = perm OR PTE_V"
    using PTE2PA_mk [of "perm OR 1" p] PTE_FLAGS_mk [of "perm OR 1" p] by simp_all
  have "(16 :: u64) = 2 ^ 4" by simp
  then show "(PA2PTE p OR perm OR PTE_V) AND PTE_U \<noteq> 0 \<longleftrightarrow> perm AND PTE_U \<noteq> 0"
    by (simp only: and_exp_eq_0_iff_not_bit) (simp add: bit_simps PA2PTE_def)
qed

text \<open>The entries changed only by a fresh mapping of page \<open>a\<close> to frame \<open>p\<close>.\<close>

lemma pt_to_pages:
  assumes "pt_to r L s xs s' ys"
  shows "set ys \<union> pt_pages (mem s') r = set xs \<union> pt_pages (mem s) r" "set ys \<subseteq> set xs"
    "pt_pages (mem s') r \<subseteq> set xs \<union> pt_pages (mem s) r"
  using assms by (auto simp: pt_to_def)

lemma map_fresh_wf:
  assumes inv: "as_inv r s ys" and p: "private_page r s ys p"
    and to: "pt_to r (set_entry (lookup (mem s) r) a (PA2PTE p OR perm OR PTE_V)) s ys s' zs"
    and a: "page_aligned a" "a < MAXVA" "\<not> mapped (mem s) r a" "perm < 1024"
  shows "as_inv r s' zs"
    and "set zs \<union> as_pages (mem s') r = set ys \<union> as_pages (mem s) r \<union> {p}"
    and "uspace (mem s') r va = (if PGROUNDDOWN va = a
      then (if perm AND PTE_U \<noteq> 0 then Some (mem s (p + (va - a))) else None)
      else uspace (mem s) r va)"
proof -
  let ?m = "mem s" and ?m' = "mem s'" and ?v = "PA2PTE p OR perm OR PTE_V"
  have p': "page_aligned p" "p \<noteq> 0" "p \<notin> pt_pages ?m r" "p \<notin> as_frames ?m r" "p \<notin> set ys"
    using p inv by (auto simp: private_page_def as_pages_def page_ok_def as_inv_def pt_inv_def kmem_inv_def)
  have v: "PTE2PA ?v = p" "?v AND 1 \<noteq> 0" using pte_mk(1) [OF a(4), of p] p'(1) by simp_all
  have L: "lookup ?m' r vb = (if PGROUNDDOWN vb = a then ?v else lookup ?m r vb)" if "vb < MAXVA" for vb
    using pt_to_simps(2) [OF to that] a(1) by (simp add: set_entry_def)
  have mp: "mapped ?m' r vb \<longleftrightarrow> PGROUNDDOWN vb = a \<or> mapped ?m r vb"
    "frame_of ?m' r vb = (if PGROUNDDOWN vb = a then p else frame_of ?m r vb)" if "vb < MAXVA" for vb
    using L [OF that] v by (simp_all add: mapped_def frame_of_def)
  have a_page: "PGROUNDDOWN vb = a \<Longrightarrow> vb < MAXVA" for vb using a(2) MAXVA_page by metis
  have frames: "as_frames ?m' r = insert p (as_frames ?m r)"
  proof -
    have none: "PGROUNDDOWN vb = a \<Longrightarrow> \<not> mapped ?m r vb" for vb
      using a(3) lookup_same_page [of vb a] a(1) by (simp add: mapped_def)
    have "frame_of ?m' r vb \<in> insert p (as_frames ?m r)" if "vb < MAXVA" "mapped ?m' r vb" for vb
      using mp [OF that(1)] that mapped_in_frames by auto
    moreover have "frame_of ?m r vb \<in> as_frames ?m' r" if "vb < MAXVA" "mapped ?m r vb" for vb
      using mp [OF that(1)] that mapped_in_frames [of vb ?m' r] none [of vb] by (auto split: if_splits)
    moreover have "p \<in> as_frames ?m' r"
      using mp [OF a(2)] a mapped_in_frames [of a ?m' r] by simp
    ultimately show ?thesis by (auto simp: as_frames_def)
  qed
  note pages = pt_to_pages [OF to]
  have tree: "f \<notin> pt_pages ?m' r" if "f = p \<or> f \<in> as_frames ?m r" for f
    using that p' pages(3) as_wf_frames [OF as_invD(4) [OF inv]] inv by (auto simp: as_inv_def)
  have "frames_ok ?m' r"
    using p'(2) tree mp frames inv
    by (auto simp: frames_ok_def as_inv_def as_wf_def dest: frames_okD mapped_in_frames)
  moreover have "frames_inj ?m' r"
    unfolding frames_inj_def using mp p'(4) inv mapped_in_frames [of _ ?m r]
    by (auto simp: as_inv_def as_wf_def dest: frames_injD split: if_splits)
  ultimately show inv': "as_inv r s' zs"
    using pt_to_simps(1) [OF to] pages frames p'(5) inv
    by (auto simp: as_inv_def as_wf_def pt_inv_def)
  show "set zs \<union> as_pages ?m' r = set ys \<union> as_pages ?m r \<union> {p}"
    using pages(1) frames by (auto simp: as_pages_def)
  have out: "same_outside (pt_pages ?m' r) ?m ?m'" using to by (simp add: pt_to_def)
  have cont: "?m' (f + (va - PGROUNDDOWN va)) = ?m (f + (va - PGROUNDDOWN va))"
    if "f = p \<or> f \<in> as_frames ?m r" "page_aligned f" for f
    using tree [OF that(1)] that(2)
    by (intro same_outsideD [OF out]) (simp add: PGROUNDDOWN_offset unat_page_offset)
  show "uspace ?m' r va = (if PGROUNDDOWN va = a
      then (if perm AND PTE_U \<noteq> 0 then Some (?m (p + (va - a))) else None) else uspace ?m r va)"
  proof (cases "PGROUNDDOWN va = a")
    case True
    then show ?thesis
      using L [OF a_page] mp [OF a_page] p'(1,2) cont [of p] a_page pte_mk(3) [OF a(4), of p] v(2)
      by (simp add: uspace_def user_ok_def)
  next
    case False
    then have "user_ok ?m' r va = user_ok ?m r va"
      using L [of va] mp [of va] by (auto simp: user_ok_def)
    moreover have "user_ok ?m r va \<Longrightarrow> frame_of ?m r va \<in> as_frames ?m r \<and> va < MAXVA"
      using mapped_in_frames user_okD by blast
    ultimately show ?thesis using False mp [of va] cont [of "frame_of ?m r va"] by (auto simp: uspace_def)
  qed
qed


lemma grow_tree_wf:
  assumes inv: "as_inv r s ys" and to: "pt_to r (lookup (mem s) r) s ys s' zs"
  shows "as_inv r s' zs" "uspace (mem s') r = uspace (mem s) r"
    "as_frames (mem s') r = as_frames (mem s) r"
    "set zs \<union> as_pages (mem s') r = set ys \<union> as_pages (mem s) r"
proof -
  let ?m = "mem s" and ?m' = "mem s'"
  have L: "lookup ?m' r vb = lookup ?m r vb" if "vb < MAXVA" for vb using pt_to_simps(2) [OF to that] .
  then have same: "mapped ?m' r vb = mapped ?m r vb" "frame_of ?m' r vb = frame_of ?m r vb"
    "user_ok ?m' r vb = user_ok ?m r vb" if "vb < MAXVA" for vb
    using that by (simp_all add: mapped_def frame_of_def user_ok_def)
  show frames: "as_frames ?m' r = as_frames ?m r" 
    unfolding as_frames_def by (intro Collect_cong) (metis same(1,2))
  note pages = pt_to_pages [OF to]
  have tree: "as_frames ?m r \<inter> pt_pages ?m' r = {}"
    using pages(3) as_wf_frames [OF as_invD(4) [OF inv]] inv by (auto simp: as_inv_def)
  have "frames_ok ?m' r"
    using tree same inv by (auto simp: frames_ok_def as_inv_def as_wf_def dest: frames_okD mapped_in_frames)
  moreover have "frames_inj ?m' r"
    unfolding frames_inj_def using same inv by (auto simp: as_inv_def as_wf_def dest: frames_injD)
  ultimately show "as_inv r s' zs"
    using pt_to_simps(1) [OF to] pages frames inv by (auto simp: as_inv_def as_wf_def pt_inv_def)
  show "set zs \<union> as_pages ?m' r = set ys \<union> as_pages ?m r"
    using pages(1) frames by (auto simp: as_pages_def)
  have out: "same_outside (pt_pages ?m' r) ?m ?m'" using to by (simp add: pt_to_def)
  show "uspace ?m' r = uspace ?m r"
  proof
    fix va
    have "?m' (frame_of ?m r va + (va - PGROUNDDOWN va)) = ?m (frame_of ?m r va + (va - PGROUNDDOWN va))"
      if "user_ok ?m r va"
      using that tree mapped_in_frames [of va ?m r]
      by (intro same_outsideD [OF out]) (auto simp: frame_offset dest!: user_okD)
    then show "uspace ?m' r va = uspace ?m r va"
      using same [of va] by (cases "va < MAXVA") (auto simp: uspace_def user_ok_def)
  qed
qed

text \<open>\<^verbatim>\<open>mappages\<close> of a single page.\<close>

definition fill_page :: "(u64 \<Rightarrow> u8 option) \<Rightarrow> u64 \<Rightarrow> (u64 \<Rightarrow> u8 option) \<Rightarrow> u64 \<Rightarrow> u8 option" where
  "fill_page U a f va = (if PGROUNDDOWN va = a then f (va - a) else U va)"

lemma mappages_page:
  assumes inv: "as_inv r s ys" and p: "private_page r s ys p"
    and a: "page_aligned a" "a < MAXVA" "\<not> mapped (mem s) r a" "perm < 1024"
  shows "\<exists>rc s' zs. mappages r a PGSIZE p perm s = Inr (rc, s') \<and> as_inv r s' zs \<and> set zs \<subseteq> set ys \<and>
    pt_pages (mem s') r \<subseteq> set ys \<union> pt_pages (mem s) r \<and>
    only_mem s s' \<and> same_outside (set ys \<union> pt_pages (mem s) r) (mem s) (mem s') \<and>
    (rc = 0 \<and> set zs \<union> as_pages (mem s') r = set ys \<union> as_pages (mem s) r \<union> {p} \<and>
       (\<forall>va<MAXVA. lookup (mem s') r va =
          set_entry (lookup (mem s) r) a (PA2PTE p OR perm OR PTE_V) va) \<and>
       uspace (mem s') r = fill_page (uspace (mem s) r) a
         (\<lambda>d. if perm AND PTE_U \<noteq> 0 then Some (mem s (p + d)) else None) \<or>
     rc = - 1 \<and> zs = [] \<and> set zs \<union> as_pages (mem s') r = set ys \<union> as_pages (mem s) r \<and>
       (\<forall>va<MAXVA. lookup (mem s') r va = lookup (mem s) r va) \<and>
       uspace (mem s') r = uspace (mem s) r)"
proof -
  have lst: "PGROUNDDOWN (a + 4095) = a" by (rule PGROUNDDOWN_offset [OF a(1)]) simp
  have "a + PGSIZE - 1 = a + 4095" by simp
  then have eq: "mappages r a PGSIZE p perm s = mappages_loop r a a p perm s"
    unfolding mappages_def using lst a(1) by (simp only: PGROUNDDOWN_id)
  have free: "lookup (mem s) r a AND 1 = 0" using a(3) by (simp add: mapped_def)
  have sub: "same_outside (set ys \<union> pt_pages (mem s) r) (mem s) (mem t)" if "pt_to r L s ys t zs" for L t zs
    using that pt_to_pages(3) [OF that] by (auto simp: pt_to_def intro: same_outside_mono)
  from mappages_step [OF as_invD(1) [OF inv] a(2) free, of a p perm]
  consider (fail) t where "pt_to r (lookup (mem s) r) s ys t []" "mappages_loop r a a p perm s = Inr (- 1, t)"
    | (ok) t zs where "pt_to r (set_entry (lookup (mem s) r) a (PA2PTE p OR perm OR PTE_V)) s ys t zs"
        "mappages_loop r a a p perm s = Inr (0, t)" by auto
  then show ?thesis
  proof cases
    case fail
    note g = grow_tree_wf [OF inv fail(1)]
    show ?thesis
      using fail g sub [OF fail(1)] eq pt_to_simps(2) [OF fail(1)] pt_to_pages(3) [OF fail(1)]
      by (intro exI [of _ "- 1"] exI [of _ t] exI [of _ "[]"]) (auto simp: pt_to_def)
  next
    case ok
    note g = map_fresh_wf [OF inv p ok(1) a]
    have "uspace (mem t) r = fill_page (uspace (mem s) r) a
        (\<lambda>d. if perm AND PTE_U \<noteq> 0 then Some (mem s (p + d)) else None)"
      using g(3) by (auto simp: fill_page_def fun_eq_iff)
    then show ?thesis
      using ok g(1,2) sub [OF ok(1)] eq pt_to_simps(2) [OF ok(1)] pt_to_pages(2,3) [OF ok(1)]
      by (intro exI [of _ 0] exI [of _ t] exI [of _ zs]) (auto simp: pt_to_def)
  qed
qed


subsection \<open>Removing pages\<close>

lemma unmap_wf:
  assumes inv: "as_inv r s xs" and un: "pt_un r L s xs s' ps"
    and L: "\<forall>va<MAXVA. L va AND PTE_V \<noteq> 0 \<longrightarrow>
      L va = lookup (mem s) r va \<and> PTE2PA (L va) \<notin> set ps"
  shows "as_inv r s' (ps @ xs)"
    and "uspace (mem s') r = (\<lambda>va. if va < MAXVA \<and> L va AND PTE_V \<noteq> 0 then uspace (mem s) r va else None)"
    and "as_frames (mem s') r = {PTE2PA (L va) | va. va < MAXVA \<and> L va AND PTE_V \<noteq> 0}"
    and "as_frames (mem s') r \<subseteq> as_frames (mem s) r"
proof -
  let ?m = "mem s" and ?m' = "mem s'"
  have L': "lookup ?m' r vb = L vb" if "vb < MAXVA" for vb using pt_un_simps(2) [OF un that] .
  have old: "lookup ?m' r vb = lookup ?m r vb" "mapped ?m r vb" "frame_of ?m' r vb = frame_of ?m r vb"
    "frame_of ?m r vb \<notin> set ps" if "vb < MAXVA" "mapped ?m' r vb" for vb
    using that L [rule_format, OF that(1)] L' [OF that(1)] by (auto simp: mapped_def frame_of_def)
  show frames: "as_frames ?m' r = {PTE2PA (L va) | va. va < MAXVA \<and> L va AND PTE_V \<noteq> 0}"
    unfolding as_frames_def mapped_def frame_of_def by (intro Collect_cong) (metis L')
  show sub: "as_frames ?m' r \<subseteq> as_frames ?m r"
  proof
    fix f assume "f \<in> as_frames ?m' r"
    then obtain va where "f = frame_of ?m' r va" "va < MAXVA" "mapped ?m' r va" by (auto simp: as_frames_def)
    then show "f \<in> as_frames ?m r" using old mapped_in_frames [of va ?m r] by metis
  qed
  note pp = pt_un_simps(3) [OF un]
  have "frames_ok ?m' r"
    unfolding frames_ok_def pp using old inv
    by (auto simp: as_inv_def as_wf_def dest: frames_okD)
  moreover have "frames_inj ?m' r"
    unfolding frames_inj_def using old inv by (auto simp: as_inv_def as_wf_def intro: frames_injD)
  moreover have "as_frames ?m' r \<inter> set ps = {}" using old by (auto simp: as_frames_def)
  ultimately show "as_inv r s' (ps @ xs)"
    using pt_un_simps(1) [OF un] inv sub by (auto simp: as_inv_def as_wf_def pt_inv_def)
  have out: "same_outside (pt_pages ?m r \<union> set ps) ?m ?m'" using un by (simp add: pt_un_def)
  show "uspace ?m' r = (\<lambda>va. if va < MAXVA \<and> L va AND PTE_V \<noteq> 0 then uspace ?m r va else None)"
  proof
    fix va
    show "uspace ?m' r va = (if va < MAXVA \<and> L va AND PTE_V \<noteq> 0 then uspace ?m r va else None)"
    proof (cases "va < MAXVA \<and> mapped ?m' r va")
      case True
      have "frame_of ?m r va \<notin> pt_pages ?m r \<union> set ps"
        using old [of va] True frames_okD [of ?m r va] inv by (auto simp: as_inv_def as_wf_def)
      then have "?m' (frame_of ?m r va + (va - PGROUNDDOWN va)) = ?m (frame_of ?m r va + (va - PGROUNDDOWN va))"
        by (intro same_outsideD [OF out]) (auto simp: frame_offset)
      then show ?thesis
        using True old [of va] L' [of va] by (auto simp: uspace_def user_ok_def mapped_def)
    next
      case False
      then show ?thesis using L' [of va] by (auto simp: uspace_def user_ok_def mapped_def)
    qed
  qed
qed

lemma TRAPFRAME_eq: "TRAPFRAME = 0x3fffffe000"
  by (simp add: TRAPFRAME_def TRAMPOLINE_def MAXVA_eq)

lemma TRAPFRAME_MAXVA: "va < TRAPFRAME \<Longrightarrow> va < MAXVA" "va \<le> TRAPFRAME \<Longrightarrow> va < MAXVA"
  by (simp_all add: TRAPFRAME_eq MAXVA_eq word_less_nat_alt word_le_nat_alt)

lemma PGROUNDUP_TRAPFRAME:
  assumes "sz \<le> TRAPFRAME"
  shows "sz \<le> PGROUNDUP sz" "PGROUNDUP sz \<le> TRAPFRAME" "unat (PGROUNDUP sz) < unat sz + 4096"
proof -
  have sz: "unat sz \<le> 4096 * 67108862" using assms by (simp add: TRAPFRAME_eq word_le_nat_alt)
  have up: "unat (PGROUNDUP sz) = (unat sz + 4095) div 4096 * 4096"
    using sz by (intro unat_PGROUNDUP) simp
  have "(unat sz + 4095) div 4096 \<le> (4096 * 67108862 + 4095) div 4096"
    using sz by (intro div_le_mono) simp
  then have "unat (PGROUNDUP sz) \<le> 67108862 * 4096" unfolding up by simp
  then show "PGROUNDUP sz \<le> TRAPFRAME" by (simp add: TRAPFRAME_eq word_le_nat_alt)
  have "unat sz \<le> (unat sz + 4095) div 4096 * 4096" "(unat sz + 4095) div 4096 * 4096 < unat sz + 4096"
    using div_mult_mod_eq [of "unat sz + 4095" 4096] mod_less_divisor [of 4096 "unat sz + 4095"]
    by linarith+
  then show "sz \<le> PGROUNDUP sz" "unat (PGROUNDUP sz) < unat sz + 4096"
    using up by (simp_all add: word_le_nat_alt)
qed


text \<open>The frames of a range of mapped pages are distinct.\<close>

lemma frames_distinct:
  assumes wf: "as_wf m r" and a: "page_aligned a" "unat a + 4096 * n \<le> 2 ^ 38"
    and mp: "\<And>j. j < n \<Longrightarrow> mapped m r (nth_page a j)"
  shows "distinct (frames m r a n)"
    and "f \<in> set (frames m r a n) \<longleftrightarrow> (\<exists>j<n. f = frame_of m r (nth_page a j))"
proof -
  have "inj_on (\<lambda>j. PTE2PA (lookup m r (nth_page a j))) {0..<n}"
  proof (rule inj_onI)
    fix i j assume ij: "i \<in> {0..<n}" "j \<in> {0..<n}"
      "PTE2PA (lookup m r (nth_page a i)) = PTE2PA (lookup m r (nth_page a j))"
    then have "PGROUNDDOWN (nth_page a i) = PGROUNDDOWN (nth_page a j)"
      using wf mp nth_page_MAXVA(2) [OF a(2)]
      by (intro frames_injD [of m r]) (auto simp: as_wf_def frame_of_def)
    then have "unat (nth_page a i) = unat (nth_page a j)" using nth_page_aligned [OF a(1)] by simp
    then show "i = j" using unat_nth_page [OF a(2)] ij by auto
  qed
  then show "distinct (frames m r a n)" by (simp add: frames_def distinct_map)
  show "f \<in> set (frames m r a n) \<longleftrightarrow> (\<exists>j<n. f = frame_of m r (nth_page a j))"
    by (auto simp: frames_def frame_of_def)
qed

lemma in_range_page:
  assumes "page_aligned a" "unat a + 4096 * n \<le> 2 ^ 38" "unat (va - a) < 4096 * n"
  shows "\<exists>j<n. PGROUNDDOWN va = nth_page a j"
proof -
  have "PGROUNDDOWN va = a + PGROUNDDOWN (va - a)" using offset_page(1) [OF assms(1), of va] by simp
  moreover have "PGROUNDDOWN (va - a) = of_nat (4096 * (unat (va - a) div 4096))"
  proof -
    let ?k = "4096 * (unat (va - a) div 4096)"
    have "?k \<le> unat (va - a)" by simp
    then have "?k < 2 ^ 64" using unat_u64_less [of "va - a"] by (simp del: unat_u64_less)
    then have "unat (of_nat ?k :: u64) = ?k" by (intro unat_of_nat_small) simp
    then show ?thesis unfolding word_unat_eq_iff unat_PGROUNDDOWN by (simp only: mult.commute)
  qed
  ultimately have "PGROUNDDOWN va = nth_page a (unat (va - a) div 4096)" by (simp add: nth_page_def)
  moreover have "unat (va - a) div 4096 < n" using assms(3) by (simp add: less_mult_imp_div_less mult.commute)
  ultimately show ?thesis by blast
qed

lemma page_in_range:
  assumes "PGROUNDDOWN va = nth_page a j" "j < n" "4096 * n < 2 ^ 63"
  shows "unat (va - a) < 4096 * n"
proof -
  have "va - a = (va - PGROUNDDOWN va) + of_nat (4096 * j)"
    using assms(1) by (simp add: nth_page_def)
  moreover have "unat (of_nat (4096 * j) :: u64) = 4096 * j"
    using assms(2,3) by (intro unat_of_nat_small) simp
  moreover have "unat (va - PGROUNDDOWN va) < 4096" by (simp add: unat_page_offset)
  ultimately have "unat (va - a) \<le> unat (va - PGROUNDDOWN va) + 4096 * j"
    by (simp only: unat_word_ariths(1)) (rule mod_less_eq_dividend)
  also have "\<dots> < 4096 * Suc j" using \<open>unat (va - PGROUNDDOWN va) < 4096\<close> by simp
  also have "\<dots> \<le> 4096 * n" using assms(2) by (intro mult_le_mono2) simp
  finally show ?thesis .
qed

lemma in_range_iff:
  fixes a va :: u64
  assumes "unat a + k \<le> 2 ^ 38"
  shows "unat (va - a) < k \<longleftrightarrow> a \<le> va \<and> unat va < unat a + k"
proof (cases "unat a \<le> unat va")
  case True
  then show ?thesis using assms by (auto simp: unat_sub_if' word_le_nat_alt)
next
  case False
  moreover from False have "unat (va - a) = unat va + 2 ^ 64 - unat a" by (simp add: unat_sub_if')
  ultimately show ?thesis using assms by (auto simp: word_le_nat_alt)
qed

text \<open>
  \<^verbatim>\<open>uvmunmap\<close> with freeing, on a range of pages that are all mapped to pages of the
  allocator.
\<close>

lemma uvmunmap_free:
  assumes inv: "as_inv r s xs" and a: "page_aligned a" "unat a + 4096 * n \<le> 2 ^ 38"
    and pages: "\<And>va. unat (va - a) < 4096 * n \<Longrightarrow> mapped (mem s) r va \<and>
      PTE_FLAGS (lookup (mem s) r va) \<noteq> PTE_V \<and> page_ok (kend s) (frame_of (mem s) r va)"
  shows "\<exists>s' ps. uvmunmap r a (of_nat n) True s = Inr s' \<and> as_inv r s' (ps @ xs) \<and> only_mem s s' \<and>
    set ps = {frame_of (mem s) r va | va. unat (va - a) < 4096 * n} \<and>
    pt_pages (mem s') r = pt_pages (mem s) r \<and>
    same_outside (pt_pages (mem s) r \<union> set ps) (mem s) (mem s') \<and>
    set (ps @ xs) \<union> as_pages (mem s') r = set xs \<union> as_pages (mem s) r \<and>
    (\<forall>va<MAXVA. lookup (mem s') r va = unmap_range (lookup (mem s) r) a n va) \<and>
    uspace (mem s') r = (\<lambda>va. if unat (va - a) < 4096 * n then None else uspace (mem s) r va)"
proof -
  let ?m = "mem s" and ?ps = "rev (frames (mem s) r a n)" and ?L = "unmap_range (lookup (mem s) r) a n"
  have n: "4096 * n < 2 ^ 63" using a(2) by simp
  have mem_range: "unat (nth_page a j - a) < 4096 * n" if "j < n" for j
    using page_in_range [OF _ that n, of "nth_page a j" a] nth_page_aligned [OF a(1)] by simp
  have ps: "set ?ps = {frame_of ?m r va | va. unat (va - a) < 4096 * n}" (is "_ = ?F")
  proof (rule set_eqI)
    fix f
    have "f \<in> set ?ps \<longleftrightarrow> (\<exists>j<n. f = frame_of ?m r (nth_page a j))"
      using frames_distinct(2) [OF as_invD(4) [OF inv] a] pages mem_range by simp
    also have "\<dots> \<longleftrightarrow> f \<in> ?F"
      using mem_range in_range_page [OF a] frame_of_page(1) by (auto, metis)
    finally show "f \<in> set ?ps \<longleftrightarrow> f \<in> ?F" .
  qed
  have below: "va < MAXVA" if r: "unat (va - a) < 4096 * n" for va
    using in_range_page [OF a r] nth_page_MAXVA(2) [OF a(2)] MAXVA_page by metis
  have fr: "page_ok (kend s) f \<and> f \<notin> pt_pages ?m r \<union> set xs" if "f \<in> set ?ps" for f
    using that pages below inv frames_okD [of ?m r] mapped_in_frames [of _ ?m r]
    unfolding ps by (auto simp: as_inv_def as_wf_def) (metis disjoint_iff)
  have stop: "a + of_nat n * PGSIZE = nth_page a n" by (simp add: nth_page_def)
  obtain s' where s': "uvmunmap_loop r a (nth_page a n) True s = Inr s'" "pt_un r ?L s xs s' ?ps"
    using uvmunmap_loop_ok [OF as_invD(1) [OF inv] a, of True] pages mem_range fr
      frames_distinct(1) [OF as_invD(4) [OF inv] a] by (auto simp: mapped_def)
  have keep: "?L va = lookup ?m r va \<and> PTE2PA (?L va) \<notin> set ?ps" if "va < MAXVA" "?L va AND 1 \<noteq> 0" for va
  proof -
    have out: "\<not> unat (va - a) < 4096 * n" using that(2) by (auto simp: unmap_range_def)
    then have "?L va = lookup ?m r va" by (simp add: unmap_range_def)
    moreover from this that(2) have "mapped ?m r va" by (simp add: mapped_def)
    moreover have "frame_of ?m r va \<noteq> frame_of ?m r vb" if vb: "unat (vb - a) < 4096 * n" for vb
    proof
      assume "frame_of ?m r va = frame_of ?m r vb"
      then have "PGROUNDDOWN va = PGROUNDDOWN vb"
        using \<open>va < MAXVA\<close> \<open>mapped ?m r va\<close> below [OF vb] pages [OF vb] inv
        by (intro frames_injD [of ?m r]) (auto simp: as_inv_def as_wf_def)
      with in_range_page [OF a vb] page_in_range [OF _ _ n] out show False by metis
    qed
    ultimately show ?thesis unfolding ps by (auto simp: frame_of_def)
  qed
  then have "\<forall>va<MAXVA. ?L va AND 1 \<noteq> 0 \<longrightarrow> ?L va = lookup ?m r va \<and> PTE2PA (?L va) \<notin> set ?ps"
    by blast
  note w = unmap_wf [OF inv s'(2) this]
  have "as_frames ?m r = as_frames (mem s') r \<union> set ?ps"
  proof
    show "as_frames (mem s') r \<union> set ?ps \<subseteq> as_frames ?m r"
      using w(4) below pages mapped_in_frames [of _ ?m r] unfolding ps by auto
    show "as_frames ?m r \<subseteq> as_frames (mem s') r \<union> set ?ps"
    proof
      fix f assume "f \<in> as_frames ?m r"
      then obtain va where va: "f = frame_of ?m r va" "va < MAXVA" "mapped ?m r va"
        by (auto simp: as_frames_def)
      show "f \<in> as_frames (mem s') r \<union> set ?ps"
      proof (cases "unat (va - a) < 4096 * n")
        case False
        then have "lookup (mem s') r va = lookup ?m r va"
          using pt_un_simps(2) [OF s'(2) va(2)] by (simp add: unmap_range_def)
        with va mapped_in_frames [OF va(2), of "mem s'" r] show ?thesis
          by (simp add: mapped_def frame_of_def)
      qed (unfold ps, use va in auto)
    qed
  qed
  then have "set (?ps @ xs) \<union> as_pages (mem s') r = set xs \<union> as_pages ?m r"
    using pt_un_simps(3) [OF s'(2)] by (auto simp: as_pages_def)
  moreover have "uspace (mem s') r = (\<lambda>va. if unat (va - a) < 4096 * n then None else uspace ?m r va)"
    unfolding w(2) by (auto simp: unmap_range_def uspace_def user_ok_def mapped_def fun_eq_iff)
  moreover have "uvmunmap r a (of_nat n) True s = Inr s'"
    using a(1) s'(1) by (simp add: uvmunmap_def stop page_aligned_def)
  ultimately show ?thesis
    using w(1) s'(2) ps by (intro exI [of _ s'] exI [of _ ?ps]) (auto simp: pt_un_def)
qed


subsection \<open>Shrinking\<close>

lemma uvm_invD:
  assumes "uvm_inv r sz s xs"
  shows "as_inv r s xs" "sz \<le> TRAPFRAME"
    "va < PGROUNDUP sz \<Longrightarrow> mapped (mem s) r va \<and> PTE_FLAGS (lookup (mem s) r va) \<noteq> PTE_V \<and>
       page_ok (kend s) (frame_of (mem s) r va)"
    "va < TRAPFRAME \<Longrightarrow> PGROUNDUP sz \<le> va \<Longrightarrow> \<not> mapped (mem s) r va"
  using assms by (auto simp: uvm_inv_def)

lemma uvm_inv_round:
  assumes "sz \<le> TRAPFRAME" "sz' \<le> TRAPFRAME" "PGROUNDUP sz = PGROUNDUP sz'"
  shows "uvm_inv r sz s xs = uvm_inv r sz' s xs"
  using assms by (simp add: uvm_inv_def)

lemma int_npages:
  assumes "unat (w :: u64) < 2 ^ 31"
  shows "scast (ucast w :: u32) = w"
proof (rule bit_word_eqI)
  fix n assume "n < LENGTH(64)"
  have small: "bit w k \<Longrightarrow> k < 31" for k
  proof -
    assume "bit w k"
    then have "bit (unat w) k" by (simp add: bit_unsigned_iff)
    then have "2 ^ k \<le> unat w" by (metis bit_iff_odd div_less even_zero not_le)
    with assms have "(2 :: nat) ^ k < 2 ^ 31" by linarith
    then show "k < 31" by (rule power_less_imp_less_exp [rotated]) simp
  qed
  show "bit (scast (ucast w :: u32) :: u64) n = bit w n"
    using small [of n] small [of 31] \<open>n < LENGTH(64)\<close> by (auto simp: bit_simps min_def)
qed


lemma PGROUNDUP_mono:
  assumes "b \<le> TRAPFRAME" "a \<le> b"
  shows "PGROUNDUP a \<le> PGROUNDUP b"
proof -
  have "unat b \<le> 274877898752" "unat a \<le> unat b"
    using assms by (simp_all add: TRAPFRAME_eq word_le_nat_alt)
  then have "unat (PGROUNDUP a) = (unat a + 4095) div 4096 * 4096"
    "unat (PGROUNDUP b) = (unat b + 4095) div 4096 * 4096"
    by (simp_all add: unat_PGROUNDUP)
  moreover have "(unat a + 4095) div 4096 \<le> (unat b + 4095) div 4096"
    using \<open>unat a \<le> unat b\<close> by (intro div_le_mono) simp
  ultimately show ?thesis by (simp add: word_le_nat_alt)
qed

text \<open>The number of pages between two sizes.\<close>

lemma npages_between:
  assumes "page_aligned a" "page_aligned b" "a \<le> b" "b \<le> TRAPFRAME"
  shows "\<exists>n. (b - a) div PGSIZE = of_nat n \<and> n < 2 ^ 31 \<and> unat b = unat a + 4096 * n"
proof -
  obtain i j where ij: "unat a = 4096 * i" "unat b = 4096 * j"
    using assms(1,2) by (auto simp: page_aligned_dvd elim!: dvdE)
  have le: "4096 * i \<le> 4096 * j" "4096 * j \<le> 274877898752"
    using assms(3,4) ij by (simp_all add: word_le_nat_alt TRAPFRAME_eq)
  have "unat ((b - a) div PGSIZE) = (4096 * j - 4096 * i) div 4096"
    using le ij by (simp add: unat_div_distrib unat_sub_if')
  also have "\<dots> = j - i" by (simp flip: diff_mult_distrib2)
  also have "\<dots> = unat (of_nat (j - i) :: u64)" using le by (intro unat_of_nat_small [symmetric]) simp
  finally have "(b - a) div PGSIZE = of_nat (j - i)" by (simp only: word_unat_eq_iff)
  moreover have "j - i < 2 ^ 31" "4096 * j = 4096 * i + 4096 * (j - i)" using le by simp_all
  ultimately show ?thesis using ij by auto
qed

lemma uvmdealloc_eq:
  assumes "newsz < oldsz" "oldsz \<le> TRAPFRAME"
    and "(PGROUNDUP oldsz - PGROUNDUP newsz) div PGSIZE = of_nat n" "n < 2 ^ 31"
    and "unat (PGROUNDUP oldsz) = unat (PGROUNDUP newsz) + 4096 * n"
  shows "uvmdealloc r oldsz newsz s =
    (if n = 0 then Inr (newsz, s)
     else bindE (uvmunmap r (PGROUNDUP newsz) (of_nat n) True s) (\<lambda>s. Inr (newsz, s)))"
proof -
  have "scast (ucast (of_nat n :: u64) :: u32) = (of_nat n :: u64)"
    using assms(4) by (intro int_npages) (simp add: unat_of_nat_small)
  moreover have "PGROUNDUP newsz < PGROUNDUP oldsz \<longleftrightarrow> n \<noteq> 0"
    using assms(5) by (simp add: word_less_nat_alt)
  moreover have "\<not> oldsz \<le> newsz" using assms(1) by (simp only: not_le)
  ultimately show ?thesis unfolding uvmdealloc_def Let_def assms(3) by simp
qed

text \<open>Unmapping every page above the new size.\<close>

lemma uvmunmap_upper:
  assumes inv: "uvm_inv r oldsz s xs" and le: "newsz \<le> oldsz"
    and n: "unat (PGROUNDUP oldsz) = unat (PGROUNDUP newsz) + 4096 * n"
  defines "R \<equiv> \<lambda>va. PGROUNDUP newsz \<le> va \<and> va < PGROUNDUP oldsz"
  shows "\<exists>t ps. uvmunmap r (PGROUNDUP newsz) (of_nat n) True s = Inr t \<and> uvm_inv r newsz t (ps @ xs) \<and>
    only_mem s t \<and> pt_pages (mem t) r = pt_pages (mem s) r \<and>
    set ps = {frame_of (mem s) r va | va. R va} \<and> set ps \<subseteq> as_frames (mem s) r \<and>
    same_outside (pt_pages (mem s) r \<union> set ps) (mem s) (mem t) \<and>
    set (ps @ xs) \<union> as_pages (mem t) r = set xs \<union> as_pages (mem s) r \<and>
    uspace (mem t) r = (\<lambda>va. if R va then None else uspace (mem s) r va)"
proof -
  let ?a = "PGROUNDUP newsz" and ?b = "PGROUNDUP oldsz"
  note D = uvm_invD [OF inv]
  have lt: "newsz \<le> TRAPFRAME" using le D(2) by auto
  have ab: "?a \<le> ?b" "?b \<le> TRAPFRAME"
    using PGROUNDUP_mono [OF D(2) le] PGROUNDUP_TRAPFRAME(2) [OF D(2)] by auto
  have bnd: "unat ?a + 4096 * n \<le> 2 ^ 38" using ab(2) n by (simp add: TRAPFRAME_eq word_le_nat_alt)
  have range: "unat (va - ?a) < 4096 * n \<longleftrightarrow> R va" for va
    using in_range_iff [OF bnd, of va] n by (simp add: word_less_nat_alt R_def)
  obtain t ps where t: "uvmunmap r ?a (of_nat n) True s = Inr t" "as_inv r t (ps @ xs)" "only_mem s t"
    "set ps = {frame_of (mem s) r va | va. unat (va - ?a) < 4096 * n}"
    "pt_pages (mem t) r = pt_pages (mem s) r"
    "same_outside (pt_pages (mem s) r \<union> set ps) (mem s) (mem t)"
    "set (ps @ xs) \<union> as_pages (mem t) r = set xs \<union> as_pages (mem s) r"
    "\<forall>va<MAXVA. lookup (mem t) r va = unmap_range (lookup (mem s) r) ?a n va"
    "uspace (mem t) r = (\<lambda>va. if unat (va - ?a) < 4096 * n then None else uspace (mem s) r va)"
    using uvmunmap_free [OF D(1) PGROUNDUP_aligned bnd] D(3) range unfolding R_def by blast
  have L: "lookup (mem t) r va = (if ?a \<le> va \<and> va < ?b then 0 else lookup (mem s) r va)" if "va < TRAPFRAME" for va
    using t(8) that TRAPFRAME_MAXVA range by (simp add: unmap_range_def R_def)
  have "uvm_inv r newsz t (ps @ xs)"
    unfolding uvm_inv_def
  proof (intro conjI allI impI)
    fix va assume "va < PGROUNDUP newsz"
    then have va: "va < TRAPFRAME" "va < ?b" "\<not> ?a \<le> va" using ab by (auto dest: order.strict_trans2)
    then show "mapped (mem t) r va" "PTE_FLAGS (lookup (mem t) r va) \<noteq> PTE_V"
      "page_ok (kend t) (frame_of (mem t) r va)"
      using L [OF va(1)] D(3) [OF va(2)] only_mem_simps(1) [OF t(3)] by (auto simp: mapped_def frame_of_def)
  next
    fix va assume "va < TRAPFRAME" "PGROUNDUP newsz \<le> va"
    then show "\<not> mapped (mem t) r va" using L [of va] D(4) [of va] by (auto simp: mapped_def)
  qed (use t(2) lt in auto)
  moreover have "set ps \<subseteq> as_frames (mem s) r"
    unfolding t(4) range using D(3) ab TRAPFRAME_MAXVA
    by (auto simp: R_def intro!: mapped_in_frames dest: order.strict_trans2)
  ultimately show ?thesis using t unfolding range by (intro exI [of _ t] exI [of _ ps]) simp
qed

lemma uvmdealloc_ok:
  assumes inv: "uvm_inv r oldsz s xs" and le: "newsz \<le> oldsz"
  shows "\<exists>s' ps. uvmdealloc r oldsz newsz s = Inr (newsz, s') \<and> uvm_inv r newsz s' (ps @ xs) \<and>
    only_mem s s' \<and> pt_pages (mem s') r = pt_pages (mem s) r \<and>
    same_outside (as_pages (mem s) r) (mem s) (mem s') \<and>
    set (ps @ xs) \<union> as_pages (mem s') r = set xs \<union> as_pages (mem s) r \<and>
    uspace (mem s') r =
      (\<lambda>va. if PGROUNDUP newsz \<le> va \<and> va < PGROUNDUP oldsz then None else uspace (mem s) r va)"
proof (cases "newsz = oldsz")
  case True
  then show ?thesis
    using inv by (intro exI [of _ s] exI [of _ "[]"]) (auto simp: uvmdealloc_def not_less [symmetric])
next
  case False
  let ?a = "PGROUNDUP newsz" and ?b = "PGROUNDUP oldsz"
  note D = uvm_invD [OF inv]
  have lt: "newsz < oldsz" using le False by auto
  have ab: "?a \<le> ?b" "?b \<le> TRAPFRAME"
    using PGROUNDUP_mono [OF D(2) le] PGROUNDUP_TRAPFRAME(2) [OF D(2)] by auto
  obtain n where n: "(?b - ?a) div PGSIZE = of_nat n" "n < 2 ^ 31" "unat ?b = unat ?a + 4096 * n"
    using npages_between [OF PGROUNDUP_aligned PGROUNDUP_aligned ab] by blast
  obtain t ps where t: "uvmunmap r ?a (of_nat n) True s = Inr t" "uvm_inv r newsz t (ps @ xs)" "only_mem s t"
    "pt_pages (mem t) r = pt_pages (mem s) r" "set ps \<subseteq> as_frames (mem s) r"
    "same_outside (pt_pages (mem s) r \<union> set ps) (mem s) (mem t)"
    "set (ps @ xs) \<union> as_pages (mem t) r = set xs \<union> as_pages (mem s) r"
    "uspace (mem t) r = (\<lambda>va. if ?a \<le> va \<and> va < ?b then None else uspace (mem s) r va)"
    using uvmunmap_upper [OF inv le n(3)] by blast
  have "same_outside (as_pages (mem s) r) (mem s) (mem t)"
    using t(5,6) by (auto simp: as_pages_def intro: same_outside_mono)
  moreover have "uvmdealloc r oldsz newsz s = Inr (newsz, if n = 0 then s else t)"
    using t(1) by (simp add: uvmdealloc_eq [OF lt D(2) n, of r s])
  moreover have "n = 0 \<Longrightarrow> t = s"
    using t(1) by (simp add: uvmunmap_def page_aligned_def [symmetric] uvmunmap_loop.simps)
  ultimately show ?thesis using t by (intro exI [of _ t] exI [of _ ps]) auto
qed


subsection \<open>Growing\<close>

lemma kalloc_private:
  assumes inv: "as_inv r s (p # ys)" and m': "same_outside {p} (mem (after_kalloc p s)) m'"
    and t_def: "t = (after_kalloc p s)\<lparr>mem := m'\<rparr>"
  shows "kalloc s = Inr (p, after_kalloc p s)" "p \<noteq> 0" "page_aligned p"
    "as_inv r t ys" "private_page r t ys p" "only_mem s t" "same_outside {p} (mem s) (mem t)"
    "lookup (mem t) r = lookup (mem s) r" "uspace (mem t) r = uspace (mem s) r"
    "as_pages (mem t) r = as_pages (mem s) r" "pt_pages (mem t) r = pt_pages (mem s) r"
proof -
  have k: "kmem_inv s (p # ys)" using inv by (rule as_invD)
  then have p: "page_ok (kend s) p" "page_aligned p" "p \<notin> set ys" "p \<noteq> 0"
    by (auto simp: kmem_inv_def page_ok_def)
  show "kalloc s = Inr (p, after_kalloc p s)" "p \<noteq> 0" "page_aligned p"
    using kalloc_Cons(1) [OF k] p by auto
  have P: "{p} \<inter> as_pages (mem s) r = {}" "set ys \<inter> as_pages (mem s) r = {}"
    using as_invD(6) [OF inv] by auto
  show out: "same_outside {p} (mem s) (mem t)"
    unfolding t_def using m' by (auto intro: same_outside_trans [OF same_outside_memset [OF p(2)]])
  show om: "only_mem s t" unfolding t_def using only_mem_trans only_mem_upd by blast
  have "kmem_inv t ys"
    unfolding t_def using kalloc_Cons(2) [OF k] m' by (rule kmem_inv_frame) (use p(3) in auto)
  then show inv': "as_inv r t ys" using as_inv_outside [OF inv out P(1) _ P(2) om] by simp
  note o = as_outside [OF out as_invD(4) [OF inv] P(1)]
  show "lookup (mem t) r = lookup (mem s) r" "uspace (mem t) r = uspace (mem s) r"
    "as_pages (mem t) r = as_pages (mem s) r" "pt_pages (mem t) r = pt_pages (mem s) r"
    by (rule o)+
  show "private_page r t ys p"
    using p P o(3) only_mem_simps(1) [OF om] by (simp add: private_page_def)
qed

text \<open>Giving back a page that was not mapped.\<close>

lemma kfree_private:
  assumes inv: "as_inv r s xs" and p: "private_page r s xs p"
  shows "kfree p s = Inr (after_kfree p s)" "as_inv r (after_kfree p s) (p # xs)"
    "same_outside {p} (mem s) (mem (after_kfree p s))"
    "lookup (mem (after_kfree p s)) r = lookup (mem s) r"
    "uspace (mem (after_kfree p s)) r = uspace (mem s) r"
    "as_pages (mem (after_kfree p s)) r = as_pages (mem s) r"
    "pt_pages (mem (after_kfree p s)) r = pt_pages (mem s) r"
proof -
  have p': "page_ok (kend s) p" "p \<notin> set xs" "{p} \<inter> as_pages (mem s) r = {}" "page_aligned p"
    using p by (auto simp: private_page_def page_ok_def)
  note k = kfree_ok [OF as_invD(2) [OF inv] p'(1,2)] and out = same_outside_after_kfree [OF p'(4), of s]
  show "kfree p s = Inr (after_kfree p s)" "same_outside {p} (mem s) (mem (after_kfree p s))"
    by (rule k, rule out)
  note o = as_outside [OF out as_invD(4) [OF inv] p'(3)]
  show "lookup (mem (after_kfree p s)) r = lookup (mem s) r"
    "uspace (mem (after_kfree p s)) r = uspace (mem s) r"
    "as_pages (mem (after_kfree p s)) r = as_pages (mem s) r"
    "pt_pages (mem (after_kfree p s)) r = pt_pages (mem s) r"
    by (rule o)+
  have "set (p # xs) \<inter> as_pages (mem s) r = {}" using p'(3) as_invD(6) [OF inv] by auto
  then show "as_inv r (after_kfree p s) (p # xs)"
    by (rule as_inv_outside [OF inv out p'(3) k(2) _ only_mem_upd(3)])
qed

text \<open>
  A step that neither loses nor gains pages for the address space and the free list together, and
  that writes to no other page.
\<close>

definition uvm_to :: "u64 \<Rightarrow> 'a phys_scheme \<Rightarrow> u64 list \<Rightarrow> 'a phys_scheme \<Rightarrow> u64 list \<Rightarrow> bool" where
  "uvm_to r s xs s' ys \<longleftrightarrow> only_mem s s' \<and>
     set ys \<union> as_pages (mem s') r = set xs \<union> as_pages (mem s) r \<and>
     same_outside (set xs \<union> as_pages (mem s) r) (mem s) (mem s')"

lemma uvm_to_refl: "uvm_to r s xs s xs"
  by (simp add: uvm_to_def)

lemma uvm_to_trans: "uvm_to r s xs t ys \<Longrightarrow> uvm_to r t ys u zs \<Longrightarrow> uvm_to r s xs u zs"
  unfolding uvm_to_def by (auto intro: only_mem_trans same_outside_trans [OF _ _ order_refl])

lemma page_interval:
  assumes "page_aligned a" "a < TRAPFRAME"
  shows "PGROUNDDOWN va = a \<longleftrightarrow> a \<le> va \<and> va < a + 4096"
  using in_page_iff [OF assms(1), of va] in_range_iff [of a 4096 va] assms(2)
    unat_next_va [OF TRAPFRAME_MAXVA(1) [OF assms(2)]]
  by (auto simp: word_less_nat_alt TRAPFRAME_eq)

lemma PGROUNDUP_id [simp]: "page_aligned a \<Longrightarrow> PGROUNDUP a = a"
proof -
  assume "page_aligned a"
  then have "PGROUNDDOWN (a + 4095) = a" by (rule PGROUNDDOWN_offset) simp
  then show "PGROUNDUP a = a" by (simp add: PGROUNDUP_eq)
qed

lemma TRAPFRAME_next:
  assumes "page_aligned a" "a < TRAPFRAME"
  shows "a + 4096 \<le> TRAPFRAME"
proof -
  obtain k where k: "unat a = 4096 * k" using assms(1) by (auto simp: page_aligned_dvd elim!: dvdE)
  have "4096 * k < 4096 * 67108862" using assms(2) k by (simp add: word_less_nat_alt TRAPFRAME_eq)
  then have "4096 * k + 4096 \<le> 4096 * 67108862" by simp
  then show ?thesis
    using unat_next_va [OF TRAPFRAME_MAXVA(1) [OF assms(2)]] k
    by (simp add: word_le_nat_alt TRAPFRAME_eq)
qed

lemma uvm_inv_same_entries:
  assumes "uvm_inv r sz s xs" "as_inv r s' ys" "kend s' = kend s"
    and "\<forall>va<MAXVA. lookup (mem s') r va = lookup (mem s) r va"
  shows "uvm_inv r sz s' ys"
proof -
  have L: "lookup (mem s') r va = lookup (mem s) r va" if "va < TRAPFRAME" for va
    using assms(4) TRAPFRAME_MAXVA(1) [OF that] by simp
  have below: "va < PGROUNDUP sz \<Longrightarrow> va < TRAPFRAME" for va
    using PGROUNDUP_TRAPFRAME(2) [OF uvm_invD(2) [OF assms(1)]] by (auto dest: order.strict_trans2)
  show ?thesis
    unfolding uvm_inv_def mapped_def frame_of_def assms(3)
    using uvm_invD [OF assms(1)] assms(2) L below by (auto simp: mapped_def frame_of_def)
qed

lemma uvm_inv_extend:
  assumes inv: "uvm_inv r a s xs" and a: "page_aligned a" "a < TRAPFRAME"
    and s': "as_inv r s' ys" "kend s' = kend s"
    and L: "\<forall>va<MAXVA. lookup (mem s') r va = set_entry (lookup (mem s) r) a v va"
    and v: "v AND PTE_V \<noteq> 0" "PTE_FLAGS v \<noteq> PTE_V" "page_ok (kend s) (PTE2PA v)"
  shows "uvm_inv r (a + 4096) s' ys"
proof -
  have al: "page_aligned (a + 4096)" using a(1) by (intro page_aligned_add) (simp_all add: page_aligned_def)
  have up: "unat (a + 4096) = unat a + 4096" using unat_next_va TRAPFRAME_MAXVA(1) [OF a(2)] .
  note D = uvm_invD [OF inv] and le = TRAPFRAME_next [OF a]
  have L': "lookup (mem s') r va = (if a \<le> va \<and> va < a + 4096 then v else lookup (mem s) r va)"
    if "va < TRAPFRAME" for va
    using L TRAPFRAME_MAXVA(1) [OF that] page_interval [OF a, of va] a(1) by (simp add: set_entry_def)
  show ?thesis
    unfolding uvm_inv_def PGROUNDUP_id [OF al] s'(2)
  proof (intro conjI allI impI)
    fix va assume va: "va < a + 4096"
    then have "va < TRAPFRAME" using le by (auto dest: order.strict_trans2)
    with va show "mapped (mem s') r va" "PTE_FLAGS (lookup (mem s') r va) \<noteq> PTE_V"
      "page_ok (kend s) (frame_of (mem s') r va)"
      using L' [of va] D(3) [of va] a(1) v by (auto simp: mapped_def frame_of_def not_le)
  next
    fix va assume va: "va < TRAPFRAME" "a + 4096 \<le> va"
    then have "a \<le> va" "\<not> va < a + 4096" using up by (auto simp: word_le_nat_alt word_less_nat_alt)
    then show "\<not> mapped (mem s') r va" using L' [OF va(1)] D(4) [OF va(1)] a(1) by (simp add: mapped_def)
  qed (use s'(1) le in auto)
qed

text \<open>
  One round of the loops of \<^verbatim>\<open>uvmalloc\<close> and \<^verbatim>\<open>uvmcopy\<close>, when a page was
  available: it is initialised and mapped, or given back when \<^verbatim>\<open>mappages\<close> fails.
\<close>

lemma map_round:
  assumes inv: "uvm_inv r a s (p # ys)" and a: "page_aligned a" "a < TRAPFRAME"
    and m': "same_outside {p} (mem (after_kalloc p s)) m'" and t_def: "t = (after_kalloc p s)\<lparr>mem := m'\<rparr>"
    and perm: "perm < 1024" "perm OR PTE_V \<noteq> PTE_V"
  shows "\<exists>rc u zs. mappages r a PGSIZE p perm t = Inr (rc, u) \<and>
    pt_pages (mem u) r \<subseteq> set ys \<union> pt_pages (mem s) r \<and>
    (rc = 0 \<and> uvm_inv r (a + 4096) u zs \<and> uvm_to r s (p # ys) u zs \<and> set zs \<subseteq> set ys \<and>
       same_outside (set (p # ys) \<union> pt_pages (mem s) r) (mem s) (mem u) \<and>
       (\<forall>va<MAXVA. lookup (mem u) r va = set_entry (lookup (mem s) r) a (PA2PTE p OR perm OR PTE_V) va) \<and>
       uspace (mem u) r = fill_page (uspace (mem s) r) a
         (\<lambda>d. if perm AND PTE_U \<noteq> 0 then Some (m' (p + d)) else None) \<or>
     rc \<noteq> 0 \<and> kfree p u = Inr (after_kfree p u) \<and> uvm_inv r a (after_kfree p u) [p] \<and>
       uvm_to r s (p # ys) (after_kfree p u) [p] \<and>
       same_outside (set (p # ys) \<union> pt_pages (mem s) r) (mem s) (mem (after_kfree p u)) \<and>
       pt_pages (mem (after_kfree p u)) r \<subseteq> set (p # ys) \<union> pt_pages (mem s) r \<and>
       (\<forall>va<MAXVA. lookup (mem (after_kfree p u)) r va = lookup (mem s) r va) \<and>
       uspace (mem (after_kfree p u)) r = uspace (mem s) r)"
proof -
  let ?v = "PA2PTE p OR perm OR PTE_V"
  note D = uvm_invD [OF inv] and K = kalloc_private [OF uvm_invD(1) [OF inv] m' t_def]
  have um: "\<not> mapped (mem t) r a" using D(4) [OF a(2)] a(1) by (simp add: mapped_def K(8))
  have mt: "mem t = m'" by (simp add: t_def)
  note kend_t = only_mem_simps(1) [OF K(6)]
  from mappages_page [OF K(4,5) a(1) TRAPFRAME_MAXVA(1) [OF a(2)] um perm(1)]
  obtain rc u zs where m: "mappages r a PGSIZE p perm t = Inr (rc, u)" and u: "as_inv r u zs"
    "only_mem t u" "same_outside (set ys \<union> pt_pages (mem t) r) (mem t) (mem u)"
    "set zs \<subseteq> set ys" "pt_pages (mem u) r \<subseteq> set ys \<union> pt_pages (mem t) r"
    and alt: "rc = 0 \<and> set zs \<union> as_pages (mem u) r = set ys \<union> as_pages (mem t) r \<union> {p} \<and>
         (\<forall>va<MAXVA. lookup (mem u) r va = set_entry (lookup (mem t) r) a ?v va) \<and>
         uspace (mem u) r = fill_page (uspace (mem t) r) a
           (\<lambda>d. if perm AND PTE_U \<noteq> 0 then Some (mem t (p + d)) else None) \<or>
       rc = - 1 \<and> zs = [] \<and> set zs \<union> as_pages (mem u) r = set ys \<union> as_pages (mem t) r \<and>
         (\<forall>va<MAXVA. lookup (mem u) r va = lookup (mem t) r va) \<and> uspace (mem u) r = uspace (mem t) r"
    by blast
  have om: "only_mem s u" using K(6) u(2) by (rule only_mem_trans)
  have ke: "kend u = kend s" using only_mem_simps(1) [OF om] .
  have fine: "same_outside (set (p # ys) \<union> pt_pages (mem s) r) (mem s) (mem u)"
    using u(3) K(11) by (intro same_outside_trans [OF K(7)]) auto
  have coarse: "same_outside (set (p # ys) \<union> as_pages (mem s) r) (mem s) m"
    if "same_outside (set (p # ys) \<union> pt_pages (mem s) r) (mem s) m" for m
    using that by (rule same_outside_mono) (auto simp: as_pages_def)
  from alt show ?thesis
  proof (elim disjE conjE)
    assume ok: "rc = 0" "set zs \<union> as_pages (mem u) r = set ys \<union> as_pages (mem t) r \<union> {p}"
      "\<forall>va<MAXVA. lookup (mem u) r va = set_entry (lookup (mem t) r) a ?v va"
      "uspace (mem u) r = fill_page (uspace (mem t) r) a
         (\<lambda>d. if perm AND PTE_U \<noteq> 0 then Some (mem t (p + d)) else None)"
    have "PTE_FLAGS ?v \<noteq> PTE_V" "page_ok (kend s) (PTE2PA ?v)"
      using pte_mk(1,2) [OF perm(1), of p] perm(2) K(3,5) kend_t by (simp_all add: private_page_def)
    then have "uvm_inv r (a + 4096) u zs"
      using ok(3) K(8) by (intro uvm_inv_extend [OF inv a u(1) ke _ PTE_V_mk(1) [of p perm]]) simp_all
    moreover have "uvm_to r s (p # ys) u zs"
      using om ok(2) coarse [OF fine] K(10) by (auto simp: uvm_to_def)
    moreover have "uspace (mem u) r = fill_page (uspace (mem s) r) a
        (\<lambda>d. if perm AND PTE_U \<noteq> 0 then Some (m' (p + d)) else None)"
      using ok(4) unfolding K(9) unfolding mt .
    ultimately show ?thesis
      using m ok(1,3) fine K(8,11) u(4,5) by (intro exI [of _ rc] exI [of _ u] exI [of _ zs]) simp
  next
    assume fail: "rc = - 1" "zs = []" "set zs \<union> as_pages (mem u) r = set ys \<union> as_pages (mem t) r"
      "\<forall>va<MAXVA. lookup (mem u) r va = lookup (mem t) r va" "uspace (mem u) r = uspace (mem t) r"
    have pr: "private_page r u [] p"
      using K(5) fail ke kend_t by (auto simp: private_page_def)
    note F = kfree_private [OF u(1) [unfolded fail(2)] pr]
    have "uvm_inv r a (after_kfree p u) [p]"
      using F(2,4) fail(4) K(8) ke by (intro uvm_inv_same_entries [OF inv]) simp_all
    moreover have out: "same_outside (set (p # ys) \<union> pt_pages (mem s) r) (mem s) (mem (after_kfree p u))"
      by (rule same_outside_trans [OF fine F(3)]) auto
    moreover have "uvm_to r s (p # ys) (after_kfree p u) [p]"
      using only_mem_trans [OF om only_mem_upd(3)] fail(2,3) F(6) K(10) coarse [OF out] by (auto simp: uvm_to_def)
    ultimately show ?thesis
      using m fail F(1,4,5,7) K(8,9,11) u(5) by (intro exI [of _ rc] exI [of _ u] exI [of _ zs]) auto
  qed
qed

lemma uvmalloc_round:
  assumes inv: "uvm_inv r a s (p # ys)" and a: "page_aligned a" "a < TRAPFRAME"
  defines "perm \<equiv> PTE_W OR PTE_X OR PTE_R OR PTE_U"
    and "t \<equiv> (after_kalloc p s)\<lparr>mem := memset (mem (after_kalloc p s)) p 0 4096\<rparr>"
  shows "\<exists>rc u zs. mappages r a PGSIZE p perm t = Inr (rc, u) \<and>
    (rc = 0 \<and> uvm_inv r (a + 4096) u zs \<and> uvm_to r s (p # ys) u zs \<and>
       uspace (mem u) r = (\<lambda>va. if a \<le> va \<and> va < a + 4096 then Some 0 else uspace (mem s) r va) \<or>
     rc \<noteq> 0 \<and> kfree p u = Inr (after_kfree p u) \<and> uvm_inv r a (after_kfree p u) [p] \<and>
       uvm_to r s (p # ys) (after_kfree p u) [p] \<and> uspace (mem (after_kfree p u)) r = uspace (mem s) r)"
proof -
  let ?m = "memset (mem (after_kalloc p s)) p 0 4096"
  have perm: "perm < 1024" "perm AND PTE_U \<noteq> 0" "perm OR PTE_V \<noteq> PTE_V" by (simp_all add: perm_def)
  have pa: "page_aligned p"
    using as_invD(2) [OF uvm_invD(1) [OF inv]] by (auto simp: kmem_inv_def page_ok_def)
  have "?m (p + (va - a)) = 0" if "PGROUNDDOWN va = a" for va
    using PGROUNDDOWN_offset [OF pa, of "va - a"] pa offset_page(2) [OF a(1), of va] that
    by (simp add: memset_page)
  then have fp: "fill_page U a (\<lambda>d. if perm AND PTE_U \<noteq> 0 then Some (?m (p + d)) else None) =
      (\<lambda>va. if a \<le> va \<and> va < a + 4096 then Some 0 else U va)" for U
    using perm(2) page_interval [OF a] by (auto simp: fill_page_def fun_eq_iff)
  from map_round [OF inv a same_outside_memset [OF pa] refl perm(1,3), of 0] show ?thesis
    unfolding fp t_def by blast
qed

lemma uvmdealloc_back:
  assumes inv: "uvm_inv r a s xs" and o: "oldsz \<le> a" "page_aligned oldsz" "page_aligned a"
    and U: "uspace (mem s) r = (\<lambda>va. if oldsz \<le> va \<and> va < a then Some 0 else U va)"
    and none: "\<forall>va<TRAPFRAME. oldsz \<le> va \<longrightarrow> U va = None"
  shows "\<exists>s' ys. uvmdealloc r a oldsz s = Inr (oldsz, s') \<and> uvm_inv r oldsz s' ys \<and>
    uvm_to r s xs s' ys \<and> uspace (mem s') r = U"
proof -
  obtain s' ps where s': "uvmdealloc r a oldsz s = Inr (oldsz, s')" "uvm_inv r oldsz s' (ps @ xs)"
    "only_mem s s'" "same_outside (as_pages (mem s) r) (mem s) (mem s')"
    "set (ps @ xs) \<union> as_pages (mem s') r = set xs \<union> as_pages (mem s) r"
    "uspace (mem s') r =
      (\<lambda>va. if PGROUNDUP oldsz \<le> va \<and> va < PGROUNDUP a then None else uspace (mem s) r va)"
    using uvmdealloc_ok [OF inv o(1)] by blast
  have "uvm_to r s xs s' (ps @ xs)"
    using s'(3,4,5) by (auto simp: uvm_to_def intro: same_outside_mono)
  moreover have "uspace (mem s') r = U"
    unfolding s'(6) U using o none uvm_invD(2) [OF inv]
    by (auto simp: fun_eq_iff dest: order.strict_trans2)
  ultimately show ?thesis using s'(1,2) by blast
qed

lemma uvmalloc_loop_ok:
  assumes "uvm_inv r a s xs" "page_aligned a" "page_aligned oldsz" "oldsz \<le> a" "newsz \<le> TRAPFRAME"
    "unat (PGROUNDUP newsz) = unat a + 4096 * n"
    "uspace (mem s) r = (\<lambda>va. if oldsz \<le> va \<and> va < a then Some 0 else U va)"
    "\<forall>va<TRAPFRAME. oldsz \<le> va \<longrightarrow> U va = None"
  shows "\<exists>rc s' ys. uvmalloc_loop r a oldsz newsz s = Inr (rc, s') \<and> uvm_to r s xs s' ys \<and>
    (rc = newsz \<and> uvm_inv r newsz s' ys \<and>
       uspace (mem s') r = (\<lambda>va. if oldsz \<le> va \<and> va < PGROUNDUP newsz then Some 0 else U va) \<or>
     rc = 0 \<and> uvm_inv r oldsz s' ys \<and> uspace (mem s') r = U)"
  using assms
proof (induction n arbitrary: a s xs)
  case 0
  then have up: "PGROUNDUP newsz = a" by (simp add: word_unat_eq_iff)
  then have "\<not> a < newsz" using PGROUNDUP_TRAPFRAME(1) [OF 0(5)] by (simp add: not_less)
  then have "uvmalloc_loop r a oldsz newsz s = Inr (newsz, s)" by (subst uvmalloc_loop.simps) simp
  moreover have "uvm_inv r newsz s xs"
    using 0(1,2) up uvm_inv_round [OF 0(5) uvm_invD(2) [OF 0(1)], of r s xs] by simp
  ultimately show ?case using 0(7) up uvm_to_refl by blast
next
  case (Suc n)
  have a: "a < newsz" "a < TRAPFRAME"
  proof -
    have "unat a + 4096 \<le> unat (PGROUNDUP newsz)" using Suc.prems(6) by simp
    then show "a < newsz" using PGROUNDUP_TRAPFRAME(3) [OF Suc.prems(5)] by (simp add: word_less_nat_alt)
    then show "a < TRAPFRAME" using Suc.prems(5) by (rule order.strict_trans2)
  qed
  show ?case
  proof (cases xs)
    case Nil
    then have "kalloc s = Inr (0, s)"
      using kalloc_empty as_invD(2) [OF uvm_invD(1) [OF Suc.prems(1)]] by blast
    moreover obtain s' ys where "uvmdealloc r a oldsz s = Inr (oldsz, s')" "uvm_inv r oldsz s' ys"
      "uvm_to r s xs s' ys" "uspace (mem s') r = U"
      using uvmdealloc_back [OF Suc.prems(1,4,3,2,7,8)] by blast
    ultimately show ?thesis using a by (subst uvmalloc_loop.simps) auto
  next
    case (Cons p ys)
    let ?t = "(after_kalloc p s)\<lparr>mem := memset (mem (after_kalloc p s)) p 0 4096\<rparr>"
    have inv: "uvm_inv r a s (p # ys)" using Suc.prems(1) Cons by simp
    have k: "kalloc s = Inr (p, after_kalloc p s)" "p \<noteq> 0"
      using kalloc_Cons(1) as_invD(2) [OF uvm_invD(1) [OF inv]] by (auto simp: kmem_inv_def)
    have le: "oldsz \<le> a + 4096" "unat (a + 4096) = unat a + 4096"
      using Suc.prems(4) unat_next_va [OF TRAPFRAME_MAXVA(1) [OF a(2)]] by (auto simp: word_le_nat_alt)
    from uvmalloc_round [OF inv Suc.prems(2) a(2)] obtain rc u zs where
      m: "mappages r a PGSIZE p (PTE_W OR PTE_X OR PTE_R OR PTE_U) ?t = Inr (rc, u)"
      and alt: "rc = 0 \<and> uvm_inv r (a + 4096) u zs \<and> uvm_to r s xs u zs \<and>
          uspace (mem u) r = (\<lambda>va. if a \<le> va \<and> va < a + 4096 then Some 0 else uspace (mem s) r va) \<or>
        rc \<noteq> 0 \<and> kfree p u = Inr (after_kfree p u) \<and> uvm_inv r a (after_kfree p u) [p] \<and>
          uvm_to r s xs (after_kfree p u) [p] \<and> uspace (mem (after_kfree p u)) r = uspace (mem s) r"
      unfolding Cons by blast
    from alt show ?thesis
    proof (elim disjE conjE)
      assume ok: "rc = 0" "uvm_inv r (a + 4096) u zs" "uvm_to r s xs u zs"
        "uspace (mem u) r = (\<lambda>va. if a \<le> va \<and> va < a + 4096 then Some 0 else uspace (mem s) r va)"
      have step: "uvmalloc_loop r a oldsz newsz s = uvmalloc_loop r (a + 4096) oldsz newsz u"
        using a k m ok(1) by (subst uvmalloc_loop.simps) simp
      have "uspace (mem u) r = (\<lambda>va. if oldsz \<le> va \<and> va < a + 4096 then Some 0 else U va)"
        unfolding ok(4) Suc.prems(7) using le Suc.prems(4) by (auto simp: fun_eq_iff word_le_nat_alt word_less_nat_alt)
      moreover have "page_aligned (a + 4096)"
        using Suc.prems(2) by (intro page_aligned_add) (simp_all add: page_aligned_def)
      ultimately have "\<exists>rc s' ys. uvmalloc_loop r (a + 4096) oldsz newsz u = Inr (rc, s') \<and>
          uvm_to r u zs s' ys \<and> (rc = newsz \<and> uvm_inv r newsz s' ys \<and>
            uspace (mem s') r = (\<lambda>va. if oldsz \<le> va \<and> va < PGROUNDUP newsz then Some 0 else U va) \<or>
          rc = 0 \<and> uvm_inv r oldsz s' ys \<and> uspace (mem s') r = U)"
        using Suc.prems le ok(2) by (intro Suc.IH) simp_all
      then show ?thesis unfolding step using uvm_to_trans [OF ok(3)] by blast
    next
      assume fail: "rc \<noteq> 0" "kfree p u = Inr (after_kfree p u)" "uvm_inv r a (after_kfree p u) [p]"
        "uvm_to r s xs (after_kfree p u) [p]" "uspace (mem (after_kfree p u)) r = uspace (mem s) r"
      obtain s' zs where s': "uvmdealloc r a oldsz (after_kfree p u) = Inr (oldsz, s')"
        "uvm_inv r oldsz s' zs" "uvm_to r (after_kfree p u) [p] s' zs" "uspace (mem s') r = U"
        using uvmdealloc_back [OF fail(3) Suc.prems(4,3,2) _ Suc.prems(8)] fail(5) Suc.prems(7) by auto
      have "uvmalloc_loop r a oldsz newsz s = Inr (0, s')"
        using a k m fail s'(1) by (subst uvmalloc_loop.simps) simp
      then show ?thesis using s'(2,4) uvm_to_trans [OF fail(4) s'(3)] by blast
    qed
  qed
qed


lemma unmapped_None: "\<not> mapped m r va \<Longrightarrow> uspace m r va = None"
  by (simp add: uspace_def user_ok_def)

text \<open>
  C13. \<^verbatim>\<open>uvmalloc\<close> grows a process to a new size or leaves it as it was. On success every
  new byte reads as zero, the old memory is unchanged and the invariant holds for the new size; when
  memory runs out at any point, on a frame or on a page of the page table, it returns 0 with the old
  size and contents in place. Either way no page of memory is lost, and nothing outside the
  address space and the free list is written.
\<close>

theorem uvmalloc_grows:
  assumes inv: "uvm_inv r oldsz s xs" and le: "oldsz \<le> newsz" "newsz \<le> TRAPFRAME"
  shows "\<exists>rc s' ys. uvmalloc r oldsz newsz s = Inr (rc, s') \<and> uvm_to r s xs s' ys \<and>
    (rc = newsz \<and> uvm_inv r newsz s' ys \<and> uspace (mem s') r =
       (\<lambda>va. if PGROUNDUP oldsz \<le> va \<and> va < PGROUNDUP newsz then Some 0 else uspace (mem s) r va) \<or>
     rc = 0 \<and> uvm_inv r oldsz s' ys \<and> uspace (mem s') r = uspace (mem s) r)"
proof -
  let ?a = "PGROUNDUP oldsz"
  note D = uvm_invD [OF inv]
  have al: "page_aligned ?a" by simp
  have a: "?a \<le> TRAPFRAME" using PGROUNDUP_TRAPFRAME(2) [OF D(2)] .
  have up: "PGROUNDUP ?a = ?a" using al by (rule PGROUNDUP_id)
  note rnd = uvm_inv_round [OF D(2) a, unfolded up, OF refl]
  have inv': "uvm_inv r ?a s xs" using inv rnd by blast
  have mono: "?a \<le> PGROUNDUP newsz" using PGROUNDUP_mono [OF le(2,1)] .
  obtain n where n: "unat (PGROUNDUP newsz) = unat ?a + 4096 * n"
    using npages_between [OF PGROUNDUP_aligned PGROUNDUP_aligned mono PGROUNDUP_TRAPFRAME(2) [OF le(2)]]
    by blast
  have none: "\<forall>va<TRAPFRAME. ?a \<le> va \<longrightarrow> uspace (mem s) r va = None"
    using D(4) unmapped_None by blast
  have U: "uspace (mem s) r = (\<lambda>va. if ?a \<le> va \<and> va < ?a then Some 0 else uspace (mem s) r va)"
    by (rule ext, subst if_not_P) (auto dest: leD)
  from uvmalloc_loop_ok [OF inv' al al order_refl le(2) n U none]
  show ?thesis
    using le(1) rnd by (simp add: uvmalloc_def not_less [symmetric] del: not_less) blast
qed


subsection \<open>An empty address space\<close>

lemma empty_table:
  assumes "page_aligned r" "r \<noteq> 0" "\<forall>i<512. load64 m (slot r i) = 0"
  shows "pt_pages m r = {r}" "pt_wf m r" "inner_ok m r" "lookup m r va = 0" "as_wf m r" "as_frames m r = {}"
proof -
  have nd: "node m r (i # is') = None" if "i < 512" for i is'
    using assms(3) that by (simp add: child_def)
  have only: "node m r ks = Some q \<Longrightarrow> idx ks \<Longrightarrow> ks = [] \<and> q = r" for ks q
    using nd by (cases ks) (auto simp: idx_def)
  show pp: "pt_pages m r = {r}" unfolding pt_pages_def using only by (force intro: exI [of _ "[]"])
  show wf: "pt_wf m r" unfolding pt_wf_def pp using assms(1,2) only by (metis singletonD)
  show "inner_ok m r"
    unfolding inner_ok_def
  proof (intro allI impI)
    fix ks p i assume a: "idx (ks @ [i])" "node m r ks = Some p" "load64 m (slot p i) AND 1 \<noteq> 0"
    then have "p = r" "i < 512" using only [of ks p] by (auto simp: idx_snoc)
    with a(3) assms(3) show "PTE_FLAGS (load64 m (slot p i)) = 1 \<and> (ks = [] \<longrightarrow> i < 256)" by simp
  qed
  show L: "lookup m r va = 0" for va using nd [OF PX_less] by (simp add: lookup_def vpath_def)
  show "as_frames m r = {}" by (simp add: as_frames_def mapped_def L)
  show "as_wf m r" using wf by (simp add: as_wf_def frames_ok_def frames_inj_def mapped_def L)
qed

lemma empty_uvm_inv:
  assumes "kmem_inv s xs" "page_ok (kend s) r" "r \<notin> set xs" "\<forall>i<512. load64 (mem s) (slot r i) = 0"
  shows "uvm_inv r 0 s xs" "as_pages (mem s) r = {r}" "uspace (mem s) r = (\<lambda>_. None)"
proof -
  have r: "page_aligned r" "r \<noteq> 0" using assms(1,2) by (auto simp: page_ok_def kmem_inv_def)
  note e = empty_table [OF r assms(4)]
  show "as_pages (mem s) r = {r}" by (simp add: as_pages_def e)
  show "uspace (mem s) r = (\<lambda>_. None)" by (auto simp: uspace_def user_ok_def mapped_def e)
  show "uvm_inv r 0 s xs"
    using assms e by (simp add: uvm_inv_def as_inv_def pt_inv_def mapped_def)
qed

lemma uvmcreate_ok:
  assumes "kmem_inv s (p # ys)"
  shows "\<exists>s'. uvmcreate s = Inr (p, s') \<and> uvm_inv p 0 s' ys \<and> as_pages (mem s') p = {p} \<and>
    uspace (mem s') p = (\<lambda>_. None) \<and> same_outside {p} (mem s) (mem s') \<and> only_mem s s'"
proof -
  let ?t = "(after_kalloc p s)\<lparr>mem := memset (mem (after_kalloc p s)) p 0 4096\<rparr>"
  have p: "page_ok (kend s) p" "page_aligned p" "p \<notin> set ys" "p \<noteq> 0"
    using assms by (auto simp: kmem_inv_def page_ok_def)
  have out: "same_outside {p} (mem (after_kalloc p s)) (mem ?t)"
    using same_outside_memset [OF p(2)] by simp
  have "kmem_inv ?t ys"
    using kmem_inv_frame [OF kalloc_Cons(2) [OF assms] out] p(3) by simp
  moreover have "\<forall>i<512. load64 (mem ?t) (slot p i) = 0" using load64_memset_0 [OF p(2)] by simp
  moreover have "same_outside {p} (mem s) (mem (after_kalloc p s))"
    using same_outside_memset [OF p(2)] by simp
  then have "same_outside {p} (mem s) (mem ?t)" using out by (rule same_outside_trans) auto
  moreover have "only_mem s ?t" using only_mem_trans only_mem_upd by blast
  moreover have "uvmcreate s = Inr (p, ?t)"
    using kalloc_Cons(1) [OF assms] p(4) by (simp add: uvmcreate_def)
  ultimately show ?thesis using empty_uvm_inv [of ?t ys p] p by auto
qed

definition as_sample :: phys where
  "as_sample = \<lparr>held = {}, kend = 0x87ffe000, mem = (\<lambda>_. 0), freelist = 0x87fff000\<rparr>"

lemma as_sample_inv: "uvm_inv 0x87ffe000 0 as_sample [0x87fff000]"
  by (rule empty_uvm_inv)
    (simp_all add: as_sample_def kmem_inv_def page_ok_def page_aligned_def PHYSTOP_eq)


theorem uvmalloc_grows_witness:
  "\<exists>rc s' ys. uvmalloc 0x87ffe000 0 5000 as_sample = Inr (rc, s') \<and>
    uvm_to 0x87ffe000 as_sample [0x87fff000] s' ys \<and>
    (rc = 5000 \<and> uvm_inv 0x87ffe000 5000 s' ys \<and> uspace (mem s') 0x87ffe000 =
       (\<lambda>va. if PGROUNDUP 0 \<le> va \<and> va < PGROUNDUP 5000 then Some 0
         else uspace (mem as_sample) 0x87ffe000 va) \<or>
     rc = 0 \<and> uvm_inv 0x87ffe000 0 s' ys \<and> uspace (mem s') 0x87ffe000 = uspace (mem as_sample) 0x87ffe000)"
  by (rule uvmalloc_grows [OF as_sample_inv]) (simp_all add: TRAPFRAME_eq)

text \<open>
  C18. \<^verbatim>\<open>uvmdealloc\<close> shrinks a process to exactly the new size: the pages above it are
  unmapped and become free, the rest of the address space keeps its contents, and no page is lost.
\<close>

theorem uvmdealloc_shrinks:
  assumes "uvm_inv r oldsz s xs" "newsz \<le> oldsz"
  shows "\<exists>s' ps. uvmdealloc r oldsz newsz s = Inr (newsz, s') \<and> uvm_inv r newsz s' (ps @ xs) \<and>
    set (ps @ xs) \<union> as_pages (mem s') r = set xs \<union> as_pages (mem s) r \<and>
    uspace (mem s') r =
      (\<lambda>va. if PGROUNDUP newsz \<le> va \<and> va < PGROUNDUP oldsz then None else uspace (mem s) r va)"
  using uvmdealloc_ok [OF assms] by blast

text \<open>A process of one page: its page table is built by two new pages and one mapping.\<close>

definition one_page :: phys where
  "one_page = \<lparr>held = {}, kend = 0x87ffb000,
     mem = store64 (linked (linked (\<lambda>_. 0) 0x87ffe000 0 0x87ffb000) 0x87ffb000 0 0x87ffc000)
       (slot 0x87ffc000 0) (PA2PTE 0x87ffd000 OR 0x1e OR PTE_V),
     freelist = 0x87fff000\<rparr>"

lemma one_page_tree:
  defines "m \<equiv> linked (linked (\<lambda>_. 0) 0x87ffe000 0 0x87ffb000) 0x87ffb000 0 0x87ffc000"
  shows "pt_pages m 0x87ffe000 = {0x87ffc000, 0x87ffb000, 0x87ffe000}" "pt_wf m 0x87ffe000"
    "inner_ok m 0x87ffe000" "lookup m 0x87ffe000 va = 0" "node m 0x87ffe000 [0, 0] = Some 0x87ffc000"
    "same_outside {0x87ffe000, 0x87ffb000, 0x87ffc000} (\<lambda>_. 0) m"
proof -
  let ?r = "0x87ffe000 :: u64" and ?b = "0x87ffb000 :: u64" and ?c = "0x87ffc000 :: u64"
  let ?m0 = "\<lambda>_ :: u64. 0 :: u8" and ?m1 = "linked (\<lambda>_. 0) 0x87ffe000 0 0x87ffb000"
  have al: "page_aligned ?r" "page_aligned ?b" "page_aligned ?c" by (simp_all add: page_aligned_def)
  have e0: "pt_wf ?m0 ?r" "pt_pages ?m0 ?r = {?r}" "inner_ok ?m0 ?r" "lookup ?m0 ?r va = 0" for va
    using empty_table [OF al(1), of ?m0] by simp_all
  have ch: "child ?m0 q i = None" for q i by (simp add: child_def)
  have "idx ([] @ [0])" "idx ([0] @ [0])" by (simp_all add: idx_def)
  note l1 = pt_linked [OF e0(1) _ this(1) ch al(2), of ?r, simplified e0] and idx2 = this(2)
  have m1: "pt_pages ?m1 ?r = {?b, ?r}" "pt_wf ?m1 ?r" "lookup ?m1 ?r va = 0" "node ?m1 ?r [0] = Some ?b"
    "same_outside {?r, ?b} ?m0 ?m1" "inner_ok ?m1 ?r" for va
    using l1 by simp_all
  have "child ?m1 ?b 0 = None" using linked_child(1) [OF al(1,2), of 0 0 ?m0] by simp
  note l2 = pt_linked [OF m1(2,4) idx2 this al(3), simplified m1]
  show "pt_pages m ?r = {?c, ?b, ?r}" "pt_wf m ?r" "lookup m ?r va = 0" "node m ?r [0, 0] = Some ?c" "inner_ok m ?r"
    unfolding m_def using l2 m1(6) by simp_all
  have "same_outside {?b, ?c} ?m1 m" unfolding m_def using l2 by simp
  with m1(5) show "same_outside {?r, ?b, ?c} ?m0 m" by (rule same_outside_trans) auto
qed

lemma one_page_memory:
  shows "pt_pages (mem one_page) 0x87ffe000 = {0x87ffc000, 0x87ffb000, 0x87ffe000}"
    "pt_wf (mem one_page) 0x87ffe000" "inner_ok (mem one_page) 0x87ffe000"
    "va < MAXVA \<Longrightarrow> lookup (mem one_page) 0x87ffe000 va =
       (if va < 4096 then PA2PTE 0x87ffd000 OR 0x1e OR PTE_V else 0)"
    "load64 (mem one_page) 0x87fff000 = 0"
proof -
  let ?r = "0x87ffe000 :: u64" and ?c = "0x87ffc000 :: u64" and ?v = "PA2PTE 0x87ffd000 OR 0x1e OR 1"
  let ?m = "linked (linked (\<lambda>_. 0) 0x87ffe000 0 0x87ffb000) 0x87ffb000 0 0x87ffc000"
  note T = one_page_tree
  have mem: "mem one_page = store64 ?m (slot ?c 0) ?v" by (simp add: one_page_def)
  have idx: "idx [0, 0]" "length [0 :: u64, 0] = 2" "(0 :: u64) < 512" by (simp_all add: idx_def)
  note st = leaf_store [OF T(2,5) idx mem]
  show "pt_pages (mem one_page) ?r = {?c, 0x87ffb000, ?r}" "pt_wf (mem one_page) ?r"
    "inner_ok (mem one_page) ?r"
    using st T by simp_all
  show "lookup (mem one_page) ?r va = (if va < 4096 then ?v else 0)" if "va < MAXVA"
  proof -
    have px: "PX l 0 = 0" for l by (simp add: word_unat_eq_iff unat_PX)
    have "vpath va = [0, 0] \<and> PX 0 va = 0 \<longleftrightarrow> PGROUNDDOWN va = 0"
      using vpath_eq_iff [of 0 va] that px by (simp add: vpath_def MAXVA_eq)
    also have "\<dots> \<longleftrightarrow> va < 4096"
      using in_page_iff [OF page_aligned_0, of va] by (simp add: word_less_nat_alt)
    finally show ?thesis using st(5) [of va] T(4) by simp
  qed
  have al: "page_aligned ?c" "page_aligned 0x87fff000" by (simp_all add: page_aligned_def)
  have "same_outside {?c} ?m (mem one_page)" unfolding mem using al(1) idx(3) by (rule same_outside_store64)
  then have "same_outside {?r, 0x87ffb000, ?c} (\<lambda>_. 0) (mem one_page)"
    by (rule same_outside_trans [OF T(6)]) auto
  from load64_page_same_outside [OF this al(2)] show "load64 (mem one_page) 0x87fff000 = 0" by simp
qed

lemma one_page_inv: "uvm_inv 0x87ffe000 4096 one_page [0x87fff000]"
proof -
  let ?m = "mem one_page" and ?r = "0x87ffe000 :: u64"
  note M = one_page_memory
  have v: "PTE2PA (PA2PTE 0x87ffd000 OR 0x1e OR 1) = 0x87ffd000" "PTE_FLAGS (PA2PTE 0x87ffd000 OR 0x1e OR 1) = 0x1f"
    using pte_mk(1,2) [of "0x1e" "0x87ffd000"] PGROUNDDOWN_id [of "0x87ffd000"] by (simp_all add: page_aligned_def)
  have mp: "mapped ?m ?r va \<longleftrightarrow> va < 4096" "va < 4096 \<Longrightarrow> frame_of ?m ?r va = 0x87ffd000"
    if "va < MAXVA" for va
    using M(4) [OF that] v PTE_V_mk(1) [of "0x87ffd000" "0x1e"] by (auto simp: mapped_def frame_of_def)
  have low: "va < 4096 \<Longrightarrow> va < MAXVA" for va by (simp add: MAXVA_eq word_less_nat_alt)
  have frames: "as_frames ?m ?r = {0x87ffd000}"
  proof -
    have "frame_of ?m ?r 0 \<in> as_frames ?m ?r" using mp(1) [OF low, of 0] low [of 0] by (intro mapped_in_frames) simp_all
    moreover have "frame_of ?m ?r 0 = 0x87ffd000" using mp(2) [OF low, of 0] by simp
    moreover have "as_frames ?m ?r \<subseteq> {0x87ffd000}" unfolding as_frames_def using mp by auto
    ultimately show ?thesis by auto
  qed
  have page0: "va < 4096 \<Longrightarrow> PGROUNDDOWN va = 0" for va
    using in_page_iff [OF page_aligned_0, of va] by (simp add: word_less_nat_alt)
  have "frames_ok ?m ?r" "frames_inj ?m ?r"
    unfolding frames_ok_def frames_inj_def M(1) using mp page0 by auto
  moreover have "kmem_inv one_page [0x87fff000]"
    using M(5) by (simp add: kmem_inv_def page_ok_def page_aligned_def PHYSTOP_eq one_page_def)
  ultimately have "as_inv ?r one_page [0x87fff000]"
    using M(1-3) frames
    by (simp add: as_inv_def pt_inv_def as_wf_def page_ok_def page_aligned_def PHYSTOP_eq one_page_def)
  moreover have ke: "kend one_page = 0x87ffb000" by (simp add: one_page_def)
  moreover have "PGROUNDUP 4096 = 4096" by (rule PGROUNDUP_id) (simp add: page_aligned_def)
  ultimately show ?thesis
    using mp low M(4) v TRAPFRAME_MAXVA ke
    by (auto simp: uvm_inv_def page_ok_def page_aligned_def PHYSTOP_eq TRAPFRAME_eq)
qed


theorem uvmdealloc_shrinks_witness:
  "\<exists>s' ps. uvmdealloc 0x87ffe000 4096 0 one_page = Inr (0, s') \<and>
    uvm_inv 0x87ffe000 0 s' (ps @ [0x87fff000]) \<and>
    set (ps @ [0x87fff000]) \<union> as_pages (mem s') 0x87ffe000 =
      set [0x87fff000] \<union> as_pages (mem one_page) 0x87ffe000 \<and>
    uspace (mem s') 0x87ffe000 =
      (\<lambda>va. if PGROUNDUP 0 \<le> va \<and> va < PGROUNDUP 4096 then None
        else uspace (mem one_page) 0x87ffe000 va)"
  by (rule uvmdealloc_shrinks [OF one_page_inv]) simp

end
