(* ===== verification/Freewalk.thy ===== *)
theory Freewalk
  imports Uvm
begin

text \<open>
  \<^verbatim>\<open>freewalk\<close> and \<^verbatim>\<open>uvmfree\<close>: freeing a page table. The recursion
  overwrites the pages it frees while the tree is still being walked, so the proof keeps the tree
  as it was at the start and the set of pages that may have changed since.
\<close>

definition subtree :: "memory \<Rightarrow> u64 \<Rightarrow> u64 list \<Rightarrow> u64 set" where
  "subtree m r ks = {q. \<exists>js. idx (ks @ js) \<and> node m r (ks @ js) = Some q}"

text \<open>A page table with no mappings left.\<close>

definition no_leaves :: "memory \<Rightarrow> u64 \<Rightarrow> bool" where
  "no_leaves m r \<longleftrightarrow> (\<forall>ks q i. idx ks \<longrightarrow> length ks = 2 \<longrightarrow> node m r ks = Some q \<longrightarrow> i < 512 \<longrightarrow>
     load64 m (slot q i) AND PTE_V = 0)"

definition freewalk_entry :: "nat \<Rightarrow> u64 \<Rightarrow> nat \<Rightarrow> 'a phys_scheme \<Rightarrow> 'a phys_scheme res" where
  "freewalk_entry n pagetable i s =
     (let pte = load64 (mem s) (slot pagetable (of_nat i)) in
      if pte AND PTE_V \<noteq> 0 \<and> pte AND (PTE_R OR PTE_W OR PTE_X) = 0
      then bindE (freewalk n (PTE2PA pte) s) (\<lambda>s.
        Inr (s\<lparr>mem := store64 (mem s) (slot pagetable (of_nat i)) 0\<rparr>))
      else if pte AND PTE_V \<noteq> 0 then Inl (Panic ''freewalk: leaf'')
      else Inr s)"

lemma freewalk_Suc:
  "freewalk (Suc n) p s = bindE (foldE (freewalk_entry n p) [0..<512] s) (kfree p)"
  by (simp add: freewalk_entry_def [abs_def])

lemma subtree_Nil [simp]: "subtree m r [] = pt_pages m r"
  by (simp add: subtree_def pt_pages_def)

lemma subtree_self: "idx ks \<Longrightarrow> node m r ks = Some p \<Longrightarrow> p \<in> subtree m r ks"
  unfolding subtree_def by (auto intro: exI [of _ "[]"])

lemma subtree_pages: "subtree m r ks \<subseteq> pt_pages m r"
  by (auto simp: subtree_def pt_pages_def)

lemma subtree_snoc: "subtree m r (ks @ [i]) \<subseteq> subtree m r ks"
  by (auto simp: subtree_def)

lemma subtree_disjoint:
  assumes "pt_wf m r" "i \<noteq> j"
  shows "subtree m r (ks @ [i]) \<inter> subtree m r (ks @ [j]) = {}"
  using pt_wf_inj [OF assms(1)] assms(2) by (fastforce simp: subtree_def)

lemma subtree_not_self:
  assumes "pt_wf m r" "idx ks" "node m r ks = Some p"
  shows "p \<notin> subtree m r (ks @ [i])"
  using pt_wf_inj [OF assms(1,2) _ assms(3)] by (fastforce simp: subtree_def)

lemma subtree_unfold:
  assumes "idx ks" "node m r ks = Some p"
  shows "subtree m r ks = insert p (\<Union>i\<in>{i. i < 512}. subtree m r (ks @ [i]))"
proof -
  have "q \<in> insert p (\<Union>i\<in>{i. i < 512}. subtree m r (ks @ [i]))"
    if "idx (ks @ js)" "node m r (ks @ js) = Some q" for js q
  proof (cases js)
    case (Cons i js')
    then have "i < 512" "q \<in> subtree m r (ks @ [i])" using that by (auto simp: idx_def subtree_def)
    then show ?thesis by blast
  qed (use that assms in simp)
  then show ?thesis using subtree_self [OF assms] subtree_snoc by (fastforce simp: subtree_def)
qed

lemma idx_of_nat: "{i :: u64. i < 512} = of_nat ` {0..<512}"
proof
  show "{i :: u64. i < 512} \<subseteq> of_nat ` {0..<512}"
  proof
    fix i :: u64 assume "i \<in> {i. i < 512}"
    then have "unat i \<in> {0..<512}" by (simp add: word_less_nat_alt)
    moreover have "i = of_nat (unat i)" by simp
    ultimately show "i \<in> of_nat ` {0..<512}" by blast
  qed
  show "of_nat ` {0..<512} \<subseteq> {i :: u64. i < 512}"
    by (auto simp: word_less_nat_alt unat_of_nat_small)
qed

lemma of_nat_index:
  assumes "i < 512" "j < 512" "i \<noteq> j"
  shows "(of_nat i :: u64) < 512" "(of_nat i :: u64) \<noteq> of_nat j"
  using assms unat_of_nat_small [of i, where ?'a = 64] unat_of_nat_small [of j, where ?'a = 64]
  by (auto simp: word_less_nat_alt dest: arg_cong [of _ _ unat])

text \<open>
  What freeing the pages \<open>Q\<close> does, from a state where memory has changed only in pages outside
  \<open>Q\<close> since it was \<open>m\<close>.
\<close>

definition freed :: "u64 set \<Rightarrow> 'a phys_scheme \<Rightarrow> u64 list \<Rightarrow> 'a phys_scheme \<Rightarrow> bool" where
  "freed Q s xs s' \<longleftrightarrow> (\<exists>ys. kmem_inv s' (ys @ xs) \<and> set ys = Q) \<and>
     same_outside Q (mem s) (mem s') \<and> only_mem s s'"

definition can_free :: "memory \<Rightarrow> u64 set \<Rightarrow> 'a phys_scheme \<Rightarrow> u64 list \<Rightarrow> bool" where
  "can_free m Q s xs \<longleftrightarrow> kmem_inv s xs \<and> (\<exists>P. same_outside P m (mem s) \<and> P \<inter> Q = {}) \<and>
     set xs \<inter> Q = {} \<and> (\<forall>q\<in>Q. page_ok (kend s) q)"

lemma flags_inner: "PTE_FLAGS v = PTE_V \<Longrightarrow> v AND (PTE_R OR PTE_W OR PTE_X) = 0"
proof -
  assume "PTE_FLAGS v = PTE_V"
  then have "(v AND 1023) AND 14 = (1 :: u64) AND 14" by (simp add: PTE_FLAGS_def)
  then show ?thesis by (simp add: and.assoc)
qed

lemma subtree_empty:
  assumes "node m r ks = Some p" "load64 m (slot p i) AND PTE_V = 0"
  shows "subtree m r (ks @ [i]) = {}"
  using assms by (auto simp: subtree_def node_append child_def Let_def)

lemma can_free_entry:
  assumes wf: "pt_wf m r" and ks: "idx ks" "node m r ks = Some p"
    and s: "can_free m (subtree m r ks) s xs" and k: "k < 512"
    and t: "kmem_inv t (ys @ xs)" "set ys = (\<Union>i<k. subtree m r (ks @ [of_nat i]))"
      "same_outside (insert p (set ys)) (mem s) (mem t)" "only_mem s t"
  shows "can_free m (subtree m r (ks @ [of_nat k])) t (ys @ xs)"
proof -
  let ?Q = "subtree m r (ks @ [of_nat k])"
  obtain P where P: "same_outside P m (mem s)" "P \<inter> subtree m r ks = {}"
    using s by (auto simp: can_free_def)
  have sub: "?Q \<subseteq> subtree m r ks" by (rule subtree_snoc)
  have "p \<notin> ?Q" using wf ks by (rule subtree_not_self)
  moreover have "subtree m r (ks @ [of_nat i]) \<inter> ?Q = {}" if "i < k" for i
    using subtree_disjoint [OF wf of_nat_index(2) [of i k]] that k by simp
  then have ys: "set ys \<inter> ?Q = {}" unfolding t(2) by blast
  ultimately have "(P \<union> insert p (set ys)) \<inter> ?Q = {}" using P(2) sub by auto
  moreover have "same_outside (P \<union> insert p (set ys)) m (mem t)"
    by (rule same_outside_trans [OF P(1) t(3)]) auto
  moreover have "set (ys @ xs) \<inter> ?Q = {}" using ys s sub by (auto simp: can_free_def)
  ultimately show ?thesis
    using t(1) s sub only_mem_simps(1) [OF t(4)] by (auto simp: can_free_def)
qed

lemma freewalk_entries:
  fixes s :: "'a phys_scheme"
  assumes wf: "pt_wf m r" "inner_ok m r" "no_leaves m r" and ks: "idx ks" "node m r ks = Some p"
    and IH: "\<And>i q (s :: 'a phys_scheme) xs. idx (ks @ [i]) \<Longrightarrow> node m r (ks @ [i]) = Some q \<Longrightarrow>
      can_free m (subtree m r (ks @ [i])) s xs \<Longrightarrow>
      \<exists>s'. freewalk n q s = Inr s' \<and> freed (subtree m r (ks @ [i])) s xs s'"
    and s: "can_free m (subtree m r ks) s xs" and "k \<le> 512"
  shows "\<exists>s' ys. foldE (freewalk_entry n p) [0..<k] s = Inr s' \<and> kmem_inv s' (ys @ xs) \<and>
    set ys = (\<Union>i<k. subtree m r (ks @ [of_nat i])) \<and>
    same_outside (insert p (set ys)) (mem s) (mem s') \<and> only_mem s s' \<and>
    (\<forall>j<512. k \<le> j \<longrightarrow> load64 (mem s') (slot p (of_nat j)) = load64 m (slot p (of_nat j)))"
  using \<open>k \<le> 512\<close>
proof (induction k)
  case 0
  have "page_aligned p" using ks(2) wf(1) node_aligned by (auto simp: pt_wf_def)
  moreover obtain P where "same_outside P m (mem s)" "P \<inter> subtree m r ks = {}"
    using s by (auto simp: can_free_def)
  ultimately have "load64 (mem s) (slot p (of_nat j)) = load64 m (slot p (of_nat j))" if "j < 512" for j
    using subtree_self [OF ks] of_nat_index(1) [of j "if j = 0 then 1 else 0"] that
    by (intro load64_same_outside) auto
  then show ?case using s by (intro exI [of _ s] exI [of _ "[]"]) (auto simp: can_free_def)
next
  case (Suc k)
  let ?i = "of_nat k :: u64"
  let ?Q = "subtree m r (ks @ [?i])"
  have k: "k < 512" "?i < 512"
    using Suc.prems of_nat_index(1) [of k "if k = 0 then 1 else 0"] by auto
  from Suc obtain t ys where t: "foldE (freewalk_entry n p) [0..<k] s = Inr t"
    "kmem_inv t (ys @ xs)" "set ys = (\<Union>i<k. subtree m r (ks @ [of_nat i]))"
    "same_outside (insert p (set ys)) (mem s) (mem t)" "only_mem s t"
    "\<forall>j<512. k \<le> j \<longrightarrow> load64 (mem t) (slot p (of_nat j)) = load64 m (slot p (of_nat j))"
    by auto
  let ?v = "load64 m (slot p ?i)"
  have v: "load64 (mem t) (slot p ?i) = ?v" using t(6) k by simp
  have fold: "foldE (freewalk_entry n p) [0..<Suc k] s = freewalk_entry n p k t"
    using t(1) by (simp add: foldE_append)
      (cases "freewalk_entry n p k t"; simp)
  have un: "(\<Union>i<Suc k. subtree m r (ks @ [of_nat i])) = set ys \<union> ?Q"
    unfolding t(3) by (auto simp: less_Suc_eq)
  have pa: "page_aligned p" using ks(2) wf(1) node_aligned by (auto simp: pt_wf_def)
  show ?case
  proof (cases "?v AND PTE_V = 0")
    case True
    then have "?Q = {}" using subtree_empty [OF ks(2)] by simp
    moreover have "freewalk_entry n p k t = Inr t" using True v by (simp add: freewalk_entry_def)
    ultimately show ?thesis using t un fold by (intro exI [of _ t] exI [of _ ys]) auto
  next
    case False
    have len: "length ks \<le> 1"
    proof (rule ccontr)
      assume "\<not> length ks \<le> 1"
      then have "length ks = 2" using ks(1) by (simp add: idx_def)
      with False wf(3) ks k show False unfolding no_leaves_def by blast
    qed
    then have idx: "idx (ks @ [?i])" using ks(1) k by (simp add: idx_snoc)
    have q: "node m r (ks @ [?i]) = Some (PTE2PA ?v)"
      using ks(2) False by (simp add: node_snoc child_def Let_def)
    have "PTE_FLAGS ?v = PTE_V" using wf(2) idx ks(2) False unfolding inner_ok_def by blast
    then have inner: "?v AND (PTE_R OR PTE_W OR PTE_X) = 0" by (rule flags_inner)
    obtain u zs where u: "freewalk n (PTE2PA ?v) t = Inr u" "kmem_inv u (zs @ ys @ xs)" "set zs = ?Q"
      "same_outside ?Q (mem t) (mem u)" "only_mem t u"
      using IH [OF idx q can_free_entry [OF wf(1) ks s k(1) t(2-5)]] by (auto simp: freed_def)
    let ?w = "u\<lparr>mem := store64 (mem u) (slot p ?i) 0\<rparr>"
    have out: "same_outside {p} (mem u) (mem ?w)" using pa k(2) by (simp add: same_outside_store64)
    have pQ: "p \<notin> ?Q" using wf(1) ks by (rule subtree_not_self)
    moreover have "p \<notin> set ys" unfolding t(3) using subtree_not_self [OF wf(1) ks] by blast
    moreover have "p \<notin> set xs" using s subtree_self [OF ks] by (auto simp: can_free_def)
    ultimately have "kmem_inv ?w ((zs @ ys) @ xs)"
      using u(2,3) kmem_inv_frame [OF u(2), of "{p}" "mem ?w"] out by auto
    moreover have "set (zs @ ys) = (\<Union>i<Suc k. subtree m r (ks @ [of_nat i]))" unfolding un using u(3) by auto
    moreover have "same_outside (insert p (set (zs @ ys))) (mem s) (mem u)"
      using u(3) by (intro same_outside_trans [OF t(4) u(4)]) auto
    then have "same_outside (insert p (set (zs @ ys))) (mem s) (mem ?w)"
      by (rule same_outside_trans [OF _ out]) auto
    moreover have "only_mem s ?w" using only_mem_trans [OF only_mem_trans [OF t(5) u(5)] only_mem_upd(1)] .
    moreover have "load64 (mem ?w) (slot p (of_nat j)) = load64 m (slot p (of_nat j))" if "j < 512" "Suc k \<le> j" for j
    proof -
      have j: "(of_nat j :: u64) < 512" "?i \<noteq> of_nat j" using of_nat_index [of j k] of_nat_index [of k j] that by auto
      then have "load64 (mem ?w) (slot p (of_nat j)) = load64 (mem u) (slot p (of_nat j))"
        using k(2) by (simp add: load64_store64_slot)
      also have "\<dots> = load64 (mem t) (slot p (of_nat j))" using pQ pa j by (intro load64_same_outside [OF u(4)])
      finally show ?thesis using t(6) that by simp
    qed
    moreover have "freewalk_entry n p k t = Inr ?w"
      using False v inner u(1) by (simp add: freewalk_entry_def)
    ultimately show ?thesis unfolding fold by blast
  qed
qed


lemma subtree_unfold_nat:
  assumes "idx ks" "node m r ks = Some p"
  shows "subtree m r ks = insert p (\<Union>i<512. subtree m r (ks @ [of_nat i]))"
  unfolding subtree_unfold [OF assms] idx_of_nat by (auto simp: atLeast0LessThan)

lemma freewalk_from_entries:
  fixes s :: "'a phys_scheme"
  assumes wf: "pt_wf m r" "inner_ok m r" "no_leaves m r" and ks: "idx ks" "node m r ks = Some p"
    and IH: "\<And>i q (s :: 'a phys_scheme) xs. idx (ks @ [i]) \<Longrightarrow> node m r (ks @ [i]) = Some q \<Longrightarrow>
      can_free m (subtree m r (ks @ [i])) s xs \<Longrightarrow>
      \<exists>s'. freewalk n q s = Inr s' \<and> freed (subtree m r (ks @ [i])) s xs s'"
    and s: "can_free m (subtree m r ks) s xs"
  shows "\<exists>s'. freewalk (Suc n) p s = Inr s' \<and> freed (subtree m r ks) s xs s'"
proof -
  note un = subtree_unfold_nat [OF ks]
  from freewalk_entries [OF wf ks IH s order_refl]
  obtain t ys where t: "foldE (freewalk_entry n p) [0..<512] s = Inr t"
    "kmem_inv t (ys @ xs)" "set ys = (\<Union>i<512. subtree m r (ks @ [of_nat i]))"
    "same_outside (insert p (set ys)) (mem s) (mem t)" "only_mem s t"
    by blast
  have "p \<in> subtree m r ks" using ks by (rule subtree_self)
  then have p: "page_ok (kend t) p" "p \<notin> set xs"
    using s only_mem_simps(1) [OF t(5)] by (auto simp: can_free_def)
  moreover have "p \<notin> set ys" unfolding t(3) using subtree_not_self [OF wf(1) ks] by blast
  ultimately have k: "kfree p t = Inr (after_kfree p t)" "kmem_inv (after_kfree p t) ((p # ys) @ xs)"
    using kfree_ok [OF t(2), of p] by auto
  have "page_aligned p" using p by (simp add: page_ok_def)
  then have "same_outside (insert p (set ys)) (mem s) (mem (after_kfree p t))"
    by (intro same_outside_trans [OF t(4) same_outside_after_kfree]) auto
  moreover have "set (p # ys) = subtree m r ks" using un t(3) by simp
  moreover have "only_mem s (after_kfree p t)" using only_mem_trans [OF t(5) only_mem_upd(3)] .
  moreover have "freewalk (Suc n) p s = Inr (after_kfree p t)" unfolding freewalk_Suc using t(1) k(1) by simp
  ultimately show ?thesis using k(2) unfolding freed_def by (metis list.simps(15))
qed

lemma freewalk_subtree:
  fixes s :: "'a phys_scheme"
  assumes wf: "pt_wf m r" "inner_ok m r" "no_leaves m r"
  shows "idx ks \<Longrightarrow> length ks + d = 2 \<Longrightarrow> node m r ks = Some p \<Longrightarrow> can_free m (subtree m r ks) s xs \<Longrightarrow>
    \<exists>s'. freewalk (Suc d) p s = Inr s' \<and> freed (subtree m r ks) s xs s'"
proof (induction d arbitrary: ks p s xs)
  case step: (Suc d)
  show ?case
    by (rule freewalk_from_entries [OF wf step.prems(1,3) _ step.prems(4)])
      (rule step.IH, use step.prems in auto)
next
  case base: 0
  show ?case
    by (rule freewalk_from_entries [OF wf base.prems(1,3) _ base.prems(4)])
      (use base.prems in \<open>auto simp: idx_def\<close>)
qed

text \<open>
  \<^verbatim>\<open>freewalk\<close> of a page table without mappings frees every page of the tree, panics on
  none and writes to no other page. The recursion depth of 3 is enough.
\<close>

lemma freewalk_frees_tree:
  assumes "pt_inv r s xs" "no_leaves (mem s) r"
  shows "\<exists>s' ys. freewalk 3 r s = Inr s' \<and> kmem_inv s' (ys @ xs) \<and>
    set ys = pt_pages (mem s) r \<and> same_outside (pt_pages (mem s) r) (mem s) (mem s') \<and> only_mem s s'"
proof -
  have wf: "pt_wf (mem s) r" "inner_ok (mem s) r" using assms(1) by (simp_all add: pt_inv_def)
  have "can_free (mem s) (subtree (mem s) r []) s xs"
    using assms(1) by (auto simp: can_free_def pt_inv_def intro: exI [of _ "{}"])
  from freewalk_subtree [OF wf assms(2) idx_Nil _ _ this, of 2 r]
  obtain s' where s': "freewalk (Suc 2) r s = Inr s'" "freed (subtree (mem s) r []) s xs s'" by auto
  have "Suc 2 = 3" by simp
  with s' show ?thesis unfolding freed_def subtree_Nil by (metis)
qed


subsection \<open>Freeing an address space\<close>

lemma va_of_indices:
  fixes i2 i1 i0 :: u64
  assumes "i2 < 256" "i1 < 512" "i0 < 512"
  shows "\<exists>va<MAXVA. PX 2 va = i2 \<and> PX 1 va = i1 \<and> PX 0 va = i0"
proof -
  have parts: "(x * 512 + y) mod 512 = y" "(x * 512 + y) div 512 = x" if "y < 512" for x y :: nat
    using that by simp_all
  have b: "unat i2 < 256" "unat i1 < 512" "unat i0 < 512" using assms by (simp_all add: word_less_nat_alt)
  define x where "x = unat i2 * 512 + unat i1"
  define n where "n = x * 512 + unat i0"
  have n: "n mod 512 = unat i0" "n div 512 = x" "x mod 512 = unat i1" "x div 512 = unat i2"
    using parts [OF b(3), of x] parts [OF b(2), of "unat i2"] unfolding n_def [symmetric] x_def [symmetric]
    by simp_all
  let ?va = "of_nat (n * 4096) :: u64"
  have "n < 67108864" using b unfolding n_def x_def by simp
  then have un: "unat ?va = n * 4096" by (intro unat_of_nat_small) simp
  then have "?va < MAXVA" using \<open>n < 67108864\<close> by (simp add: less_MAXVA_iff)
  moreover have "n * 4096 div 2 ^ (12 + 9 * l) = n div 2 ^ (9 * l)" for l
    by (simp add: power_add div_mult2_eq)
  then have px: "unat (PX l ?va) = n div 2 ^ (9 * l) mod 512" for l unfolding unat_PX un by simp
  have "n div 2 ^ (9 * 2) = n div 512 div 512" by (simp flip: div_mult2_eq)
  then have "PX 2 ?va = i2" "PX 1 ?va = i1" "PX 0 ?va = i0"
    unfolding word_unat_eq_iff px using n b by simp_all
  ultimately show ?thesis by blast
qed

lemma no_leavesI:
  assumes inner: "inner_ok m r" and none: "\<And>va. va < MAXVA \<Longrightarrow> \<not> mapped m r va"
  shows "no_leaves m r"
  unfolding no_leaves_def
proof (intro allI impI)
  fix ks q and i :: u64 assume ks: "idx ks" "length ks = 2" "node m r ks = Some q" and i: "i < 512"
  then obtain a b where ab: "ks = [a, b]" by (auto simp: length_Suc_conv numeral_2_eq_2)
  obtain p where "child m r a = Some p" using ks(3) ab by (auto split: option.splits)
  then have "load64 m (slot r a) AND 1 \<noteq> 0" by (auto simp: child_def Let_def split: if_splits)
  moreover have "idx ([] @ [a])" "b < 512" using ks(1) ab by (auto simp: idx_def)
  ultimately have "a < 256" using inner unfolding inner_ok_def by fastforce
  then obtain va where "va < MAXVA" "PX 2 va = a" "PX 1 va = b" "PX 0 va = i"
    using va_of_indices \<open>b < 512\<close> i by blast
  then show "load64 m (slot q i) AND 1 = 0"
    using none [of va] ks(3) ab by (simp add: mapped_def lookup_def vpath_def)
qed

text \<open>
  C17. \<^verbatim>\<open>uvmfree\<close> returns all memory of a process: when nothing but its
  user pages is mapped, it does not panic, and every page of the page table and every frame it mapped
  is on the free list afterwards, exactly once.
\<close>

theorem uvmfree_returns_all:
  assumes inv: "uvm_inv r sz s xs" and none: "\<forall>va<MAXVA. PGROUNDUP sz \<le> va \<longrightarrow> \<not> mapped (mem s) r va"
  shows "\<exists>s' ys. uvmfree r sz s = Inr s' \<and> kmem_inv s' (ys @ xs) \<and> set ys = as_pages (mem s) r \<and>
    same_outside (as_pages (mem s) r) (mem s) (mem s')"
proof -
  let ?b = "PGROUNDUP sz"
  note D = uvm_invD [OF inv]
  have "?b \<le> TRAPFRAME" using PGROUNDUP_TRAPFRAME(2) [OF D(2)] .
  moreover have "(0 :: u64) \<le> ?b" by simp
  ultimately obtain n where n: "(?b - 0) div PGSIZE = of_nat n" "unat ?b = unat (0 :: u64) + 4096 * n"
    using npages_between [OF page_aligned_0 PGROUNDUP_aligned] by blast
  have bnd: "unat (0 :: u64) + 4096 * n \<le> 2 ^ 38"
    using \<open>?b \<le> TRAPFRAME\<close> n(2) by (simp add: TRAPFRAME_eq word_le_nat_alt)
  have range: "unat (va - 0) < 4096 * n \<longleftrightarrow> va < ?b" for va using n(2) by (simp add: word_less_nat_alt)
  obtain t ps where t: "uvmunmap r 0 (of_nat n) True s = Inr t" "as_inv r t (ps @ xs)" "only_mem s t"
    "set ps = {frame_of (mem s) r va | va. unat (va - 0) < 4096 * n}"
    "pt_pages (mem t) r = pt_pages (mem s) r"
    "same_outside (pt_pages (mem s) r \<union> set ps) (mem s) (mem t)"
    "\<forall>va<MAXVA. lookup (mem t) r va = unmap_range (lookup (mem s) r) 0 n va"
    using uvmunmap_free [OF D(1) page_aligned_0 bnd] D(3) range by blast
  have "\<not> mapped (mem t) r va" if "va < MAXVA" for va
    using t(7) none that range [of va] by (auto simp: unmap_range_def mapped_def not_less)
  then have "no_leaves (mem t) r" using t(2) by (intro no_leavesI) (auto simp: as_inv_def pt_inv_def)
  then obtain u ys where u: "freewalk 3 r t = Inr u" "kmem_inv u (ys @ ps @ xs)"
    "set ys = pt_pages (mem t) r" "same_outside (pt_pages (mem t) r) (mem t) (mem u)"
    using freewalk_frees_tree [OF as_invD(1) [OF t(2)]] by blast
  have frames: "as_frames (mem s) r = set ps"
    unfolding t(4) range as_frames_def using none D(3) \<open>?b \<le> TRAPFRAME\<close> TRAPFRAME_MAXVA
    by (auto dest: order.strict_trans2) (metis leI)
  have "sz = 0 \<Longrightarrow> n = 0" using n(2) by simp
  moreover have "n = 0 \<Longrightarrow> t = s" using t(1) by (simp add: uvmunmap_def uvmunmap_loop.simps)
  ultimately have "uvmfree r sz s = Inr u"
    using t(1) n(1) u(1) by (cases "sz = 0") (auto simp: uvmfree_def word_neq_0_conv [symmetric])
  moreover have "set (ys @ ps) = as_pages (mem s) r" using u(3) t(5) frames by (simp add: as_pages_def)
  moreover have "same_outside (as_pages (mem s) r) (mem s) (mem u)"
    using t(5) frames by (intro same_outside_trans [OF t(6) u(4)]) (auto simp: as_pages_def)
  ultimately show ?thesis using u(2) by (intro exI [of _ u] exI [of _ "ys @ ps"]) simp
qed


theorem uvmfree_returns_all_witness:
  "\<exists>s' ys. uvmfree 0x87ffe000 4096 one_page = Inr s' \<and> kmem_inv s' (ys @ [0x87fff000]) \<and>
    set ys = as_pages (mem one_page) 0x87ffe000 \<and>
    same_outside (as_pages (mem one_page) 0x87ffe000) (mem one_page) (mem s')"
proof (rule uvmfree_returns_all [OF one_page_inv])
  have "PGROUNDUP 4096 = 4096" by (rule PGROUNDUP_id) (simp add: page_aligned_def)
  then show "\<forall>va<MAXVA. PGROUNDUP 4096 \<le> va \<longrightarrow> \<not> mapped (mem one_page) 0x87ffe000 va"
    using one_page_memory(4) by (auto simp: mapped_def not_less [symmetric])
qed

end
