(* ===== verification/Uvmcopy.thy ===== *)
theory Uvmcopy
  imports Uvm
begin

text \<open>
  \<^verbatim>\<open>uvmcopy\<close>, the memory half of \<^verbatim>\<open>fork\<close>: two address spaces at once. The
  child's page table and frames are apart from the parent's pages, so building the child, or tearing
  it down when memory runs out, leaves the parent as it was.
\<close>

definition user_frames :: "memory \<Rightarrow> u64 \<Rightarrow> u64 \<Rightarrow> u64 set" where
  "user_frames m r a = {frame_of m r va | va. va < a}"

definition apart :: "memory \<Rightarrow> u64 \<Rightarrow> u64 \<Rightarrow> u64 \<Rightarrow> bool" where
  "apart m old new a \<longleftrightarrow> as_pages m old \<inter> (pt_pages m new \<union> user_frames m new a) = {}"

definition parent_kept :: "u64 \<Rightarrow> 'a phys_scheme \<Rightarrow> 'a phys_scheme \<Rightarrow> bool" where
  "parent_kept old s s' \<longleftrightarrow> lookup (mem s') old = lookup (mem s) old \<and>
     uspace (mem s') old = uspace (mem s) old \<and> as_pages (mem s') old = as_pages (mem s) old"

text \<open>The child's memory up to \<open>a\<close> is a copy of the parent's.\<close>

definition copy_upto :: "(u64 \<Rightarrow> u8 option) \<Rightarrow> u64 \<Rightarrow> (u64 \<Rightarrow> u8 option) \<Rightarrow> u64 \<Rightarrow> u8 option" where
  "copy_upto P a U va = (if va < a then P va else U va)"

lemma parent_kept_refl [simp]: "parent_kept old s s"
  by (simp add: parent_kept_def)

lemma parent_kept_trans: "parent_kept old s t \<Longrightarrow> parent_kept old t u \<Longrightarrow> parent_kept old s u"
  by (simp add: parent_kept_def)

lemma parent_outside:
  assumes inv: "uvm_inv old sz s xs" and out: "same_outside P (mem s) (mem s')"
    and P: "P \<inter> as_pages (mem s) old = {}"
    and s': "kmem_inv s' ys" "set ys \<inter> as_pages (mem s) old = {}" "only_mem s s'"
  shows "uvm_inv old sz s' ys" "parent_kept old s s'"
proof -
  have D: "as_inv old s xs" using uvm_invD(1) [OF inv] .
  note o = as_outside [OF out as_invD(4) [OF D] P]
  show "parent_kept old s s'" using o by (simp add: parent_kept_def)
  have "as_inv old s' ys" using as_inv_outside [OF D out P s'] .
  then show "uvm_inv old sz s' ys"
    using uvm_inv_same_entries [OF inv _ only_mem_simps(1) [OF s'(3)]] o(1) by simp
qed

lemma uvm_inv_kmem: "uvm_inv r sz s xs \<Longrightarrow> kmem_inv s xs"
  using uvm_invD(1) as_invD(2) by blast

text \<open>The state the loop of \<^verbatim>\<open>uvmcopy\<close> keeps.\<close>

definition copying :: "u64 \<Rightarrow> u64 \<Rightarrow> u64 \<Rightarrow> u64 \<Rightarrow> 'a phys_scheme \<Rightarrow> u64 list \<Rightarrow> bool" where
  "copying old new sz a s xs \<longleftrightarrow>
     uvm_inv old sz s xs \<and> uvm_inv new a s xs \<and> apart (mem s) old new a"

lemma memmove_page:
  assumes "page_aligned p" "page_aligned q" "p < PHYSTOP" "q < PHYSTOP"
  shows "memmove m p q 4096 x = (if PGROUNDDOWN x = p then m (q + (x - p)) else m x)"
proof -
  have "unat q + unat (4096 :: u32) < 2 ^ 64" "unat p + unat (4096 :: u32) \<le> 2 ^ 64"
    using assms(3,4) by (simp_all add: PHYSTOP_eq word_less_nat_alt)
  from memmove_apply [OF this, of m x] show ?thesis using in_page_iff [OF assms(1), of x] by simp
qed

lemma user_frames_extend:
  assumes a: "page_aligned a" "a < TRAPFRAME"
    and L: "\<forall>va<MAXVA. lookup m' r va = set_entry (lookup m r) a v va"
  shows "user_frames m' r (a + 4096) = insert (PTE2PA v) (user_frames m r a)"
proof -
  note le = TRAPFRAME_next [OF a] and up = unat_next_va [OF TRAPFRAME_MAXVA(1) [OF a(2)]]
  have f: "frame_of m' r va = (if a \<le> va \<and> va < a + 4096 then PTE2PA v else frame_of m r va)"
    if "va < a + 4096" for va
  proof -
    have "va < MAXVA" using that le TRAPFRAME_MAXVA by (blast intro: order.strict_trans2)
    then show ?thesis using L page_interval [OF a, of va] a(1) by (simp add: frame_of_def set_entry_def)
  qed
  have a': "a < a + 4096" using up by (simp add: word_less_nat_alt)
  have below: "va < a + 4096" "\<not> a \<le> va" if "va < a" for va
    using that up by (auto simp: word_less_nat_alt word_le_nat_alt)
  show ?thesis
  proof
    show "user_frames m' r (a + 4096) \<subseteq> insert (PTE2PA v) (user_frames m r a)"
      unfolding user_frames_def using f by (auto simp: not_le)
    have "PTE2PA v \<in> user_frames m' r (a + 4096)" unfolding user_frames_def using f [OF a'] a' by force
    moreover have "frame_of m r va \<in> user_frames m' r (a + 4096)" if "va < a" for va
      unfolding user_frames_def using f [OF below(1)] below [OF that] that by force
    ultimately show "insert (PTE2PA v) (user_frames m r a) \<subseteq> user_frames m' r (a + 4096)"
      by (auto simp: user_frames_def [of m r a])
  qed
qed

lemma copy_flags:
  assumes "v AND PTE_V \<noteq> 0" "PTE_FLAGS v \<noteq> PTE_V"
  shows "PTE_FLAGS v < 1024" "PTE_FLAGS v OR PTE_V \<noteq> PTE_V" "PTE_FLAGS v AND PTE_U = v AND PTE_U"
proof -
  show "PTE_FLAGS v < 1024"
    by (rule small_word) (simp add: PTE_FLAGS_def u64_1023 bit_simps)
  have "bit v 0" using assms(1) and_exp_eq_0_iff_not_bit [of v 0] by simp
  then have "PTE_FLAGS v OR 1 = PTE_FLAGS v"
    by (intro bit_word_eqI) (auto simp: PTE_FLAGS_def u64_1023 bit_simps)
  with assms(2) show "PTE_FLAGS v OR PTE_V \<noteq> PTE_V" by simp
  show "PTE_FLAGS v AND PTE_U = v AND PTE_U" by (simp add: PTE_FLAGS_def and.assoc)
qed

text \<open>The entry and the page that one round of the loop reads from the parent.\<close>

lemma parent_page:
  assumes "uvm_inv old sz s xs" "a < PGROUNDUP sz"
  defines "v \<equiv> lookup (mem s) old a"
  shows "\<exists>pte. walk old a False s = Inr (pte, s) \<and> pte \<noteq> 0 \<and> load64 (mem s) pte = v"
    "v AND PTE_V \<noteq> 0" "PTE_FLAGS v \<noteq> PTE_V" "page_ok (kend s) (PTE2PA v)" "PTE2PA v \<in> as_pages (mem s) old"
proof -
  note D = uvm_invD [OF assms(1)]
  have lt: "a < MAXVA"
    using assms(2) PGROUNDUP_TRAPFRAME(2) [OF D(2)] TRAPFRAME_MAXVA by (blast intro: order.strict_trans2)
  show v: "v AND PTE_V \<noteq> 0" "PTE_FLAGS v \<noteq> PTE_V" "page_ok (kend s) (PTE2PA v)"
    using D(3) [OF assms(2)] by (simp_all add: mapped_def frame_of_def v_def)
  show "PTE2PA v \<in> as_pages (mem s) old"
    using mapped_in_frames [OF lt, of "mem s" old] v(1) by (simp add: as_pages_def mapped_def frame_of_def v_def)
  obtain q where q: "node (mem s) old (vpath a) = Some q"
    using v(1) by (cases "node (mem s) old (vpath a)") (auto simp: lookup_def v_def)
  have wf: "pt_wf (mem s) old" using D(1) by (rule as_invD)
  have "slot q (PX 0 a) \<noteq> 0"
    using wf node_in_pages [OF q] by (intro slot_nonzero PX_less) (auto dest: pt_wf_aligned pt_wf_nonzero)
  with walk_False [OF lt, of old s] q
  show "\<exists>pte. walk old a False s = Inr (pte, s) \<and> pte \<noteq> 0 \<and> load64 (mem s) pte = v"
    by (simp add: lookup_def v_def)
qed


lemma uvmcopy_round:
  assumes cp: "copying old new sz a s (p # ys)" and a: "page_aligned a" "a < TRAPFRAME" "a < PGROUNDUP sz"
  defines "v \<equiv> lookup (mem s) old a"
  defines "t \<equiv> (after_kalloc p s)\<lparr>mem := memmove (mem (after_kalloc p s)) p (PTE2PA v) 4096\<rparr>"
  shows "\<exists>rc u zs. mappages new a PGSIZE p (PTE_FLAGS v) t = Inr (rc, u) \<and>
    (rc = 0 \<and> copying old new sz (a + 4096) u zs \<and> parent_kept old s u \<and> uvm_to new s (p # ys) u zs \<and>
       uspace (mem u) new = (\<lambda>va. if a \<le> va \<and> va < a + 4096 then uspace (mem s) old va
         else uspace (mem s) new va) \<or>
     rc \<noteq> 0 \<and> kfree p u = Inr (after_kfree p u) \<and> copying old new sz a (after_kfree p u) [p] \<and>
       parent_kept old s (after_kfree p u) \<and> uvm_to new s (p # ys) (after_kfree p u) [p] \<and>
       uspace (mem (after_kfree p u)) new = uspace (mem s) new)"
proof -
  let ?m = "memmove (mem (after_kalloc p s)) p (PTE2PA v) 4096" and ?W = "set (p # ys) \<union> pt_pages (mem s) new"
  have po: "uvm_inv old sz s (p # ys)" and pn: "uvm_inv new a s (p # ys)" and ap: "apart (mem s) old new a"
    using cp by (auto simp: copying_def)
  note pp = parent_page [OF po a(3), folded v_def] and fl = copy_flags [OF parent_page(2,3) [OF po a(3), folded v_def]]
  have p: "page_ok (kend s) p" "page_aligned p" "p < PHYSTOP"
    using uvm_inv_kmem [OF po] by (auto simp: kmem_inv_def page_ok_def)
  have q: "page_aligned (PTE2PA v)" "PTE2PA v < PHYSTOP" "PTE2PA v \<noteq> p"
    using pp(4,5) as_invD(6) [OF uvm_invD(1) [OF po]] by (auto simp: page_ok_def)
  have out: "same_outside {p} (mem (after_kalloc p s)) ?m"
    using memmove_page [OF p(2) q(1) p(3) q(2)] by (simp add: same_outside_def)
  have dis: "?W \<inter> as_pages (mem s) old = {}"
    using ap as_invD(6) [OF uvm_invD(1) [OF po]] by (auto simp: apart_def)
  have data: "?m (p + d) = mem s (PTE2PA v + d)" if "unat d < 4096" for d
    using memmove_page [OF p(2) q(1) p(3) q(2)] PGROUNDDOWN_offset [OF p(2) that]
      PGROUNDDOWN_offset [OF q(1) that] q(3) p(2) by (simp add: memset_page)
  have fill: "fill_page (uspace (mem s) new) a
      (\<lambda>d. if PTE_FLAGS v AND PTE_U \<noteq> 0 then Some (?m (p + d)) else None) va =
      (if a \<le> va \<and> va < a + 4096 then uspace (mem s) old va else uspace (mem s) new va)" for va
  proof (cases "PGROUNDDOWN va = a")
    case True
    then have "lookup (mem s) old va = v" using lookup_same_page [of va a] a(1) by (simp add: v_def)
    moreover have "va < MAXVA" using True a(2) TRAPFRAME_MAXVA(1) MAXVA_page by metis
    moreover have "PTE2PA v \<noteq> 0" using pp(4) uvm_inv_kmem [OF po] by (auto simp: page_ok_def kmem_inv_def)
    moreover have "unat (va - a) < 4096" using True offset_page(2) [OF a(1)] by simp
    ultimately show ?thesis
      using True page_interval [OF a(1,2), of va] pp(2) data fl(3)
      by (simp add: fill_page_def uspace_def user_ok_def mapped_def frame_of_def)
  qed (use page_interval [OF a(1,2), of va] in \<open>auto simp: fill_page_def\<close>)
  have keep: "uvm_inv old sz u zs \<and> parent_kept old s u"
    if "same_outside ?W (mem s) (mem u)" "uvm_inv new b u zs" "uvm_to new s (p # ys) u zs" "set zs \<subseteq> set (p # ys)"
    for u zs b
    using parent_outside [OF po that(1) dis uvm_inv_kmem [OF that(2)]] that(3,4) dis by (auto simp: uvm_to_def)
  have ap': "apart (mem u) old new b"
    if "parent_kept old s u" "pt_pages (mem u) new \<subseteq> ?W" "user_frames (mem u) new b \<subseteq> insert p (user_frames (mem s) new a)"
    for u :: "'a phys_scheme" and b
    using that ap dis by (auto simp: apart_def parent_kept_def)
  from map_round [OF pn a(1,2) out refl fl(1,2), folded t_def]
  obtain rc u zs where m: "mappages new a PGSIZE p (PTE_FLAGS v) t = Inr (rc, u)"
    and pt: "pt_pages (mem u) new \<subseteq> set ys \<union> pt_pages (mem s) new"
    and alt: "rc = 0 \<and> uvm_inv new (a + 4096) u zs \<and> uvm_to new s (p # ys) u zs \<and> set zs \<subseteq> set ys \<and>
       same_outside ?W (mem s) (mem u) \<and>
       (\<forall>va<MAXVA. lookup (mem u) new va = set_entry (lookup (mem s) new) a (PA2PTE p OR PTE_FLAGS v OR PTE_V) va) \<and>
       uspace (mem u) new = fill_page (uspace (mem s) new) a
         (\<lambda>d. if PTE_FLAGS v AND PTE_U \<noteq> 0 then Some (?m (p + d)) else None) \<or>
     rc \<noteq> 0 \<and> kfree p u = Inr (after_kfree p u) \<and> uvm_inv new a (after_kfree p u) [p] \<and>
       uvm_to new s (p # ys) (after_kfree p u) [p] \<and>
       same_outside ?W (mem s) (mem (after_kfree p u)) \<and>
       pt_pages (mem (after_kfree p u)) new \<subseteq> ?W \<and>
       (\<forall>va<MAXVA. lookup (mem (after_kfree p u)) new va = lookup (mem s) new va) \<and>
       uspace (mem (after_kfree p u)) new = uspace (mem s) new"
    by blast
  from alt show ?thesis
  proof (elim disjE conjE, goal_cases ok fail)
    case ok
    have "user_frames (mem u) new (a + 4096) = insert p (user_frames (mem s) new a)"
      using user_frames_extend [OF a(1,2) ok(6)] pte_mk(1) [OF fl(1), of p] p(2) by simp
    then have "copying old new sz (a + 4096) u zs \<and> parent_kept old s u"
      using keep [OF ok(5,2,3)] ok(2,4) ap' [of u "a + 4096"] pt by (auto simp: copying_def)
    then show ?thesis using m ok(1,3,7) fill by (intro exI [of _ rc] exI [of _ u] exI [of _ zs]) auto
  next
    case fail
    let ?u = "after_kfree p u"
    have "frame_of (mem ?u) new va = frame_of (mem s) new va" if "va < a" for va
      using fail(7) TRAPFRAME_MAXVA(1) [OF order.strict_trans [OF that a(2)]] by (simp add: frame_of_def)
    then have "user_frames (mem ?u) new a = user_frames (mem s) new a"
      unfolding user_frames_def by (intro Collect_cong) metis
    then have "copying old new sz a ?u [p] \<and> parent_kept old s ?u"
      using keep [OF fail(5,3,4)] fail(3,6) ap' [of ?u a] by (auto simp: copying_def)
    then show ?thesis using m fail by (intro exI [of _ rc] exI [of _ u] exI [of _ "[p]"]) auto
  qed
qed

text \<open>The error path: the pages copied so far are unmapped and freed.\<close>

lemma uvmcopy_undo:
  assumes cp: "copying old new sz a s xs" and a: "page_aligned a" "a \<le> TRAPFRAME"
    and U: "uspace (mem s) new = copy_upto P a U" and none: "\<forall>va<TRAPFRAME. U va = None"
  shows "\<exists>s' ys. uvmunmap new 0 (a div PGSIZE) True s = Inr s' \<and> copying old new sz 0 s' ys \<and>
    parent_kept old s s' \<and> uvm_to new s xs s' ys \<and> uspace (mem s') new = U"
proof -
  have po: "uvm_inv old sz s xs" and pn: "uvm_inv new a s xs" and ap: "apart (mem s) old new a"
    using cp by (auto simp: copying_def)
  have z: "PGROUNDUP (0 :: u64) = 0" "PGROUNDUP a = a" using a(1) by (simp_all add: page_aligned_def)
  obtain n where n: "a div PGSIZE = of_nat n" "unat a = 4096 * n"
    using npages_between [of 0 a] a by (auto simp: page_aligned_def)
  obtain t ps where t: "uvmunmap new 0 (of_nat n) True s = Inr t" "uvm_inv new 0 t (ps @ xs)" "only_mem s t"
    "pt_pages (mem t) new = pt_pages (mem s) new" "set ps = user_frames (mem s) new a"
    "set ps \<subseteq> as_frames (mem s) new" "same_outside (pt_pages (mem s) new \<union> set ps) (mem s) (mem t)"
    "set (ps @ xs) \<union> as_pages (mem t) new = set xs \<union> as_pages (mem s) new"
    "uspace (mem t) new = (\<lambda>va. if va < a then None else uspace (mem s) new va)"
    using uvmunmap_upper [OF pn, of 0 n] n(2) unfolding z by (auto simp: user_frames_def)
  have dis: "(pt_pages (mem s) new \<union> set ps) \<inter> as_pages (mem s) old = {}"
    "set (ps @ xs) \<inter> as_pages (mem s) old = {}"
    using ap as_invD(6) [OF uvm_invD(1) [OF po]] t(5) by (auto simp: apart_def)
  note k = parent_outside [OF po t(7) dis(1) uvm_inv_kmem [OF t(2)] dis(2) t(3)]
  have "copying old new sz 0 t (ps @ xs)"
    using k t(2,4) ap by (auto simp: copying_def apart_def parent_kept_def user_frames_def)
  moreover have "uvm_to new s xs t (ps @ xs)"
    using t(3,6,7,8) by (auto simp: uvm_to_def as_pages_def intro: same_outside_mono)
  moreover have "uspace (mem t) new = U"
    unfolding t(9) U using none a(2) by (auto simp: copy_upto_def fun_eq_iff dest: order.strict_trans2)
  ultimately show ?thesis using t(1) k(2) n(1) by auto
qed

definition copy_result :: "u64 \<Rightarrow> u64 \<Rightarrow> u64 \<Rightarrow> (u64 \<Rightarrow> u8 option) \<Rightarrow> (u64 \<Rightarrow> u8 option) \<Rightarrow>
    'a phys_scheme \<Rightarrow> u64 list \<Rightarrow> int \<Rightarrow> 'a phys_scheme \<Rightarrow> u64 list \<Rightarrow> bool" where
  "copy_result old new sz P U s xs rc s' ys \<longleftrightarrow> parent_kept old s s' \<and> uvm_to new s xs s' ys \<and>
     (rc = 0 \<and> copying old new sz (PGROUNDUP sz) s' ys \<and> uspace (mem s') new = copy_upto P (PGROUNDUP sz) U \<or>
      rc = - 1 \<and> copying old new sz 0 s' ys \<and> uspace (mem s') new = U)"

lemma copy_result_trans:
  "\<lbrakk>parent_kept old s t; uvm_to new s xs t ys; copy_result old new sz P U t ys rc u zs\<rbrakk> \<Longrightarrow>
    copy_result old new sz P U s xs rc u zs"
  unfolding copy_result_def using parent_kept_trans uvm_to_trans by blast

lemma uvmcopy_step:
  assumes "uvm_inv old sz s xs" "a < PGROUNDUP sz" "a < sz"
  defines "v \<equiv> lookup (mem s) old a"
  shows "uvmcopy_loop old new a sz s = bindE (kalloc s) (\<lambda>(p, s).
    if p = 0 then bindE (uvmunmap new 0 (a div PGSIZE) True s) (\<lambda>s. Inr (- 1, s))
    else bindE (mappages new a PGSIZE p (PTE_FLAGS v) (s\<lparr>mem := memmove (mem s) p (PTE2PA v) 4096\<rparr>))
      (\<lambda>(r, s). if r \<noteq> 0
        then bindE (kfree p s) (\<lambda>s. bindE (uvmunmap new 0 (a div PGSIZE) True s) (\<lambda>s. Inr (- 1, s)))
        else uvmcopy_loop old new (a + PGSIZE) sz s))"
  using parent_page [OF assms(1,2)] assms(3) unfolding v_def
  by (subst uvmcopy_loop.simps) (auto simp: Let_def)

lemma uvmcopy_loop_ok:
  assumes "copying old new sz a s xs" "page_aligned a" "unat (PGROUNDUP sz) = unat a + 4096 * n"
    "uspace (mem s) new = copy_upto P a U" "\<forall>va<TRAPFRAME. U va = None" "uspace (mem s) old = P"
  shows "\<exists>rc s' ys. uvmcopy_loop old new a sz s = Inr (rc, s') \<and> copy_result old new sz P U s xs rc s' ys"
  using assms
proof (induction n arbitrary: a s xs)
  case 0
  then have up: "PGROUNDUP sz = a" by (simp add: word_unat_eq_iff)
  have "sz \<le> TRAPFRAME" using 0(1) by (auto simp: copying_def uvm_inv_def)
  then have "\<not> a < sz" using PGROUNDUP_TRAPFRAME(1) [of sz] up by (simp add: not_less)
  then have "uvmcopy_loop old new a sz s = Inr (0, s)" by (subst uvmcopy_loop.simps) simp
  moreover have "copy_result old new sz P U s xs 0 s xs" using 0 up uvm_to_refl by (simp add: copy_result_def)
  ultimately show ?case by blast
next
  case (Suc n)
  have po: "uvm_inv old sz s xs" and pn: "uvm_inv new a s xs" using Suc.prems(1) by (auto simp: copying_def)
  note T = PGROUNDUP_TRAPFRAME [OF uvm_invD(2) [OF po]]
  have a: "a < sz" "a < PGROUNDUP sz" "a < TRAPFRAME" "a \<le> TRAPFRAME"
    using Suc.prems(3) T by (auto simp: word_less_nat_alt word_le_nat_alt)
  note step = uvmcopy_step [OF po a(2,1), of new]
  show ?case
  proof (cases xs)
    case Nil
    then have "kalloc s = Inr (0, s)" using kalloc_empty uvm_inv_kmem [OF po] by blast
    moreover obtain s' ys where "uvmunmap new 0 (a div PGSIZE) True s = Inr s'" "copying old new sz 0 s' ys"
      "parent_kept old s s'" "uvm_to new s xs s' ys" "uspace (mem s') new = U"
      using uvmcopy_undo [OF Suc.prems(1,2) a(4) Suc.prems(4,5)] by blast
    ultimately show ?thesis unfolding step by (auto simp: copy_result_def)
  next
    case (Cons p ys)
    have k: "kalloc s = Inr (p, after_kalloc p s)" "p \<noteq> 0"
      using kalloc_Cons(1) uvm_inv_kmem [OF po] Cons by (auto simp: kmem_inv_def)
    from uvmcopy_round [OF Suc.prems(1) [unfolded Cons] Suc.prems(2) a(3,2), folded Cons]
    obtain rc u zs where m: "mappages new a PGSIZE p (PTE_FLAGS (lookup (mem s) old a))
        ((after_kalloc p s)\<lparr>mem := memmove (mem (after_kalloc p s)) p (PTE2PA (lookup (mem s) old a)) 4096\<rparr>) =
        Inr (rc, u)"
      and alt: "rc = 0 \<and> copying old new sz (a + 4096) u zs \<and> parent_kept old s u \<and> uvm_to new s xs u zs \<and>
          uspace (mem u) new = (\<lambda>va. if a \<le> va \<and> va < a + 4096 then uspace (mem s) old va
            else uspace (mem s) new va) \<or>
        rc \<noteq> 0 \<and> kfree p u = Inr (after_kfree p u) \<and> copying old new sz a (after_kfree p u) [p] \<and>
          parent_kept old s (after_kfree p u) \<and> uvm_to new s xs (after_kfree p u) [p] \<and>
          uspace (mem (after_kfree p u)) new = uspace (mem s) new"
      by blast
    from alt show ?thesis
    proof (elim disjE conjE, goal_cases ok fail)
      case ok
      have nxt: "unat (a + 4096) = unat a + 4096" using unat_next_va [OF TRAPFRAME_MAXVA(1) [OF a(3)]] .
      have "uspace (mem u) new = copy_upto P (a + 4096) U"
        unfolding ok(5) Suc.prems(4,6) using nxt
        by (auto simp: copy_upto_def fun_eq_iff word_le_nat_alt word_less_nat_alt)
      moreover have "page_aligned (a + 4096)"
        using Suc.prems(2) by (intro page_aligned_add) (simp_all add: page_aligned_def)
      ultimately have "\<exists>rc s' ys. uvmcopy_loop old new (a + 4096) sz u = Inr (rc, s') \<and>
          copy_result old new sz P U u zs rc s' ys"
        using Suc.prems(3,5,6) nxt ok(2,3) by (intro Suc.IH) (simp_all add: parent_kept_def)
      moreover have "uvmcopy_loop old new a sz s = uvmcopy_loop old new (a + 4096) sz u"
        unfolding step using k m ok(1) by simp
      ultimately show ?thesis using copy_result_trans [OF ok(3,4)] by metis
    next
      case fail
      obtain s' zs where s': "uvmunmap new 0 (a div PGSIZE) True (after_kfree p u) = Inr s'"
        "copying old new sz 0 s' zs" "parent_kept old (after_kfree p u) s'"
        "uvm_to new (after_kfree p u) [p] s' zs" "uspace (mem s') new = U"
        using uvmcopy_undo [OF fail(3) Suc.prems(2) a(4) _ Suc.prems(5)] fail(6) Suc.prems(4) by metis
      have "copy_result old new sz P U s xs (- 1) s' zs"
        using s' by (intro copy_result_trans [OF fail(4,5)]) (simp add: copy_result_def)
      then show ?thesis unfolding step using k m fail(1,2) s'(1) by auto
    qed
  qed
qed

text \<open>
  C12. \<^verbatim>\<open>uvmcopy\<close> gives the child a copy of the parent's memory or nothing. On success
  the child's first \<^verbatim>\<open>sz\<close> bytes, rounded up to a page, read as the parent's do, in
  frames of its own; when memory runs out, on a frame or on a page of the child's page table, it
  returns -1 and every page it had taken is free again or an empty page of the child's table. The
  parent's mappings and contents are unchanged either way, and no page is lost.
\<close>

theorem uvmcopy_copies:
  assumes "copying old new sz 0 s xs"
  shows "\<exists>rc s' ys. uvmcopy old new sz s = Inr (rc, s') \<and> parent_kept old s s' \<and> uvm_to new s xs s' ys \<and>
    (rc = 0 \<and> copying old new sz (PGROUNDUP sz) s' ys \<and>
       uspace (mem s') new = copy_upto (uspace (mem s) old) (PGROUNDUP sz) (uspace (mem s) new) \<or>
     rc = - 1 \<and> copying old new sz 0 s' ys \<and> uspace (mem s') new = uspace (mem s) new)"
proof -
  have inv: "uvm_inv new 0 s xs" "uvm_inv old sz s xs" using assms by (simp_all add: copying_def)
  have z: "page_aligned 0" "PGROUNDUP (0 :: u64) = 0" by (simp_all add: page_aligned_def)
  have "\<forall>va<TRAPFRAME. uspace (mem s) new va = None"
    using uvm_invD(4) [OF inv(1)] unmapped_None z(2) by simp
  moreover obtain n where "unat (PGROUNDUP sz) = unat (0 :: u64) + 4096 * n"
    using npages_between [OF z(1) PGROUNDUP_aligned _ PGROUNDUP_TRAPFRAME(2) [OF uvm_invD(2) [OF inv(2)]]]
    by auto
  moreover have "uspace (mem s) new = copy_upto (uspace (mem s) old) 0 (uspace (mem s) new)"
    by (simp add: copy_upto_def fun_eq_iff)
  ultimately show ?thesis
    using uvmcopy_loop_ok [OF assms z(1)] unfolding uvmcopy_def copy_result_def by blast
qed


text \<open>A new, empty child next to the parent, as \<^verbatim>\<open>fork\<close> makes it.\<close>

lemma uvmcreate_child:
  assumes inv: "uvm_inv old sz s (p # ys)"
  shows "\<exists>s'. uvmcreate s = Inr (p, s') \<and> copying old p sz 0 s' ys \<and> parent_kept old s s'"
proof -
  obtain s' where s': "uvmcreate s = Inr (p, s')" "uvm_inv p 0 s' ys" "as_pages (mem s') p = {p}"
    "same_outside {p} (mem s) (mem s')" "only_mem s s'"
    using uvmcreate_ok [OF uvm_inv_kmem [OF inv]] by blast
  have dis: "{p} \<inter> as_pages (mem s) old = {}" "set ys \<inter> as_pages (mem s) old = {}"
    using as_invD(6) [OF uvm_invD(1) [OF inv]] by auto
  note k = parent_outside [OF inv s'(4) dis(1) uvm_inv_kmem [OF s'(2)] dis(2) s'(5)]
  have "copying old p sz 0 s' ys"
    using k s'(2,3) dis by (auto simp: copying_def apart_def parent_kept_def user_frames_def as_pages_def)
  then show ?thesis using s'(1) k(2) by blast
qed

theorem uvmcopy_copies_witness:
  "\<exists>s. uvmcreate one_page = Inr (0x87fff000, s) \<and>
    (\<exists>rc s' ys. uvmcopy 0x87ffe000 0x87fff000 4096 s = Inr (rc, s') \<and> parent_kept 0x87ffe000 s s' \<and>
      uvm_to 0x87fff000 s [] s' ys \<and>
      (rc = 0 \<and> copying 0x87ffe000 0x87fff000 4096 (PGROUNDUP 4096) s' ys \<and> uspace (mem s') 0x87fff000 =
         copy_upto (uspace (mem s) 0x87ffe000) (PGROUNDUP 4096) (uspace (mem s) 0x87fff000) \<or>
       rc = - 1 \<and> copying 0x87ffe000 0x87fff000 4096 0 s' ys \<and>
         uspace (mem s') 0x87fff000 = uspace (mem s) 0x87fff000))"
proof -
  obtain s where "uvmcreate one_page = Inr (0x87fff000, s)" "copying 0x87ffe000 0x87fff000 4096 0 s []"
    using uvmcreate_child [OF one_page_inv] by blast
  then show ?thesis using uvmcopy_copies [of "0x87ffe000" "0x87fff000" 4096 s "[]"] by blast
qed

end
