(* ===== verification/VmFrame.thy ===== *)
theory VmFrame
  imports Pagetable
begin

text \<open>
  Whatever their arguments, the operations of the page allocator and of virtual memory change only
  memory and the free list when they return: the state of every other component, and the set of
  locks held, is as before.
\<close>

named_theorems frame_intros "operations that change only memory and the free list"

lemma only_mem_set [frame_intros]: "only_mem u s \<Longrightarrow> only_mem u (s\<lparr>mem := m\<rparr>)"
  by (rule only_mem_trans [OF _ only_mem_upd(1)])

lemma kalloc_frame [frame_intros]:
  assumes "only_mem u s"
  shows "pres (only_mem u) (kalloc s)"
proof -
  have "only_mem s t" if "kalloc s = Inr (p, t)" for p t
    using that by (intro only_memI)
      (auto simp: kalloc_def kacquire_def krelease_def Let_def insert_absorb split: if_splits)
  with assms show ?thesis by (auto simp: pres_def intro: only_mem_trans)
qed

lemma kfree_frame [frame_intros]:
  assumes "only_mem u s"
  shows "pres1 (only_mem u) (kfree p s)"
proof -
  have "only_mem s t" if "kfree p s = Inr t" for t
    using that by (intro only_memI) (auto simp: kfree_def kacquire_def krelease_def split: if_splits)
  with assms show ?thesis by (auto simp: pres1_def intro: only_mem_trans)
qed

lemma walk_loop_frame: "only_mem u s \<Longrightarrow> pres (only_mem u) (walk_loop l pt va alloc s)"
proof (induction l arbitrary: pt s alloc)
  case (Suc l)
  from Suc.prems show ?case
    by (auto simp: Let_def intro!: pres_bind(1) Suc.IH frame_intros)
qed simp

lemma walk_frame [frame_intros]: "only_mem u s \<Longrightarrow> pres (only_mem u) (walk pt va alloc s)"
  by (simp add: walk_def walk_loop_frame)

lemma mappages_loop_frame: "only_mem u s \<Longrightarrow> pres (only_mem u) (mappages_loop pt a lst pa perm s)"
proof (induction pt a lst pa perm s rule: mappages_loop.induct)
  case (1 pt a lst pa perm s)
  from 1(2) show ?case
    by (subst mappages_loop.simps) (auto simp: Let_def intro!: pres_bind(1) frame_intros 1(1))
qed

lemma mappages_frame [frame_intros]: "only_mem u s \<Longrightarrow> pres (only_mem u) (mappages pt va sz pa perm s)"
  by (simp add: mappages_def mappages_loop_frame)

lemma uvmunmap_loop_frame: "only_mem u s \<Longrightarrow> pres1 (only_mem u) (uvmunmap_loop pt a stop f s)"
proof (induction pt a stop f s rule: uvmunmap_loop.induct)
  case (1 pt a stop f s)
  have kf: "pres1 (only_mem u) (if f then kfree p t else Inr t)" if "only_mem u t" for p t
    using that by (auto intro: frame_intros)
  have "pres1 (only_mem u) (bindE (if f then kfree (PTE2PA (load64 (mem t) pte)) t else Inr t)
      (\<lambda>s. uvmunmap_loop pt (a + 4096) stop f (s\<lparr>mem := store64 (mem s) pte 0\<rparr>)))"
    if "a < stop" "walk pt a False s = Inr (pte, t)" "pte \<noteq> 0" "load64 (mem t) pte AND PTE_V \<noteq> 0"
      "PTE_FLAGS (load64 (mem t) pte) \<noteq> PTE_V" "only_mem u t" for pte t
    using that 1(1) [OF that(1,2) refl that(3) refl that(4,5)]
    by (intro pres1_bind(2) kf) (simp_all add: only_mem_set)
  with 1(2) show ?case
    by (subst uvmunmap_loop.simps) (auto simp: Let_def intro!: pres1_bind(1) walk_frame)
qed

lemma uvmunmap_frame [frame_intros]: "only_mem u s \<Longrightarrow> pres1 (only_mem u) (uvmunmap pt va n f s)"
  by (simp add: uvmunmap_def uvmunmap_loop_frame)

lemma uvmcreate_frame [frame_intros]: "only_mem u s \<Longrightarrow> pres (only_mem u) (uvmcreate s)"
  by (auto simp: uvmcreate_def intro!: pres_bind(1) frame_intros)

lemma uvminit_frame [frame_intros]: "only_mem u s \<Longrightarrow> pres1 (only_mem u) (uvminit pt src s)"
  by (auto simp: uvminit_def intro!: pres1_bind(1) frame_intros)

lemma freewalk_frame: "only_mem u s \<Longrightarrow> pres1 (only_mem u) (freewalk n pt s)"
proof (induction n arbitrary: pt s)
  case (Suc n)
  then show ?case by (auto simp: Let_def intro!: pres1_bind(2) pres1_foldE frame_intros)
qed simp

lemma uvmfree_frame [frame_intros]: "only_mem u s \<Longrightarrow> pres1 (only_mem u) (uvmfree pt sz s)"
  by (auto simp: uvmfree_def intro!: pres1_bind(2) frame_intros freewalk_frame)

lemma uvmdealloc_frame [frame_intros]: "only_mem u s \<Longrightarrow> pres (only_mem u) (uvmdealloc pt a b s)"
  by (auto simp: uvmdealloc_def Let_def intro!: pres_bind(2) frame_intros)

lemma uvmalloc_loop_frame: "only_mem u s \<Longrightarrow> pres (only_mem u) (uvmalloc_loop pt a b c s)"
proof (induction pt a b c s rule: uvmalloc_loop.induct)
  case (1 pt a b c s)
  from 1(2) show ?case
    by (subst uvmalloc_loop.simps) (auto intro!: pres_bind frame_intros, (rule 1(1); (assumption | rule refl | simp add: frame_intros))+)
qed

lemma uvmalloc_frame [frame_intros]: "only_mem u s \<Longrightarrow> pres (only_mem u) (uvmalloc pt a b s)"
  by (simp add: uvmalloc_def uvmalloc_loop_frame)

lemma uvmcopy_loop_frame: "only_mem u s \<Longrightarrow> pres (only_mem u) (uvmcopy_loop old new i sz s)"
proof (induction old new i sz s rule: uvmcopy_loop.induct)
  case (1 old new i sz s)
  from 1(2) show ?case
    by (subst uvmcopy_loop.simps) (auto simp: Let_def intro!: pres_bind frame_intros, (rule 1(1); (assumption | rule refl | simp add: frame_intros))+)
qed

lemma uvmcopy_frame [frame_intros]: "only_mem u s \<Longrightarrow> pres (only_mem u) (uvmcopy old new sz s)"
  by (simp add: uvmcopy_def uvmcopy_loop_frame)

lemma uvmclear_frame [frame_intros]: "only_mem u s \<Longrightarrow> pres1 (only_mem u) (uvmclear pt va s)"
  by (auto simp: uvmclear_def intro!: pres1_bind(1) frame_intros)

lemma copyout_frame [frame_intros]: "only_mem u s \<Longrightarrow> pres (only_mem u) (copyout pt va src n s)"
proof (induction pt va src n s rule: copyout.induct)
  case (1 pt va src n s)
  from 1(2) show ?case
    by (subst copyout.simps) (auto simp: Let_def intro!: pres_pure_bind(1) frame_intros 1(1))
qed

end
