(* ===== verification/Proc.thy ===== *)
theory Proc
  imports VmFrame
begin

text \<open>
  Processes: \<^verbatim>\<open>kernel/proc.c\<close> and \<^verbatim>\<open>kernel/proc.h\<close>, but for
  \<^verbatim>\<open>fork\<close>, \<^verbatim>\<open>exit\<close> and \<^verbatim>\<open>userinit\<close>, which need the file system and are in
  \<open>Life\<close>, \<^verbatim>\<open>forkret\<close>, which is in \<open>Trap\<close>, and the loop of \<^verbatim>\<open>scheduler\<close>, which is in
  \<open>Sched\<close>.

  The operations are those of one kernel thread, the thread of process \<^verbatim>\<open>myproc()\<close>,
  on the whole process table. \<^verbatim>\<open>sleep\<close> is two operations, up to the call of
  \<^verbatim>\<open>sched\<close> and after it, because other threads run in between; a function that may
  sleep returns \<open>Blocks\<close> in the state of the call of \<^verbatim>\<open>sched\<close>. By the theorems
  on spin locks \<^verbatim>\<open>noff\<close> is the number of locks the thread holds and interrupts are off
  when it is not zero, so the second check of \<^verbatim>\<open>sched\<close> reads the number of locks
  and its last check, that interrupts are off, always passes.
\<close>

subsection \<open>The process table\<close>

definition NPROC :: nat where "NPROC = 64"
definition NOFILE :: nat where "NOFILE = 16"

datatype procstate = UNUSED | SLEEPING | RUNNABLE | RUNNING | ZOMBIE

record swcontext =
  ra :: u64
  sp :: u64
  saved :: "u64 list"

record proc =
  pstate :: procstate
  parent :: "nat option"
  pchan :: chan
  killed :: int
  xstate :: int
  pid :: int
  kstack :: u64
  psz :: u64
  pagetable :: u64
  trapframe :: u64
  pcontext :: swcontext
  ofile :: "nat option list"
  cwd :: "nat option"
  pname :: "u8 list"

record ptab = vm +
  proc :: "nat \<Rightarrow> proc"
  me :: "nat option"
  initproc :: "nat option"
  nextpid :: int
  forkret_pc :: u64
  ticks :: u32

text \<open>Offsets in \<^verbatim>\<open>struct trapframe\<close>.\<close>

definition tf_kernel_satp :: u64 where "tf_kernel_satp = 0"
definition tf_kernel_sp :: u64 where "tf_kernel_sp = 8"
definition tf_kernel_trap :: u64 where "tf_kernel_trap = 16"
definition tf_epc :: u64 where "tf_epc = 24"
definition tf_kernel_hartid :: u64 where "tf_kernel_hartid = 32"
definition tf_sp :: u64 where "tf_sp = 48"
definition tf_a0 :: u64 where "tf_a0 = 112"
definition tf_a1 :: u64 where "tf_a1 = 120"
definition tf_a2 :: u64 where "tf_a2 = 128"
definition tf_a3 :: u64 where "tf_a3 = 136"
definition tf_a4 :: u64 where "tf_a4 = 144"
definition tf_a5 :: u64 where "tf_a5 = 152"
definition tf_a7 :: u64 where "tf_a7 = 168"

definition upd_proc :: "nat \<Rightarrow> (proc \<Rightarrow> proc) \<Rightarrow> 'a ptab_scheme \<Rightarrow> 'a ptab_scheme" where
  "upd_proc p f s = s\<lparr>proc := (proc s)(p := f (proc s p))\<rparr>"

definition myproc :: "'a ptab_scheme \<Rightarrow> nat option" where
  "myproc s = me s"

abbreviation cur :: "'a ptab_scheme \<Rightarrow> proc" where
  "cur s \<equiv> proc s (the (myproc s))"

definition tf_get :: "nat \<Rightarrow> u64 \<Rightarrow> 'a ptab_scheme \<Rightarrow> u64" where
  "tf_get p off s = load64 (mem s) (trapframe (proc s p) + off)"

definition tf_set :: "nat \<Rightarrow> u64 \<Rightarrow> u64 \<Rightarrow> 'a ptab_scheme \<Rightarrow> 'a ptab_scheme" where
  "tf_set p off v s = s\<lparr>mem := store64 (mem s) (trapframe (proc s p) + off) v\<rparr>"

text \<open>What a function that may sleep does: it returns a value, or it is asleep in its loop.\<close>

datatype 'a outcome = Returns 'a | Blocks

subsection \<open>Allocation\<close>

definition procinit :: "'a ptab_scheme \<Rightarrow> hart \<Rightarrow> ('a ptab_scheme \<times> hart) res" where
  "procinit s h =
     bindE (foldE (\<lambda>p s. bindE (kalloc (kinitlock (ProcLock p) s)) (\<lambda>(pa, s).
         if pa = 0 then Inl (Panic ''kalloc'')
         else bindE (kvmmap (KSTACK (of_nat p)) pa PGSIZE (PTE_R OR PTE_W) s) (\<lambda>s.
           Inr (upd_proc p (kstack_update (\<lambda>_. KSTACK (of_nat p))) s))))
       [0..<NPROC] (kinitlock PidLock s))
     (\<lambda>s. Inr (s, kvminithart s h))"

definition allocpid :: "'a ptab_scheme \<Rightarrow> (int \<times> 'a ptab_scheme) res" where
  "allocpid s = bindE (kacquire PidLock s) (\<lambda>s.
     bindE (krelease PidLock (s\<lparr>nextpid := int32 (nextpid s + 1)\<rparr>)) (\<lambda>s'. Inr (nextpid s, s')))"

definition proc_pagetable :: "nat \<Rightarrow> 'a ptab_scheme \<Rightarrow> (u64 \<times> 'a ptab_scheme) res" where
  "proc_pagetable p s = bindE (uvmcreate s) (\<lambda>(pt, s).
     if pt = 0 then Inr (0, s)
     else bindE (mappages pt TRAMPOLINE PGSIZE (trampoline s) (PTE_R OR PTE_X) s) (\<lambda>(r, s).
       if r < 0 then bindE (uvmfree pt 0 s) (\<lambda>s. Inr (0, s))
       else bindE (mappages pt TRAPFRAME PGSIZE (trapframe (proc s p)) (PTE_R OR PTE_W) s) (\<lambda>(r, s).
         if r < 0 then bindE (uvmunmap pt TRAMPOLINE 1 False s) (\<lambda>s.
           bindE (uvmfree pt 0 s) (\<lambda>s. Inr (0, s)))
         else Inr (pt, s))))"

definition proc_freepagetable :: "u64 \<Rightarrow> u64 \<Rightarrow> 'a ptab_scheme \<Rightarrow> 'a ptab_scheme res" where
  "proc_freepagetable pt sz s = bindE (uvmunmap pt TRAMPOLINE 1 False s) (\<lambda>s.
     bindE (uvmunmap pt TRAPFRAME 1 False s) (uvmfree pt sz))"

definition freeproc :: "nat \<Rightarrow> 'a ptab_scheme \<Rightarrow> 'a ptab_scheme res" where
  "freeproc p s =
     bindE (if trapframe (proc s p) \<noteq> 0 then kfree (trapframe (proc s p)) s else Inr s) (\<lambda>s.
       let s = upd_proc p (trapframe_update (\<lambda>_. 0)) s in
       bindE (if pagetable (proc s p) \<noteq> 0
              then proc_freepagetable (pagetable (proc s p)) (psz (proc s p)) s else Inr s) (\<lambda>s.
         Inr (upd_proc p (\<lambda>q. q\<lparr>pagetable := 0, psz := 0, pid := 0, parent := None,
           pname := (pname q)[0 := 0], pchan := NoChan, killed := 0, xstate := 0, pstate := UNUSED\<rparr>) s)))"

text \<open>The scan of \<^verbatim>\<open>allocproc\<close>: the first unused slot, with its lock held.\<close>

primrec find_unused :: "nat list \<Rightarrow> 'a ptab_scheme \<Rightarrow> (nat option \<times> 'a ptab_scheme) res" where
  "find_unused [] s = Inr (None, s)"
| "find_unused (p # ps) s = bindE (kacquire (ProcLock p) s) (\<lambda>s.
     if pstate (proc s p) = UNUSED then Inr (Some p, s)
     else bindE (krelease (ProcLock p) s) (find_unused ps))"

definition allocproc :: "'a ptab_scheme \<Rightarrow> (nat option \<times> 'a ptab_scheme) res" where
  "allocproc s = bindE (find_unused [0..<NPROC] s) (\<lambda>(found, s).
     case found of None \<Rightarrow> Inr (None, s)
     | Some p \<Rightarrow> bindE (allocpid s) (\<lambda>(n, s).
         let s = upd_proc p (pid_update (\<lambda>_. n)) s in
         bindE (kalloc s) (\<lambda>(tf, s).
           let s = upd_proc p (trapframe_update (\<lambda>_. tf)) s in
           if tf = 0 then bindE (krelease (ProcLock p) s) (\<lambda>s. Inr (None, s))
           else bindE (proc_pagetable p s) (\<lambda>(pt, s).
             let s = upd_proc p (pagetable_update (\<lambda>_. pt)) s in
             if pt = 0 then bindE (freeproc p s) (\<lambda>s.
               bindE (krelease (ProcLock p) s) (\<lambda>s. Inr (None, s)))
             else Inr (Some p, upd_proc p (\<lambda>q. q\<lparr>pcontext :=
               \<lparr>ra = forkret_pc s, sp = kstack q + PGSIZE, saved = replicate 12 0\<rparr>\<rparr>) s)))))"

text \<open>\<^verbatim>\<open>growproc\<close> keeps the size in a 32-bit variable.\<close>

definition growproc :: "int \<Rightarrow> 'a ptab_scheme \<Rightarrow> (int \<times> 'a ptab_scheme) res" where
  "growproc n s =
     (let p = the (myproc s); sz = ucast (psz (proc s p)) :: u32; pt = pagetable (proc s p);
          to = ucast (sz + word_of_int n) :: u64 in
      if n > 0
      then bindE (uvmalloc pt (ucast sz) to s) (\<lambda>(r, s).
        let sz = ucast r :: u32 in
        if sz = 0 then Inr (- 1, s) else Inr (0, upd_proc p (psz_update (\<lambda>_. ucast sz)) s))
      else if n < 0
      then bindE (uvmdealloc pt (ucast sz) to s) (\<lambda>(r, s).
        Inr (0, upd_proc p (psz_update (\<lambda>_. ucast (ucast r :: u32))) s))
      else Inr (0, upd_proc p (psz_update (\<lambda>_. ucast sz)) s))"

subsection \<open>Sleeping and waking\<close>

definition sched :: "'a ptab_scheme \<Rightarrow> 'a ptab_scheme res" where
  "sched s =
     (if ProcLock (the (myproc s)) \<notin> held s then Inl (Panic ''sched p->lock'')
      else if card (held s) \<noteq> 1 then Inl (Panic ''sched locks'')
      else if pstate (cur s) = RUNNING then Inl (Panic ''sched running'')
      else Inr s)"

definition yield :: "'a ptab_scheme \<Rightarrow> 'a ptab_scheme res" where
  "yield s = (let p = the (myproc s) in
     bindE (kacquire (ProcLock p) s) (\<lambda>s. sched (upd_proc p (pstate_update (\<lambda>_. RUNNABLE)) s)))"

definition yield_return :: "'a ptab_scheme \<Rightarrow> 'a ptab_scheme res" where
  "yield_return s = krelease (ProcLock (the (myproc s))) s"

definition sleep :: "chan \<Rightarrow> lock \<Rightarrow> 'a ptab_scheme \<Rightarrow> 'a ptab_scheme res" where
  "sleep c lk s = (let p = the (myproc s) in
     bindE (if lk \<noteq> ProcLock p then bindE (kacquire (ProcLock p) s) (krelease lk) else Inr s) (\<lambda>s.
       sched (upd_proc p (\<lambda>q. q\<lparr>pchan := c, pstate := SLEEPING\<rparr>) s)))"

definition sleep_return :: "lock \<Rightarrow> 'a ptab_scheme \<Rightarrow> 'a ptab_scheme res" where
  "sleep_return lk s = (let p = the (myproc s); s = upd_proc p (pchan_update (\<lambda>_. NoChan)) s in
     if lk \<noteq> ProcLock p then bindE (krelease (ProcLock p) s) (kacquire lk) else Inr s)"

definition wakeup :: "chan \<Rightarrow> 'a ptab_scheme \<Rightarrow> 'a ptab_scheme res" where
  "wakeup c = foldE (\<lambda>p s. bindE (kacquire (ProcLock p) s) (\<lambda>s.
     krelease (ProcLock p)
       (if pstate (proc s p) = SLEEPING \<and> pchan (proc s p) = c
        then upd_proc p (pstate_update (\<lambda>_. RUNNABLE)) s else s))) [0..<NPROC]"

definition wakeup1 :: "nat \<Rightarrow> 'a ptab_scheme \<Rightarrow> 'a ptab_scheme res" where
  "wakeup1 p s =
     (if ProcLock p \<notin> held s then Inl (Panic ''wakeup1'')
      else if pchan (proc s p) = ChProc p \<and> pstate (proc s p) = SLEEPING
      then Inr (upd_proc p (pstate_update (\<lambda>_. RUNNABLE)) s) else Inr s)"

primrec kill_scan :: "int \<Rightarrow> nat list \<Rightarrow> 'a ptab_scheme \<Rightarrow> (int \<times> 'a ptab_scheme) res" where
  "kill_scan n [] s = Inr (- 1, s)"
| "kill_scan n (p # ps) s = bindE (kacquire (ProcLock p) s) (\<lambda>s.
     if pid (proc s p) = n
     then let s = upd_proc p (\<lambda>q. q\<lparr>killed := 1,
                pstate := if pstate q = SLEEPING then RUNNABLE else pstate q\<rparr>) s
          in bindE (krelease (ProcLock p) s) (\<lambda>s. Inr (0, s))
     else bindE (krelease (ProcLock p) s) (kill_scan n ps))"

definition kill :: "int \<Rightarrow> 'a ptab_scheme \<Rightarrow> (int \<times> 'a ptab_scheme) res" where
  "kill n = kill_scan n [0..<NPROC]"

subsection \<open>Parents and children\<close>

definition reparent :: "nat \<Rightarrow> 'a ptab_scheme \<Rightarrow> 'a ptab_scheme res" where
  "reparent p = foldE (\<lambda>pp s.
     if parent (proc s pp) = Some p
     then bindE (kacquire (ProcLock pp) s) (\<lambda>s.
       krelease (ProcLock pp) (upd_proc pp (parent_update (\<lambda>_. initproc s)) s))
     else Inr s) [0..<NPROC]"

text \<open>One scan of \<^verbatim>\<open>wait\<close>: what it returns, if it returns, and whether it saw a child.\<close>

primrec wait_scan :: "nat \<Rightarrow> u64 \<Rightarrow> nat list \<Rightarrow> bool \<Rightarrow> 'a ptab_scheme \<Rightarrow>
    (int option \<times> bool \<times> 'a ptab_scheme) res" where
  "wait_scan p addr [] havekids s = Inr (None, havekids, s)"
| "wait_scan p addr (np # nps) havekids s =
     (if parent (proc s np) = Some p
      then bindE (kacquire (ProcLock np) s) (\<lambda>s.
        if pstate (proc s np) = ZOMBIE
        then let n = pid (proc s np) in
          bindE (if addr \<noteq> 0
                 then copyout (pagetable (proc s p)) addr
                   (le_bytes 4 (word_of_int (xstate (proc s np)) :: u32)) 4 s
                 else Inr (0, s)) (\<lambda>(r, s).
            if r < 0
            then bindE (krelease (ProcLock np) s) (\<lambda>s.
              bindE (krelease (ProcLock p) s) (\<lambda>s. Inr (Some (- 1), True, s)))
            else bindE (freeproc np s) (\<lambda>s.
              bindE (krelease (ProcLock np) s) (\<lambda>s.
                bindE (krelease (ProcLock p) s) (\<lambda>s. Inr (Some n, True, s)))))
        else bindE (krelease (ProcLock np) s) (wait_scan p addr nps True))
      else wait_scan p addr nps havekids s)"

definition wait_pass :: "u64 \<Rightarrow> 'a ptab_scheme \<Rightarrow> (int outcome \<times> 'a ptab_scheme) res" where
  "wait_pass addr s = (let p = the (myproc s) in
     bindE (wait_scan p addr [0..<NPROC] False s) (\<lambda>(r, havekids, s).
       case r of Some n \<Rightarrow> Inr (Returns n, s)
       | None \<Rightarrow>
           if \<not> havekids \<or> killed (proc s p) \<noteq> 0
           then bindE (krelease (ProcLock p) s) (\<lambda>s. Inr (Returns (- 1), s))
           else bindE (sleep (ChProc p) (ProcLock p) s) (\<lambda>s. Inr (Blocks, s))))"

definition wait :: "u64 \<Rightarrow> 'a ptab_scheme \<Rightarrow> (int outcome \<times> 'a ptab_scheme) res" where
  "wait addr s = bindE (kacquire (ProcLock (the (myproc s))) s) (wait_pass addr)"

definition wait_return :: "u64 \<Rightarrow> 'a ptab_scheme \<Rightarrow> (int outcome \<times> 'a ptab_scheme) res" where
  "wait_return addr s = bindE (sleep_return (ProcLock (the (myproc s))) s) (wait_pass addr)"

subsection \<open>Copying to and from either address space\<close>

text \<open>
  A destination in user memory, in kernel memory at a physical address, or a variable of the calling
  function, whose bytes the caller takes from the list it passes. A source likewise.
\<close>

datatype dest = ToUser u64 | ToKernel u64 | ToLocal
datatype source = FromUser u64 | FromKernel u64 | FromLocal "u8 list"

definition either_copyout :: "dest \<Rightarrow> u8 list \<Rightarrow> u64 \<Rightarrow> 'a ptab_scheme \<Rightarrow>
    (int \<times> 'a ptab_scheme) res" where
  "either_copyout d src len s =
     (case d of
        ToUser dst \<Rightarrow> copyout (pagetable (cur s)) dst src len s
      | ToKernel dst \<Rightarrow> Inr (0, s\<lparr>mem := put_bytes (mem s) dst (take (unat (ucast len :: u32)) src)\<rparr>)
      | ToLocal \<Rightarrow> Inr (0, s))"

definition either_copyin :: "source \<Rightarrow> u64 \<Rightarrow> 'a ptab_scheme \<Rightarrow> (int \<times> u8 list) res" where
  "either_copyin src len s =
     (case src of
        FromUser a \<Rightarrow> copyin (pagetable (cur s)) a len s
      | FromKernel a \<Rightarrow> Inr (0, bytes (mem s) a (unat (ucast len :: u32)))
      | FromLocal bs \<Rightarrow> Inr (0, take (unat (ucast len :: u32)) bs))"

subsection \<open>The table under its locks\<close>

lemmas lock_defs = kacquire_def krelease_def

lemma upd_proc_simps [simp]:
  "proc (upd_proc p f s) = (proc s)(p := f (proc s p))" "held (upd_proc p f s) = held s"
  "initproc (upd_proc p f s) = initproc s" "me (upd_proc p f s) = me s" "myproc (upd_proc p f s) = myproc s"
  "mem (upd_proc p f s) = mem s" "freelist (upd_proc p f s) = freelist s" "nextpid (upd_proc p f s) = nextpid s"
  "upd_proc p f s\<lparr>held := h\<rparr> = upd_proc p f (s\<lparr>held := h\<rparr>)" "myproc (s\<lparr>held := h\<rparr>) = myproc s"
  by (simp_all add: upd_proc_def myproc_def)

lemma upd_proc_id: "f (proc s p) = proc s p \<Longrightarrow> upd_proc p f s = s"
  by (simp add: upd_proc_def)

lemma upd_proc_twice: "upd_proc p f (upd_proc p g s) = upd_proc p (f \<circ> g) s"
  by (simp add: upd_proc_def)

lemma only_mem_proc:
  assumes "only_mem s s'"
  shows "proc s' = proc s" "me s' = me s" "initproc s' = initproc s" "nextpid s' = nextpid s"
    "held s' = held s" "forkret_pc s' = forkret_pc s" "ticks s' = ticks s" "trampoline s' = trampoline s"
    "kernel_pagetable s' = kernel_pagetable s" "kend s' = kend s" "myproc s' = myproc s"
  using assms by (auto simp: only_mem_def myproc_def)

text \<open>
  A loop over the table whose body updates one slot with the lock of the slot, or without looking at
  the lock, updates the slots independently.
\<close>

lemma foldE_procs:
  assumes "distinct ps"
    and "\<And>p t. p \<in> set ps \<Longrightarrow> held t = held s \<Longrightarrow> initproc t = initproc s \<Longrightarrow> proc t p = proc s p \<Longrightarrow>
      step p t = Inr (upd_proc p f t)"
  shows "foldE step ps s = Inr (s\<lparr>proc := \<lambda>p. if p \<in> set ps then f (proc s p) else proc s p\<rparr>)"
  using assms
proof (induction ps arbitrary: s)
  case (Cons q ps)
  let ?t = "upd_proc q f s"
  have "foldE step ps ?t = Inr (?t\<lparr>proc := \<lambda>p. if p \<in> set ps then f (proc ?t p) else proc ?t p\<rparr>)"
    using Cons.prems by (intro Cons.IH) (auto intro!: Cons.prems(2) split: if_splits)
  moreover have "step q s = Inr ?t" using Cons.prems(2) [of q s] by simp
  moreover have "?t\<lparr>proc := \<lambda>p. if p \<in> set ps then f (proc ?t p) else proc ?t p\<rparr> =
      s\<lparr>proc := \<lambda>p. if p \<in> set (q # ps) then f (proc s p) else proc s p\<rparr>"
    using Cons.prems(1) by (auto simp: upd_proc_def fun_eq_iff intro!: arg_cong [of _ _ "\<lambda>g. s\<lparr>proc := g\<rparr>"])
  ultimately show ?case by simp
qed simp

lemma held_id: "held s = h \<Longrightarrow> s\<lparr>held := h\<rparr> = s"
  by auto

definition wake :: "chan \<Rightarrow> proc \<Rightarrow> proc" where
  "wake c q = (if pstate q = SLEEPING \<and> pchan q = c then q\<lparr>pstate := RUNNABLE\<rparr> else q)"

text \<open>Every process asleep on the channel is made runnable; nothing else in the table changes.\<close>

definition woken :: "chan \<Rightarrow> (nat \<Rightarrow> proc) \<Rightarrow> nat \<Rightarrow> proc" where
  "woken c ps p = (if p < NPROC then wake c (ps p) else ps p)"

lemma wakeup_eq:
  assumes "\<forall>p<NPROC. ProcLock p \<notin> held s"
  shows "wakeup c s = Inr (s\<lparr>proc := woken c (proc s)\<rparr>)"
proof -
  have *: "upd_proc p (\<lambda>q. q\<lparr>pstate := RUNNABLE\<rparr>) t = upd_proc p (wake c) t"
    if "pstate (proc t p) = SLEEPING \<and> pchan (proc t p) = c" for p and t :: "'a ptab_scheme"
    using that by (simp add: upd_proc_def wake_def)
  have id: "upd_proc p (wake c) t = t"
    if "\<not> (pstate (proc t p) = SLEEPING \<and> pchan (proc t p) = c)" for p and t :: "'a ptab_scheme"
    using that by (intro upd_proc_id) (auto simp: wake_def)
  show ?thesis
    unfolding wakeup_def using assms
    by (subst foldE_procs [where f = "wake c"])
      (auto simp: lock_defs * id insert_absorb held_id woken_def [abs_def])
qed

lemma upd_proc_comm: "upd_proc p f s\<lparr>nextpid := n\<rparr> = upd_proc p f (s\<lparr>nextpid := n\<rparr>)"
  by (simp add: upd_proc_def)

definition kill_mark :: "proc \<Rightarrow> proc" where
  "kill_mark q = q\<lparr>killed := 1, pstate := if pstate q = SLEEPING then RUNNABLE else pstate q\<rparr>"

lemma kill_scan_eq:
  "\<forall>p\<in>set ps. ProcLock p \<notin> held s \<Longrightarrow> kill_scan n ps s =
     (case find (\<lambda>p. pid (proc s p) = n) ps of
        None \<Rightarrow> Inr (- 1, s) | Some p \<Rightarrow> Inr (0, upd_proc p kill_mark s))"
  by (induction ps) (auto simp: lock_defs held_id insert_absorb kill_mark_def [abs_def])

lemma find_unused_eq:
  "\<forall>p\<in>set ps. ProcLock p \<notin> held s \<Longrightarrow> find_unused ps s =
     (case find (\<lambda>p. pstate (proc s p) = UNUSED) ps of
        None \<Rightarrow> Inr (None, s) | Some p \<Rightarrow> Inr (Some p, s\<lparr>held := insert (ProcLock p) (held s)\<rparr>))"
  by (induction ps) (auto simp: lock_defs held_id insert_absorb)

lemma find_first:
  assumes "p < n" "Q p" "\<forall>q<p. \<not> Q q"
  shows "find Q [0..<n] = Some p"
  using assms by (auto simp: find_Some_iff intro!: exI [of _ p])

text \<open>The table as it was, but for one slot.\<close>

definition others_kept :: "nat \<Rightarrow> 'a ptab_scheme \<Rightarrow> 'a ptab_scheme \<Rightarrow> bool" where
  "others_kept p s t \<longleftrightarrow> (\<forall>q. q \<noteq> p \<longrightarrow> proc t q = proc s q) \<and> me t = me s \<and> initproc t = initproc s"

lemma others_kept_simps:
  "others_kept p s s" "others_kept p s t \<Longrightarrow> others_kept p s (upd_proc p f t)"
  "others_kept p s t \<Longrightarrow> only_mem t u \<Longrightarrow> others_kept p s u"
  "others_kept p s t \<Longrightarrow> others_kept p s (t\<lparr>held := h\<rparr>)" "others_kept p s t \<Longrightarrow> others_kept p s (t\<lparr>nextpid := k\<rparr>)"
  by (auto simp: others_kept_def only_mem_proc)

lemma proc_pagetable_frame [frame_intros]: "only_mem u s \<Longrightarrow> pres (only_mem u) (proc_pagetable p s)"
  by (auto simp: proc_pagetable_def intro!: pres_bind frame_intros)

lemma proc_freepagetable_frame [frame_intros]:
  "only_mem u s \<Longrightarrow> pres1 (only_mem u) (proc_freepagetable pt sz s)"
  by (auto simp: proc_freepagetable_def intro!: pres1_bind(2) frame_intros)

lemma allocpid_eq:
  "PidLock \<notin> held s \<Longrightarrow> allocpid s = Inr (nextpid s, s\<lparr>nextpid := int32 (nextpid s + 1)\<rparr>)"
  by (simp add: allocpid_def lock_defs insert_absorb held_id)

text \<open>What \<^verbatim>\<open>allocproc\<close> does when it succeeds.\<close>

lemma allocproc_slot:
  assumes free: "\<forall>p<NPROC. ProcLock p \<notin> held s" "PidLock \<notin> held s"
    and ok: "allocproc s = Inr (Some p, t)"
  shows "find (\<lambda>p. pstate (proc s p) = UNUSED) [0..<NPROC] = Some p"
    "\<exists>tf pt c. tf \<noteq> 0 \<and> pt \<noteq> 0 \<and> proc t p =
       (proc s p)\<lparr>pid := nextpid s, trapframe := tf, pagetable := pt, pcontext := c\<rparr>"
    "others_kept p s t" "nextpid t = int32 (nextpid s + 1)" "held t = insert (ProcLock p) (held s)"
proof -
  obtain q where q: "find (\<lambda>p. pstate (proc s p) = UNUSED) [0..<NPROC] = Some q"
    using ok free(1) by (cases "find (\<lambda>p. pstate (proc s p) = UNUSED) [0..<NPROC]")
      (auto simp: allocproc_def find_unused_eq)
  define s1 where "s1 = upd_proc q (pid_update (\<lambda>_. nextpid s))
    (s\<lparr>held := insert (ProcLock q) (held s), nextpid := int32 (nextpid s + 1)\<rparr>)"
  obtain tf s2 where s2: "kalloc s1 = Inr (tf, s2)"
    using ok q free by (auto simp: allocproc_def find_unused_eq allocpid_eq bindE_eq_Inr s1_def Let_def)
  define s3 where "s3 = upd_proc q (trapframe_update (\<lambda>_. tf)) s2"
  have "tf \<noteq> 0" using ok q free s2 by (auto simp: allocproc_def find_unused_eq allocpid_eq bindE_eq_Inr s1_def Let_def)
  then obtain pt s4 where s4: "proc_pagetable q s3 = Inr (pt, s4)"
    using ok q free s2 by (auto simp: allocproc_def find_unused_eq allocpid_eq bindE_eq_Inr s1_def s3_def Let_def)
  have pt: "pt \<noteq> 0" and pq: "p = q" and t: "t = upd_proc q (\<lambda>r. r\<lparr>pcontext :=
      \<lparr>ra = forkret_pc s4, sp = kstack r + PGSIZE, saved = replicate 12 0\<rparr>\<rparr>)
      (upd_proc q (pagetable_update (\<lambda>_. pt)) s4)"
    using ok q free s2 s4 \<open>tf \<noteq> 0\<close>
    by (auto simp: allocproc_def find_unused_eq allocpid_eq bindE_eq_Inr s1_def s3_def Let_def upd_proc_def split: if_splits)
  have f: "only_mem s1 s2" "only_mem s3 s4"
    using presD(1) [OF kalloc_frame s2] presD(1) [OF proc_pagetable_frame s4] by auto
  note g = only_mem_proc [OF f(1)] only_mem_proc [OF f(2)]
  show "find (\<lambda>p. pstate (proc s p) = UNUSED) [0..<NPROC] = Some p" using q pq by simp
  show "\<exists>tf pt c. tf \<noteq> 0 \<and> pt \<noteq> 0 \<and> proc t p =
       (proc s p)\<lparr>pid := nextpid s, trapframe := tf, pagetable := pt, pcontext := c\<rparr>"
    using \<open>tf \<noteq> 0\<close> pt unfolding t pq by (intro exI conjI) (auto simp: g s3_def s1_def)
  show "others_kept p s t" "nextpid t = int32 (nextpid s + 1)" "held t = insert (ProcLock p) (held s)"
    unfolding t pq by (auto simp: others_kept_def g s3_def s1_def)
qed

text \<open>
  Process identifiers are unique: all are below \<^verbatim>\<open>nextpid\<close>, and two slots share
  only the pid 0.
\<close>

definition pid_inv :: "'a ptab_scheme \<Rightarrow> bool" where
  "pid_inv s \<longleftrightarrow> (\<forall>p<NPROC. 0 \<le> pid (proc s p) \<and> pid (proc s p) < nextpid s) \<and> 0 < nextpid s \<and>
     (\<forall>p<NPROC. \<forall>q<NPROC. pid (proc s p) = pid (proc s q) \<longrightarrow> pid (proc s p) \<noteq> 0 \<longrightarrow> p = q)"

definition empty_proc :: proc where
  "empty_proc = \<lparr>pstate = UNUSED, parent = None, pchan = NoChan, killed = 0, xstate = 0, pid = 0, kstack = 0,
     psz = 0, pagetable = 0, trapframe = 0, pcontext = \<lparr>ra = 0, sp = 0, saved = replicate 12 0\<rparr>,
     ofile = replicate 16 None, cwd = None, pname = replicate 16 0\<rparr>"

text \<open>A table with process 1 running in slot 0, process 2 asleep on a pipe in slot 1, and no other.\<close>

definition two_procs :: ptab where
  "two_procs = \<lparr>held = {}, kend = 0x80021000, mem = (\<lambda>_. 0), freelist = 0, kernel_pagetable = 0, etext = 0,
     trampoline = 0, proc = (\<lambda>_. empty_proc)(0 := empty_proc\<lparr>pstate := RUNNING, pid := 1\<rparr>,
       1 := empty_proc\<lparr>pstate := SLEEPING, pid := 2, parent := Some 0, pchan := ChPipeRead 0x87fff000\<rparr>),
     me = Some 0, initproc = Some 0, nextpid = 3, forkret_pc = 0, ticks = 0\<rparr>"

subsection \<open>Properties\<close>

text \<open>
  C31. \<^verbatim>\<open>kill\<close> finds the process with the given pid: it returns 0 after marking
  exactly that process killed and making it runnable if it was asleep, and returns -1 without any
  change when no slot has the pid.
\<close>

theorem kill_finds_process:
  assumes free: "\<forall>p<NPROC. ProcLock p \<notin> held s" and inv: "pid_inv s" and n: "n \<noteq> 0"
  shows "(\<exists>p<NPROC. (\<forall>q<NPROC. pid (proc s q) = n \<longleftrightarrow> q = p) \<and> kill n s = Inr (0, upd_proc p kill_mark s)) \<or>
    (\<forall>q<NPROC. pid (proc s q) \<noteq> n) \<and> kill n s = Inr (- 1, s)"
proof -
  let ?f = "find (\<lambda>p. pid (proc s p) = n) [0..<NPROC]"
  have k: "kill n s = (case ?f of None \<Rightarrow> Inr (- 1, s) | Some p \<Rightarrow> Inr (0, upd_proc p kill_mark s))"
    using kill_scan_eq [of "[0..<NPROC]" s n] free by (simp add: kill_def)
  show ?thesis
  proof (cases ?f)
    case None
    then have "\<forall>q<NPROC. pid (proc s q) \<noteq> n" by (simp add: find_None_iff)
    moreover have "kill n s = Inr (- 1, s)" using k None by simp
    ultimately show ?thesis by blast
  next
    case (Some p)
    then have p: "p < NPROC" "pid (proc s p) = n" by (auto simp: find_Some_iff)
    then have "\<forall>q<NPROC. pid (proc s q) = n \<longleftrightarrow> q = p" using inv n by (auto simp: pid_inv_def)
    with p k Some show ?thesis by auto
  qed
qed

lemma two_procs_simps:
  "held two_procs = {}" "nextpid two_procs = 3" "myproc two_procs = Some 0"
  "pid (proc two_procs p) = (if p = 0 then 1 else if p = 1 then 2 else 0)"
  "pstate (proc two_procs p) = (if p = 0 then RUNNING else if p = 1 then SLEEPING else UNUSED)"
  by (simp_all add: two_procs_def empty_proc_def myproc_def)

lemma two_procs_pid_inv: "pid_inv two_procs"
  by (auto simp: pid_inv_def two_procs_simps split: if_splits)

theorem kill_finds_process_witness:
  "(\<exists>p<NPROC. (\<forall>q<NPROC. pid (proc two_procs q) = 2 \<longleftrightarrow> q = p) \<and>
      kill 2 two_procs = Inr (0, upd_proc p kill_mark two_procs)) \<or>
    (\<forall>q<NPROC. pid (proc two_procs q) \<noteq> 2) \<and> kill 2 two_procs = Inr (- 1, two_procs)"
  by (rule kill_finds_process [OF _ two_procs_pid_inv]) (simp_all add: two_procs_simps)

text \<open>
  C39. A pid of 0 is not refused: \<^verbatim>\<open>kill(0)\<close> returns 0 and marks the first unused
  slot killed, since unused slots have pid 0. \<^verbatim>\<open>allocproc\<close> does not clear the mark, so
  the next process made in that slot is born killed.
\<close>

theorem kill_zero_marks_unused:
  assumes free: "\<forall>p<NPROC. ProcLock p \<notin> held s" "PidLock \<notin> held s"
    and q: "q < NPROC" "pstate (proc s q) = UNUSED" "pid (proc s q) = 0"
    and first: "\<forall>p<q. pid (proc s p) \<noteq> 0 \<and> pstate (proc s p) \<noteq> UNUSED"
  shows "\<exists>t. kill 0 s = Inr (0, t) \<and> pstate (proc t q) = UNUSED \<and> killed (proc t q) = 1 \<and>
    (\<forall>r u. allocproc t = Inr (Some r, u) \<longrightarrow> r = q \<and> killed (proc u q) = 1)"
proof -
  let ?t = "upd_proc q kill_mark s"
  have "find (\<lambda>p. pid (proc s p) = 0) [0..<NPROC] = Some q" using q first by (intro find_first) auto
  then have k: "kill 0 s = Inr (0, ?t)" using kill_scan_eq [of "[0..<NPROC]" s 0] free by (simp add: kill_def)
  have u: "find (\<lambda>p. pstate (proc ?t p) = UNUSED) [0..<NPROC] = Some q"
    using q first by (intro find_first) (auto simp: kill_mark_def)
  have "r = q \<and> killed (proc u q) = 1" if "allocproc ?t = Inr (Some r, u)" for r u
    using allocproc_slot(1,2) [OF _ _ that] free u by (auto simp: kill_mark_def)
  with k q show ?thesis by (intro exI [of _ ?t]) (auto simp: kill_mark_def)
qed

theorem kill_zero_marks_unused_witness:
  "\<exists>t. kill 0 two_procs = Inr (0, t) \<and> pstate (proc t 2) = UNUSED \<and> killed (proc t 2) = 1 \<and>
    (\<forall>r u. allocproc t = Inr (Some r, u) \<longrightarrow> r = 2 \<and> killed (proc u 2) = 1)"
  by (rule kill_zero_marks_unused)
    (auto simp: two_procs_simps NPROC_def)

text \<open>
  C30. A thread may sleep only with the lock it hands to \<^verbatim>\<open>sleep\<close>: then it is marked
  asleep on the channel with its own lock held instead, so that no wakeup can come between the two.
  With any other lock held, \<^verbatim>\<open>sleep\<close> panics in \<^verbatim>\<open>sched\<close>.
\<close>

theorem sleep_one_lock:
  assumes "myproc s = Some p" "lk \<in> held s" "lk \<noteq> ProcLock p" "ProcLock p \<notin> held s" "finite (held s)"
  shows "sleep c lk s = (if held s = {lk}
    then Inr (upd_proc p (\<lambda>q. q\<lparr>pchan := c, pstate := SLEEPING\<rparr>) (s\<lparr>held := {ProcLock p}\<rparr>))
    else Inl (Panic ''sched locks''))"
proof -
  let ?h = "insert (ProcLock p) (held s) - {lk}"
  have "card ?h = card (held s)" using assms(2-5) by (simp add: card_insert_disjoint)
  moreover have "card (held s) = 1 \<longleftrightarrow> held s = {lk}" using assms(2) by (auto simp: card_1_singleton_iff)
  moreover have "held s = {lk} \<Longrightarrow> ?h = {ProcLock p}" using assms(3) by auto
  ultimately show ?thesis using assms by (simp add: sleep_def sched_def lock_defs)
qed

theorem sleep_one_lock_witness:
  "sleep ChCons ConsLock (two_procs\<lparr>held := {ConsLock}\<rparr>) = (if held (two_procs\<lparr>held := {ConsLock}\<rparr>) = {ConsLock}
    then Inr (upd_proc 0 (\<lambda>q. q\<lparr>pchan := ChCons, pstate := SLEEPING\<rparr>)
      (two_procs\<lparr>held := {ConsLock}\<rparr>\<lparr>held := {ProcLock 0}\<rparr>))
    else Inl (Panic ''sched locks''))"
  by (rule sleep_one_lock) (simp_all add: two_procs_simps)

end
