(* ===== verification/Ring.thy ===== *)
theory Ring
  imports Prelude
begin

text \<open>
  Ring buffers with free-running 32-bit counters, as \<^verbatim>\<open>kernel/pipe.c\<close> and
  \<^verbatim>\<open>kernel/console.c\<close> use them, and the contract of a bounded first-in-first-out
  queue that they, and the transmit buffer of \<^verbatim>\<open>kernel/uart.c\<close>, implement.
\<close>

subsection \<open>Free-running counters\<close>

text \<open>The elements between the counters, oldest first.\<close>

definition ring :: "nat \<Rightarrow> 'b list \<Rightarrow> u32 \<Rightarrow> u32 \<Rightarrow> 'b list" where
  "ring n buf r w = map (\<lambda>k. buf ! (unat (r + of_nat k) mod n)) [0..<unat (w - r)]"

lemma length_ring [simp]: "length (ring n buf r w) = unat (w - r)"
  by (simp add: ring_def)

lemma ring_Nil [simp]: "ring n buf r r = []"
  by (simp add: ring_def)

text \<open>
  The size divides the range of the counters, so that an index goes on without a jump when a counter
  wraps around.
\<close>

locale ring_size =
  fixes n :: nat
  assumes pos: "0 < n" and small: "n < 2 ^ 32" and divides: "n dvd 2 ^ 32"
begin

lemma index: "unat (r + of_nat k :: u32) mod n = (unat r + k) mod n"
proof -
  have "unat (r + of_nat k :: u32) = (unat r + k) mod 2 ^ 32"
    by (simp add: unat_word_ariths unat_of_nat take_bit_eq_mod mod_simps)
  then show ?thesis using divides by (simp add: mod_mod_cancel)
qed

lemma ring_nth: "k < unat (w - r) \<Longrightarrow> ring n buf r w ! k = buf ! ((unat r + k) mod n)"
  by (simp add: ring_def index)

lemma put:
  assumes "length buf = n" "unat (w - r) < n"
  shows "ring n (buf[unat w mod n := b]) r (w + 1) = ring n buf r w @ [b]"
proof -
  let ?d = "unat (w - r)"
  have len: "unat (w + 1 - r) = Suc ?d"
  proof -
    have "?d + 1 < 2 ^ LENGTH(32)" using assms(2) small by simp
    then have "unat (w - r + 1) = ?d + 1" by (subst unat_add_small) simp_all
    then show ?thesis by (simp add: algebra_simps)
  qed
  have w: "unat w mod n = (unat r + ?d) mod n" using index [of r ?d] by simp
  have other: "(unat r + k) mod n \<noteq> (unat r + ?d) mod n" if "k < ?d" for k
  proof
    assume "(unat r + k) mod n = (unat r + ?d) mod n"
    then have "n dvd (unat r + ?d) - (unat r + k)"
      using that by (intro mod_eq_dvd_iff_nat [THEN iffD1]) simp_all
    then show False using that assms(2) by (auto dest!: dvd_imp_le)
  qed
  show ?thesis
  proof (rule nth_equalityI)
    fix k assume "k < length (ring n (buf[unat w mod n := b]) r (w + 1))"
    then have k: "k < Suc ?d" by (simp add: len)
    show "ring n (buf[unat w mod n := b]) r (w + 1) ! k = (ring n buf r w @ [b]) ! k"
    proof (cases "k = ?d")
      case True
      then show ?thesis using assms(1) pos by (simp add: ring_nth len w nth_append)
    next
      case False
      then show ?thesis using k other [of k] by (simp add: ring_nth len w nth_append)
    qed
  qed (simp add: len)
qed

lemma get:
  assumes "w \<noteq> r"
  shows "ring n buf r w = buf ! (unat r mod n) # ring n buf (r + 1) w"
proof -
  have "w - r \<noteq> 0" using assms by simp
  then have len: "unat (w - r) = Suc (unat (w - (r + 1)))"
    using unat_minus_one [of "w - r"] by (simp add: algebra_simps unat_gt_0 Suc_pred')
  have nxt: "(unat (r + 1) + k) mod n = Suc (unat r + k) mod n" for k
    using index [of r "Suc k"] index [of "r + 1" k] by (simp add: ac_simps)
  show ?thesis
    by (rule nth_equalityI) (auto simp: len ring_nth nth_Cons nxt split: nat.split)
qed

lemma split:
  assumes "unat (w - r) \<le> unat (e - r)"
  shows "ring n buf r e = ring n buf r w @ ring n buf w e"
proof -
  have "w - r \<le> e - r" using assms by (simp add: word_le_nat_alt)
  from unat_sub [OF this] have len: "unat (e - w) = unat (e - r) - unat (w - r)" by simp
  have shift: "(unat w + (i - unat (w - r))) mod n = (unat r + i) mod n" if "unat (w - r) \<le> i" for i
    using index [of r i] index [of w "i - unat (w - r)"] that by (simp add: of_nat_diff ac_simps)
  show ?thesis
    using assms len shift by (intro nth_equalityI) (auto simp: ring_nth nth_append)
qed

text \<open>Taking back the newest element.\<close>

lemma unput:
  assumes "w \<noteq> r"
  shows "ring n buf r (w - 1) = butlast (ring n buf r w)"
proof -
  have "unat (w - r - 1) = unat (w - r) - 1" using assms by (intro unat_minus_one) simp
  then show ?thesis
    by (intro nth_equalityI) (auto simp: ring_nth nth_butlast algebra_simps)
qed

end

subsection \<open>Bounded queues\<close>

datatype 'b queue_op = Put 'b | Get

text \<open>
  A client that puts when there is room and gets when there is something: the values it got and the
  final state.
\<close>

fun queue_run :: "('s \<Rightarrow> bool) \<Rightarrow> ('s \<Rightarrow> bool) \<Rightarrow> ('b \<Rightarrow> 's \<Rightarrow> 's) \<Rightarrow> ('s \<Rightarrow> 'b \<times> 's) \<Rightarrow>
    'b queue_op list \<Rightarrow> 's \<Rightarrow> 'b list \<times> 'b list \<times> 's" where
  "queue_run full empt put get [] s = ([], [], s)"
| "queue_run full empt put get (Put b # ops) s =
     (if full s then queue_run full empt put get ops s
      else let (i, out, t) = queue_run full empt put get ops (put b s) in (b # i, out, t))"
| "queue_run full empt put get (Get # ops) s =
     (if empt s then queue_run full empt put get ops s
      else let (b, s) = get s; (i, out, t) = queue_run full empt put get ops s in (i, b # out, t))"

locale bounded_queue =
  fixes ok :: "'s \<Rightarrow> bool" and elems :: "'s \<Rightarrow> 'b list" and cap :: nat
    and full :: "'s \<Rightarrow> bool" and empt :: "'s \<Rightarrow> bool"
    and put :: "'b \<Rightarrow> 's \<Rightarrow> 's" and get :: "'s \<Rightarrow> 'b \<times> 's"
  assumes full_iff: "ok s \<Longrightarrow> full s \<longleftrightarrow> length (elems s) = cap"
    and empt_iff: "ok s \<Longrightarrow> empt s \<longleftrightarrow> elems s = []"
    and bound: "ok s \<Longrightarrow> length (elems s) \<le> cap"
    and put_ok: "ok s \<Longrightarrow> \<not> full s \<Longrightarrow> ok (put b s)"
    and put_elems: "ok s \<Longrightarrow> \<not> full s \<Longrightarrow> elems (put b s) = elems s @ [b]"
    and get_ok: "ok s \<Longrightarrow> \<not> empt s \<Longrightarrow> ok (snd (get s))"
    and get_elems: "ok s \<Longrightarrow> \<not> empt s \<Longrightarrow> elems s = fst (get s) # elems (snd (get s))"
begin

text \<open>First in, first out: what came out and what is left is what was there and what went in.\<close>

lemma fifo:
  "ok s \<Longrightarrow> queue_run full empt put get ops s = (i, out, t) \<Longrightarrow>
   ok t \<and> out @ elems t = elems s @ i \<and> length (elems t) \<le> cap"
proof (induction ops arbitrary: s i out)
  case Nil
  then show ?case using bound by auto
next
  case (Cons x ops)
  show ?case
  proof (cases x)
    case (Put b)
    show ?thesis
    proof (cases "full s")
      case False
      then obtain i' where r: "queue_run full empt put get ops (put b s) = (i', out, t)" "i = b # i'"
        using Cons.prems(2) Put by (auto simp: Let_def split: prod.splits)
      show ?thesis
        using Cons.IH [OF put_ok [OF Cons.prems(1) False] r(1)] put_elems [OF Cons.prems(1) False] r(2) by simp
    qed (use Cons Put in auto)
  next
    case Get
    show ?thesis
    proof (cases "empt s")
      case False
      obtain b u where g: "get s = (b, u)" by fastforce
      then obtain out' where r: "queue_run full empt put get ops u = (i, out', t)" "out = b # out'"
        using Cons.prems(2) Get False by (auto simp: Let_def split: prod.splits)
      have u: "ok u" "elems s = b # elems u"
        using get_ok [OF Cons.prems(1) False] get_elems [OF Cons.prems(1) False] g by auto
      show ?thesis using Cons.IH [OF u(1) r(1)] u(2) r(2) by simp
    qed (use Cons Get in auto)
  qed
qed

end

end
