(* ===== verification/UserCopy.thy ===== *)
theory UserCopy
  imports Uvm
begin

text \<open>
  What the kernel's accesses to user memory promise: \<^verbatim>\<open>copyout\<close>,
  \<^verbatim>\<open>copyin\<close> and \<^verbatim>\<open>copyinstr\<close> as operations on the address space
  \<^const>\<open>uspace\<close>, without pages, chunks or physical addresses.
\<close>

lemma one_page_user: "va < 4096 \<Longrightarrow> uspace (mem one_page) 0x87ffe000 va \<noteq> None"
proof -
  assume va: "va < 4096"
  have lt: "va < MAXVA" using va by (simp add: MAXVA_eq word_less_nat_alt)
  have v: "PTE2PA (PA2PTE 0x87ffd000 OR 0x1e OR 1) = 0x87ffd000"
    "(PA2PTE 0x87ffd000 OR 0x1e OR 1) AND PTE_U \<noteq> 0" "(PA2PTE 0x87ffd000 OR 0x1e OR 1) AND PTE_V \<noteq> 0"
    using pte_mk [of "0x1e" "0x87ffd000"] PGROUNDDOWN_id [of "0x87ffd000"] PTE_V_mk(1) [of "0x87ffd000" "0x1e"]
    by (simp_all add: page_aligned_def)
  show "uspace (mem one_page) 0x87ffe000 va \<noteq> None"
    using one_page_memory(4) [OF lt] va lt v by (simp add: uspace_def user_ok_def mapped_def frame_of_def)
qed

lemma one_page_as_wf: "as_wf (mem one_page) 0x87ffe000"
  using as_invD(4) [OF uvm_invD(1) [OF one_page_inv]] .

lemma one_page_bytes: "length (uread (uspace (mem one_page) 0x87ffe000) 4000 n) = n" if "n \<le> 96"
proof (unfold uread_full, intro allI impI one_page_user)
  fix i assume "i < n"
  then have "unat (of_nat i :: u64) = i" "i < 96" using that by (simp_all add: unat_of_nat_small)
  then show "4000 + of_nat i < (4096 :: u64)" by (simp add: word_less_nat_alt unat_word_ariths)
qed

text \<open>
  C14. \<^verbatim>\<open>copyout\<close> writes the longest writable prefix of the bytes and nothing else:
  the address space afterwards is the old one with that prefix stored at the destination, the page
  table and every page that is not a user frame of it are as before, and the result is 0 exactly
  when the whole range was writable, -1 otherwise. It neither panics nor fails to return, whatever
  address a process passes.
\<close>

theorem copyout_writes_prefix:
  assumes "as_wf (mem s) r" "length src = unat n"
  shows "\<exists>s'. copyout r va src n s =
      Inr (if \<forall>i<unat n. uspace (mem s) r (va + of_nat i) \<noteq> None then 0 else - 1, s') \<and>
    copied r s s' \<and> uspace (mem s') r = uwrite (uspace (mem s) r) va
      (take (length (uread (uspace (mem s) r) va (unat n))) src)"
  using copyout_eq [of s r n src va] assms by (simp add: uread_full)

theorem copyout_writes_prefix_witness:
  "\<exists>s'. copyout 0x87ffe000 4000 [1, 2, 3] 3 one_page =
      Inr (if \<forall>i<unat (3 :: u64). uspace (mem one_page) 0x87ffe000 (4000 + of_nat i) \<noteq> None then 0 else - 1, s') \<and>
    copied 0x87ffe000 one_page s' \<and> uspace (mem s') 0x87ffe000 = uwrite (uspace (mem one_page) 0x87ffe000) 4000
      (take (length (uread (uspace (mem one_page) 0x87ffe000) 4000 (unat (3 :: u64)))) [1, 2, 3])"
  by (rule copyout_writes_prefix [OF one_page_as_wf]) simp

text \<open>
  C15. Bytes that the kernel copies out to a process are the bytes it reads back: after a
  \<^verbatim>\<open>copyout\<close> over memory the process may use, \<^verbatim>\<open>copyin\<close> of the same range
  succeeds and returns them, across page boundaries and whatever frames the pages are in.
\<close>

theorem copyout_copyin_round_trip:
  assumes "as_wf (mem s) r" "length bs < 2 ^ 64" "\<forall>i<length bs. uspace (mem s) r (va + of_nat i) \<noteq> None"
  shows "\<exists>s'. copyout r va bs (of_nat (length bs)) s = Inr (0, s') \<and>
    copyin r va (of_nat (length bs)) s' = Inr (0, bs)"
proof -
  let ?n = "of_nat (length bs) :: u64"
  have n: "unat ?n = length bs" using assms(2) by (simp add: unat_of_nat_small)
  have full: "length (uread (uspace (mem s) r) va (length bs)) = length bs" using assms(3) by (simp add: uread_full)
  then obtain s' where s': "copyout r va bs ?n s = Inr (0, s')" "copied r s s'"
    "uspace (mem s') r = uwrite (uspace (mem s) r) va bs"
    using copyout_eq [OF assms(1), of ?n bs va] n by auto
  have "pt_wf (mem s') r" using s'(2) by (simp add: copied_def as_wf_def)
  from copyin_eq [OF this, of va ?n] have "copyin r va ?n s' = Inr (0, bs)"
    unfolding s'(3) n by (simp add: uread_uwrite [OF assms(2)])
  with s'(1) show ?thesis by blast
qed

theorem copyout_copyin_round_trip_witness:
  "\<exists>s'. copyout 0x87ffe000 4000 [1, 2, 3] (of_nat (length [1, 2, 3 :: u8])) one_page = Inr (0, s') \<and>
    copyin 0x87ffe000 4000 (of_nat (length [1, 2, 3 :: u8])) s' = Inr (0, [1, 2, 3])"
  using one_page_bytes [of "length [1, 2, 3 :: u8]"]
  by (intro copyout_copyin_round_trip [OF one_page_as_wf]) (simp_all only: uread_full, simp_all)

text \<open>
  C16. \<^verbatim>\<open>copyinstr\<close> returns 0 exactly when there is a null byte among the first
  \<^verbatim>\<open>max\<close> readable bytes; it then has copied the string up to and including the first
  null. Otherwise it returns -1, having copied only readable bytes, at most \<^verbatim>\<open>max\<close> of
  them.
\<close>

theorem copyinstr_reads_string:
  assumes "pt_wf (mem s) r"
  shows "copyinstr r va n s =
    (let bs = uread (uspace (mem s) r) va (unat n)
     in Inr (if 0 \<in> set bs then (0, takeWhile (\<lambda>b. b \<noteq> 0) bs @ [0]) else (- 1, bs)))"
  using copyinstr_eq assms by blast

theorem copyinstr_reads_string_witness:
  "copyinstr 0x87ffe000 4000 8 one_page =
    (let bs = uread (uspace (mem one_page) 0x87ffe000) 4000 (unat (8 :: u64))
     in Inr (if 0 \<in> set bs then (0, takeWhile (\<lambda>b. b \<noteq> 0) bs @ [0]) else (- 1, bs)))"
  by (rule copyinstr_reads_string) (use one_page_as_wf in \<open>simp add: as_wf_def\<close>)

end
