(* ===== verification/Pipe.thy ===== *)
theory Pipe
  imports Proc Ring UserCopy
begin

text \<open>
  Pipes: \<^verbatim>\<open>kernel/pipe.c\<close>, but for \<^verbatim>\<open>pipealloc\<close>, which is with the file table in
  \<open>File\<close>. A pipe is identified by the page that holds it; its fields are a record beside
  that page. A reader or writer that has to wait returns \<open>Asleep i\<close> in the state of its call of
  \<^verbatim>\<open>sleep\<close>, and the operation ending in \<open>_return\<close> goes on at byte \<open>i\<close>.
\<close>

subsection \<open>State and operations\<close>

record pipe =
  pdata :: "u8 list"
  nread :: u32
  nwrite :: u32
  readopen :: bool
  writeopen :: bool

record pipes = ptab +
  pipe :: "u64 \<Rightarrow> pipe"

datatype progress = Done int | Asleep int

definition pipe_full :: "pipe \<Rightarrow> bool" where
  "pipe_full q \<longleftrightarrow> nwrite q = nread q + 512"

definition pipe_put :: "u8 \<Rightarrow> pipe \<Rightarrow> pipe" where
  "pipe_put b q = q\<lparr>pdata := (pdata q)[unat (nwrite q) mod 512 := b], nwrite := nwrite q + 1\<rparr>"

definition pipe_empty :: "pipe \<Rightarrow> bool" where
  "pipe_empty q \<longleftrightarrow> nread q = nwrite q"

definition pipe_get :: "pipe \<Rightarrow> u8 \<times> pipe" where
  "pipe_get q = (pdata q ! (unat (nread q) mod 512), q\<lparr>nread := nread q + 1\<rparr>)"

definition set_pipe :: "u64 \<Rightarrow> pipe \<Rightarrow> 'a pipes_scheme \<Rightarrow> 'a pipes_scheme" where
  "set_pipe pi q s = s\<lparr>pipe := (pipe s)(pi := q)\<rparr>"

definition pipeclose :: "u64 \<Rightarrow> bool \<Rightarrow> 'a pipes_scheme \<Rightarrow> 'a pipes_scheme res" where
  "pipeclose pi writable s = bindE (kacquire (PipeLock pi) s) (\<lambda>s.
     bindE (if writable
            then wakeup (ChPipeRead pi) (set_pipe pi ((pipe s pi)\<lparr>writeopen := False\<rparr>) s)
            else wakeup (ChPipeWrite pi) (set_pipe pi ((pipe s pi)\<lparr>readopen := False\<rparr>) s)) (\<lambda>s.
       if \<not> readopen (pipe s pi) \<and> \<not> writeopen (pipe s pi)
       then bindE (krelease (PipeLock pi) s) (kfree pi)
       else krelease (PipeLock pi) s))"

definition pipe_done :: "chan \<Rightarrow> u64 \<Rightarrow> int \<Rightarrow> 'a pipes_scheme \<Rightarrow> (progress \<times> 'a pipes_scheme) res" where
  "pipe_done c pi i s = bindE (wakeup c s) (\<lambda>s. bindE (krelease (PipeLock pi) s) (\<lambda>s. Inr (Done i, s)))"

function pipewrite_loop :: "u64 \<Rightarrow> u64 \<Rightarrow> int \<Rightarrow> int \<Rightarrow> 'a pipes_scheme \<Rightarrow>
    (progress \<times> 'a pipes_scheme) res" where
  "pipewrite_loop pi addr n i s =
     (if i < n
      then if pipe_full (pipe s pi)
        then if \<not> readopen (pipe s pi) \<or> killed (cur s) \<noteq> 0
          then bindE (krelease (PipeLock pi) s) (\<lambda>s. Inr (Done (- 1), s))
          else bindE (wakeup (ChPipeRead pi) s) (\<lambda>s.
            bindE (sleep (ChPipeWrite pi) (PipeLock pi) s) (\<lambda>s. Inr (Asleep i, s)))
        else bindE (copyin (pagetable (cur s)) (addr + of_int i) 1 s) (\<lambda>(r, bs).
          if r = - 1 then pipe_done (ChPipeRead pi) pi i s
          else pipewrite_loop pi addr n (i + 1) (set_pipe pi (pipe_put (bs ! 0) (pipe s pi)) s))
      else pipe_done (ChPipeRead pi) pi i s)"
  by pat_completeness auto
termination
  by (relation "measure (\<lambda>(_, _, n, i, _). nat (n - i))") auto

declare pipewrite_loop.simps [simp del]

definition pipewrite :: "u64 \<Rightarrow> u64 \<Rightarrow> int \<Rightarrow> 'a pipes_scheme \<Rightarrow> (progress \<times> 'a pipes_scheme) res" where
  "pipewrite pi addr n s = bindE (kacquire (PipeLock pi) s) (pipewrite_loop pi addr n 0)"

definition pipewrite_return :: "u64 \<Rightarrow> u64 \<Rightarrow> int \<Rightarrow> int \<Rightarrow> 'a pipes_scheme \<Rightarrow>
    (progress \<times> 'a pipes_scheme) res" where
  "pipewrite_return pi addr n i s = bindE (sleep_return (PipeLock pi) s) (pipewrite_loop pi addr n i)"

function piperead_copy :: "u64 \<Rightarrow> u64 \<Rightarrow> int \<Rightarrow> int \<Rightarrow> 'a pipes_scheme \<Rightarrow>
    (progress \<times> 'a pipes_scheme) res" where
  "piperead_copy pi addr n i s =
     (if i < n \<and> \<not> pipe_empty (pipe s pi)
      then let (ch, q) = pipe_get (pipe s pi) in
        bindE (copyout (pagetable (cur s)) (addr + of_int i) [ch] 1 (set_pipe pi q s)) (\<lambda>(r, s).
          if r = - 1 then pipe_done (ChPipeWrite pi) pi i s
          else piperead_copy pi addr n (i + 1) s)
      else pipe_done (ChPipeWrite pi) pi i s)"
  by pat_completeness auto
termination
  by (relation "measure (\<lambda>(_, _, n, i, _). nat (n - i))") auto

declare piperead_copy.simps [simp del]

definition piperead_wait :: "u64 \<Rightarrow> u64 \<Rightarrow> int \<Rightarrow> 'a pipes_scheme \<Rightarrow> (progress \<times> 'a pipes_scheme) res" where
  "piperead_wait pi addr n s =
     (if pipe_empty (pipe s pi) \<and> writeopen (pipe s pi)
      then if killed (cur s) \<noteq> 0
        then bindE (krelease (PipeLock pi) s) (\<lambda>s. Inr (Done (- 1), s))
        else bindE (sleep (ChPipeRead pi) (PipeLock pi) s) (\<lambda>s. Inr (Asleep 0, s))
      else piperead_copy pi addr n 0 s)"

definition piperead :: "u64 \<Rightarrow> u64 \<Rightarrow> int \<Rightarrow> 'a pipes_scheme \<Rightarrow> (progress \<times> 'a pipes_scheme) res" where
  "piperead pi addr n s = bindE (kacquire (PipeLock pi) s) (piperead_wait pi addr n)"

definition piperead_return :: "u64 \<Rightarrow> u64 \<Rightarrow> int \<Rightarrow> 'a pipes_scheme \<Rightarrow> (progress \<times> 'a pipes_scheme) res" where
  "piperead_return pi addr n s = bindE (sleep_return (PipeLock pi) s) (piperead_wait pi addr n)"

subsection \<open>The queue in a pipe\<close>

definition pipe_ok :: "pipe \<Rightarrow> bool" where
  "pipe_ok q \<longleftrightarrow> length (pdata q) = 512 \<and> unat (nwrite q - nread q) \<le> 512"

definition pipe_elems :: "pipe \<Rightarrow> u8 list" where
  "pipe_elems q = ring 512 (pdata q) (nread q) (nwrite q)"

interpretation pr: ring_size 512
  by unfold_locales simp_all

lemma pipe_full_length: "pipe_ok q \<Longrightarrow> pipe_full q \<longleftrightarrow> length (pipe_elems q) = 512"
proof -
  have "nwrite q = nread q + 512 \<longleftrightarrow> nwrite q - nread q = 512" by (auto simp: algebra_simps)
  then show ?thesis by (simp add: pipe_full_def pipe_elems_def word_unat_eq_iff)
qed

lemma pipe_put_elems:
  assumes "pipe_ok q" "\<not> pipe_full q"
  shows "pipe_elems (pipe_put b q) = pipe_elems q @ [b]"
proof -
  have "unat (nwrite q - nread q) < 512" using assms pipe_full_length [OF assms(1)] by (simp add: pipe_ok_def pipe_elems_def)
  with assms(1) show ?thesis by (simp add: pipe_put_def pipe_elems_def pipe_ok_def pr.put)
qed

lemma pipe_put_ok: "pipe_ok q \<Longrightarrow> \<not> pipe_full q \<Longrightarrow> pipe_ok (pipe_put b q)"
  using pipe_put_elems [of q b] pipe_full_length [of q] unfolding pipe_ok_def
  by (auto simp: pipe_put_def pipe_elems_def dest!: arg_cong [of _ _ length])

lemma pipe_get_elems: "\<not> pipe_empty q \<Longrightarrow> pipe_elems q = fst (pipe_get q) # pipe_elems (snd (pipe_get q))"
  using pr.get [of "nwrite q" "nread q" "pdata q"] by (auto simp: pipe_empty_def pipe_get_def pipe_elems_def)

lemma pipe_get_ok: "pipe_ok q \<Longrightarrow> \<not> pipe_empty q \<Longrightarrow> pipe_ok (snd (pipe_get q))"
  using pipe_get_elems [of q] unfolding pipe_ok_def
  by (auto simp: pipe_get_def pipe_elems_def dest!: arg_cong [of _ _ length])

lemma pipe_empty_elems: "pipe_empty q \<longleftrightarrow> pipe_elems q = []"
proof -
  have "pipe_elems q = [] \<longleftrightarrow> unat (nwrite q - nread q) = 0"
    by (simp add: pipe_elems_def flip: length_0_conv)
  then show ?thesis by (auto simp: pipe_empty_def unat_eq_0)
qed

lemma pipe_bound: "pipe_ok q \<Longrightarrow> length (pipe_elems q) \<le> 512"
  by (simp add: pipe_ok_def pipe_elems_def)

interpretation pipe_queue: bounded_queue pipe_ok pipe_elems 512 pipe_full pipe_empty pipe_put pipe_get
  by (unfold_locales; rule pipe_full_length pipe_empty_elems pipe_bound pipe_put_ok pipe_put_elems
      pipe_get_ok pipe_get_elems; assumption?)

subsection \<open>One call\<close>

lemma set_pipe_simps [simp]:
  "pipe (set_pipe pi q s) = (pipe s)(pi := q)" "mem (set_pipe pi q s) = mem s" "proc (set_pipe pi q s) = proc s"
  "held (set_pipe pi q s) = held s" "myproc (set_pipe pi q s) = myproc s"
  by (simp_all add: set_pipe_def myproc_def)

text \<open>A thread in a pipe operation: it holds the pipe's lock and no other.\<close>

definition in_pipe :: "u64 \<Rightarrow> nat \<Rightarrow> 'a pipes_scheme \<Rightarrow> bool" where
  "in_pipe pi p s \<longleftrightarrow> held s = {PipeLock pi} \<and> myproc s = Some p \<and> pipe_ok (pipe s pi)"

lemma wakeup_woken: "in_pipe pi p s \<Longrightarrow> wakeup c s = Inr (s\<lparr>proc := woken c (proc s)\<rparr>)"
  by (rule wakeup_eq) (simp add: in_pipe_def)

lemma pipe_done_eq:
  "in_pipe pi p s \<Longrightarrow> pipe_done c pi i s = Inr (Done i, s\<lparr>proc := woken c (proc s), held := {}\<rparr>)"
  by (simp add: pipe_done_def wakeup_woken) (simp add: in_pipe_def lock_defs)

lemma sleep_in_pipe:
  "in_pipe pi p s \<Longrightarrow> sleep c (PipeLock pi) s =
     Inr (upd_proc p (\<lambda>q. q\<lparr>pchan := c, pstate := SLEEPING\<rparr>) (s\<lparr>held := {ProcLock p}\<rparr>))"
  by (simp add: in_pipe_def sleep_def sched_def lock_defs insert_Diff_if)

lemma in_pipe_woken: "in_pipe pi p s \<Longrightarrow> in_pipe pi p (s\<lparr>proc := woken c (proc s)\<rparr>)"
  by (simp add: in_pipe_def myproc_def)

text \<open>
  How a call of \<^verbatim>\<open>pipewrite\<close> ends after it wrote up to byte \<open>j\<close>: all bytes written or
  the next byte not readable; the pipe full with no reader left or the writer killed; or asleep on
  the full pipe.
\<close>

definition write_end :: "u64 \<Rightarrow> nat \<Rightarrow> (u64 \<Rightarrow> u8 option) \<Rightarrow> u64 \<Rightarrow> int \<Rightarrow> int \<Rightarrow> progress \<Rightarrow>
    'a pipes_scheme \<Rightarrow> bool" where
  "write_end pi p U addr n j r u \<longleftrightarrow>
     (case r of
        Done m \<Rightarrow> held u = {} \<and> (m = j \<and> (j = n \<or> U (addr + of_int j) = None) \<or>
          m = - 1 \<and> j < n \<and> pipe_full (pipe u pi) \<and> (\<not> readopen (pipe u pi) \<or> killed (proc u p) \<noteq> 0))
      | Asleep m \<Rightarrow> m = j \<and> j < n \<and> pipe_full (pipe u pi) \<and> readopen (pipe u pi) \<and> killed (proc u p) = 0 \<and>
          held u = {ProcLock p} \<and> pstate (proc u p) = SLEEPING \<and> pchan (proc u p) = ChPipeWrite pi \<and>
          (\<forall>q<NPROC. \<not> (pstate (proc u q) = SLEEPING \<and> pchan (proc u q) = ChPipeRead pi)))"

lemma copyin_byte:
  assumes "pt_wf (mem s) r"
  shows "copyin r va 1 s = (case uspace (mem s) r va of None \<Rightarrow> Inr (- 1, []) | Some b \<Rightarrow> Inr (0, [b]))"
  using copyin_eq [OF assms, of va 1] by (simp split: option.split)

lemma wake_simps [simp]: "killed (wake c q) = killed q" "pagetable (wake c q) = pagetable q"
  by (simp_all add: wake_def)

lemma woken_simps [simp]: "killed (woken c f p) = killed (f p)" "pagetable (woken c f p) = pagetable (f p)"
  by (simp_all add: woken_def)

lemma woken_none: "q < NPROC \<Longrightarrow> \<not> (pstate (woken c f q) = SLEEPING \<and> pchan (woken c f q) = c)"
  by (auto simp: woken_def wake_def)

lemma pipewrite_loop_ok:
  assumes "in_pipe pi p s" "pt_wf (mem s) (pagetable (proc s p))" "i \<le> n" "U = uspace (mem s) (pagetable (proc s p))"
  shows "\<exists>r u j. pipewrite_loop pi addr n i s = Inr (r, u) \<and> i \<le> j \<and> j \<le> n \<and> pipe_ok (pipe u pi) \<and>
    nread (pipe u pi) = nread (pipe s pi) \<and> mem u = mem s \<and> length (uread U (addr + of_int i) (nat (j - i))) = nat (j - i) \<and>
    pipe_elems (pipe u pi) = pipe_elems (pipe s pi) @ uread U (addr + of_int i) (nat (j - i)) \<and>
    write_end pi p U addr n j r u"
  using assms
proof (induction "nat (n - i)" arbitrary: i s)
  case 0
  let ?stopped = "\<lambda>s. s\<lparr>proc := woken (ChPipeRead pi) (proc s), held := {}\<rparr>"
  have "i = n" using 0 by simp
  with 0 pipe_done_eq [OF 0(2)] show ?case
    by (intro exI [of _ "Done i"] exI [of _ "?stopped s"] exI [of _ i])
      (auto simp: pipewrite_loop.simps [of pi addr n n s] write_end_def in_pipe_def)
next
  case (Suc k)
  let ?stopped = "\<lambda>s. s\<lparr>proc := woken (ChPipeRead pi) (proc s), held := {}\<rparr>"
  have lt: "i < n" using Suc.hyps(2) by simp
  note I = Suc.prems(1) and me = Suc.prems(1) [unfolded in_pipe_def]
  show ?case
  proof (cases "pipe_full (pipe s pi)")
    case True
    show ?thesis
    proof (cases "\<not> readopen (pipe s pi) \<or> killed (proc s p) \<noteq> 0")
      case True
      with lt \<open>pipe_full (pipe s pi)\<close> me show ?thesis
        by (intro exI [of _ "Done (- 1)"] exI [of _ "s\<lparr>held := {}\<rparr>"] exI [of _ i])
          (auto simp: pipewrite_loop.simps [of pi addr n i s] write_end_def lock_defs)
    next
      case False
      let ?t = "s\<lparr>proc := woken (ChPipeRead pi) (proc s)\<rparr>"
      let ?u = "upd_proc p (\<lambda>q. q\<lparr>pchan := ChPipeWrite pi, pstate := SLEEPING\<rparr>) (?t\<lparr>held := {ProcLock p}\<rparr>)"
      have "pipewrite_loop pi addr n i s = Inr (Asleep i, ?u)"
        using lt True False me wakeup_woken [OF I] sleep_in_pipe [OF in_pipe_woken [OF I]]
        by (simp add: pipewrite_loop.simps [of pi addr n i s])
      moreover have "write_end pi p U addr n i (Asleep i) ?u"
        using lt True False woken_none [of _ "ChPipeRead pi" "proc s"] by (auto simp: write_end_def upd_proc_def)
      ultimately show ?thesis
        using lt me by (intro exI [of _ "Asleep i"] exI [of _ ?u] exI [of _ i]) (simp add: upd_proc_def)
    qed
  next
    case False
    note cb = copyin_byte [OF Suc.prems(2), of "addr + of_int i", folded Suc.prems(4)]
    show ?thesis
    proof (cases "U (addr + of_int i)")
      case None
      with lt False me cb pipe_done_eq [OF I] show ?thesis
        by (intro exI [of _ "Done i"] exI [of _ "?stopped s"] exI [of _ i])
          (auto simp: pipewrite_loop.simps [of pi addr n i s] write_end_def)
    next
      case (Some b)
      let ?s = "set_pipe pi (pipe_put b (pipe s pi)) s"
      have step: "pipewrite_loop pi addr n i s = pipewrite_loop pi addr n (i + 1) ?s"
        using lt False me cb Some by (simp add: pipewrite_loop.simps [of pi addr n i s])
      have k: "k = nat (n - (i + 1))" using Suc.hyps(2) by linarith
      have "in_pipe pi p ?s" using me False by (simp add: in_pipe_def pipe_put_ok)
      then obtain r u j where r: "pipewrite_loop pi addr n (i + 1) ?s = Inr (r, u)" "i + 1 \<le> j" "j \<le> n"
        "pipe_ok (pipe u pi)" "nread (pipe u pi) = nread (pipe s pi)" "mem u = mem s"
        "length (uread U (addr + of_int (i + 1)) (nat (j - (i + 1)))) = nat (j - (i + 1))"
        "pipe_elems (pipe u pi) = pipe_elems (pipe ?s pi) @ uread U (addr + of_int (i + 1)) (nat (j - (i + 1)))"
        "write_end pi p U addr n j r u"
        using Suc.hyps(1) [of "i + 1" ?s] k Suc.prems lt by (auto simp: pipe_put_def)
      have "nat (j - i) = Suc (nat (j - (i + 1)))" using r(2) by simp
      then have "uread U (addr + of_int i) (nat (j - i)) = b # uread U (addr + of_int (i + 1)) (nat (j - (i + 1)))"
        using Some by (simp add: ac_simps)
      with r me False show ?thesis
        unfolding step by (intro exI [of _ r] exI [of _ u] exI [of _ j]) (simp add: pipe_put_elems)
    qed
  qed
qed

lemma copyout_byte:
  assumes "as_wf (mem s) r"
  shows "\<exists>m. let t = s\<lparr>mem := m\<rparr> in as_wf m r \<and>
    (case uspace (mem s) r va of
       None \<Rightarrow> copyout r va [b] 1 s = Inr (- 1, t) \<and> uspace m r = uspace (mem s) r
     | Some _ \<Rightarrow> copyout r va [b] 1 s = Inr (0, t) \<and> uspace m r = uwrite (uspace (mem s) r) va [b])"
proof -
  from copyout_eq [OF assms, of 1 "[b]" va] obtain s' where
    c: "copyout r va [b] 1 s = Inr (if length (uread (uspace (mem s) r) va 1) = 1 then 0 else - 1, s')"
      "copied r s s'" "uspace (mem s') r =
        uwrite (uspace (mem s) r) va (take (length (uread (uspace (mem s) r) va 1)) [b])"
    by auto
  obtain m where "s' = s\<lparr>mem := m\<rparr>" "as_wf (mem s') r" using c(2) by (auto simp: copied_def)
  with c(1,3) show ?thesis by (intro exI [of _ m]) (auto simp: Let_def split: option.split)
qed

definition read_end :: "u64 \<Rightarrow> (u64 \<Rightarrow> u8 option) \<Rightarrow> u64 \<Rightarrow> int \<Rightarrow> int \<Rightarrow> u8 list \<Rightarrow> 'a pipes_scheme \<Rightarrow> bool" where
  "read_end pi U addr n m lost u \<longleftrightarrow>
     lost = [] \<and> (m = n \<or> pipe_elems (pipe u pi) = []) \<or> length lost = 1 \<and> m < n \<and> U (addr + of_int m) = None"

lemma piperead_copy_ok:
  assumes "in_pipe pi p s" "r = pagetable (proc s p)" "as_wf (mem s) r" "i \<le> n"
  shows "\<exists>m u bs lost. piperead_copy pi addr n i s = Inr (Done m, u) \<and> m = i + int (length bs) \<and> m \<le> n \<and>
    pipe_elems (pipe s pi) = bs @ lost @ pipe_elems (pipe u pi) \<and> pipe_ok (pipe u pi) \<and> held u = {} \<and>
    as_wf (mem u) r \<and> uspace (mem u) r = uwrite (uspace (mem s) r) (addr + of_int i) bs \<and>
    read_end pi (uspace (mem s) r) addr n m lost u \<and> proc u = woken (ChPipeWrite pi) (proc s)"
  using assms
proof (induction "nat (n - i)" arbitrary: i s)
  case 0
  let ?stopped = "s\<lparr>proc := woken (ChPipeWrite pi) (proc s), held := {}\<rparr>"
  have "i = n" using 0 by simp
  with 0 pipe_done_eq [OF 0(2)] show ?case
    by (intro exI [of _ i] exI [of _ ?stopped] exI [of _ "[]"])
      (auto simp: piperead_copy.simps [of pi addr n n s] read_end_def in_pipe_def)
next
  case (Suc k)
  let ?stopped = "\<lambda>s. s\<lparr>proc := woken (ChPipeWrite pi) (proc s), held := {}\<rparr>"
  have lt: "i < n" using Suc.hyps(2) by simp
  note I = Suc.prems(1) and me = Suc.prems(1) [unfolded in_pipe_def]
  show ?case
  proof (cases "pipe_empty (pipe s pi)")
    case True
    with Suc.prems lt me pipe_done_eq [OF I] show ?thesis
      by (intro exI [of _ i] exI [of _ "?stopped s"] exI [of _ "[]"])
        (auto simp: piperead_copy.simps [of pi addr n i s] read_end_def pipe_empty_elems)
  next
    case False
    obtain b q where g: "pipe_get (pipe s pi) = (b, q)" by fastforce
    have q: "pipe_ok q" "pipe_elems (pipe s pi) = b # pipe_elems q"
      using pipe_get_ok [of "pipe s pi"] pipe_get_elems [OF False] g me False by auto
    let ?s = "set_pipe pi q s"
    obtain m' where c: "as_wf m' r" "case uspace (mem s) r (addr + of_int i) of
        None \<Rightarrow> copyout r (addr + of_int i) [b] 1 ?s = Inr (- 1, ?s\<lparr>mem := m'\<rparr>) \<and> uspace m' r = uspace (mem s) r
      | Some _ \<Rightarrow> copyout r (addr + of_int i) [b] 1 ?s = Inr (0, ?s\<lparr>mem := m'\<rparr>) \<and>
          uspace m' r = uwrite (uspace (mem s) r) (addr + of_int i) [b]"
      using copyout_byte [of ?s r "addr + of_int i" b, unfolded set_pipe_simps Let_def, OF Suc.prems(3)] by blast
    let ?t = "?s\<lparr>mem := m'\<rparr>"
    have It: "in_pipe pi p ?t" using me q(1) by (simp add: in_pipe_def myproc_def set_pipe_def)
    have mp: "the (myproc s) = p" using me by simp
    show ?thesis
    proof (cases "uspace (mem s) r (addr + of_int i)")
      case None
      have "piperead_copy pi addr n i s = Inr (Done i, ?stopped ?t)"
        using lt False g c(2) None mp Suc.prems(2) pipe_done_eq [OF It]
        by (simp add: piperead_copy.simps [of pi addr n i s])
      then show ?thesis
        using c None q lt
        by (intro exI [of _ i] exI [of _ "?stopped ?t"] exI [of _ "[]"] exI [of _ "[b]"]) (simp add: read_end_def)
    next
      case (Some x)
      have step: "piperead_copy pi addr n i s = piperead_copy pi addr n (i + 1) ?t"
        using lt False g c(2) Some mp Suc.prems(2) by (simp add: piperead_copy.simps [of pi addr n i s])
      have k: "k = nat (n - (i + 1))" using Suc.hyps(2) by linarith
      from Suc.hyps(1) [OF k It _ _ _] obtain m u bs lost where
        r: "piperead_copy pi addr n (i + 1) ?t = Inr (Done m, u)" "m = i + 1 + int (length bs)" "m \<le> n"
        "pipe_elems q = bs @ lost @ pipe_elems (pipe u pi)" "pipe_ok (pipe u pi)" "held u = {}" "as_wf (mem u) r"
        "uspace (mem u) r = uwrite (uspace m' r) (addr + of_int (i + 1)) bs"
        "read_end pi (uspace m' r) addr n m lost u" "proc u = woken (ChPipeWrite pi) (proc s)"
        using Suc.prems(2) c(1) lt by auto
      have u: "uspace m' r = uwrite (uspace (mem s) r) (addr + of_int i) [b]" using c(2) Some by simp
      have "length (b # bs) \<le> 512" using pipe_bound [of "pipe s pi"] me q(2) r(4) by simp
      then have "uspace (mem u) r = uwrite (uspace (mem s) r) (addr + of_int i) (b # bs)"
        using uwrite_append [of "[b]" bs "uspace (mem s) r" "addr + of_int i"] r(8) u by (simp add: ac_simps)
      moreover have "read_end pi (uspace (mem s) r) addr n m lost u"
        using r(9) unfolding u by (auto simp: read_end_def uwrite_def split: if_splits)
      ultimately show ?thesis
        unfolding step using r q(2)
        by (intro exI [of _ m] exI [of _ u] exI [of _ "b # bs"] exI [of _ lost]) simp
    qed
  qed
qed

subsection \<open>Properties\<close>

text \<open>
  The history of a pipe under calls of any processes in any order, each going on from where it
  slept or from the start: the bytes the writers had in their memory at the places the write counter
  says were written, and the bytes in the readers' memory after reads into memory they may use.
\<close>

inductive pipe_history :: "u64 \<Rightarrow> pipe \<Rightarrow> u8 list \<Rightarrow> u8 list \<Rightarrow> pipe \<Rightarrow> bool" for pi q where
  start: "pipe_history pi q [] [] q"
| wrote: "pipe_history pi q ws rs (pipe s pi) \<Longrightarrow> in_pipe pi p s \<Longrightarrow> pt_wf (mem s) (pagetable (proc s p)) \<Longrightarrow>
    i \<le> n \<Longrightarrow> pipewrite_loop pi addr n i (s :: pipes) = Inr (r, u) \<Longrightarrow>
    bs = uread (uspace (mem s) (pagetable (proc s p))) (addr + of_int i)
      (unat (nwrite (pipe u pi) - nwrite (pipe s pi))) \<Longrightarrow>
    pipe_history pi q (ws @ bs) rs (pipe u pi)"
| took: "pipe_history pi q ws rs (pipe s pi) \<Longrightarrow> in_pipe pi p s \<Longrightarrow> as_wf (mem s) (pagetable (proc s p)) \<Longrightarrow>
    0 \<le> n \<Longrightarrow> \<forall>k. 0 \<le> k \<longrightarrow> k < n \<longrightarrow> uspace (mem s) (pagetable (proc s p)) (addr + of_int k) \<noteq> None \<Longrightarrow>
    piperead_copy pi addr n 0 (s :: pipes) = Inr (Done m, u) \<Longrightarrow>
    bs = uread (uspace (mem u) (pagetable (proc s p))) addr (nat m) \<Longrightarrow>
    pipe_history pi q ws (rs @ bs) (pipe u pi)"
| closed: "pipe_history pi q ws rs q' \<Longrightarrow>
    pipe_history pi q ws rs (q'\<lparr>readopen := ro, writeopen := wo\<rparr>)"

lemma unat_diff_eq: "unat (x :: u32) = unat y + l \<Longrightarrow> unat (x - y) = l"
  by (simp add: unat_sub word_le_nat_alt)

lemma pipe_written:
  assumes "pipe_ok q" "pipe_ok q'" "nread q' = nread q" "pipe_elems q' = pipe_elems q @ bs"
  shows "unat (nwrite q' - nwrite q) = length bs"
proof -
  have "unat (nwrite q' - nread q) = unat (nwrite q - nread q) + length bs"
    using arg_cong [OF assms(4), of length] assms(3) by (simp add: pipe_elems_def)
  from unat_diff_eq [OF this] show ?thesis by (simp add: algebra_simps)
qed

text \<open>
  C19. A pipe is a first-in-first-out byte stream. Whatever readers and writers do, however their
  calls are cut into pieces by sleeping, and however often the 32-bit counters wrap around: the bytes
  read so far followed by the bytes in the buffer are the bytes that were there at the start followed
  by the bytes written, in order, none lost and none twice.
\<close>

theorem pipe_fifo:
  assumes "pipe_history pi q ws rs q'" "pipe_ok q"
  shows "pipe_ok q' \<and> rs @ pipe_elems q' = pipe_elems q @ ws"
  using assms(1)
proof induction
  case start
  then show ?case using assms(2) by simp
next
  case (wrote ws rs s p i n addr r u bs)
  let ?U = "uspace (mem s) (pagetable (proc s p))"
  obtain j where j: "pipe_ok (pipe u pi)" "nread (pipe u pi) = nread (pipe s pi)"
    "length (uread ?U (addr + of_int i) (nat (j - i))) = nat (j - i)"
    "pipe_elems (pipe u pi) = pipe_elems (pipe s pi) @ uread ?U (addr + of_int i) (nat (j - i))"
    using pipewrite_loop_ok [OF wrote.hyps(2-4) refl, of addr] wrote.hyps(5) by auto
  have "unat (nwrite (pipe u pi) - nwrite (pipe s pi)) = nat (j - i)"
    using pipe_written [OF _ j(1,2,4)] wrote.IH j(3) by simp
  with j wrote.IH wrote.hyps(6) show ?case by simp
next
  case (took ws rs s p n addr m u bs)
  let ?r = "pagetable (proc s p)"
  obtain bs' lost where b: "m = int (length bs')" "m \<le> n"
    "pipe_elems (pipe s pi) = bs' @ lost @ pipe_elems (pipe u pi)" "pipe_ok (pipe u pi)"
    "uspace (mem u) ?r = uwrite (uspace (mem s) ?r) addr bs'" "read_end pi (uspace (mem s) ?r) addr n m lost u"
    using piperead_copy_ok [OF took.hyps(2) refl took.hyps(3,4), of addr] took.hyps(6) by auto
  have "lost = []" using b(6) took.hyps(5) [rule_format, of m] b(1) by (auto simp: read_end_def)
  moreover have "length bs' \<le> 512" using pipe_bound [of "pipe s pi"] took.IH b(3) by simp
  then have "bs = bs'" using took.hyps(7) b(1,5) by (simp add: uread_uwrite)
  ultimately show ?case using took.IH b(3,4) by simp
next
  case (closed ws rs q' ro wo)
  then show ?case by (simp add: pipe_ok_def pipe_elems_def)
qed

text \<open>A process with one page of memory that writes to a new pipe.\<close>

definition new_pipe :: pipe where
  "new_pipe = \<lparr>pdata = replicate 512 5, nread = 0, nwrite = 0, readopen = True, writeopen = True\<rparr>"

definition pipe_sample :: pipes where
  "pipe_sample = \<lparr>held = {PipeLock 0x87ff0000}, kend = kend one_page, mem = mem one_page,
     freelist = freelist one_page, kernel_pagetable = 0, etext = 0, trampoline = 0,
     proc = (\<lambda>_. empty_proc)(0 := empty_proc\<lparr>pstate := RUNNING, pid := 1, pagetable := 0x87ffe000\<rparr>),
     me = Some 0, initproc = Some 0, nextpid = 2, forkret_pc = 0, ticks = 0, pipe = (\<lambda>_. new_pipe)\<rparr>"

lemma new_pipe_ok: "pipe_ok new_pipe"
  by (simp add: pipe_ok_def new_pipe_def)

lemma pipe_sample_facts:
  "in_pipe 0x87ff0000 0 pipe_sample" "pipe pipe_sample 0x87ff0000 = new_pipe"
  "pagetable (proc pipe_sample 0) = 0x87ffe000" "mem pipe_sample = mem one_page"
  using new_pipe_ok by (simp_all add: in_pipe_def pipe_sample_def myproc_def)

theorem pipe_fifo_witness:
  "\<exists>ws q'. pipe_history 0x87ff0000 new_pipe ws [] q' \<and> pipe_ok q' \<and> [] @ pipe_elems q' = pipe_elems new_pipe @ ws"
proof -
  let ?pi = "0x87ff0000 :: u64" and ?U = "uspace (mem pipe_sample) (pagetable (proc pipe_sample 0))"
  have wf: "pt_wf (mem pipe_sample) (pagetable (proc pipe_sample 0))"
    using one_page_as_wf by (simp add: pipe_sample_facts as_wf_def)
  obtain r u where w: "pipewrite_loop ?pi 4000 3 0 pipe_sample = Inr (r, u)"
    using pipewrite_loop_ok [OF pipe_sample_facts(1) wf, of 0 3 ?U 4000] by auto
  have h: "pipe_history ?pi new_pipe [] [] (pipe pipe_sample ?pi)"
    unfolding pipe_sample_facts(2) by (rule start)
  have "(0 :: int) \<le> 3" by simp
  from wrote [OF h pipe_sample_facts(1) wf this w refl]
  have "\<exists>ws. pipe_history ?pi new_pipe ws [] (pipe u ?pi)" by blast
  then show ?thesis using pipe_fifo new_pipe_ok by blast
qed

lemma if_boolI: "(c \<Longrightarrow> A) \<Longrightarrow> (\<not> c \<Longrightarrow> B) \<Longrightarrow> if c then A else B"
  by simp

text \<open>
  C32. A call of \<^verbatim>\<open>piperead\<close>. On an empty pipe that may still be written, a killed reader returns -1 with nothing changed, and
  any other goes to sleep on the read end, holding only its own lock, with the pipe untouched. Otherwise the call returns the number of bytes
  it stored, at most as many as asked for: they are the oldest bytes of the pipe and are now in the reader's memory, with
  nothing else there changed, the pipe's lock is free again, and every writer that slept on the pipe is awake. It stops
  early only when the pipe is empty or the next address is not usable; in that last case the byte taken from the pipe for
  that address is gone. A reader that is woken does the same again from the start.
\<close>

theorem piperead_takes_front:
  fixes s :: "'a pipes_scheme"
  assumes "held s = {}" "myproc s = Some p" "pipe_ok (pipe s pi)" "as_wf (mem s) (pagetable (proc s p))" "0 \<le> n"
  shows "(if pipe_elems (pipe s pi) = [] \<and> writeopen (pipe s pi)
     then piperead pi addr n s =
       (if killed (proc s p) \<noteq> 0 then Inr (Done (- 1), s)
        else Inr (Asleep 0, upd_proc p (\<lambda>q. q\<lparr>pchan := ChPipeRead pi, pstate := SLEEPING\<rparr>) (s\<lparr>held := {ProcLock p}\<rparr>)))
     else \<exists>m u bs lost. piperead pi addr n s = Inr (Done m, u) \<and> m = int (length bs) \<and> m \<le> n \<and> held u = {} \<and>
       pipe_elems (pipe s pi) = bs @ lost @ pipe_elems (pipe u pi) \<and>
       uspace (mem u) (pagetable (proc s p)) = uwrite (uspace (mem s) (pagetable (proc s p))) addr bs \<and>
       (lost = [] \<and> (m = n \<or> pipe_elems (pipe u pi) = []) \<or>
        length lost = 1 \<and> m < n \<and> uspace (mem s) (pagetable (proc s p)) (addr + of_int m) = None) \<and>
       (\<forall>q<NPROC. \<not> (pstate (proc u q) = SLEEPING \<and> pchan (proc u q) = ChPipeWrite pi))) \<and>
    piperead_return pi addr n (s\<lparr>held := {ProcLock p}\<rparr>) = piperead pi addr n (upd_proc p (pchan_update (\<lambda>_. NoChan)) s)"
proof -
  let ?s = "s\<lparr>held := {PipeLock pi}\<rparr>"
  have me: "the (me s) = p" "me s = Some p" using assms(2) by (simp_all add: myproc_def)
  have e: "s\<lparr>held := {}\<rparr> = s" using assms(1) by simp
  have I: "in_pipe pi p ?s" using assms(2,3) by (simp add: in_pipe_def myproc_def)
  have entry: "piperead pi addr n s = piperead_wait pi addr n ?s" using assms(1) by (simp add: piperead_def lock_defs)
  have k: "killed (cur ?s) = killed (proc s p)" by (simp add: myproc_def me)
  have ret: "piperead_return pi addr n (s\<lparr>held := {ProcLock p}\<rparr>) = piperead pi addr n (upd_proc p (pchan_update (\<lambda>_. NoChan)) s)"
    using me assms(1) by (simp add: piperead_return_def piperead_def sleep_return_def lock_defs myproc_def Let_def upd_proc_def)
  have wait: "piperead pi addr n s =
      (if killed (proc s p) \<noteq> 0 then Inr (Done (- 1), s)
       else Inr (Asleep 0, upd_proc p (\<lambda>q. q\<lparr>pchan := ChPipeRead pi, pstate := SLEEPING\<rparr>) (s\<lparr>held := {ProcLock p}\<rparr>)))"
    if "pipe_elems (pipe s pi) = [] \<and> writeopen (pipe s pi)"
    using that sleep_in_pipe [OF I, of "ChPipeRead pi"] k e
    by (simp add: entry piperead_wait_def pipe_empty_elems lock_defs)
  have copy: "\<exists>m u bs lost. piperead pi addr n s = Inr (Done m, u) \<and> m = int (length bs) \<and> m \<le> n \<and> held u = {} \<and>
       pipe_elems (pipe s pi) = bs @ lost @ pipe_elems (pipe u pi) \<and>
       uspace (mem u) (pagetable (proc s p)) = uwrite (uspace (mem s) (pagetable (proc s p))) addr bs \<and>
       (lost = [] \<and> (m = n \<or> pipe_elems (pipe u pi) = []) \<or>
        length lost = 1 \<and> m < n \<and> uspace (mem s) (pagetable (proc s p)) (addr + of_int m) = None) \<and>
       (\<forall>q<NPROC. \<not> (pstate (proc u q) = SLEEPING \<and> pchan (proc u q) = ChPipeWrite pi))"
    if "\<not> (pipe_elems (pipe s pi) = [] \<and> writeopen (pipe s pi))"
  proof -
    have "piperead pi addr n s = piperead_copy pi addr n 0 ?s"
      using that by (auto simp: entry piperead_wait_def pipe_empty_elems)
    moreover obtain m u bs lost where c: "piperead_copy pi addr n 0 ?s = Inr (Done m, u)" "m = int (length bs)" "m \<le> n"
      "held u = {}" "pipe_elems (pipe s pi) = bs @ lost @ pipe_elems (pipe u pi)"
      "uspace (mem u) (pagetable (proc s p)) = uwrite (uspace (mem s) (pagetable (proc s p))) addr bs"
      "read_end pi (uspace (mem s) (pagetable (proc s p))) addr n m lost u" "proc u = woken (ChPipeWrite pi) (proc s)"
      using piperead_copy_ok [OF I refl, of 0 n addr] assms(4,5) by auto
    ultimately show ?thesis using c(7) woken_none [of _ "ChPipeWrite pi" "proc s"] unfolding read_end_def
      by (intro exI [of _ m] exI [of _ u] exI [of _ bs] exI [of _ lost]) simp
  qed
  show ?thesis by (rule conjI [OF if_boolI [OF wait copy] ret])
qed

text \<open>A reader of a pipe with three bytes in it and a writer asleep.\<close>

definition read_sample :: pipes where
  "read_sample = pipe_sample\<lparr>held := {},
     proc := (proc pipe_sample)(1 := empty_proc\<lparr>pstate := SLEEPING, pid := 2, pchan := ChPipeWrite 0x87ff0000\<rparr>),
     pipe := (\<lambda>_. new_pipe\<lparr>pdata := [97, 98, 99] @ replicate 509 0, nwrite := 3\<rparr>)\<rparr>"

theorem piperead_takes_front_witness:
  "\<exists>u. piperead 0x87ff0000 4000 8 read_sample = Inr (Done 3, u) \<and>
    uspace (mem u) 0x87ffe000 = uwrite (uspace (mem one_page) 0x87ffe000) 4000 [97, 98, 99] \<and>
    pipe_elems (pipe u 0x87ff0000) = [] \<and> \<not> (pstate (proc u 1) = SLEEPING \<and> pchan (proc u 1) = ChPipeWrite 0x87ff0000)"
proof -
  let ?pi = "0x87ff0000 :: u64" and ?U = "uspace (mem one_page) 0x87ffe000"
  have f: "held read_sample = {}" "myproc read_sample = Some 0" "pipe_ok (pipe read_sample ?pi)"
    "mem read_sample = mem one_page" "pagetable (proc read_sample 0) = 0x87ffe000"
    "pipe_elems (pipe read_sample ?pi) = [97, 98, 99]"
    by (simp_all add: read_sample_def pipe_sample_def myproc_def pipe_ok_def new_pipe_def pipe_elems_def ring_def upt_conv_Cons)
  have wf: "as_wf (mem read_sample) (pagetable (proc read_sample 0))" using one_page_as_wf by (simp add: f)
  from piperead_takes_front [OF f(1-3) wf, of 8 4000] obtain m u bs lost where
    r: "piperead ?pi 4000 8 read_sample = Inr (Done m, u)" "m = int (length bs)" "m \<le> 8"
    "[97, 98, 99] = bs @ lost @ pipe_elems (pipe u ?pi)" "uspace (mem u) 0x87ffe000 = uwrite ?U 4000 bs"
    "lost = [] \<and> (m = 8 \<or> pipe_elems (pipe u ?pi) = []) \<or> length lost = 1 \<and> m < 8 \<and> ?U (4000 + of_int m) = None"
    "\<forall>q<NPROC. \<not> (pstate (proc u q) = SLEEPING \<and> pchan (proc u q) = ChPipeWrite ?pi)"
    unfolding f by auto
  have "length bs \<le> 3" using arg_cong [OF r(4), of length] by simp
  then have "(4000 :: u64) + of_int m < 4096" using r(2) by (simp add: word_less_nat_alt unat_word_ariths unat_of_nat_small)
  then have "lost = []" using r(6) one_page_user by blast
  moreover have "m \<noteq> 8" using \<open>length bs \<le> 3\<close> r(2) by simp
  ultimately have "pipe_elems (pipe u ?pi) = []" "bs = [97, 98, 99]" using r(4,6) by auto
  then show ?thesis using r(1,2,5,7) by (simp add: NPROC_def)
qed

end
