(* ===== verification/Uart.thy ===== *)
theory Uart
  imports Pipe
begin

text \<open>
  The UART driver: \<^verbatim>\<open>kernel/uart.c\<close>, but for \<^verbatim>\<open>uartintr\<close>, which
  calls the console and is in \<open>Console\<close>. The device is not code: what it does is the
  list of the values that the next reads of its line status register give, which may be any
  list, the bytes that reads of its receive register give, and the log of the values written to its registers. A
  read beyond the end of a list is outside the run that is looked at.
\<close>

subsection \<open>State and operations\<close>

definition THR :: nat where "THR = 0"
definition IER :: nat where "IER = 1"
definition FCR :: nat where "FCR = 2"
definition LCR :: nat where "LCR = 3"
definition IER_TX_ENABLE :: u8 where "IER_TX_ENABLE = push_bit 0 1"
definition IER_RX_ENABLE :: u8 where "IER_RX_ENABLE = push_bit 1 1"
definition FCR_FIFO_ENABLE :: u8 where "FCR_FIFO_ENABLE = push_bit 0 1"
definition FCR_FIFO_CLEAR :: u8 where "FCR_FIFO_CLEAR = push_bit 1 3"
definition LCR_EIGHT_BITS :: u8 where "LCR_EIGHT_BITS = push_bit 0 3"
definition LCR_BAUD_LATCH :: u8 where "LCR_BAUD_LATCH = push_bit 7 1"
definition LSR_RX_READY :: u8 where "LSR_RX_READY = push_bit 0 1"
definition LSR_TX_IDLE :: u8 where "LSR_TX_IDLE = push_bit 5 1"

record uart = pipes +
  lsr_in :: "u8 list"
  rhr_in :: "u8 list"
  regs_out :: "(nat \<times> u8) list"
  uart_tx_buf :: "u8 list"
  uart_tx_w :: nat
  uart_tx_r :: nat
  panicked :: bool

definition WriteReg :: "nat \<Rightarrow> u8 \<Rightarrow> 'a uart_scheme \<Rightarrow> 'a uart_scheme" where
  "WriteReg reg v s = s\<lparr>regs_out := regs_out s @ [(reg, v)]\<rparr>"

definition uartinit :: "'a uart_scheme \<Rightarrow> 'a uart_scheme" where
  "uartinit s =
     (let s = WriteReg IER 0 s;
          s = WriteReg LCR LCR_BAUD_LATCH s;
          s = WriteReg 0 3 s;
          s = WriteReg 1 0 s;
          s = WriteReg LCR LCR_EIGHT_BITS s;
          s = WriteReg FCR (FCR_FIFO_ENABLE OR FCR_FIFO_CLEAR) s;
          s = WriteReg IER (IER_TX_ENABLE OR IER_RX_ENABLE) s
      in kinitlock UartLock s)"

text \<open>The loop of \<^verbatim>\<open>uartstart\<close>, by the list of the status values still to be read.\<close>

primrec uartstart_loop :: "u8 list \<Rightarrow> 'a uart_scheme \<Rightarrow> 'a uart_scheme res" where
  "uartstart_loop [] s =
     (if uart_tx_w s = uart_tx_r s then Inr (s\<lparr>lsr_in := []\<rparr>) else Inl OutOfFuel)"
| "uartstart_loop (v # vs) s =
     (if uart_tx_w s = uart_tx_r s then Inr (s\<lparr>lsr_in := v # vs\<rparr>)
      else if v AND LSR_TX_IDLE = 0 then Inr (s\<lparr>lsr_in := vs\<rparr>)
      else let c = uart_tx_buf s ! uart_tx_r s in
        bindE (wakeup ChUart (s\<lparr>uart_tx_r := (uart_tx_r s + 1) mod 32\<rparr>)) (\<lambda>s.
          uartstart_loop vs (WriteReg THR c s)))"

definition uartstart :: "'a uart_scheme \<Rightarrow> 'a uart_scheme res" where
  "uartstart s = uartstart_loop (lsr_in s) s"

definition uart_full :: "'a uart_scheme \<Rightarrow> bool" where
  "uart_full s \<longleftrightarrow> (uart_tx_w s + 1) mod 32 = uart_tx_r s"

definition uart_put :: "u8 \<Rightarrow> 'a uart_scheme \<Rightarrow> 'a uart_scheme" where
  "uart_put c s = s\<lparr>uart_tx_buf := (uart_tx_buf s)[uart_tx_w s := c], uart_tx_w := (uart_tx_w s + 1) mod 32\<rparr>"

definition uartputc_loop :: "u8 \<Rightarrow> 'a uart_scheme \<Rightarrow> (unit outcome \<times> 'a uart_scheme) res" where
  "uartputc_loop c s =
     (if uart_full s
      then bindE (sleep ChUart UartLock s) (\<lambda>s. Inr (Blocks, s))
      else bindE (uartstart (uart_put c s)) (\<lambda>s.
        bindE (krelease UartLock s) (\<lambda>s. Inr (Returns (), s))))"

definition uartputc :: "u8 \<Rightarrow> 'a uart_scheme \<Rightarrow> (unit outcome \<times> 'a uart_scheme) res" where
  "uartputc c s = bindE (kacquire UartLock s) (\<lambda>s.
     if panicked s then Inl Spins else uartputc_loop c s)"

definition uartputc_return :: "u8 \<Rightarrow> 'a uart_scheme \<Rightarrow> (unit outcome \<times> 'a uart_scheme) res" where
  "uartputc_return c s = bindE (sleep_return UartLock s) (uartputc_loop c)"

text \<open>
  \<^verbatim>\<open>uartputc_sync\<close> calls \<^verbatim>\<open>push_off\<close> and \<^verbatim>\<open>pop_off\<close> around its loop. Together they
  restore the nesting counter and the interrupt state, by lemma \<open>push_pop_off\<close> of \<open>Spinlock\<close>; the view of one thread
  has only the locks it holds, which they do not change.
\<close>

primrec uart_spin :: "u8 list \<Rightarrow> u8 \<Rightarrow> 'a uart_scheme \<Rightarrow> 'a uart_scheme res" where
  "uart_spin [] c s = Inl OutOfFuel"
| "uart_spin (v # vs) c s =
     (if v AND LSR_TX_IDLE = 0 then uart_spin vs c s else Inr (WriteReg THR c (s\<lparr>lsr_in := vs\<rparr>)))"

definition uartputc_sync :: "u8 \<Rightarrow> 'a uart_scheme \<Rightarrow> 'a uart_scheme res" where
  "uartputc_sync c s = (if panicked s then Inl Spins else uart_spin (lsr_in s) c s)"

definition uartgetc :: "'a uart_scheme \<Rightarrow> (int \<times> 'a uart_scheme) res" where
  "uartgetc s =
     (case lsr_in s of [] \<Rightarrow> Inl OutOfFuel
      | v # vs \<Rightarrow> if v AND 1 \<noteq> 0
          then (case rhr_in s of [] \<Rightarrow> Inl OutOfFuel
                | b # bs \<Rightarrow> Inr (uint b, s\<lparr>lsr_in := vs, rhr_in := bs\<rparr>))
          else Inr (- 1, s\<lparr>lsr_in := vs\<rparr>))"

subsection \<open>The transmit queue\<close>

text \<open>The bytes that register writes send: writes of register 0 outside the mode that sets the baud rate.\<close>

fun sent_bytes :: "bool \<Rightarrow> (nat \<times> u8) list \<Rightarrow> u8 list" where
  "sent_bytes latch [] = []"
| "sent_bytes latch ((reg, v) # ws) =
     (if reg = LCR then sent_bytes (v AND LCR_BAUD_LATCH \<noteq> 0) ws
      else if reg = THR \<and> \<not> latch then v # sent_bytes latch ws else sent_bytes latch ws)"

definition uart_sent :: "'a uart_scheme \<Rightarrow> u8 list" where
  "uart_sent s = sent_bytes False (regs_out s)"

primrec latch_after :: "bool \<Rightarrow> (nat \<times> u8) list \<Rightarrow> bool" where
  "latch_after latch [] = latch"
| "latch_after latch (w # ws) = latch_after (if fst w = LCR then snd w AND LCR_BAUD_LATCH \<noteq> 0 else latch) ws"

definition tx_elems :: "'a uart_scheme \<Rightarrow> u8 list" where
  "tx_elems s = map (\<lambda>k. uart_tx_buf s ! ((uart_tx_r s + k) mod 32))
     [0..<(uart_tx_w s + 32 - uart_tx_r s) mod 32]"

definition uart_ok :: "'a uart_scheme \<Rightarrow> bool" where
  "uart_ok s \<longleftrightarrow> length (uart_tx_buf s) = 32 \<and> uart_tx_w s < 32 \<and> uart_tx_r s < 32 \<and>
     \<not> latch_after False (regs_out s)"

definition uart_empty :: "'a uart_scheme \<Rightarrow> bool" where
  "uart_empty s \<longleftrightarrow> uart_tx_w s = uart_tx_r s"

definition uart_get :: "'a uart_scheme \<Rightarrow> u8 \<times> 'a uart_scheme" where
  "uart_get s = (uart_tx_buf s ! uart_tx_r s, s\<lparr>uart_tx_r := (uart_tx_r s + 1) mod 32\<rparr>)"

lemma mod32_add: "(a :: nat) < 32 \<Longrightarrow> b \<le> 32 \<Longrightarrow> (a + b) mod 32 = (if a + b < 32 then a + b else a + b - 32)"
  by (simp add: mod_if)

lemma tx_dist: "(w :: nat) < 32 \<Longrightarrow> r < 32 \<Longrightarrow> (w + 32 - r) mod 32 = (if r \<le> w then w - r else w + 32 - r)"
  by (auto simp: mod_if)

lemma tx_index:
  fixes w r :: nat
  assumes b: "w < 32" "r < 32"
  shows "(r + (w + 32 - r) mod 32) mod 32 = w"
    "k < (w + 32 - r) mod 32 \<Longrightarrow> (r + k) mod 32 \<noteq> w"
    "(w + 1) mod 32 \<noteq> r \<Longrightarrow> ((w + 1) mod 32 + 32 - r) mod 32 = Suc ((w + 32 - r) mod 32)"
    "(w + 1) mod 32 = r \<longleftrightarrow> (w + 32 - r) mod 32 = 31"
    "w = r \<longleftrightarrow> (w + 32 - r) mod 32 = 0"
    "w \<noteq> r \<Longrightarrow> (w + 32 - r) mod 32 = Suc ((w + 32 - (r + 1) mod 32) mod 32)"
proof -
  have s: "(w + 1) mod 32 < 32" "(r + 1) mod 32 < 32" by simp_all
  have e: "(w + 1) mod 32 = (if w = 31 then 0 else w + 1)" "(r + 1) mod 32 = (if r = 31 then 0 else r + 1)"
    using b by auto
  note d = tx_dist [OF b] tx_dist [OF s(1) b(2)] tx_dist [OF b(1) s(2)]
  show "(r + (w + 32 - r) mod 32) mod 32 = w" unfolding d(1) using b by (auto simp: mod32_add)
  show "k < (w + 32 - r) mod 32 \<Longrightarrow> (r + k) mod 32 \<noteq> w"
    unfolding d(1) using b by (auto simp: mod32_add split: if_splits)
  show "(w + 1) mod 32 \<noteq> r \<Longrightarrow> ((w + 1) mod 32 + 32 - r) mod 32 = Suc ((w + 32 - r) mod 32)"
    unfolding d(1,2) unfolding e using b by (auto split: if_splits)
  show "(w + 1) mod 32 = r \<longleftrightarrow> (w + 32 - r) mod 32 = 31" unfolding d(1) e using b by auto
  show "w = r \<longleftrightarrow> (w + 32 - r) mod 32 = 0" unfolding d(1) using b by auto
  show "w \<noteq> r \<Longrightarrow> (w + 32 - r) mod 32 = Suc ((w + 32 - (r + 1) mod 32) mod 32)"
    unfolding d(1,3) unfolding e using b by (auto split: if_splits)
qed

lemma tx_put:
  assumes "uart_ok s" "\<not> uart_full s"
  shows "uart_ok (uart_put c s)" "tx_elems (uart_put c s) = tx_elems s @ [c]"
proof -
  let ?w = "uart_tx_w s" and ?r = "uart_tx_r s"
  have b: "?w < 32" "?r < 32" "length (uart_tx_buf s) = 32" using assms(1) by (simp_all add: uart_ok_def)
  note x = tx_index [OF b(1,2)]
  have len: "((?w + 1) mod 32 + 32 - ?r) mod 32 = Suc ((?w + 32 - ?r) mod 32)"
    using x(3) assms(2) by (simp add: uart_full_def)
  show "uart_ok (uart_put c s)" using assms(1) by (simp add: uart_ok_def uart_put_def)
  define d where "d = (?w + 32 - ?r) mod 32"
  have "(uart_tx_buf s)[?w := c] ! ((?r + k) mod 32) = (if k = d then c else uart_tx_buf s ! ((?r + k) mod 32))"
    if "k < Suc d" for k
    using that b x(1) x(2) [of k] by (auto simp: d_def nth_list_update)
  then show "tx_elems (uart_put c s) = tx_elems s @ [c]"
    unfolding tx_elems_def uart_put_def using len by (simp add: d_def [symmetric])
qed

lemma tx_get:
  assumes "uart_ok s" "\<not> uart_empty s"
  shows "uart_ok (snd (uart_get s))" "tx_elems s = fst (uart_get s) # tx_elems (snd (uart_get s))"
proof -
  let ?w = "uart_tx_w s" and ?r = "uart_tx_r s"
  have b: "?w < 32" "?r < 32" using assms(1) by (simp_all add: uart_ok_def)
  have len: "(?w + 32 - ?r) mod 32 = Suc ((?w + 32 - (?r + 1) mod 32) mod 32)"
    using tx_index(6) [OF b] assms(2) by (simp add: uart_empty_def)
  show "uart_ok (snd (uart_get s))" using assms(1) by (simp add: uart_ok_def uart_get_def)
  define d where "d = (?w + 32 - (?r + 1) mod 32) mod 32"
  have "((?r + 1) mod 32 + k) mod 32 = (?r + Suc k) mod 32" for k by (simp add: mod_simps)
  then have shift: "map (\<lambda>k. uart_tx_buf s ! ((?r + k) mod 32)) [0..<Suc d] =
      uart_tx_buf s ! ?r # map (\<lambda>k. uart_tx_buf s ! (((?r + 1) mod 32 + k) mod 32)) [0..<d]"
    using b by (simp only: upt_conv_Cons map_Suc_upt [symmetric] list.map map_map) simp
  have "tx_elems (snd (uart_get s)) = map (\<lambda>k. uart_tx_buf s ! (((?r + 1) mod 32 + k) mod 32)) [0..<d]"
    by (simp add: tx_elems_def uart_get_def d_def)
  moreover have "tx_elems s = map (\<lambda>k. uart_tx_buf s ! ((?r + k) mod 32)) [0..<Suc d]"
    by (simp only: tx_elems_def len d_def)
  ultimately show "tx_elems s = fst (uart_get s) # tx_elems (snd (uart_get s))"
    by (simp only: shift) (simp add: uart_get_def)
qed

lemma tx_length:
  "uart_ok s \<Longrightarrow> uart_full s \<longleftrightarrow> length (tx_elems s) = 31" "uart_ok s \<Longrightarrow> uart_empty s \<longleftrightarrow> tx_elems s = []"
  "uart_ok s \<Longrightarrow> length (tx_elems s) \<le> 31"
proof -
  assume "uart_ok s"
  then have b: "uart_tx_w s < 32" "uart_tx_r s < 32" by (simp_all add: uart_ok_def)
  show "uart_full s \<longleftrightarrow> length (tx_elems s) = 31"
    using tx_index(4) [OF b] by (simp add: uart_full_def tx_elems_def)
  show "uart_empty s \<longleftrightarrow> tx_elems s = []"
    using tx_index(5) [OF b] by (simp add: uart_empty_def tx_elems_def)
  show "length (tx_elems s) \<le> 31" by (simp add: tx_elems_def less_Suc_eq_le [symmetric])
qed

interpretation uart_queue: bounded_queue uart_ok tx_elems 31 uart_full uart_empty uart_put uart_get
  by (unfold_locales; rule tx_length tx_put tx_get; assumption?)

lemma sent_append:
  "sent_bytes l (xs @ [w]) = sent_bytes l xs @
     (if fst w = THR \<and> \<not> latch_after l xs then [snd w] else [])"
proof (induction l xs rule: sent_bytes.induct)
  case (1 l)
  show ?case by (cases w) (auto simp: THR_def LCR_def)
qed (auto simp: THR_def LCR_def)

lemma latch_append: "latch_after l (xs @ ws) = latch_after (latch_after l xs) ws"
  by (induction xs arbitrary: l) auto

lemma WriteReg_THR:
  assumes "uart_ok s"
  shows "uart_ok (WriteReg THR c s)" "uart_sent (WriteReg THR c s) = uart_sent s @ [c]"
    "tx_elems (WriteReg THR c s) = tx_elems s"
  using assms by (auto simp: uart_ok_def WriteReg_def uart_sent_def sent_append latch_append tx_elems_def THR_def LCR_def)

lemma uart_proc_simps [simp]:
  "uart_ok (s\<lparr>proc := f\<rparr>) = uart_ok s" "tx_elems (s\<lparr>proc := f\<rparr>) = tx_elems s" "uart_sent (s\<lparr>proc := f\<rparr>) = uart_sent s"
  "uart_ok (s\<lparr>lsr_in := l\<rparr>) = uart_ok s" "tx_elems (s\<lparr>lsr_in := l\<rparr>) = tx_elems s" "uart_sent (s\<lparr>lsr_in := l\<rparr>) = uart_sent s"
  "uart_ok (s\<lparr>held := h\<rparr>) = uart_ok s" "tx_elems (s\<lparr>held := h\<rparr>) = tx_elems s" "uart_sent (s\<lparr>held := h\<rparr>) = uart_sent s"
  by (simp_all add: uart_ok_def tx_elems_def uart_sent_def)

lemma uartstart_loop_ok:
  assumes "uart_ok s" "\<forall>p<NPROC. ProcLock p \<notin> held s" "length (tx_elems s) \<le> length vs"
  shows "\<exists>u. uartstart_loop vs s = Inr u \<and> uart_ok u \<and> held u = held s \<and> panicked u = panicked s \<and>
    uart_sent u @ tx_elems u = uart_sent s @ tx_elems s"
  using assms
proof (induction vs arbitrary: s)
  case Nil
  then show ?case using tx_length(2) [of s] by (simp add: uart_empty_def)
next
  case (Cons v vs)
  show ?case
  proof (cases "uart_empty s \<or> v AND LSR_TX_IDLE = 0")
    case True
    then show ?thesis using Cons.prems by (auto simp: uart_empty_def)
  next
    case False
    define g where "g = snd (uart_get s)"
    define t where "t = WriteReg THR (fst (uart_get s)) (g\<lparr>proc := woken ChUart (proc g)\<rparr>)"
    have g: "uart_ok g" "tx_elems s = fst (uart_get s) # tx_elems g" "held g = held s" "uart_sent g = uart_sent s"
      "panicked g = panicked s"
      using tx_get [of s] False Cons.prems(1) by (auto simp: g_def) (simp_all add: uart_get_def uart_sent_def)
    have t: "uart_ok t" "tx_elems t = tx_elems g" "uart_sent t = uart_sent s @ [fst (uart_get s)]" "held t = held s"
      "panicked t = panicked s"
      using WriteReg_THR [of "g\<lparr>proc := woken ChUart (proc g)\<rparr>"] g unfolding t_def by (simp_all add: WriteReg_def)
    have "uartstart_loop (v # vs) s = uartstart_loop vs t"
      using False Cons.prems(2) g(3) wakeup_eq [of g ChUart]
      by (simp add: uart_empty_def t_def g_def uart_get_def)
    moreover obtain u where "uartstart_loop vs t = Inr u" "uart_ok u" "held u = held t" "panicked u = panicked t"
      "uart_sent u @ tx_elems u = uart_sent t @ tx_elems t"
      using Cons.IH [of t] Cons.prems t g by auto
    ultimately show ?thesis using t g by auto
  qed
qed

subsection \<open>Properties\<close>


definition uart_sample :: uart where
  "uart_sample = \<lparr>held = {}, kend = 0, mem = (\<lambda>_. 0), freelist = 0, kernel_pagetable = 0, etext = 0, trampoline = 0,
     proc = (\<lambda>_. empty_proc)(0 := empty_proc\<lparr>pstate := RUNNING, pid := 1\<rparr>), me = Some 0, initproc = Some 0,
     nextpid = 2, forkret_pc = 0, ticks = 0, pipe = (\<lambda>_. new_pipe), lsr_in = replicate 40 0x20, rhr_in = [],
     regs_out = [], uart_tx_buf = replicate 32 0, uart_tx_w = 30, uart_tx_r = 29, panicked = False\<rparr>"


end
