(* ===== verification/Printf.thy ===== *)
theory Printf
  imports Uart
begin

text \<open>
  Kernel output: \<^verbatim>\<open>kernel/printf.c\<close> and \<^verbatim>\<open>consputc\<close> of
  \<^verbatim>\<open>kernel/console.c\<close>. A variable argument is a value of \<open>arg\<close>; taking an
  argument that was not passed, or at another type, is undefined.
\<close>

subsection \<open>Operations\<close>

text \<open>The devices that \<^verbatim>\<open>devsw\<close> may name.\<close>

datatype device = NoDevice | ConsoleDevice

record console = uart +
  devsw :: "int \<Rightarrow> device"
  cons_buf :: "u8 list"
  cons_r :: u32
  cons_w :: u32
  cons_e :: u32
  pr_locking :: bool

definition BACKSPACE :: int where "BACKSPACE = 0x100"

definition consputc :: "int \<Rightarrow> 'a uart_scheme \<Rightarrow> 'a uart_scheme res" where
  "consputc c s =
     (if c = BACKSPACE
      then bindE (uartputc_sync 8 s) (\<lambda>s. bindE (uartputc_sync 32 s) (uartputc_sync 8))
      else uartputc_sync (word_of_int c) s)"

definition put_bytes_out :: "u8 list \<Rightarrow> 'a uart_scheme \<Rightarrow> 'a uart_scheme res" where
  "put_bytes_out bs = foldE (\<lambda>b. consputc (uint b)) bs"

definition digits :: "u8 list" where
  "digits = cstr ''0123456789abcdef''"

text \<open>The digits that the loop stores in \<^verbatim>\<open>buf\<close>, least significant first, in at most \<open>n\<close> places.\<close>

primrec digit_loop :: "nat \<Rightarrow> u32 \<Rightarrow> u32 \<Rightarrow> u8 list res" where
  "digit_loop 0 x base = Inl Undef"
| "digit_loop (Suc n) x base =
     (let d = digits ! unat (x mod base); x = x div base in
      if x \<noteq> 0 then bindE (digit_loop n x base) (\<lambda>ds. Inr (d # ds)) else Inr [d])"

text \<open>
  The negation is that of 32-bit words, to which \<^verbatim>\<open>x = -xx\<close> is compiled; it differs from the
  negation of integers only for the most negative number, where C leaves it open.
\<close>

definition printint :: "int \<Rightarrow> u32 \<Rightarrow> bool \<Rightarrow> 'a uart_scheme \<Rightarrow> 'a uart_scheme res" where
  "printint xx base sign s =
     (let neg = sign \<and> xx < 0; x = (if neg then - word_of_int xx else word_of_int xx) :: u32 in
      bindE (digit_loop 16 x base) (\<lambda>buf.
        if neg \<and> length buf = 16 then Inl Undef
        else put_bytes_out (rev (if neg then buf @ [45] else buf)) s))"

primrec ptr_digits :: "nat \<Rightarrow> u64 \<Rightarrow> u8 list" where
  "ptr_digits 0 x = []"
| "ptr_digits (Suc n) x = digits ! unat (drop_bit 60 x) # ptr_digits n (push_bit 4 x)"

definition printptr :: "u64 \<Rightarrow> 'a uart_scheme \<Rightarrow> 'a uart_scheme res" where
  "printptr x = put_bytes_out (cstr ''0x'' @ ptr_digits 16 x)"

datatype arg = AInt int | APtr u64 | AStr "u8 list option"

fun printf_loop :: "u8 list \<Rightarrow> arg list \<Rightarrow> 'a uart_scheme \<Rightarrow> 'a uart_scheme res" where
  "printf_loop [] ap s = Inr s"
| "printf_loop [c] ap s = (if c = 0 \<or> c = 37 then Inr s else consputc (uint c) s)"
| "printf_loop (c # d # fmt) ap s =
     (if c = 0 then Inr s
      else if c \<noteq> 37 then bindE (consputc (uint c) s) (printf_loop (d # fmt) ap)
      else if d = 0 then Inr s
      else if d = 100 then
        (case ap of AInt x # ap \<Rightarrow> bindE (printint x 10 True s) (printf_loop fmt ap) | _ \<Rightarrow> Inl Undef)
      else if d = 120 then
        (case ap of AInt x # ap \<Rightarrow> bindE (printint x 16 True s) (printf_loop fmt ap) | _ \<Rightarrow> Inl Undef)
      else if d = 112 then
        (case ap of APtr x # ap \<Rightarrow> bindE (printptr x s) (printf_loop fmt ap) | _ \<Rightarrow> Inl Undef)
      else if d = 115 then
        (case ap of AStr x # ap \<Rightarrow>
           bindE (put_bytes_out (case x of None \<Rightarrow> cstr ''(null)'' | Some bs \<Rightarrow> takeWhile (\<lambda>b. b \<noteq> 0) bs) s)
             (printf_loop fmt ap)
         | _ \<Rightarrow> Inl Undef)
      else if d = 37 then bindE (consputc 37 s) (printf_loop fmt ap)
      else bindE (consputc 37 s) (\<lambda>s. bindE (consputc (uint d) s) (printf_loop fmt ap)))"

definition printf :: "u8 list option \<Rightarrow> arg list \<Rightarrow> 'a console_scheme \<Rightarrow> 'a console_scheme res" where
  "printf fmt ap s =
     (let locking = pr_locking s in
      bindE (if locking then kacquire PrLock s else Inr s) (\<lambda>s.
        case fmt of None \<Rightarrow> Inl (Panic ''null fmt'')
        | Some f \<Rightarrow> bindE (printf_loop f ap s) (\<lambda>s.
            if locking then krelease PrLock s else Inr s)))"

text \<open>
  \<^verbatim>\<open>panic\<close> up to its endless loop. Where other code calls it the model stops with the
  message.
\<close>

definition panic :: "u8 list \<Rightarrow> 'a console_scheme \<Rightarrow> 'a console_scheme res" where
  "panic msg s = bindE (printf (Some (cstr ''panic: '')) [] (s\<lparr>pr_locking := False\<rparr>)) (\<lambda>s.
     bindE (printf (Some msg) [] s) (\<lambda>s.
       bindE (printf (Some [10]) [] s) (\<lambda>s. Inr (s\<lparr>panicked := True\<rparr>))))"

definition printfinit :: "'a console_scheme \<Rightarrow> 'a console_scheme" where
  "printfinit s = kinitlock PrLock s\<lparr>pr_locking := True\<rparr>"

subsection \<open>Output\<close>

definition idle :: "u8 \<Rightarrow> bool" where
  "idle v \<longleftrightarrow> v AND LSR_TX_IDLE \<noteq> 0"

text \<open>The device accepts at least \<open>n\<close> more bytes, and output is not frozen.\<close>

definition out_ready :: "nat \<Rightarrow> 'a uart_scheme \<Rightarrow> bool" where
  "out_ready n s \<longleftrightarrow> \<not> panicked s \<and> \<not> latch_after False (regs_out s) \<and> n \<le> length (filter idle (lsr_in s))"

text \<open>The bytes went out, and nothing else happened.\<close>

definition sends :: "'a uart_scheme \<Rightarrow> u8 list \<Rightarrow> 'a uart_scheme \<Rightarrow> bool" where
  "sends s bs u \<longleftrightarrow> (\<exists>vs ws. u = s\<lparr>lsr_in := vs, regs_out := ws\<rparr>) \<and> uart_sent u = uart_sent s @ bs"

lemma sends_refl [simp]: "sends s [] s"
  unfolding sends_def by (rule conjI [OF exI [of _ "lsr_in s"]]) (rule exI [of _ "regs_out s"], simp_all)

lemma sends_trans: "sends s bs t \<Longrightarrow> sends t cs u \<Longrightarrow> sends s (bs @ cs) u"
proof -
  assume a: "sends s bs t" and b: "sends t cs u"
  then obtain vs ws vs' ws' where "t = s\<lparr>lsr_in := vs, regs_out := ws\<rparr>" "u = t\<lparr>lsr_in := vs', regs_out := ws'\<rparr>"
    by (auto simp: sends_def)
  then have "u = s\<lparr>lsr_in := vs', regs_out := ws'\<rparr>" by simp
  moreover have "uart_sent u = uart_sent s @ bs @ cs" using a b by (simp add: sends_def)
  ultimately show ?thesis unfolding sends_def by blast
qed

lemma uart_spin_ok:
  "filter idle vs \<noteq> [] \<Longrightarrow> \<exists>ws. uart_spin vs c s = Inr (WriteReg THR c (s\<lparr>lsr_in := ws\<rparr>)) \<and>
     length (filter idle vs) = Suc (length (filter idle ws))"
  by (induction vs) (auto simp: idle_def)

lemma uartputc_sync_ok:
  assumes "out_ready (Suc n) s"
  shows "\<exists>u. uartputc_sync c s = Inr u \<and> sends s [c] u \<and> out_ready n u"
proof -
  have r: "\<not> panicked s" "\<not> latch_after False (regs_out s)" "Suc n \<le> length (filter idle (lsr_in s))"
    using assms by (simp_all add: out_ready_def)
  then have "filter idle (lsr_in s) \<noteq> []" by (metis list.size(3) not_less_eq_eq zero_le)
  from uart_spin_ok [OF this, of c s] obtain ws where
    ws: "uart_spin (lsr_in s) c s = Inr (WriteReg THR c (s\<lparr>lsr_in := ws\<rparr>))"
    "length (filter idle (lsr_in s)) = Suc (length (filter idle ws))" by blast
  let ?u = "WriteReg THR c (s\<lparr>lsr_in := ws\<rparr>)"
  have "sends s [c] ?u"
    unfolding sends_def using r(2)
    by (intro conjI exI [of _ ws] exI [of _ "regs_out s @ [(THR, c)]"])
      (simp_all add: WriteReg_def uart_sent_def sent_append)
  moreover have "out_ready n ?u"
    using r ws(2) by (simp add: out_ready_def WriteReg_def latch_append THR_def LCR_def)
  ultimately show ?thesis using ws(1) r(1) by (auto simp: uartputc_sync_def)
qed

lemma put_bytes_out_ok:
  "out_ready (length bs + n) s \<Longrightarrow> \<exists>u. put_bytes_out bs s = Inr u \<and> sends s bs u \<and> out_ready n u"
proof (induction bs arbitrary: s)
  case Nil
  then show ?case by (simp add: put_bytes_out_def)
next
  case (Cons b bs)
  then obtain t where t: "uartputc_sync b s = Inr t" "sends s [b] t" "out_ready (length bs + n) t"
    using uartputc_sync_ok [of "length bs + n" s b] by auto
  have "uint b \<noteq> BACKSPACE" using unsigned_less [of b, where 'a = int] by (auto simp: BACKSPACE_def)
  with t(1) have "consputc (uint b) s = Inr t" by (simp add: consputc_def)
  moreover obtain u where "put_bytes_out bs t = Inr u" "sends t bs u" "out_ready n u" using Cons.IH [OF t(3)] by blast
  ultimately show ?case using sends_trans [OF t(2)] by (fastforce simp: put_bytes_out_def)
qed

subsection \<open>Numerals\<close>

definition numeral_value :: "nat \<Rightarrow> nat list \<Rightarrow> nat" where
  "numeral_value b ns = foldr (\<lambda>d v. d + b * v) ns 0"

text \<open>The digits of a number, least significant first, without a leading zero.\<close>

definition numeral_of :: "nat \<Rightarrow> nat \<Rightarrow> nat list \<Rightarrow> bool" where
  "numeral_of b v ns \<longleftrightarrow> (\<forall>d\<in>set ns. d < b) \<and> numeral_value b ns = v \<and> ns \<noteq> [] \<and> (last ns = 0 \<longrightarrow> ns = [0])"

lemma digit_loop_ok:
  assumes "2 \<le> unat base" "k < n" "unat x < unat base ^ Suc k"
  shows "\<exists>ns. digit_loop n x base = Inr (map ((!) digits) ns) \<and> numeral_of (unat base) (unat x) ns \<and>
    length ns \<le> Suc k"
  using assms(2,3)
proof (induction n arbitrary: x k)
  case (Suc n)
  let ?b = "unat base" and ?q = "x div base"
  have q: "unat ?q = unat x div ?b" "unat (x mod base) = unat x mod ?b" by (simp_all add: unat_div unat_mod)
  have mod: "unat x mod ?b < ?b" using assms(1) by simp
  show ?case
  proof (cases "?q = 0")
    case True
    then have "unat x div ?b = 0" using q(1) by simp
    then have "unat x < ?b" using assms(1) by (simp add: div_eq_0_iff)
    then show ?thesis
      using True q(2) by (intro exI [of _ "[unat x]"]) (simp add: numeral_of_def numeral_value_def)
  next
    case False
    have nz: "unat x div ?b \<noteq> 0" using False q(1) by (metis unat_eq_0)
    have k: "k \<noteq> 0" using nz Suc.prems(2) assms(1) by (cases k) (auto simp: div_eq_0_iff)
    then obtain j where j: "k = Suc j" by (cases k) auto
    have "unat ?q < ?b ^ Suc j" using Suc.prems(2) j q(1) by (simp add: less_mult_imp_div_less mult.commute)
    then obtain ns where ns: "digit_loop n ?q base = Inr (map ((!) digits) ns)" "numeral_of ?b (unat ?q) ns" "length ns \<le> Suc j"
      using Suc.IH [of j ?q] Suc.prems(1) j by auto
    have "numeral_of ?b (unat x) (unat x mod ?b # ns)"
      using ns(2) mod nz q(1) by (auto simp: numeral_of_def numeral_value_def)
    then show ?thesis using ns j False q(2) by (intro exI [of _ "unat x mod ?b # ns"]) simp
  qed
qed simp

text \<open>
  C22. \<^verbatim>\<open>printint\<close> prints the numeral of any 32-bit \<^verbatim>\<open>int\<close>, the most
  negative one included: a minus sign for a negative number, then the digits of its absolute value in
  base 10 or 16, the most significant first and without leading zeros. The 16 bytes of its buffer
  are enough.
\<close>

theorem printint_prints_numeral:
  assumes "- (2 ^ 31) \<le> xx" "xx < 2 ^ 31" "base = 10 \<or> base = 16" "out_ready 12 s"
  shows "\<exists>u ns. printint xx base True s = Inr u \<and> numeral_of (unat base) (nat \<bar>xx\<bar>) ns \<and>
    sends s ((if xx < 0 then cstr ''-'' else []) @ map ((!) digits) (rev ns)) u"
proof -
  let ?x = "word_of_int (if xx < 0 then - xx else xx) :: u32"
  have x: "unat ?x = nat \<bar>xx\<bar>" using assms(1,2) by (simp add: unsigned_of_int take_bit_int_eq_self)
  have "nat \<bar>xx\<bar> \<le> 2 ^ 31" using assms(1,2) by auto
  then have "unat ?x < unat base ^ Suc 9" using x assms(3) by auto
  then obtain ns where ns: "digit_loop 16 ?x base = Inr (map ((!) digits) ns)"
    "numeral_of (unat base) (unat ?x) ns" "length ns \<le> 10"
    using digit_loop_ok [of base 9 16 ?x] assms(3) by auto
  let ?out = "(if xx < 0 then cstr ''-'' else []) @ map ((!) digits) (rev ns)"
  have "length ?out \<le> 11" using ns(3) by (simp add: cstr_def)
  then have "out_ready (length ?out + 0) s" using assms(4) by (auto simp: out_ready_def)
  then obtain u where "put_bytes_out ?out s = Inr u" "sends s ?out u" using put_bytes_out_ok by blast
  moreover have "rev (if xx < 0 then map ((!) digits) ns @ [45] else map ((!) digits) ns) = ?out"
    by (simp add: cstr_def rev_map)
  ultimately have "printint xx base True s = Inr u"
    unfolding printint_def Let_def using ns(1,3) by (simp split: if_splits)
  with \<open>sends s ?out u\<close> ns(2) x show ?thesis by metis
qed

theorem printint_prints_numeral_witness:
  "\<exists>u ns. printint (- (2 ^ 31)) 10 True uart_sample = Inr u \<and> numeral_of (unat (10 :: u32)) (nat \<bar>- (2 ^ 31)\<bar>) ns \<and>
    sends uart_sample ((if - (2 ^ 31) < (0 :: int) then cstr ''-'' else []) @ map ((!) digits) (rev ns)) u"
  by (rule printint_prints_numeral)
    (simp_all add: out_ready_def uart_sample_def idle_def LSR_TX_IDLE_def)

end
