(* ===== verification/Console.thy ===== *)
theory Console
  imports Printf
begin

text \<open>
  The console: \<^verbatim>\<open>kernel/console.c\<close>, with \<^verbatim>\<open>uartintr\<close> of
  \<^verbatim>\<open>kernel/uart.c\<close> and \<^verbatim>\<open>procdump\<close> of
  \<^verbatim>\<open>kernel/proc.c\<close>.
\<close>

subsection \<open>Operations\<close>

definition CONSOLE :: int where "CONSOLE = 1"

definition state_name :: "procstate \<Rightarrow> u8 list" where
  "state_name st = cstr (case st of UNUSED \<Rightarrow> ''unused'' | SLEEPING \<Rightarrow> ''sleep '' | RUNNABLE \<Rightarrow> ''runble''
     | RUNNING \<Rightarrow> ''run   '' | ZOMBIE \<Rightarrow> ''zombie'')"

definition procdump :: "'a console_scheme \<Rightarrow> 'a console_scheme res" where
  "procdump s = bindE (printf (Some [10]) [] s) (foldE (\<lambda>p s.
     if pstate (proc s p) = UNUSED then Inr s
     else bindE (printf (Some (cstr ''%d %s %s''))
         [AInt (pid (proc s p)), AStr (Some (state_name (pstate (proc s p)))), AStr (Some (pname (proc s p)))] s)
       (printf (Some [10]) [])) [0..<NPROC])"

definition src_at :: "source \<Rightarrow> int \<Rightarrow> source" where
  "src_at src i = (case src of FromUser a \<Rightarrow> FromUser (a + of_int i) | FromKernel a \<Rightarrow> FromKernel (a + of_int i)
     | FromLocal bs \<Rightarrow> FromLocal (drop (nat i) bs))"

definition dst_next :: "dest \<Rightarrow> u64 \<Rightarrow> dest" where
  "dst_next d n = (case d of ToUser a \<Rightarrow> ToUser (a + n) | ToKernel a \<Rightarrow> ToKernel (a + n) | ToLocal \<Rightarrow> ToLocal)"

function consolewrite_loop :: "source \<Rightarrow> int \<Rightarrow> int \<Rightarrow> 'a console_scheme \<Rightarrow>
    (progress \<times> 'a console_scheme) res" where
  "consolewrite_loop src n i s =
     (if i < n
      then bindE (either_copyin (src_at src i) 1 s) (\<lambda>(r, bs).
        if r = - 1 then bindE (krelease ConsLock s) (\<lambda>s. Inr (Done i, s))
        else bindE (uartputc (bs ! 0) s) (\<lambda>(out, s).
          case out of Blocks \<Rightarrow> Inr (Asleep i, s) | Returns _ \<Rightarrow> consolewrite_loop src n (i + 1) s))
      else bindE (krelease ConsLock s) (\<lambda>s. Inr (Done i, s)))"
  by pat_completeness auto
termination
  by (relation "measure (\<lambda>(_, n, i, _). nat (n - i))") auto

declare consolewrite_loop.simps [simp del]

definition consolewrite :: "source \<Rightarrow> int \<Rightarrow> 'a console_scheme \<Rightarrow> (progress \<times> 'a console_scheme) res" where
  "consolewrite src n s = bindE (kacquire ConsLock s) (consolewrite_loop src n 0)"

text \<open>The loop of \<^verbatim>\<open>consoleread\<close> with \<open>n\<close> bytes still wanted; a sleeping reader goes on with the same \<open>n\<close>.\<close>

function consoleread_loop :: "dest \<Rightarrow> int \<Rightarrow> int \<Rightarrow> 'a console_scheme \<Rightarrow>
    (progress \<times> 'a console_scheme) res" where
  "consoleread_loop dst target n s =
     (if n > 0
      then if cons_r s = cons_w s
        then if killed (cur s) \<noteq> 0 then bindE (krelease ConsLock s) (\<lambda>s. Inr (Done (- 1), s))
          else bindE (sleep ChCons ConsLock s) (\<lambda>s. Inr (Asleep n, s))
        else let c = cons_buf s ! (unat (cons_r s) mod 128); s = s\<lparr>cons_r := cons_r s + 1\<rparr> in
          if c = 4
          then bindE (krelease ConsLock (if n < target then s\<lparr>cons_r := cons_r s - 1\<rparr> else s)) (\<lambda>s.
            Inr (Done (target - n), s))
          else bindE (either_copyout dst [c] 1 s) (\<lambda>(r, s).
            if r = - 1 then bindE (krelease ConsLock s) (\<lambda>s. Inr (Done (target - n), s))
            else if c = 10 then bindE (krelease ConsLock s) (\<lambda>s. Inr (Done (target - (n - 1)), s))
            else consoleread_loop (dst_next dst 1) target (n - 1) s)
      else bindE (krelease ConsLock s) (\<lambda>s. Inr (Done (target - n), s)))"
  by pat_completeness auto
termination
  by (relation "measure (\<lambda>(_, _, n, _). nat n)") auto

declare consoleread_loop.simps [simp del]

definition consoleread :: "dest \<Rightarrow> int \<Rightarrow> 'a console_scheme \<Rightarrow> (progress \<times> 'a console_scheme) res" where
  "consoleread dst n s = bindE (kacquire ConsLock s) (consoleread_loop dst n n)"

definition consoleread_return :: "dest \<Rightarrow> int \<Rightarrow> int \<Rightarrow> 'a console_scheme \<Rightarrow>
    (progress \<times> 'a console_scheme) res" where
  "consoleread_return dst target n s = bindE (sleep_return ConsLock s) (consoleread_loop dst target n)"

text \<open>The number of characters that control-U erases from \<open>e\<close> back to \<open>w\<close>.\<close>

function erased :: "u8 list \<Rightarrow> u32 \<Rightarrow> u32 \<Rightarrow> nat" where
  "erased buf w e =
     (if e \<noteq> w \<and> buf ! (unat (e - 1) mod 128) \<noteq> 10 then Suc (erased buf w (e - 1)) else 0)"
  by pat_completeness auto
termination
proof (relation "measure (\<lambda>(_, w, e). unat (e - w))")
  fix buf :: "u8 list" and w e :: u32
  assume "e \<noteq> w \<and> buf ! (unat (e - 1) mod 128) \<noteq> 10"
  then have ne: "e - w \<noteq> 0" by simp
  have "unat (e - w - 1) = unat (e - w) - 1" "unat (e - w) \<noteq> 0"
    using unat_minus_one [OF ne] ne by (simp_all only: unat_eq_0 not_False_eq_True)
  then show "((buf, w, e - 1), buf, w, e) \<in> measure (\<lambda>(_, w, e). unat (e - w))"
    by (simp add: algebra_simps)
qed simp

declare erased.simps [simp del]

primrec erase :: "nat \<Rightarrow> 'a console_scheme \<Rightarrow> 'a console_scheme res" where
  "erase 0 s = Inr s"
| "erase (Suc k) s = bindE (consputc BACKSPACE (s\<lparr>cons_e := cons_e s - 1\<rparr>)) (erase k)"

definition consoleintr_switch :: "int \<Rightarrow> 'a console_scheme \<Rightarrow> 'a console_scheme res" where
  "consoleintr_switch c s =
     (if c = 16 then procdump s
      else if c = 21 then erase (erased (cons_buf s) (cons_w s) (cons_e s)) s
      else if c = 8 \<or> c = 127 then if cons_e s \<noteq> cons_w s then erase 1 s else Inr s
      else if c \<noteq> 0 \<and> cons_e s - cons_r s < 128
      then let c = (if c = 13 then 10 else c) in
        bindE (consputc c s) (\<lambda>s.
          let s = s\<lparr>cons_buf := (cons_buf s)[unat (cons_e s) mod 128 := word_of_int c], cons_e := cons_e s + 1\<rparr> in
          if c = 10 \<or> c = 4 \<or> cons_e s = cons_r s + 128
          then wakeup ChCons (s\<lparr>cons_w := cons_e s\<rparr>) else Inr s)
      else Inr s)"

definition consoleintr :: "int \<Rightarrow> 'a console_scheme \<Rightarrow> 'a console_scheme res" where
  "consoleintr c s = bindE (kacquire ConsLock s) (\<lambda>s. bindE (consoleintr_switch c s) (krelease ConsLock))"

definition consoleinit :: "'a console_scheme \<Rightarrow> 'a console_scheme" where
  "consoleinit s = (let s = uartinit (kinitlock ConsLock s) in s\<lparr>devsw := (devsw s)(CONSOLE := ConsoleDevice)\<rparr>)"

text \<open>Each round of the loop of \<^verbatim>\<open>uartintr\<close> but the last takes a byte from the receive register.\<close>

primrec uartintr_loop :: "nat \<Rightarrow> 'a console_scheme \<Rightarrow> 'a console_scheme res" where
  "uartintr_loop 0 s = Inl OutOfFuel"
| "uartintr_loop (Suc k) s = bindE (uartgetc s) (\<lambda>(c, s).
     if c = - 1 then Inr s else bindE (consoleintr c s) (uartintr_loop k))"

definition uartintr :: "'a console_scheme \<Rightarrow> 'a console_scheme res" where
  "uartintr s = bindE (uartintr_loop (Suc (length (rhr_in s))) s) (\<lambda>s.
     bindE (kacquire UartLock s) (\<lambda>s. bindE (uartstart s) (krelease UartLock)))"

subsection \<open>The line editor\<close>

text \<open>The lines that readers may take, and the line that is being typed.\<close>

definition cons_ready :: "'a console_scheme \<Rightarrow> u8 list" where
  "cons_ready s = ring 128 (cons_buf s) (cons_r s) (cons_w s)"

definition cons_line :: "'a console_scheme \<Rightarrow> u8 list" where
  "cons_line s = ring 128 (cons_buf s) (cons_w s) (cons_e s)"

definition cons_ok :: "'a console_scheme \<Rightarrow> bool" where
  "cons_ok s \<longleftrightarrow> length (cons_buf s) = 128 \<and> unat (cons_e s - cons_r s) \<le> 128 \<and>
     unat (cons_w s - cons_r s) \<le> unat (cons_e s - cons_r s) \<and> 10 \<notin> set (cons_line s)"

text \<open>What a character does to the ready lines and the line being typed.\<close>

definition edit :: "int \<Rightarrow> u8 list \<times> u8 list \<Rightarrow> u8 list \<times> u8 list" where
  "edit c = (\<lambda>(ready, line).
     if c = 16 then (ready, line)
     else if c = 21 then (ready, [])
     else if c = 8 \<or> c = 127 then (ready, butlast line)
     else if c = 0 \<or> length ready + length line = 128 then (ready, line)
     else let b = word_of_int (if c = 13 then 10 else c) in
       if b = 10 \<or> b = 4 \<or> length ready + length line = 127 then (ready @ line @ [b], [])
       else (ready, line @ [b]))"

interpretation cr: ring_size 128
  by unfold_locales simp_all

lemma cons_all:
  "cons_ok s \<Longrightarrow> ring 128 (cons_buf s) (cons_r s) (cons_e s) = cons_ready s @ cons_line s"
  unfolding cons_ready_def cons_line_def by (rule cr.split) (simp add: cons_ok_def)

lemma cons_length: "cons_ok s \<Longrightarrow> length (cons_ready s) + length (cons_line s) = unat (cons_e s - cons_r s)"
  using arg_cong [OF cons_all, of s length] by simp

lemma cons_line_length: "length (cons_line s) = unat (cons_e s - cons_w s)"
  by (simp add: cons_line_def)

text \<open>Dropping the newest character of the line.\<close>

lemma cons_drop:
  assumes "cons_ok s" "cons_e s \<noteq> cons_w s"
  defines "t \<equiv> s\<lparr>cons_e := cons_e s - 1\<rparr>"
  shows "cons_ok t" "cons_ready t = cons_ready s" "cons_line t = butlast (cons_line s)"
proof -
  have ne: "cons_e s - cons_w s \<noteq> 0" using assms(2) by simp
  show line: "cons_line t = butlast (cons_line s)"
    using cr.unput [OF assms(2)] by (simp add: t_def cons_line_def)
  show "cons_ready t = cons_ready s" by (simp add: t_def cons_ready_def)
  have "0 < length (cons_line s)" using ne by (simp add: cons_line_length unat_gt_0)
  then have gt: "unat (cons_w s - cons_r s) < unat (cons_e s - cons_r s)"
    using cons_length [OF assms(1)] unfolding cons_ready_def length_ring by linarith
  then have "cons_e s - cons_r s \<noteq> 0" by auto
  from unat_minus_one [OF this] have "unat (cons_e s - 1 - cons_r s) = unat (cons_e s - cons_r s) - 1"
    by (simp add: algebra_simps)
  with assms(1) gt line show "cons_ok t"
    by (auto simp: cons_ok_def t_def dest: in_set_butlastD)
qed

lemma erased_all:
  assumes "cons_ok s"
  shows "erased (cons_buf s) (cons_w s) (cons_e s) = length (cons_line s)"
  using assms
proof (induction "length (cons_line s)" arbitrary: s)
  case 0
  then have "cons_e s = cons_w s" by (simp add: cons_line_length unat_eq_0)
  then show ?case using 0 by (simp add: erased.simps)
next
  case (Suc k)
  let ?t = "s\<lparr>cons_e := cons_e s - 1\<rparr>"
  have ne: "cons_e s \<noteq> cons_w s" using Suc.hyps(2) by (auto simp: cons_line_length)
  note d = cons_drop [OF Suc.prems ne]
  have "last (cons_line s) = cons_buf s ! (unat (cons_e s - 1) mod 128)"
  proof -
    have pos: "0 < unat (cons_e s - cons_w s)" using ne by (simp add: unat_gt_0)
    have "(unat (cons_w s) + (unat (cons_e s - cons_w s) - 1)) mod 128 = unat (cons_e s - 1) mod 128"
      using cr.index [of "cons_w s" "unat (cons_e s - cons_w s) - 1"] pos by (simp add: of_nat_diff Suc_leI)
    moreover have "last (cons_line s) = cons_line s ! (length (cons_line s) - 1)"
      using pos by (intro last_conv_nth) (auto simp: cons_line_length simp flip: length_greater_0_conv)
    ultimately show ?thesis using pos by (simp only: cons_line_length) (simp add: cons_line_def cr.ring_nth)
  qed
  moreover have "last (cons_line s) \<in> set (cons_line s)" using Suc.hyps(2) by (intro last_in_set) auto
  ultimately have "cons_buf s ! (unat (cons_e s - 1) mod 128) \<noteq> 10" using Suc.prems by (auto simp: cons_ok_def)
  moreover have "erased (cons_buf ?t) (cons_w ?t) (cons_e ?t) = length (cons_line ?t)"
    using Suc.hyps(2) d by (intro Suc.hyps(1)) auto
  ultimately show ?case using ne d(3) Suc.hyps(2) by (subst erased.simps) simp
qed

lemma consputc_ok:
  "out_ready (3 + n) s \<Longrightarrow> \<exists>u. consputc BACKSPACE s = Inr u \<and> sends s [8, 32, 8] u \<and> out_ready n u"
  "out_ready (Suc n) s \<Longrightarrow> c \<noteq> BACKSPACE \<Longrightarrow> \<exists>u. consputc c s = Inr u \<and> sends s [word_of_int c] u \<and> out_ready n u"
proof -
  assume "out_ready (3 + n) s"
  then obtain t where t: "uartputc_sync 8 s = Inr t" "sends s [8] t" "out_ready (Suc (Suc n)) t"
    using uartputc_sync_ok [of "Suc (Suc n)" s 8] by (auto simp: numeral_3_eq_3)
  obtain u where u: "uartputc_sync 32 t = Inr u" "sends t [32] u" "out_ready (Suc n) u"
    using uartputc_sync_ok [OF t(3)] by blast
  obtain v where v: "uartputc_sync 8 u = Inr v" "sends u [8] v" "out_ready n v"
    using uartputc_sync_ok [OF u(3)] by blast
  show "\<exists>u. consputc BACKSPACE s = Inr u \<and> sends s [8, 32, 8] u \<and> out_ready n u"
    using t(1) u(1) v sends_trans [OF sends_trans [OF t(2) u(2)] v(2)] by (simp add: consputc_def)
qed (use uartputc_sync_ok in \<open>auto simp: consputc_def\<close>)

lemma sends_console:
  fixes s u :: "'a console_scheme"
  assumes "sends s bs u"
  shows "cons_buf u = cons_buf s" "cons_r u = cons_r s" "cons_w u = cons_w s" "cons_e u = cons_e s" "held u = held s"
    "proc u = proc s" "cons_ok u = cons_ok s" "cons_ready u = cons_ready s" "cons_line u = cons_line s"
  using assms by (auto simp: sends_def cons_ok_def cons_ready_def cons_line_def)

lemma out_ready_upd [simp]:
  fixes s :: "'a console_scheme"
  shows "out_ready n (s\<lparr>cons_e := e\<rparr>) = out_ready n s" "out_ready n (s\<lparr>held := h\<rparr>) = out_ready n s"
  by (simp_all add: out_ready_def)

lemma cons_held [simp]:
  "cons_ok (s\<lparr>held := h\<rparr>) = cons_ok s" "cons_ready (s\<lparr>held := h\<rparr>) = cons_ready s" "cons_line (s\<lparr>held := h\<rparr>) = cons_line s"
  by (simp_all add: cons_ok_def cons_ready_def cons_line_def)

lemma erase_ok:
  fixes s :: "'a console_scheme"
  assumes "cons_ok s" "k \<le> length (cons_line s)" "out_ready (3 * k) s"
  shows "\<exists>u. erase k s = Inr u \<and> cons_ok u \<and> cons_ready u = cons_ready s \<and> held u = held s \<and>
    cons_line u = take (length (cons_line s) - k) (cons_line s)"
  using assms
proof (induction k arbitrary: s)
  case (Suc k)
  have ne: "cons_e s \<noteq> cons_w s" using Suc.prems(2) by (auto simp: cons_line_length)
  let ?s = "s\<lparr>cons_e := cons_e s - 1\<rparr>"
  note d = cons_drop [OF Suc.prems(1) ne]
  obtain t where t: "consputc BACKSPACE ?s = Inr t" "sends ?s [8, 32, 8] t" "out_ready (3 * k) t"
    using consputc_ok(1) [of "3 * k" ?s] Suc.prems(3) by auto
  note f = sends_console [OF t(2)]
  have "cons_ok t" "k \<le> length (cons_line t)" using f d Suc.prems(2) by simp_all
  from Suc.IH [OF this t(3)] obtain u where "erase k t = Inr u" "cons_ok u" "cons_ready u = cons_ready t"
    "held u = held t" "cons_line u = take (length (cons_line t) - k) (cons_line t)" by blast
  with t(1) f d Suc.prems(2) show ?case by (simp add: butlast_conv_take min_def)
qed simp

text \<open>Storing a character, with or without handing the line to the readers.\<close>

lemma cons_store:
  fixes b :: u8
  assumes "cons_ok s" "unat (cons_e s - cons_r s) < 128"
  defines "t \<equiv> s\<lparr>cons_buf := (cons_buf s)[unat (cons_e s) mod 128 := b], cons_e := cons_e s + 1\<rparr>"
  shows "b \<noteq> 10 \<Longrightarrow> cons_ok t" "cons_ready t = cons_ready s" "cons_line t = cons_line s @ [b]"
    "cons_ok (t\<lparr>cons_w := cons_e t\<rparr>)" "cons_ready (t\<lparr>cons_w := cons_e t\<rparr>) = cons_ready s @ cons_line s @ [b]"
    "cons_line (t\<lparr>cons_w := cons_e t\<rparr>) = []"
proof -
  let ?buf = "(cons_buf s)[unat (cons_e s) mod 128 := b]"
  have len: "length (cons_buf s) = 128" using assms(1) by (simp add: cons_ok_def)
  have all: "ring 128 ?buf (cons_r s) (cons_e s + 1) = cons_ready s @ cons_line s @ [b]"
    using cr.put [OF len assms(2)] cons_all [OF assms(1)] by simp
  have e: "unat (cons_e s + 1 - cons_r s) = Suc (unat (cons_e s - cons_r s))"
    using arg_cong [OF all, of length] cons_length [OF assms(1)] by simp
  have "ring 128 ?buf (cons_r s) (cons_e s + 1) =
      ring 128 ?buf (cons_r s) (cons_w s) @ ring 128 ?buf (cons_w s) (cons_e s + 1)"
    using assms(1) e by (intro cr.split) (simp add: cons_ok_def)
  with all have sp: "ring 128 ?buf (cons_r s) (cons_w s) = cons_ready s"
    "ring 128 ?buf (cons_w s) (cons_e s + 1) = cons_line s @ [b]"
    by (simp_all add: append_eq_append_conv cons_ready_def)
  then show "cons_ready t = cons_ready s" and line: "cons_line t = cons_line s @ [b]"
    by (simp_all add: t_def cons_ready_def cons_line_def)
  show "b \<noteq> 10 \<Longrightarrow> cons_ok t" using assms(1,2) e line by (simp add: cons_ok_def) (simp add: t_def)
  show "cons_line (t\<lparr>cons_w := cons_e t\<rparr>) = []" by (simp add: cons_line_def)
  then show "cons_ok (t\<lparr>cons_w := cons_e t\<rparr>)" using assms(1,2) e by (simp add: cons_ok_def) (simp add: t_def)
  show "cons_ready (t\<lparr>cons_w := cons_e t\<rparr>) = cons_ready s @ cons_line s @ [b]"
    using all by (simp add: t_def cons_ready_def)
qed

subsection \<open>Properties\<close>

lemma byte_eq:
  assumes "0 \<le> c" "c < 256"
  shows "word_of_int c = (10 :: u8) \<longleftrightarrow> c = 10" "word_of_int c = (4 :: u8) \<longleftrightarrow> c = 4"
proof -
  have "uint (word_of_int c :: u8) = c" using assms by (simp add: unsigned_of_int take_bit_int_eq_self)
  then show "word_of_int c = (10 :: u8) \<longleftrightarrow> c = 10" "word_of_int c = (4 :: u8) \<longleftrightarrow> c = 4"
    by (auto simp: word_uint_eq_iff [of "word_of_int c :: u8"])
qed

lemma edit_store:
  assumes "0 \<le> c" "c < 256" "c \<notin> {0, 8, 16, 21, 127}" "length ready + length line < 128"
  defines "d \<equiv> if c = 13 then 10 else c"
  shows "edit c (ready, line) = (if d = 10 \<or> d = 4 \<or> length ready + length line = 127
      then (ready @ line @ [word_of_int d], []) else (ready, line @ [word_of_int d]))"
proof -
  have "word_of_int d = (10 :: u8) \<longleftrightarrow> d = 10" "word_of_int d = (4 :: u8) \<longleftrightarrow> d = 4"
    using byte_eq [of d] assms(1,2) by (auto simp: d_def)
  then show ?thesis using assms(3,4) by (simp add: edit_def d_def [symmetric])
qed

lemma consoleintr_store:
  assumes "cons_ok s" "held s = {ConsLock}" "out_ready (Suc n) s" "0 \<le> d" "d < 256" "cons_e s - cons_r s < 128"
  shows "\<exists>u. bindE (consputc d s) (\<lambda>s.
      let s = s\<lparr>cons_buf := (cons_buf s)[unat (cons_e s) mod 128 := word_of_int d], cons_e := cons_e s + 1\<rparr> in
      if d = 10 \<or> d = 4 \<or> cons_e s = cons_r s + 128
      then wakeup ChCons (s\<lparr>cons_w := cons_e s\<rparr>) else Inr s) = Inr u \<and> cons_ok u \<and> held u = {ConsLock} \<and>
    (cons_ready u, cons_line u) = (if d = 10 \<or> d = 4 \<or> length (cons_ready s) + length (cons_line s) = 127
      then (cons_ready s @ cons_line s @ [word_of_int d], []) else (cons_ready s, cons_line s @ [word_of_int d]))"
proof -
  obtain v where v: "consputc d s = Inr v" "sends s [word_of_int d] v"
    using consputc_ok(2) [OF assms(3), of d] assms(5) by (auto simp: BACKSPACE_def)
  note f = sends_console [OF v(2)]
  let ?t = "v\<lparr>cons_buf := (cons_buf v)[unat (cons_e v) mod 128 := word_of_int d], cons_e := cons_e v + 1\<rparr>"
  have room: "unat (cons_e v - cons_r v) < 128" using assms(6) f by (simp add: word_less_nat_alt)
  have "cons_ok v" using assms(1) f by simp
  note st = cons_store [OF this room, of "word_of_int d"]
  have "cons_e v + 1 = cons_r v + 128 \<longleftrightarrow> cons_e v - cons_r v = 127" by (auto simp: algebra_simps)
  then have last: "cons_e ?t = cons_r ?t + 128 \<longleftrightarrow> length (cons_ready s) + length (cons_line s) = 127"
    using cons_length [OF assms(1)] f word_unat_eq_iff [of "cons_e v - cons_r v" 127] by simp
  have locks: "\<forall>p<NPROC. ProcLock p \<notin> held (?t\<lparr>cons_w := cons_e ?t\<rparr>)" using assms(2) f by simp
  show ?thesis
  proof (cases "d = 10 \<or> d = 4 \<or> cons_e ?t = cons_r ?t + 128")
    case True
    let ?u = "?t\<lparr>cons_w := cons_e ?t\<rparr>\<lparr>proc := woken ChCons (proc (?t\<lparr>cons_w := cons_e ?t\<rparr>))\<rparr>"
    have "wakeup ChCons (?t\<lparr>cons_w := cons_e ?t\<rparr>) = Inr ?u" using wakeup_eq [OF locks] .
    moreover have "cons_ok ?u" "cons_ready ?u = cons_ready s @ cons_line s @ [word_of_int d]" "cons_line ?u = []"
      using st(4-6) f by (simp_all add: cons_ok_def cons_ready_def cons_line_def)
    ultimately show ?thesis
      using v(1) True last f assms(2) by (intro exI [of _ ?u]) (simp add: Let_def)
  next
    case False
    have "word_of_int d \<noteq> (10 :: u8)"
      using False byte_eq(1) [OF assms(4,5)] by simp
    then show ?thesis
      using v(1) False last f assms(2) st(1-3) by (intro exI [of _ ?t]) (simp add: Let_def)
  qed
qed

lemma consoleintr_body:
  assumes "cons_ok s" "held s = {ConsLock}" "out_ready 384 s" "0 \<le> c" "c < 256" "c \<noteq> 16"
  shows "\<exists>u. consoleintr_switch c s = Inr u \<and> cons_ok u \<and> held u = {ConsLock} \<and>
    (cons_ready u, cons_line u) = edit c (cons_ready s, cons_line s)"
proof -
  have len: "length (cons_line s) \<le> 128" "length (cons_ready s) + length (cons_line s) = unat (cons_e s - cons_r s)"
    using cons_length [OF assms(1)] assms(1) by (auto simp: cons_ok_def)
  have ready: "out_ready n s" if "n \<le> 384" for n using assms(3) that by (auto simp: out_ready_def)
  consider (kill) "c = 21" | (bs) "c = 8 \<or> c = 127" | (store) "c \<notin> {0, 8, 16, 21, 127}" "unat (cons_e s - cons_r s) < 128"
    | (none) "c = 0 \<or> c \<notin> {0, 8, 16, 21, 127} \<and> \<not> unat (cons_e s - cons_r s) < 128"
    using assms(6) by auto
  then show ?thesis
  proof cases
    case kill
    with erase_ok [of s "length (cons_line s)"] erased_all [of s] ready [of "3 * length (cons_line s)"] len(1) assms
    show ?thesis by (auto simp: edit_def consoleintr_switch_def)
  next
    case bs
    show ?thesis
    proof (cases "cons_e s = cons_w s")
      case True
      then have "cons_line s = []" by (simp add: cons_line_def)
      with bs True assms show ?thesis by (auto simp: edit_def consoleintr_switch_def)
    next
      case False
      then have "1 \<le> length (cons_line s)" by (simp add: cons_line_length unat_gt_0 Suc_leI)
      with bs False erase_ok [of s 1] ready [of "3 * 1"] assms show ?thesis
        by (auto simp: edit_def butlast_conv_take consoleintr_switch_def)
    qed
  next
    case store
    define d where "d = (if c = 13 then 10 else c)"
    have d: "0 \<le> d" "d < 256" using assms(4,5) by (auto simp: d_def)
    have conds: "(c = 16) = False" "(c = 21) = False" "(c = 8 \<or> c = 127) = False"
      "(c \<noteq> 0 \<and> cons_e s - cons_r s < 128) = True" "cons_e s - cons_r s < 128"
      using store by (auto simp: word_less_nat_alt)
    have ed: "edit c (cons_ready s, cons_line s) = (if d = 10 \<or> d = 4 \<or> length (cons_ready s) + length (cons_line s) = 127
        then (cons_ready s @ cons_line s @ [word_of_int d], []) else (cons_ready s, cons_line s @ [word_of_int d]))"
      using edit_store [OF assms(4,5) store(1), folded d_def, of "cons_ready s" "cons_line s"] len store(2) by simp
    show ?thesis
      unfolding consoleintr_switch_def conds(1-4) if_True if_False ed d_def [symmetric] Let_def [of d]
      by (rule consoleintr_store [OF assms(1,2) ready [of "Suc 0"] d conds(5)]) simp
  next
    case none
    then have "edit c (cons_ready s, cons_line s) = (cons_ready s, cons_line s)"
      using len assms(1) by (auto simp: edit_def cons_ok_def)
    with none assms show ?thesis by (auto simp: word_less_nat_alt consoleintr_switch_def)
  qed
qed

text \<open>
  C20. The console's interrupt handler refines a line editor. For every input byte but control-P,
  with the two counters wrapping around freely, the handler does to the buffer what \<open>edit\<close> does to
  the ready lines and the line being typed: control-U empties the line, backspace and delete take
  off its last character, a character is added if the buffer has room, and a newline, control-D or
  a full buffer hands the line to the readers. It returns with the lock released.
\<close>

theorem consoleintr_edits:
  assumes "cons_ok s" "held s = {}" "out_ready 384 s" "0 \<le> c" "c < 256" "c \<noteq> 16"
  shows "\<exists>u. consoleintr c s = Inr u \<and> cons_ok u \<and> held u = {} \<and>
    (cons_ready u, cons_line u) = edit c (cons_ready s, cons_line s)"
proof -
  let ?s = "s\<lparr>held := {ConsLock}\<rparr>"
  have l: "kacquire ConsLock s = Inr ?s" using assms(2) by simp
  from consoleintr_body [of ?s c] assms obtain u where "consoleintr_switch c ?s = Inr u" "cons_ok u"
    "held u = {ConsLock}" "(cons_ready u, cons_line u) = edit c (cons_ready s, cons_line s)"
    by auto
  moreover from this(1) have "consoleintr c s = krelease ConsLock u" by (simp only: consoleintr_def l bindE_simps)
  ultimately show ?thesis by (intro exI [of _ "u\<lparr>held := {}\<rparr>"]) simp
qed

text \<open>A process at the console with a page of memory; the transmit buffer is full.\<close>

definition console_sample :: console where
  "console_sample = \<lparr>held = {}, kend = kend one_page, mem = mem one_page, freelist = freelist one_page,
     kernel_pagetable = 0, etext = 0, trampoline = 0,
     proc = (\<lambda>_. empty_proc)(0 := empty_proc\<lparr>pstate := RUNNING, pid := 1, pagetable := 0x87ffe000\<rparr>),
     me = Some 0, initproc = Some 0, nextpid = 2, forkret_pc = 0, ticks = 0, pipe = (\<lambda>_. new_pipe),
     lsr_in = replicate 384 0x20, rhr_in = [], regs_out = [], uart_tx_buf = replicate 32 0,
     uart_tx_w = 30, uart_tx_r = 31, panicked = False, devsw = (\<lambda>_. NoDevice), cons_buf = replicate 128 97,
     cons_r = 0xfffffff0, cons_w = 0xfffffff8, cons_e = 2, pr_locking = True\<rparr>"

lemma console_sample_facts:
  "held console_sample = {}" "myproc console_sample = Some 0" "mem console_sample = mem one_page"
  "pagetable (proc console_sample 0) = 0x87ffe000" "uart_full console_sample" "\<not> panicked console_sample"
  "out_ready 384 console_sample" "cons_ok console_sample"
proof -
  show "cons_ok console_sample"
    by (auto simp: cons_ok_def cons_line_def ring_def console_sample_def)
qed (simp_all add: console_sample_def myproc_def uart_full_def out_ready_def idle_def LSR_TX_IDLE_def)

theorem consoleintr_edits_witness:
  "\<exists>u. consoleintr 10 console_sample = Inr u \<and> cons_ok u \<and> held u = {} \<and>
    (cons_ready u, cons_line u) = edit 10 (cons_ready console_sample, cons_line console_sample)"
  by (rule consoleintr_edits) (simp_all add: console_sample_facts)

text \<open>
  C36. Writing to the console stops the kernel when the transmit buffer is full.
  \<^verbatim>\<open>consolewrite\<close> holds the console's lock when \<^verbatim>\<open>uartputc\<close> has to sleep
  for room in the buffer, so \<^verbatim>\<open>sched\<close> finds two locks held and panics.
\<close>

theorem consolewrite_full_panics:
  assumes "held s = {}" "myproc s = Some p" "pt_wf (mem s) (pagetable (proc s p))"
    "uspace (mem s) (pagetable (proc s p)) a = Some b" "uart_full s" "\<not> panicked s" "0 < n"
  shows "consolewrite (FromUser a) n s = Inl (Panic ''sched locks'')"
proof -
  let ?s = "s\<lparr>held := {ConsLock}\<rparr>"
  have "either_copyin (src_at (FromUser a) 0) 1 ?s = Inr (0, [b])"
    using copyin_byte [of ?s "pagetable (proc s p)" a] assms(2-4)
    by (simp add: either_copyin_def src_at_def)
  moreover have "uartputc b ?s = Inl (Panic ''sched locks'')"
    using assms(2,5,6)
    by (simp add: uartputc_def uartputc_loop_def uart_full_def sleep_def sched_def lock_defs myproc_def insert_Diff_if)
  ultimately show ?thesis
    using assms(1,7) by (simp add: consolewrite_def consolewrite_loop.simps [of "FromUser a" n 0])
qed

theorem consolewrite_full_panics_witness:
  "consolewrite (FromUser 4000) 1 console_sample = Inl (Panic ''sched locks'')"
proof -
  obtain b where "uspace (mem one_page) 0x87ffe000 4000 = Some b" using one_page_user [of 4000] by auto
  then show ?thesis
    using consolewrite_full_panics [of console_sample 0 4000 b 1] one_page_as_wf
    by (simp add: console_sample_facts as_wf_def)
qed

end
