(* ===== verification/Sleeplock.thy ===== *)
theory Sleeplock
  imports Console
begin

text \<open>
  Sleep locks: \<^verbatim>\<open>kernel/sleeplock.c\<close>. A lock is named by a number; the buffers of the
  buffer cache and the entries of the inode cache have one each. \<^verbatim>\<open>acquiresleep\<close> on a
  taken lock runs up to the call of \<^verbatim>\<open>sched\<close> and stops there with the channel it
  sleeps on: the code above it goes on only after another thread has run.
\<close>

record sleeplock =
  slocked :: bool
  spid :: int

record sleeplocks = console +
  slock :: "nat \<Rightarrow> sleeplock"

definition set_slock :: "nat \<Rightarrow> sleeplock \<Rightarrow> 'a sleeplocks_scheme \<Rightarrow> 'a sleeplocks_scheme" where
  "set_slock l v s = s\<lparr>slock := (slock s)(l := v)\<rparr>"

definition initsleeplock :: "nat \<Rightarrow> 'a sleeplocks_scheme \<Rightarrow> 'a sleeplocks_scheme" where
  "initsleeplock l s = set_slock l \<lparr>slocked = False, spid = 0\<rparr> (kinitlock (SleepLk l) s)"

definition acquiresleep :: "nat \<Rightarrow> 'a sleeplocks_scheme \<Rightarrow> 'a sleeplocks_scheme res" where
  "acquiresleep l s = bindE (kacquire (SleepLk l) s) (\<lambda>s.
     if slocked (slock s l)
     then bindE (sleep (ChSleeplock l) (SleepLk l) s) (\<lambda>_. Inl (Sleeps (ChSleeplock l)))
     else krelease (SleepLk l) (set_slock l \<lparr>slocked = True, spid = pid (cur s)\<rparr> s))"

definition releasesleep :: "nat \<Rightarrow> 'a sleeplocks_scheme \<Rightarrow> 'a sleeplocks_scheme res" where
  "releasesleep l s = bindE (kacquire (SleepLk l) s) (\<lambda>s.
     bindE (wakeup (ChSleeplock l) (set_slock l \<lparr>slocked = False, spid = 0\<rparr> s)) (krelease (SleepLk l)))"

definition holdingsleep :: "nat \<Rightarrow> 'a sleeplocks_scheme \<Rightarrow> (bool \<times> 'a sleeplocks_scheme) res" where
  "holdingsleep l s = bindE (kacquire (SleepLk l) s) (\<lambda>s.
     let r = slocked (slock s l) \<and> spid (slock s l) = pid (cur s)
     in bindE (krelease (SleepLk l) s) (\<lambda>s. Inr (r, s)))"

subsection \<open>Uncontended use\<close>

text \<open>The view of a thread that holds no spin lock: its sleep locks are those with its pid.\<close>

definition no_locks :: "'a sleeplocks_scheme \<Rightarrow> bool" where
  "no_locks s \<longleftrightarrow> held s = {}"

definition owns :: "nat \<Rightarrow> 'a sleeplocks_scheme \<Rightarrow> bool" where
  "owns l s \<longleftrightarrow> slocked (slock s l) \<and> spid (slock s l) = pid (cur s)"

definition wake_all :: "chan \<Rightarrow> 'a ptab_scheme \<Rightarrow> 'a ptab_scheme" where
  "wake_all c s = s\<lparr>proc := woken c (proc s)\<rparr>"

lemma wakeup_no_locks: "held s = {} \<Longrightarrow> wakeup c s = Inr (wake_all c s)"
  by (simp add: wake_all_def wakeup_eq)

lemma acquiresleep_free:
  "held s = {} \<Longrightarrow> \<not> slocked (slock s l) \<Longrightarrow>
   acquiresleep l s = Inr (set_slock l \<lparr>slocked = True, spid = pid (cur s)\<rparr> s)"
  by (simp add: acquiresleep_def lock_defs set_slock_def held_id myproc_def)

lemma releasesleep_eq:
  "held s = {} \<Longrightarrow> releasesleep l s = Inr (wake_all (ChSleeplock l) (set_slock l \<lparr>slocked = False, spid = 0\<rparr> s))"
  by (simp add: releasesleep_def lock_defs set_slock_def wakeup_eq wake_all_def held_id)

lemma holdingsleep_eq: "held s = {} \<Longrightarrow> holdingsleep l s = Inr (owns l s, s)"
  by (simp add: holdingsleep_def lock_defs owns_def Let_def held_id myproc_def)

end
