(* ===== verification/Bio.thy ===== *)
theory Bio
  imports Sleeplock
begin

text \<open>
  The buffer cache: \<^verbatim>\<open>kernel/bio.c\<close>. The doubly linked list of buffers is the list
  of their numbers from \<^verbatim>\<open>head.next\<close>, the most recently used, to
  \<^verbatim>\<open>head.prev\<close>. The disk is a function from block numbers to blocks of 1024 bytes;
  \<open>disk_rw\<close> is a completed request to the disk driver, and the state keeps the sequence
  of the writes, which is what a crash can cut short.
\<close>

subsection \<open>State and operations\<close>

definition NBUF :: nat where "NBUF = 30"
definition BSIZE :: nat where "BSIZE = 1024"

record buf =
  valid :: bool
  dev :: u32
  blockno :: u32
  refcnt :: u32
  data :: "u8 list"

record bio = sleeplocks +
  bufs :: "nat \<Rightarrow> buf"
  lru :: "nat list"
  disk :: "u32 \<Rightarrow> u8 list"
  dwrites :: "(u32 \<times> u8 list) list"

definition upd_buf :: "nat \<Rightarrow> (buf \<Rightarrow> buf) \<Rightarrow> 'a bio_scheme \<Rightarrow> 'a bio_scheme" where
  "upd_buf b f s = s\<lparr>bufs := (bufs s)(b := f (bufs s b))\<rparr>"

definition binit :: "'a bio_scheme \<Rightarrow> 'a bio_scheme" where
  "binit s = fold (\<lambda>b s. let s = initsleeplock b s in s\<lparr>lru := b # lru s\<rparr>) [0..<NBUF]
     ((kinitlock BcacheLock s)\<lparr>lru := []\<rparr>)"

definition disk_rw :: "nat \<Rightarrow> bool \<Rightarrow> 'a bio_scheme \<Rightarrow> 'a bio_scheme" where
  "disk_rw b wr s =
     (let q = bufs s b in
      if wr then s\<lparr>disk := (disk s)(blockno q := data q), dwrites := dwrites s @ [(blockno q, data q)]\<rparr>
      else upd_buf b (data_update (\<lambda>_. disk s (blockno q))) s)"

definition bget :: "u32 \<Rightarrow> u32 \<Rightarrow> 'a bio_scheme \<Rightarrow> (nat \<times> 'a bio_scheme) res" where
  "bget d n s = bindE (kacquire BcacheLock s) (\<lambda>s.
     case find (\<lambda>b. dev (bufs s b) = d \<and> blockno (bufs s b) = n) (lru s) of
       Some b \<Rightarrow>
         bindE (krelease BcacheLock (upd_buf b (\<lambda>q. q\<lparr>refcnt := refcnt q + 1\<rparr>) s)) (\<lambda>s.
           bindE (acquiresleep b s) (\<lambda>s. Inr (b, s)))
     | None \<Rightarrow>
         (case find (\<lambda>b. refcnt (bufs s b) = 0) (rev (lru s)) of
            Some b \<Rightarrow>
              bindE (krelease BcacheLock
                  (upd_buf b (\<lambda>q. q\<lparr>dev := d, blockno := n, valid := False, refcnt := 1\<rparr>) s)) (\<lambda>s.
                bindE (acquiresleep b s) (\<lambda>s. Inr (b, s)))
          | None \<Rightarrow> Inl (Panic ''bget: no buffers'')))"

definition bread :: "u32 \<Rightarrow> u32 \<Rightarrow> 'a bio_scheme \<Rightarrow> (nat \<times> 'a bio_scheme) res" where
  "bread d n s = bindE (bget d n s) (\<lambda>(b, s).
     Inr (b, if valid (bufs s b) then s else upd_buf b (valid_update (\<lambda>_. True)) (disk_rw b False s)))"

definition bwrite :: "nat \<Rightarrow> 'a bio_scheme \<Rightarrow> 'a bio_scheme res" where
  "bwrite b s = bindE (holdingsleep b s) (\<lambda>(h, s).
     if h then Inr (disk_rw b True s) else Inl (Panic ''bwrite''))"

definition to_front :: "nat \<Rightarrow> nat list \<Rightarrow> nat list" where
  "to_front b xs = b # remove1 b xs"

definition brelse :: "nat \<Rightarrow> 'a bio_scheme \<Rightarrow> 'a bio_scheme res" where
  "brelse b s = bindE (holdingsleep b s) (\<lambda>(h, s).
     if \<not> h then Inl (Panic ''brelse'')
     else bindE (releasesleep b s) (\<lambda>s. bindE (kacquire BcacheLock s) (\<lambda>s.
       let s = upd_buf b (\<lambda>q. q\<lparr>refcnt := refcnt q - 1\<rparr>) s in
       krelease BcacheLock (if refcnt (bufs s b) = 0 then s\<lparr>lru := to_front b (lru s)\<rparr> else s))))"

definition bpin :: "nat \<Rightarrow> 'a bio_scheme \<Rightarrow> 'a bio_scheme res" where
  "bpin b s = bindE (kacquire BcacheLock s) (\<lambda>s.
     krelease BcacheLock (upd_buf b (\<lambda>q. q\<lparr>refcnt := refcnt q + 1\<rparr>) s))"

definition bunpin :: "nat \<Rightarrow> 'a bio_scheme \<Rightarrow> 'a bio_scheme res" where
  "bunpin b s = bindE (kacquire BcacheLock s) (\<lambda>s.
     krelease BcacheLock (upd_buf b (\<lambda>q. q\<lparr>refcnt := refcnt q - 1\<rparr>) s))"

subsection \<open>What the operations do when no lock is contended\<close>

text \<open>The buffer that holds a block, if any.\<close>

definition cached :: "u32 \<Rightarrow> u32 \<Rightarrow> 'a bio_scheme \<Rightarrow> nat option" where
  "cached d n s = find (\<lambda>b. dev (bufs s b) = d \<and> blockno (bufs s b) = n) (lru s)"

text \<open>The contents of a block as the kernel sees it.\<close>

definition blk :: "u32 \<Rightarrow> u32 \<Rightarrow> 'a bio_scheme \<Rightarrow> u8 list" where
  "blk d n s = (case cached d n s of
     Some b \<Rightarrow> if valid (bufs s b) then data (bufs s b) else disk s n | None \<Rightarrow> disk s n)"

definition bget_buf :: "u32 \<Rightarrow> u32 \<Rightarrow> 'a bio_scheme \<Rightarrow> nat option" where
  "bget_buf d n s = (case cached d n s of
     Some b \<Rightarrow> Some b | None \<Rightarrow> find (\<lambda>b. refcnt (bufs s b) = 0) (rev (lru s)))"

definition bread_state :: "u32 \<Rightarrow> u32 \<Rightarrow> nat \<Rightarrow> 'a bio_scheme \<Rightarrow> 'a bio_scheme" where
  "bread_state d n b s = s
     \<lparr>slock := (slock s)(b := \<lparr>slocked = True, spid = pid (cur s)\<rparr>),
      bufs := (bufs s)(b := \<lparr>valid = True, dev = d, blockno = n,
        refcnt = (case cached d n s of None \<Rightarrow> 1 | Some _ \<Rightarrow> refcnt (bufs s b) + 1), data = blk d n s\<rparr>)\<rparr>"

lemma find_SomeD: "find P xs = Some x \<Longrightarrow> P x \<and> x \<in> set xs"
  by (auto simp: find_Some_iff)

lemma bread_eq:
  assumes "held s = {}" "bget_buf d n s = Some b" "\<not> slocked (slock s b)"
  shows "bread d n s = Inr (b, bread_state d n b s)"
proof (cases "cached d n s")
  case None
  then have "find (\<lambda>b. dev (bufs s b) = d \<and> blockno (bufs s b) = n) (lru s) = None"
    by (simp add: cached_def)
  with None show ?thesis using assms
    by (cases "bufs s b") (simp add: bread_def bget_def lock_defs bget_buf_def upd_buf_def held_id
        acquiresleep_free set_slock_def disk_rw_def bread_state_def blk_def myproc_def)
next
  case (Some c)
  then have f: "find (\<lambda>b. dev (bufs s b) = d \<and> blockno (bufs s b) = n) (lru s) = Some b"
    using assms(2) by (simp add: cached_def bget_buf_def)
  then have b: "dev (bufs s b) = d" "blockno (bufs s b) = n" by (auto dest: find_SomeD)
  have c: "cached d n s = Some b" using f by (simp add: cached_def)
  show ?thesis using assms f b c
    by (cases "bufs s b") (auto simp: bread_def bget_def lock_defs bget_buf_def upd_buf_def held_id
        acquiresleep_free set_slock_def disk_rw_def bread_state_def blk_def myproc_def)
qed

lemma bread_no_buffer:
  assumes "held s = {}" "bget_buf d n s = None"
  shows "bread d n s = Inl (Panic ''bget: no buffers'')"
proof -
  have "find (\<lambda>b. dev (bufs s b) = d \<and> blockno (bufs s b) = n) (lru s) = None"
    "find (\<lambda>b. refcnt (bufs s b) = 0) (rev (lru s)) = None"
    using assms(2) by (auto simp: bget_buf_def cached_def split: option.splits)
  then show ?thesis using assms(1) by (simp add: bread_def bget_def lock_defs)
qed

definition brelse_state :: "nat \<Rightarrow> 'a bio_scheme \<Rightarrow> 'a bio_scheme" where
  "brelse_state b s = (let r = refcnt (bufs s b) - 1 in s
     \<lparr>slock := (slock s)(b := \<lparr>slocked = False, spid = 0\<rparr>),
      bufs := (bufs s)(b := (bufs s b)\<lparr>refcnt := r\<rparr>),
      lru := if r = 0 then to_front b (lru s) else lru s, proc := woken (ChSleeplock b) (proc s)\<rparr>)"

lemma brelse_eq: "held s = {} \<Longrightarrow> owns b s \<Longrightarrow> brelse b s = Inr (brelse_state b s)"
  by (simp add: brelse_def holdingsleep_eq releasesleep_eq lock_defs wake_all_def set_slock_def upd_buf_def
      brelse_state_def Let_def held_id)

lemma bwrite_eq: "held s = {} \<Longrightarrow> owns b s \<Longrightarrow> bwrite b s = Inr (disk_rw b True s)"
  by (simp add: bwrite_def holdingsleep_eq)

lemma bpin_eq: "BcacheLock \<notin> held s \<Longrightarrow> bpin b s = Inr (upd_buf b (\<lambda>q. q\<lparr>refcnt := refcnt q + 1\<rparr>) s)"
  by (simp add: bpin_def lock_defs upd_buf_def held_id insert_absorb)

lemma bunpin_eq: "BcacheLock \<notin> held s \<Longrightarrow> bunpin b s = Inr (upd_buf b (\<lambda>q. q\<lparr>refcnt := refcnt q - 1\<rparr>) s)"
  by (simp add: bunpin_def lock_defs upd_buf_def held_id insert_absorb)

subsection \<open>The cache of one device\<close>

text \<open>
  \<open>bc d pin ls s\<close>: the cache as one thread uses it on device \<open>d\<close>. The thread has the blocks
  \<open>ls\<close> locked, \<open>pin\<close> counts the further references to the buffer of each block, every block has
  at most one buffer, and a buffer that is neither locked nor referenced agrees with the disk.
\<close>

definition holds :: "u32 \<Rightarrow> u32 \<Rightarrow> nat \<Rightarrow> 'a bio_scheme \<Rightarrow> bool" where
  "holds d n b s \<longleftrightarrow> b < NBUF \<and> dev (bufs s b) = d \<and> blockno (bufs s b) = n"

definition bc_buf :: "u32 \<Rightarrow> (u32 \<Rightarrow> u32) \<Rightarrow> u32 set \<Rightarrow> 'a bio_scheme \<Rightarrow> nat \<Rightarrow> bool" where
  "bc_buf d pin ls s b \<longleftrightarrow> (let q = bufs s b; n = blockno q in
     if dev q = d
     then refcnt q = pin n + (if n \<in> ls then 1 else 0) \<and> slocked (slock s b) = (n \<in> ls) \<and>
       (n \<in> ls \<longrightarrow> spid (slock s b) = pid (cur s)) \<and>
       (pin n \<noteq> 0 \<or> n \<in> ls \<longrightarrow> valid q) \<and>
       (valid q \<longrightarrow> length (data q) = BSIZE \<and> (pin n = 0 \<and> n \<notin> ls \<longrightarrow> data q = disk s n))
     else refcnt q = 0 \<and> \<not> slocked (slock s b))"

definition bc :: "u32 \<Rightarrow> (u32 \<Rightarrow> u32) \<Rightarrow> u32 set \<Rightarrow> 'a bio_scheme \<Rightarrow> bool" where
  "bc d pin ls s \<longleftrightarrow> held s = {} \<and> distinct (lru s) \<and> set (lru s) = {..<NBUF} \<and>
     (\<forall>n b c. holds d n b s \<longrightarrow> holds d n c s \<longrightarrow> b = c) \<and>
     (\<forall>n. pin n \<noteq> 0 \<or> n \<in> ls \<longrightarrow> (\<exists>b. holds d n b s)) \<and>
     (\<forall>b<NBUF. bc_buf d pin ls s b) \<and> (\<forall>n. length (disk s n) = BSIZE) \<and> finite ls \<and> finite {n. pin n \<noteq> 0}"

lemma bc_unique: "bc d pin ls s \<Longrightarrow> holds d n b s \<Longrightarrow> holds d n c s \<Longrightarrow> b = c"
  by (simp add: bc_def)

lemma bc_cached:
  assumes "bc d pin ls s"
  shows "cached d n s = Some b \<longleftrightarrow> holds d n b s"
proof
  assume "cached d n s = Some b"
  then show "holds d n b s"
    using assms by (auto simp: cached_def holds_def bc_def dest: find_SomeD)
next
  assume b: "holds d n b s"
  then obtain c where c: "cached d n s = Some c"
    using assms by (cases "cached d n s") (auto simp: cached_def holds_def bc_def find_None_iff)
  then have "holds d n c s"
    using assms by (auto simp: cached_def holds_def bc_def dest: find_SomeD)
  with b assms have "b = c" by (intro bc_unique)
  with c show "cached d n s = Some b" by simp
qed

lemma bc_none: "bc d pin ls s \<Longrightarrow> cached d n s = None \<longleftrightarrow> (\<forall>b. \<not> holds d n b s)"
  using bc_cached [of d pin ls s n] by (metis not_Some_eq option.distinct(1))

lemma bc_bufE:
  assumes "bc_buf d pin ls s b" "dev (bufs s b) = d" "blockno (bufs s b) = n"
  shows "refcnt (bufs s b) = pin n + (if n \<in> ls then 1 else 0)" "slocked (slock s b) \<longleftrightarrow> n \<in> ls"
    "n \<in> ls \<Longrightarrow> spid (slock s b) = pid (cur s)"
    "pin n \<noteq> 0 \<or> n \<in> ls \<Longrightarrow> valid (bufs s b)"
    "valid (bufs s b) \<Longrightarrow> length (data (bufs s b)) = BSIZE"
    "valid (bufs s b) \<Longrightarrow> pin n = 0 \<Longrightarrow> n \<notin> ls \<Longrightarrow> data (bufs s b) = disk s n"
  using assms by (auto simp: bc_buf_def Let_def)

lemma bc_buf_other: "bc_buf d pin ls s b \<Longrightarrow> dev (bufs s b) \<noteq> d \<Longrightarrow> refcnt (bufs s b) = 0 \<and> \<not> slocked (slock s b)"
  unfolding bc_buf_def Let_def by presburger

lemma bc_buf_locked:
  assumes "bc_buf d pin ls s b" "slocked (slock s b)" "\<forall>m\<in>ls. pin m + 1 \<noteq> 0"
  shows "refcnt (bufs s b) \<noteq> 0"
proof (cases "dev (bufs s b) = d")
  case True
  then show ?thesis using bc_bufE(1,2) [OF assms(1) _ refl] assms(2,3) by simp
next
  case False
  then show ?thesis using bc_buf_other [OF assms(1)] assms(2) by simp
qed

lemma bc_bufD: "bc d pin ls s \<Longrightarrow> b < NBUF \<Longrightarrow> bc_buf d pin ls s b"
  by (simp add: bc_def)

text \<open>With fewer than thirty blocks in use there is a buffer to recycle.\<close>

lemma bc_free:
  assumes "bc d pin ls s" "card ({n. pin n \<noteq> 0} \<union> ls) < NBUF"
  shows "\<exists>b<NBUF. refcnt (bufs s b) = 0"
proof (rule ccontr)
  assume none: "\<not> ?thesis"
  let ?use = "{n. pin n \<noteq> 0} \<union> ls"
  have fin: "finite ?use" using assms(1) by (simp add: bc_def)
  have used: "dev (bufs s b) = d \<and> blockno (bufs s b) \<in> ?use" if "b < NBUF" for b
  proof -
    note b = bc_bufD [OF assms(1) that]
    have ref: "refcnt (bufs s b) \<noteq> 0" using none that by blast
    then have "dev (bufs s b) = d" using bc_buf_other [OF b] by blast
    with ref bc_bufE(1) [OF b this refl] show ?thesis by (auto split: if_splits)
  qed
  have "inj_on (\<lambda>b. blockno (bufs s b)) {..<NBUF}"
    by (intro inj_onI bc_unique [OF assms(1)]) (use used in \<open>simp_all add: holds_def\<close>)
  moreover have "(\<lambda>b. blockno (bufs s b)) ` {..<NBUF} \<subseteq> ?use" using used by (intro image_subsetI) simp
  ultimately have "card {..<NBUF} \<le> card ?use" using fin by (rule card_inj_on_le)
  with assms(2) show False by simp
qed

lemma bc_bget:
  assumes "bc d pin ls s" "n \<notin> ls" "\<forall>m\<in>ls. pin m + 1 \<noteq> 0"
    "pin n \<noteq> 0 \<or> card ({n. pin n \<noteq> 0} \<union> ls) < NBUF"
  shows "\<exists>b. bget_buf d n s = Some b \<and> b < NBUF \<and> \<not> slocked (slock s b) \<and>
    (cached d n s = None \<longrightarrow> refcnt (bufs s b) = 0)"
proof (cases "cached d n s")
  case None
  then have "pin n = 0" using assms(1) by (auto simp: bc_none) (auto simp: bc_def)
  then obtain b0 where b0: "b0 < NBUF" "refcnt (bufs s b0) = 0" using bc_free [OF assms(1)] assms(4) by auto
  moreover have lru: "set (lru s) = {..<NBUF}" using assms(1) by (simp add: bc_def)
  ultimately obtain b where b: "find (\<lambda>b. refcnt (bufs s b) = 0) (rev (lru s)) = Some b"
    by (cases "find (\<lambda>b. refcnt (bufs s b) = 0) (rev (lru s))") (auto simp: find_None_iff)
  then have "refcnt (bufs s b) = 0" "b < NBUF" using find_SomeD [OF b] lru by auto
  moreover from this have "\<not> slocked (slock s b)"
    using bc_buf_locked [OF bc_bufD [OF assms(1)]] assms(3) by blast
  ultimately show ?thesis using None b by (simp add: bget_buf_def)
next
  case (Some b)
  then have "holds d n b s" using bc_cached [OF assms(1)] by simp
  then have b: "b < NBUF" "dev (bufs s b) = d" "blockno (bufs s b) = n" by (simp_all add: holds_def)
  then have "\<not> slocked (slock s b)" using bc_bufE(2) [OF bc_bufD [OF assms(1)]] assms(2) by blast
  with Some b show ?thesis by (simp add: bget_buf_def)
qed

lemma blk_valid: "bc d pin ls s \<Longrightarrow> holds d n b s \<Longrightarrow> valid (bufs s b) \<Longrightarrow> blk d n s = data (bufs s b)"
  by (simp add: blk_def bc_cached [THEN iffD2])

lemma blk_clean: "bc d pin ls s \<Longrightarrow> pin n = 0 \<Longrightarrow> n \<notin> ls \<Longrightarrow> blk d n s = disk s n"
proof (cases "cached d n s")
  case (Some b)
  assume *: "bc d pin ls s" "pin n = 0" "n \<notin> ls"
  then have "holds d n b s" using Some bc_cached by blast
  then have "b < NBUF" "dev (bufs s b) = d" "blockno (bufs s b) = n" by (simp_all add: holds_def)
  then show ?thesis using Some bc_bufE(6) [OF bc_bufD [OF *(1)]] * by (auto simp: blk_def)
qed (simp add: blk_def)

lemma blk_length: "bc d pin ls s \<Longrightarrow> length (blk d n s) = BSIZE"
proof (cases "cached d n s")
  case (Some b)
  assume *: "bc d pin ls s"
  then have "holds d n b s" using Some bc_cached by blast
  then have "b < NBUF" "dev (bufs s b) = d" "blockno (bufs s b) = n" by (simp_all add: holds_def)
  then show ?thesis using Some bc_bufE(5) [OF bc_bufD [OF *(1)]] * by (auto simp: blk_def) (simp add: bc_def)
qed (simp add: blk_def bc_def)

text \<open>Views of two states agree where the buffers and the disk do.\<close>

lemma blk_same:
  assumes "bc d pin ls s" "bc d pin' ls' t" "\<And>b. holds d n b s \<longleftrightarrow> holds d n b t"
    "\<And>b. holds d n b s \<Longrightarrow> valid (bufs t b) = valid (bufs s b) \<and> data (bufs t b) = data (bufs s b)"
    "disk t n = disk s n"
  shows "blk d n t = blk d n s"
proof (cases "cached d n s")
  case None
  then have "cached d n t = None" using assms by (simp add: bc_none)
  with None show ?thesis using assms(5) by (simp add: blk_def)
next
  case (Some b)
  then have "holds d n b s" using assms(1) by (simp add: bc_cached)
  moreover from this have "cached d n t = Some b" using assms by (simp add: bc_cached)
  ultimately show ?thesis using Some assms(4) [of b] assms(5) by (simp add: blk_def)
qed

lemma bread_state_simps [simp]:
  "held (bread_state d n b s) = held s" "lru (bread_state d n b s) = lru s" "disk (bread_state d n b s) = disk s"
  "proc (bread_state d n b s) = proc s" "me (bread_state d n b s) = me s" "dwrites (bread_state d n b s) = dwrites s"
  by (simp_all add: bread_state_def)

lemma bufs_bread_state: "bufs (bread_state d n b s) = (bufs s)(b := \<lparr>valid = True, dev = d, blockno = n,
    refcnt = (case cached d n s of None \<Rightarrow> 1 | Some _ \<Rightarrow> refcnt (bufs s b) + 1), data = blk d n s\<rparr>)"
  by (simp add: bread_state_def)

lemma slock_bread_state: "slock (bread_state d n b s) = (slock s)(b := \<lparr>slocked = True, spid = pid (cur s)\<rparr>)"
  by (simp add: bread_state_def)

lemma holds_bread_state:
  "holds d m c (bread_state d n b s) \<longleftrightarrow> c < NBUF \<and> (if c = b then m = n else holds d m c s)"
  by (cases "c = b") (auto simp: holds_def bufs_bread_state)

lemma bc_bread:
  assumes "bc d pin ls s" "n \<notin> ls" "\<forall>m\<in>ls. pin m + 1 \<noteq> 0" "pin n \<noteq> 0 \<or> card ({n. pin n \<noteq> 0} \<union> ls) < NBUF"
  obtains b where "bread d n s = Inr (b, bread_state d n b s)" "holds d n b (bread_state d n b s)"
    "valid (bufs (bread_state d n b s) b)" "data (bufs (bread_state d n b s) b) = blk d n s"
    "bc d pin (insert n ls) (bread_state d n b s)" "\<And>m. blk d m (bread_state d n b s) = blk d m s"
proof -
  from bc_bget [OF assms]
  obtain b where b: "bget_buf d n s = Some b" "b < NBUF" "\<not> slocked (slock s b)"
      and rec: "cached d n s = None \<longrightarrow> refcnt (bufs s b) = 0"
    by (elim exE conjE)
  let ?t = "bread_state d n b s"
  have held: "held s = {}" using assms(1) by (simp add: bc_def)
  have q: "bufs ?t b = \<lparr>valid = True, dev = d, blockno = n,
      refcnt = (case cached d n s of None \<Rightarrow> 1 | Some _ \<Rightarrow> refcnt (bufs s b) + 1), data = blk d n s\<rparr>"
    and o: "\<And>c. c \<noteq> b \<Longrightarrow> bufs ?t c = bufs s c" "\<And>c. c \<noteq> b \<Longrightarrow> slock ?t c = slock s c"
    and sl: "slock ?t b = \<lparr>slocked = True, spid = pid (cur s)\<rparr>"
    by (simp_all add: bufs_bread_state slock_bread_state)
  have hb: "holds d n b ?t" using b by (simp add: holds_bread_state)
  have only: "holds d n c s \<Longrightarrow> c = b" for c
    using bc_cached [OF assms(1), of n c] b(1) by (auto simp: bget_buf_def)
  have old: "\<not> (pin m \<noteq> 0 \<or> m \<in> ls)" if "m \<noteq> n" "holds d m b s" for m
  proof -
    have m: "dev (bufs s b) = d" "blockno (bufs s b) = m" using that by (simp_all add: holds_def)
    have "cached d n s = None"
      using b(1) m(2) that(1) bc_cached [OF assms(1), of n b]
      by (cases "cached d n s") (simp_all add: bget_buf_def holds_def)
    from rec [rule_format, OF this] bc_bufE(1) [OF bc_bufD [OF assms(1) b(2)] m] assms(3) show ?thesis by (auto split: if_splits)
  qed
  have pin: "refcnt (bufs ?t b) = pin n + 1"
  proof (cases "cached d n s")
    case None
    then have "pin n = 0" using assms(1) by (auto simp: bc_none) (auto simp: bc_def)
    with None show ?thesis by (simp add: q)
  next
    case (Some c)
    then have "holds d n b s" using b(1) bc_cached [OF assms(1), of n b] by (simp add: bget_buf_def)
    then have "refcnt (bufs s b) = pin n"
      using bc_bufE(1) [OF bc_bufD [OF assms(1) b(2)]] assms(2) by (simp add: holds_def)
    with Some show ?thesis by (simp add: q)
  qed
  have bc: "bc d pin (insert n ls) ?t"
    unfolding bc_def
  proof (intro conjI allI impI)
    show "c = c'" if "holds d m c ?t" "holds d m c' ?t" for m c c'
      using that only [of c] only [of c'] bc_unique [OF assms(1), of m c c']
      by (simp add: holds_bread_state split: if_splits)
    show "\<exists>c. holds d m c ?t" if "pin m \<noteq> 0 \<or> m \<in> insert n ls" for m
    proof (cases "m = n")
      case False
      with that obtain c where c: "holds d m c s" using assms(1) by (auto simp: bc_def)
      with False that old have "c \<noteq> b" by auto
      with c have "holds d m c ?t" by (simp add: holds_bread_state) (simp add: holds_def)
      then show ?thesis ..
    qed (use hb in auto)
    show "bc_buf d pin (insert n ls) ?t c" if "c < NBUF" for c
    proof (cases "c = b")
      case True
      then show ?thesis using pin blk_length [OF assms(1)] by (auto simp: bc_buf_def q sl Let_def myproc_def)
    next
      case False
      have "bc_buf d pin ls s c" using assms(1) that by (rule bc_bufD)
      moreover have "blockno (bufs s c) \<noteq> n \<or> dev (bufs s c) \<noteq> d" using False only [of c] that by (auto simp: holds_def)
      ultimately show ?thesis using False by (auto simp: bc_buf_def o Let_def myproc_def split: if_splits)
    qed
  qed (use assms(1) in \<open>simp_all add: bc_def\<close>)
  have blk: "blk d m ?t = blk d m s" for m
  proof (cases "m = n")
    case True
    then show ?thesis using blk_valid [OF bc hb] by (simp add: q)
  next
    case False
    show ?thesis
    proof (cases "holds d m b s")
      case True
      with old [OF False] have c: "pin m = 0" "m \<notin> insert n ls" using False by auto
      then show ?thesis using blk_clean [OF bc] blk_clean [OF assms(1)] by simp
    next
      case nb: False
      have "holds d m c s \<longleftrightarrow> holds d m c ?t" for c
        using nb False by (auto simp: holds_bread_state) (simp add: holds_def)
      moreover have "c \<noteq> b" if "holds d m c s" for c using nb that by blast
      ultimately show ?thesis by (intro blk_same [OF assms(1) bc]) (simp_all add: o)
    qed
  qed
  show thesis using that [of b] bread_eq [OF held b(1,3)] hb bc blk q by simp
qed

text \<open>The buffer of a locked block.\<close>

lemma bc_owns:
  assumes "bc d pin ls s" "holds d n b s" "n \<in> ls"
  shows "owns b s" "valid (bufs s b)" "data (bufs s b) = blk d n s" "b < NBUF" "held s = {}"
    "refcnt (bufs s b) = pin n + 1"
proof -
  have b: "b < NBUF" "dev (bufs s b) = d" "blockno (bufs s b) = n" using assms(2) by (simp_all add: holds_def)
  note e = bc_bufE [OF bc_bufD [OF assms(1) b(1)] b(2,3)]
  show "owns b s" "valid (bufs s b)" "b < NBUF" "refcnt (bufs s b) = pin n + 1"
    using assms(3) e b by (simp_all add: owns_def)
  then show "data (bufs s b) = blk d n s" using blk_valid [OF assms(1,2)] by simp
  show "held s = {}" using assms(1) by (simp add: bc_def)
qed

text \<open>Changes of buffers that keep which block each holds.\<close>

lemma bc_update:
  assumes "bc d pin ls s" "held t = {}" "distinct (lru t)" "set (lru t) = {..<NBUF}"
    "\<And>b. dev (bufs t b) = dev (bufs s b) \<and> blockno (bufs t b) = blockno (bufs s b)"
    "\<And>n. pin' n \<noteq> 0 \<or> n \<in> ls' \<Longrightarrow> \<exists>b. holds d n b s" "\<And>b. b < NBUF \<Longrightarrow> bc_buf d pin' ls' t b"
    "\<And>n. length (disk t n) = BSIZE" "finite ls'" "finite {n. pin' n \<noteq> 0}"
  shows "bc d pin' ls' t"
proof -
  have h: "holds d n b t \<longleftrightarrow> holds d n b s" for n b using assms(5) by (simp add: holds_def)
  show ?thesis
    unfolding bc_def using assms(2-4,6-10) bc_unique [OF assms(1)] by (simp add: h)
qed

lemma bc_set_data:
  assumes "bc d pin ls s" "holds d n b s" "n \<in> ls" "length x = BSIZE"
  shows "bc d pin ls (upd_buf b (data_update (\<lambda>_. x)) s)"
    "blk d m (upd_buf b (data_update (\<lambda>_. x)) s) = (if m = n then x else blk d m s)"
proof -
  let ?t = "upd_buf b (data_update (\<lambda>_. x)) s"
  note b = bc_owns [OF assms(1-3)]
  have t: "bufs ?t = (bufs s)(b := (bufs s b)\<lparr>data := x\<rparr>)" "slock ?t = slock s" "disk ?t = disk s"
    "held ?t = held s" "lru ?t = lru s" "proc ?t = proc s" "me ?t = me s"
    by (simp_all add: upd_buf_def)
  show bc: "bc d pin ls ?t"
  proof (rule bc_update [OF assms(1)])
    show "bc_buf d pin ls ?t c" if "c < NBUF" for c
    proof (cases "c = b")
      case True
      then show ?thesis using bc_bufD [OF assms(1) that] assms(2-4) by (auto simp: bc_buf_def t Let_def holds_def myproc_def)
    next
      case False
      then show ?thesis using bc_bufD [OF assms(1) that]
        by (auto simp: bc_buf_def t Let_def myproc_def split: if_splits)
    qed
  qed (use assms(1) in \<open>simp_all add: t bc_def\<close>)
  have h: "holds d k c ?t \<longleftrightarrow> holds d k c s" for k c by (simp add: holds_def t)
  show "blk d m ?t = (if m = n then x else blk d m s)"
  proof (cases "m = n")
    case True
    then show ?thesis using blk_valid [OF bc, of n b] assms(2) b(2) by (simp add: h t)
  next
    case False
    then have "c \<noteq> b" if "holds d m c s" for c using that assms(2) by (auto simp: holds_def)
    then have "blk d m ?t = blk d m s" by (intro blk_same [OF assms(1) bc]) (simp_all add: h t)
    then show ?thesis using False by simp
  qed
qed

lemma disk_rw_write_simps [simp]:
  "bufs (disk_rw b True s) = bufs s" "slock (disk_rw b True s) = slock s" "held (disk_rw b True s) = held s"
  "lru (disk_rw b True s) = lru s" "proc (disk_rw b True s) = proc s" "me (disk_rw b True s) = me s"
  "disk (disk_rw b True s) = (disk s)(blockno (bufs s b) := data (bufs s b))"
  "dwrites (disk_rw b True s) = dwrites s @ [(blockno (bufs s b), data (bufs s b))]"
  by (simp_all add: disk_rw_def Let_def)

lemma bc_bwrite:
  assumes "bc d pin ls s" "holds d n b s" "n \<in> ls"
  shows "bwrite b s = Inr (disk_rw b True s)" "bc d pin ls (disk_rw b True s)"
    "blk d m (disk_rw b True s) = blk d m s" "disk (disk_rw b True s) = (disk s)(n := blk d n s)"
    "dwrites (disk_rw b True s) = dwrites s @ [(n, blk d n s)]"
proof -
  note b = bc_owns [OF assms]
  have n: "blockno (bufs s b) = n" using assms(2) by (simp add: holds_def)
  show "bwrite b s = Inr (disk_rw b True s)" using b by (simp add: bwrite_eq)
  show disk: "disk (disk_rw b True s) = (disk s)(n := blk d n s)"
    "dwrites (disk_rw b True s) = dwrites s @ [(n, blk d n s)]" using b n by simp_all
  show bc: "bc d pin ls (disk_rw b True s)"
  proof (rule bc_update [OF assms(1)])
    show "bc_buf d pin ls (disk_rw b True s) c" if "c < NBUF" for c
      using bc_bufD [OF assms(1) that] assms(3) by (auto simp: bc_buf_def Let_def myproc_def n split: if_splits)
    show "length (disk (disk_rw b True s) k) = BSIZE" for k
      using assms(1) blk_length [OF assms(1), of n] by (simp add: b(3) bc_def)
  qed (use assms(1) in \<open>simp_all add: bc_def\<close>)
  show "blk d m (disk_rw b True s) = blk d m s"
  proof (cases "m = n")
    case True
    then show ?thesis using blk_valid [OF bc, of n b] assms(2) b by (simp add: holds_def)
  next
    case False
    then show ?thesis by (intro blk_same [OF assms(1) bc]) (simp_all add: holds_def disk n)
  qed
qed

lemma woken_fields [simp]: "pid (woken c ps p) = pid (ps p)"
  "psz (woken c ps p) = psz (ps p)" "cwd (woken c ps p) = cwd (ps p)"
  "ofile (woken c ps p) = ofile (ps p)" "trapframe (woken c ps p) = trapframe (ps p)"
  by (simp_all add: woken_def wake_def)

lemma brelse_state_simps [simp]:
  "held (brelse_state b s) = held s" "disk (brelse_state b s) = disk s" "dwrites (brelse_state b s) = dwrites s"
  "proc (brelse_state b s) = woken (ChSleeplock b) (proc s)" "me (brelse_state b s) = me s"
  "bufs (brelse_state b s) = (bufs s)(b := (bufs s b)\<lparr>refcnt := refcnt (bufs s b) - 1\<rparr>)"
  "slock (brelse_state b s) = (slock s)(b := \<lparr>slocked = False, spid = 0\<rparr>)"
  by (simp_all add: brelse_state_def Let_def)

lemma lru_brelse_state:
  assumes "distinct (lru s)" "b \<in> set (lru s)"
  shows "distinct (lru (brelse_state b s))" "set (lru (brelse_state b s)) = set (lru s)"
  using assms by (auto simp: brelse_state_def Let_def to_front_def)

lemma bc_brelse:
  assumes "bc d pin ls s" "holds d n b s" "n \<in> ls" "pin n \<noteq> 0 \<or> blk d n s = disk s n"
  shows "brelse b s = Inr (brelse_state b s)" "bc d pin (ls - {n}) (brelse_state b s)"
    "blk d m (brelse_state b s) = blk d m s"
proof -
  note b = bc_owns [OF assms(1-3)]
  have n: "blockno (bufs s b) = n" "dev (bufs s b) = d" using assms(2) by (simp_all add: holds_def)
  have lru: "distinct (lru s)" "set (lru s) = {..<NBUF}" using assms(1) by (simp_all add: bc_def)
  show "brelse b s = Inr (brelse_state b s)" using b by (simp add: brelse_eq)
  show bc: "bc d pin (ls - {n}) (brelse_state b s)"
  proof (rule bc_update [OF assms(1)])
    show "distinct (lru (brelse_state b s))" "set (lru (brelse_state b s)) = {..<NBUF}"
      using lru_brelse_state [of s b] lru b(4) by simp_all
    show "bc_buf d pin (ls - {n}) (brelse_state b s) c" if "c < NBUF" for c
    proof (cases "c = b")
      case True
      have "length (data (bufs s b)) = BSIZE" using blk_length [OF assms(1)] b(3) by simp
      then show ?thesis using True b assms(4) n by (auto simp: bc_buf_def Let_def)
    next
      case False
      have "\<not> (dev (bufs s c) = d \<and> blockno (bufs s c) = n)"
        using False bc_unique [OF assms(1,2), of c] that by (auto simp: holds_def)
      then show ?thesis using False bc_bufD [OF assms(1) that]
        by (auto simp: bc_buf_def Let_def myproc_def split: if_splits)
    qed
    show "\<exists>c. holds d k c s" if "pin k \<noteq> 0 \<or> k \<in> ls - {n}" for k
      using assms(1) that unfolding bc_def by blast
  qed (use assms(1) in \<open>auto simp: bc_def\<close>)
  show "blk d m (brelse_state b s) = blk d m s"
    by (intro blk_same [OF assms(1) bc]) (auto simp: holds_def)
qed

text \<open>Adding a reference to a locked buffer and dropping one.\<close>

lemma bc_repin:
  fixes k :: u32
  assumes "bc d pin ls s" "holds d n b s" "n \<in> ls"
  defines "t \<equiv> upd_buf b (\<lambda>q. q\<lparr>refcnt := refcnt q + k\<rparr>) s"
  shows "bc d (pin(n := pin n + k)) ls t" "blk d m t = blk d m s"
proof -
  note b = bc_owns [OF assms(1-3)]
  have n: "blockno (bufs s b) = n" "dev (bufs s b) = d" using assms(2) by (simp_all add: holds_def)
  have t: "bufs t = (bufs s)(b := (bufs s b)\<lparr>refcnt := refcnt (bufs s b) + k\<rparr>)" "slock t = slock s" "disk t = disk s"
    "held t = held s" "lru t = lru s" "proc t = proc s" "me t = me s"
    by (simp_all add: t_def upd_buf_def)
  show bc: "bc d (pin(n := pin n + k)) ls t"
  proof (rule bc_update [OF assms(1)])
    show "bc_buf d (pin(n := pin n + k)) ls t c" if "c < NBUF" for c
    proof (cases "c = b")
      case True
      have "length (data (bufs s b)) = BSIZE" using blk_length [OF assms(1)] b(3) by simp
      moreover have "slocked (slock s b)" "spid (slock s b) = pid (proc s (the (me s)))"
        using b(1) by (simp_all add: owns_def myproc_def)
      ultimately show ?thesis using True b assms(3) n by (simp add: bc_buf_def Let_def t myproc_def ac_simps)
    next
      case False
      have "\<not> (dev (bufs s c) = d \<and> blockno (bufs s c) = n)"
        using False bc_unique [OF assms(1,2), of c] that by (auto simp: holds_def)
      then show ?thesis using False bc_bufD [OF assms(1) that]
        by (auto simp: bc_buf_def Let_def myproc_def t split: if_splits)
    qed
    show "\<exists>c. holds d k' c s" if "(pin(n := pin n + k)) k' \<noteq> 0 \<or> k' \<in> ls" for k'
      using assms(1,2) that unfolding bc_def by (cases "k' = n") auto
    have "{m. (pin(n := pin n + k)) m \<noteq> 0} \<subseteq> insert n {m. pin m \<noteq> 0}" by auto
    then show "finite {m. (pin(n := pin n + k)) m \<noteq> 0}"
      by (rule finite_subset) (use assms(1) in \<open>simp add: bc_def\<close>)
  qed (use assms(1) in \<open>simp_all add: bc_def t\<close>)
  show "blk d m t = blk d m s"
    by (intro blk_same [OF assms(1) bc]) (auto simp: holds_def t)
qed

subsection \<open>What the cache leaves alone\<close>

text \<open>
  Only the buffers, their locks, the disk and the run states of processes change. The components
  above the cache read their own state off the equation.
\<close>

definition bframe :: "'a bio_scheme \<Rightarrow> 'a bio_scheme \<Rightarrow> bool" where
  "bframe s t \<longleftrightarrow> (\<exists>sl bf lr dk dw pr. t = s\<lparr>slock := sl, bufs := bf, lru := lr, disk := dk, dwrites := dw,
     proc := pr\<rparr>) \<and> (\<forall>l\<ge>NBUF. slock t l = slock s l) \<and>
     (\<forall>p. (proc t p)\<lparr>pstate := UNUSED\<rparr> = (proc s p)\<lparr>pstate := UNUSED\<rparr>)"

lemma bframeI:
  "\<forall>l\<ge>NBUF. sl l = slock s l \<Longrightarrow> \<forall>p. (pr p)\<lparr>pstate := UNUSED\<rparr> = (proc s p)\<lparr>pstate := UNUSED\<rparr> \<Longrightarrow>
   bframe s (s\<lparr>slock := sl, bufs := bf, lru := lr, disk := dk, dwrites := dw, proc := pr\<rparr>)"
  unfolding bframe_def by (intro conjI exI) (rule refl, simp_all)

lemma bframe_refl [simp]: "bframe s s"
  using bframeI [where sl = "slock s" and s = s and pr = "proc s" and bf = "bufs s" and lr = "lru s" and dk = "disk s" and dw = "dwrites s"] by simp

lemma bframe_trans [trans]:
  assumes "bframe s t" "bframe t u"
  shows "bframe s u"
proof -
  obtain sl bf lr dk dw pr where t: "t = s\<lparr>slock := sl, bufs := bf, lru := lr, disk := dk, dwrites := dw, proc := pr\<rparr>"
    using assms(1) unfolding bframe_def by (elim conjE exE)
  obtain sl' bf' lr' dk' dw' pr' where u: "u = t\<lparr>slock := sl', bufs := bf', lru := lr', disk := dk', dwrites := dw', proc := pr'\<rparr>"
    using assms(2) unfolding bframe_def by (elim conjE exE)
  have "u = s\<lparr>slock := sl', bufs := bf', lru := lr', disk := dk', dwrites := dw', proc := pr'\<rparr>"
    unfolding u t by simp
  moreover have "\<forall>l\<ge>NBUF. slock u l = slock s l" "\<forall>p. (proc u p)\<lparr>pstate := UNUSED\<rparr> = (proc s p)\<lparr>pstate := UNUSED\<rparr>"
    using assms by (simp_all add: bframe_def)
  ultimately show ?thesis unfolding bframe_def by (intro conjI exI)
qed

lemma wake_run_state: "(woken c ps p)\<lparr>pstate := UNUSED\<rparr> = (ps p)\<lparr>pstate := UNUSED\<rparr>"
  by (simp add: woken_def wake_def)

lemma bframe_bread: "b < NBUF \<Longrightarrow> bframe s (bread_state d n b s)"
  using bframeI [where sl = "slock (bread_state d n b s)" and s = s and pr = "proc s" and bf = "bufs (bread_state d n b s)" and lr = "lru s" and dk = "disk s" and dw = "dwrites s"]
  by (simp add: bread_state_def)

lemma bframe_brelse: "b < NBUF \<Longrightarrow> bframe s (brelse_state b s)"
  using bframeI [where sl = "slock (brelse_state b s)" and s = s and pr = "proc (brelse_state b s)" and bf = "bufs (brelse_state b s)" and lr = "lru (brelse_state b s)" and dk = "disk s" and dw = "dwrites s"]
  by (simp add: brelse_state_def Let_def wake_run_state split del: if_split)

lemma bframe_upd_buf: "bframe s (upd_buf b f s)"
  using bframeI [where sl = "slock s" and s = s and pr = "proc s" and bf = "bufs (upd_buf b f s)" and lr = "lru s" and dk = "disk s" and dw = "dwrites s"]
  by (simp add: upd_buf_def)

lemma bframe_disk_rw: "bframe s (disk_rw b True s)"
  using bframeI [where sl = "slock s" and s = s and pr = "proc s" and bf = "bufs s" and lr = "lru s" and dk = "disk (disk_rw b True s)" and dw = "dwrites (disk_rw b True s)"]
  by (simp add: disk_rw_def Let_def)

lemma bframe_proc:
  assumes "bframe s t"
  shows "held t = held s" "me t = me s" "mem t = mem s" "freelist t = freelist s" "myproc t = myproc s"
    "pid (proc t p) = pid (proc s p)" "pagetable (proc t p) = pagetable (proc s p)"
    "killed (proc t p) = killed (proc s p)" "cwd (proc t p) = cwd (proc s p)" "ofile (proc t p) = ofile (proc s p)"
    "psz (proc t p) = psz (proc s p)" "trapframe (proc t p) = trapframe (proc s p)"
proof -
  obtain sl bf lr dk dw pr where t: "t = s\<lparr>slock := sl, bufs := bf, lru := lr, disk := dk, dwrites := dw, proc := pr\<rparr>"
    using assms unfolding bframe_def by (elim conjE exE)
  show "held t = held s" "me t = me s" "mem t = mem s" "freelist t = freelist s" "myproc t = myproc s"
    by (simp_all add: t myproc_def)
  have "(proc t p)\<lparr>pstate := UNUSED\<rparr> = (proc s p)\<lparr>pstate := UNUSED\<rparr>" using assms by (simp add: bframe_def)
  from arg_cong [OF this, of pid] arg_cong [OF this, of pagetable] arg_cong [OF this, of killed]
    arg_cong [OF this, of cwd] arg_cong [OF this, of ofile] arg_cong [OF this, of psz] arg_cong [OF this, of trapframe]
  show "pid (proc t p) = pid (proc s p)" "pagetable (proc t p) = pagetable (proc s p)"
    "killed (proc t p) = killed (proc s p)" "cwd (proc t p) = cwd (proc s p)" "ofile (proc t p) = ofile (proc s p)"
    "psz (proc t p) = psz (proc s p)" "trapframe (proc t p) = trapframe (proc s p)" by simp_all
qed

subsection \<open>Properties\<close>

text \<open>An initialised cache.\<close>

lemma bc_fresh:
  assumes "held s = {}" "distinct (lru s)" "set (lru s) = {..<NBUF}" "\<And>n. length (disk s n) = BSIZE"
    "\<And>b. b < NBUF \<Longrightarrow> dev (bufs s b) \<noteq> d \<and> refcnt (bufs s b) = 0 \<and> \<not> slocked (slock s b)"
  shows "bc d (\<lambda>_. 0) {} s"
  using assms by (simp add: bc_def bc_buf_def holds_def Let_def) metis

lemma binit_fold:
  "n \<le> NBUF \<Longrightarrow> held s = {} \<Longrightarrow>
   fold (\<lambda>b s. let s = initsleeplock b s in s\<lparr>lru := b # lru s\<rparr>) [0..<n] (s\<lparr>lru := []\<rparr>) =
   s\<lparr>slock := (\<lambda>l. if l < n then \<lparr>slocked = False, spid = 0\<rparr> else slock s l), lru := rev [0..<n]\<rparr>"
  by (induction n)
    (auto simp: initsleeplock_def set_slock_def kinitlock_def Let_def held_id fun_eq_iff intro!: arg_cong [of _ _ "\<lambda>f. s\<lparr>slock := f, lru := _\<rparr>"])

lemma binit_bc:
  assumes "held s = {}" "\<And>n. length (disk s n) = BSIZE" "\<And>b. b < NBUF \<Longrightarrow> bufs s b = \<lparr>valid = False, dev = 0, blockno = 0, refcnt = 0, data = x\<rparr>"
    "d \<noteq> 0"
  shows "bc d (\<lambda>_. 0) {} (binit s)"
  using assms by (intro bc_fresh) (simp_all add: binit_def kinitlock_def held_id binit_fold atLeast0LessThan)

text \<open>
  C23. The buffer cache is coherent: as long as some buffer is free,
  \<^verbatim>\<open>bread\<close> returns a locked buffer with the current contents of the block, which is what was last
  stored in its buffer or else what is on the disk; the contents of no block change, whichever buffer is
  recycled, and the invariant of the cache holds again.
\<close>

theorem bread_coherent:
  assumes "bc d pin ls s" "n \<notin> ls" "\<forall>m\<in>ls. pin m + 1 \<noteq> 0" "card ({n. pin n \<noteq> 0} \<union> ls) < NBUF"
  shows "\<exists>b t. bread d n s = Inr (b, t) \<and> owns b t \<and> dev (bufs t b) = d \<and> blockno (bufs t b) = n \<and>
    data (bufs t b) = blk d n s \<and> bc d pin (insert n ls) t \<and> (\<forall>m. blk d m t = blk d m s) \<and> disk t = disk s"
proof -
  obtain b where b: "bread d n s = Inr (b, bread_state d n b s)" "holds d n b (bread_state d n b s)"
    "data (bufs (bread_state d n b s) b) = blk d n s" "bc d pin (insert n ls) (bread_state d n b s)"
    "\<And>m. blk d m (bread_state d n b s) = blk d m s"
    using bc_bread [OF assms(1-3)] assms(4) by blast
  show ?thesis
    using b bc_owns(1) [OF b(4,2)] by (intro exI [of _ b] exI [of _ "bread_state d n b s"]) (simp add: holds_def)
qed

definition bio_sample :: bio where
  "bio_sample = \<lparr>held = {}, kend = 0, mem = (\<lambda>_. 0), freelist = 0, kernel_pagetable = 0, etext = 0, trampoline = 0,
     proc = (\<lambda>_. empty_proc)(0 := empty_proc\<lparr>pstate := RUNNING, pid := 1\<rparr>), me = Some 0, initproc = Some 0,
     nextpid = 2, forkret_pc = 0, ticks = 0, pipe = (\<lambda>_. new_pipe), lsr_in = [], rhr_in = [],
     regs_out = [], uart_tx_buf = replicate 32 0, uart_tx_w = 0, uart_tx_r = 0, panicked = False,
     devsw = (\<lambda>_. NoDevice), cons_buf = replicate 128 0, cons_r = 0, cons_w = 0, cons_e = 0, pr_locking = True,
     slock = (\<lambda>_. \<lparr>slocked = False, spid = 0\<rparr>), bufs = (\<lambda>_. \<lparr>valid = False, dev = 0, blockno = 0, refcnt = 0, data = []\<rparr>),
     lru = rev [0..<30], disk = (\<lambda>n. replicate 1024 (ucast n)), dwrites = []\<rparr>"

lemma bio_sample_bc: "bc 1 (\<lambda>_. 0) {} bio_sample"
  by (rule bc_fresh) (auto simp: bio_sample_def NBUF_def BSIZE_def)

theorem bread_coherent_witness:
  "\<exists>b t. bread 1 33 bio_sample = Inr (b, t) \<and> data (bufs t b) = replicate 1024 33"
proof -
  have "\<exists>b t. bread 1 33 bio_sample = Inr (b, t) \<and> owns b t \<and> dev (bufs t b) = 1 \<and> blockno (bufs t b) = 33 \<and>
    data (bufs t b) = blk 1 33 bio_sample \<and> bc 1 (\<lambda>_. 0) (insert 33 {}) t \<and>
    (\<forall>m. blk 1 m t = blk 1 m bio_sample) \<and> disk t = disk bio_sample"
    by (rule bread_coherent [OF bio_sample_bc]) (simp_all add: NBUF_def)
  moreover have "blk 1 33 bio_sample = replicate 1024 33"
    by (simp add: blk_clean [OF bio_sample_bc]) (simp add: bio_sample_def)
  ultimately show ?thesis by metis
qed

end
