(* ===== verification/Log.thy ===== *)
theory Log
  imports Bio
begin

text \<open>
  The write-ahead log of the file system: \<^verbatim>\<open>kernel/log.c\<close>. The header block holds
  the number of logged blocks and their home block numbers as little-endian 32-bit words, at the
  offsets of \<^verbatim>\<open>struct logheader\<close>. \<^verbatim>\<open>begin_op\<close> stops with the channel
  of the log when it has to wait.
\<close>

subsection \<open>State and operations\<close>

definition MAXOPBLOCKS :: int where "MAXOPBLOCKS = 10"
definition LOGSIZE :: nat where "LOGSIZE = 30"

record log = bio +
  log_start :: u32
  log_size :: int
  outstanding :: int
  committing :: bool
  log_dev :: u32
  lh_n :: int
  lh_block :: "u32 list"

text \<open>A word and a run of bytes in a block.\<close>

definition get32 :: "u8 list \<Rightarrow> nat \<Rightarrow> u32" where
  "get32 bs off = of_le (take 4 (drop off bs))"

definition splice :: "nat \<Rightarrow> u8 list \<Rightarrow> u8 list \<Rightarrow> u8 list" where
  "splice off xs bs = take off bs @ xs @ drop (off + length xs) bs"

definition put32 :: "nat \<Rightarrow> u32 \<Rightarrow> u8 list \<Rightarrow> u8 list" where
  "put32 off w bs = splice off (le_bytes 4 w) bs"

definition set_data :: "nat \<Rightarrow> u8 list \<Rightarrow> 'a bio_scheme \<Rightarrow> 'a bio_scheme" where
  "set_data b d s = upd_buf b (data_update (\<lambda>_. d)) s"

text \<open>One round of the loops of \<^verbatim>\<open>install_trans\<close> and \<^verbatim>\<open>write_log\<close>.\<close>

definition install_tail :: "nat \<Rightarrow> 'a log_scheme \<Rightarrow> 'a log_scheme res" where
  "install_tail tail s =
     bindE (bread (log_dev s) (log_start s + of_nat tail + 1) s) (\<lambda>(lbuf, s).
     bindE (bread (log_dev s) (lh_block s ! tail) s) (\<lambda>(dbuf, s).
     bindE (bwrite dbuf (set_data dbuf (data (bufs s lbuf)) s)) (\<lambda>s.
     bindE (bunpin dbuf s) (\<lambda>s. bindE (brelse lbuf s) (brelse dbuf)))))"

definition install_trans :: "'a log_scheme \<Rightarrow> 'a log_scheme res" where
  "install_trans s = foldE install_tail [0..<nat (lh_n s)] s"

definition read_head :: "'a log_scheme \<Rightarrow> 'a log_scheme res" where
  "read_head s = bindE (bread (log_dev s) (log_start s) s) (\<lambda>(b, s).
     let lh = data (bufs s b); n = sint (get32 lh 0) in
     if n > int LOGSIZE then Inl Undef
     else brelse b (s\<lparr>lh_n := n,
       lh_block := map (\<lambda>i. get32 lh (4 + 4 * i)) [0..<nat n] @ drop (nat n) (lh_block s)\<rparr>))"

text \<open>The header with \<open>n\<close> and the first block numbers stored into it.\<close>

definition head_bytes :: "int \<Rightarrow> u32 list \<Rightarrow> u8 list \<Rightarrow> u8 list" where
  "head_bytes n ws hb =
     fold (\<lambda>i. put32 (4 + 4 * i) (ws ! i)) [0..<nat n] (put32 0 (word_of_int n) hb)"

definition write_head :: "'a log_scheme \<Rightarrow> 'a log_scheme res" where
  "write_head s = bindE (bread (log_dev s) (log_start s) s) (\<lambda>(b, s).
     bindE (bwrite b (set_data b (head_bytes (lh_n s) (lh_block s) (data (bufs s b))) s)) (brelse b))"

definition recover_from_log :: "'a log_scheme \<Rightarrow> 'a log_scheme res" where
  "recover_from_log s = bindE (read_head s) (\<lambda>s. bindE (install_trans s) (\<lambda>s. write_head (s\<lparr>lh_n := 0\<rparr>)))"

text \<open>
  \<^verbatim>\<open>initlog\<close> takes the two fields of the super block it uses; its first check compares
  two constants, the 124 bytes of the header and the 1024 of a block.
\<close>

definition initlog :: "u32 \<Rightarrow> u32 \<Rightarrow> u32 \<Rightarrow> 'a log_scheme \<Rightarrow> 'a log_scheme res" where
  "initlog d logstart nlog s =
     (if 4 + 4 * LOGSIZE \<ge> BSIZE then Inl (Panic ''initlog: too big logheader'')
      else recover_from_log ((kinitlock LogLock s)
        \<lparr>log_start := logstart, log_size := sint nlog, log_dev := d\<rparr>))"

definition begin_op :: "'a log_scheme \<Rightarrow> 'a log_scheme res" where
  "begin_op s = bindE (kacquire LogLock s) (\<lambda>s.
     if committing s \<or> lh_n s + (outstanding s + 1) * MAXOPBLOCKS > int LOGSIZE
     then bindE (sleep ChLog LogLock s) (\<lambda>_. Inl (Sleeps ChLog))
     else krelease LogLock (s\<lparr>outstanding := outstanding s + 1\<rparr>))"

definition write_tail :: "nat \<Rightarrow> 'a log_scheme \<Rightarrow> 'a log_scheme res" where
  "write_tail tail s =
     bindE (bread (log_dev s) (log_start s + of_nat tail + 1) s) (\<lambda>(to, s).
     bindE (bread (log_dev s) (lh_block s ! tail) s) (\<lambda>(from, s).
     bindE (bwrite to (set_data to (data (bufs s from)) s)) (\<lambda>s.
     bindE (brelse from s) (brelse to))))"

definition write_log :: "'a log_scheme \<Rightarrow> 'a log_scheme res" where
  "write_log s = foldE write_tail [0..<nat (lh_n s)] s"

definition commit :: "'a log_scheme \<Rightarrow> 'a log_scheme res" where
  "commit s =
     (if lh_n s > 0
      then bindE (write_log s) (\<lambda>s. bindE (write_head s) (\<lambda>s.
        bindE (install_trans s) (\<lambda>s. write_head (s\<lparr>lh_n := 0\<rparr>))))
      else Inr s)"

definition end_op :: "'a log_scheme \<Rightarrow> 'a log_scheme res" where
  "end_op s = bindE (kacquire LogLock s) (\<lambda>s.
     let s = s\<lparr>outstanding := outstanding s - 1\<rparr> in
     if committing s then Inl (Panic ''log.committing'')
     else if outstanding s = 0
     then bindE (krelease LogLock (s\<lparr>committing := True\<rparr>)) (\<lambda>s. bindE (commit s) (\<lambda>s.
       bindE (kacquire LogLock s) (\<lambda>s. bindE (wakeup ChLog (s\<lparr>committing := False\<rparr>)) (krelease LogLock))))
     else bindE (wakeup ChLog s) (krelease LogLock))"

text \<open>The index of a block in the first \<open>n\<close> entries of the header, or \<open>n\<close>.\<close>

definition lh_find :: "u32 list \<Rightarrow> u32 \<Rightarrow> nat \<Rightarrow> nat" where
  "lh_find ws w n = length (takeWhile (\<lambda>x. x \<noteq> w) (take n ws))"

definition log_write :: "nat \<Rightarrow> 'a log_scheme \<Rightarrow> 'a log_scheme res" where
  "log_write b s =
     (if lh_n s \<ge> int LOGSIZE \<or> lh_n s \<ge> log_size s - 1 then Inl (Panic ''too big a transaction'')
      else if outstanding s < 1 then Inl (Panic ''log_write outside of trans'')
      else bindE (kacquire LogLock s) (\<lambda>s.
        let i = lh_find (lh_block s) (blockno (bufs s b)) (nat (lh_n s));
            s = s\<lparr>lh_block := (lh_block s)[i := blockno (bufs s b)]\<rparr> in
        bindE (if int i = lh_n s
               then bindE (bpin b s) (\<lambda>s. Inr (s\<lparr>lh_n := lh_n s + 1\<rparr>)) else Inr s) (krelease LogLock)))"

subsection \<open>Sequences of disk writes\<close>

definition apply_writes :: "(u32 \<times> u8 list) list \<Rightarrow> (u32 \<Rightarrow> u8 list) \<Rightarrow> u32 \<Rightarrow> u8 list" where
  "apply_writes W D = fold (\<lambda>(n, x) D. D(n := x)) W D"

lemma apply_writes_simps [simp]:
  "apply_writes [] D = D" "apply_writes ((n, x) # W) D = apply_writes W (D(n := x))"
  "apply_writes (W @ W') D = apply_writes W' (apply_writes W D)"
  by (simp_all add: apply_writes_def)

lemma apply_writes_other: "n \<notin> fst ` set W \<Longrightarrow> apply_writes W D n = D n"
  by (induction W arbitrary: D) auto

text \<open>Writes to distinct blocks.\<close>

lemma apply_writes_map:
  assumes "distinct (map f is)" "i \<in> set is"
  shows "apply_writes (map (\<lambda>i. (f i, x i)) is) D (f i) = x i"
  using assms
proof (induction "is" arbitrary: D)
  case (Cons j "is")
  show ?case
  proof (cases "i = j")
    case True
    have "f i \<notin> fst ` set (map (\<lambda>i. (f i, x i)) is)" using Cons.prems(1) True by (auto simp: image_iff)
    then show ?thesis using True by (simp add: apply_writes_other)
  qed (use Cons in simp)
qed simp

text \<open>A step of the file system below the locks of the buffers: the blocks \<open>W\<close> are written.\<close>

definition wrote :: "(u32 \<times> u8 list) list \<Rightarrow> 'a bio_scheme \<Rightarrow> 'a bio_scheme \<Rightarrow> bool" where
  "wrote W s t \<longleftrightarrow> dwrites t = dwrites s @ W \<and> disk t = apply_writes W (disk s)"

lemma wrote_Nil [simp]: "wrote [] s s"
  by (simp add: wrote_def)

lemma wrote_trans: "wrote W s t \<Longrightarrow> wrote W' t u \<Longrightarrow> wrote (W @ W') s u"
  by (simp add: wrote_def)

subsection \<open>Steps on locked buffers\<close>

text \<open>
  Each operation of the buffer cache as a step: what it does to the locked blocks, the pins, the
  contents of the blocks and the disk.
\<close>

lemma bread_step:
  assumes "bc d pin ls s" "n \<notin> ls" "\<forall>m\<in>ls. pin m + 1 \<noteq> 0" "pin n \<noteq> 0 \<or> card ({n. pin n \<noteq> 0} \<union> ls) < NBUF"
  obtains b t where "bread d n s = Inr (b, t)" "holds d n b t" "data (bufs t b) = blk d n s"
    "bc d pin (insert n ls) t" "\<And>m. blk d m t = blk d m s" "bframe s t" "wrote [] s t"
    "\<And>m c. m \<in> ls \<Longrightarrow> holds d m c s \<Longrightarrow> holds d m c t"
proof -
  obtain b where b: "bread d n s = Inr (b, bread_state d n b s)" "holds d n b (bread_state d n b s)"
    "data (bufs (bread_state d n b s) b) = blk d n s" "bc d pin (insert n ls) (bread_state d n b s)"
    "\<And>m. blk d m (bread_state d n b s) = blk d m s"
    using bc_bread [OF assms] by metis
  have "holds d m c (bread_state d n b s)" if m: "m \<in> ls" "holds d m c s" for m c
  proof -
    obtain c' where c': "holds d m c' (bread_state d n b s)" using b(4) m(1) unfolding bc_def by blast
    moreover have "m \<noteq> n" using m(1) assms(2) by blast
    ultimately have "holds d m c' s" by (auto simp: holds_bread_state split: if_splits)
    with c' bc_unique [OF assms(1) m(2)] show ?thesis by simp
  qed
  moreover have "b < NBUF" using b(2) by (simp add: holds_def)
  ultimately show thesis using that b by (simp add: bframe_bread wrote_def)
qed

lemma set_data_step:
  assumes "bc d pin ls s" "holds d n b s" "n \<in> ls" "length x = BSIZE"
  shows "bc d pin ls (set_data b x s)" "blk d m (set_data b x s) = (if m = n then x else blk d m s)"
    "bframe s (set_data b x s)" "wrote [] s (set_data b x s)" "holds d m c (set_data b x s) \<longleftrightarrow> holds d m c s"
  using bc_set_data [OF assms]
  by (simp_all add: set_data_def bframe_upd_buf) (simp_all add: upd_buf_def wrote_def holds_def)

lemma bwrite_step:
  assumes "bc d pin ls s" "holds d n b s" "n \<in> ls"
  obtains t where "bwrite b s = Inr t" "bc d pin ls t" "\<And>m. blk d m t = blk d m s" "bframe s t"
    "wrote [(n, blk d n s)] s t" "\<And>m c. holds d m c t \<longleftrightarrow> holds d m c s"
  using that [of "disk_rw b True s"] bc_bwrite [OF assms] by (simp add: wrote_def bframe_disk_rw holds_def del: disk_rw_write_simps(7,8))

lemma brelse_step:
  assumes "bc d pin ls s" "holds d n b s" "n \<in> ls" "pin n \<noteq> 0 \<or> blk d n s = disk s n"
  obtains t where "brelse b s = Inr t" "bc d pin (ls - {n}) t" "\<And>m. blk d m t = blk d m s" "bframe s t"
    "wrote [] s t" "\<And>m c. holds d m c t \<longleftrightarrow> holds d m c s"
proof -
  have "b < NBUF" using assms(2) by (simp add: holds_def)
  moreover have "holds d m c (brelse_state b s) \<longleftrightarrow> holds d m c s" for m c by (auto simp: holds_def)
  ultimately show thesis
    using that [of "brelse_state b s"] bc_brelse [OF assms] by (simp add: wrote_def bframe_brelse)
qed

lemma bpin_step:
  assumes "bc d pin ls s" "holds d n b s" "n \<in> ls"
  obtains t where "bpin b s = Inr t" "bc d (pin(n := pin n + 1)) ls t" "\<And>m. blk d m t = blk d m s" "bframe s t"
    "wrote [] s t" "\<And>m c. holds d m c t \<longleftrightarrow> holds d m c s"
proof -
  let ?t = "upd_buf b (\<lambda>q. q\<lparr>refcnt := refcnt q + 1\<rparr>) s"
  have "holds d m c ?t \<longleftrightarrow> holds d m c s" for m c by (simp add: holds_def upd_buf_def)
  then show thesis
    using that [of ?t] bc_repin [OF assms, where k = 1] bc_owns(5) [OF assms]
    by (simp add: bpin_eq bframe_upd_buf) (simp add: wrote_def upd_buf_def)
qed

lemma bunpin_step:
  assumes "bc d pin ls s" "holds d n b s" "n \<in> ls"
  obtains t where "bunpin b s = Inr t" "bc d (pin(n := pin n - 1)) ls t" "\<And>m. blk d m t = blk d m s" "bframe s t"
    "wrote [] s t" "\<And>m c. holds d m c t \<longleftrightarrow> holds d m c s"
proof -
  let ?t = "upd_buf b (\<lambda>q. q\<lparr>refcnt := refcnt q - 1\<rparr>) s"
  have "holds d m c ?t \<longleftrightarrow> holds d m c s" for m c by (simp add: holds_def upd_buf_def)
  then show thesis
    using that [of ?t] bc_repin [OF assms, where k = "-1"] bc_owns(5) [OF assms]
    by (simp add: bunpin_eq bframe_upd_buf) (simp add: wrote_def upd_buf_def)
qed

lemma wrote_chain: "wrote [] s t \<Longrightarrow> wrote W t u \<Longrightarrow> wrote W s u" "wrote W s t \<Longrightarrow> wrote [] t u \<Longrightarrow> wrote W s u"
  by (simp_all add: wrote_def)

lemma wrote_disk: "wrote [] s t \<Longrightarrow> disk t = disk s" "wrote [(n, x)] s t \<Longrightarrow> disk t = (disk s)(n := x)"
  by (simp_all add: wrote_def)

text \<open>Read, change and write back a block; copy a block over another one, which keeps its pins or loses one.\<close>

lemma write_block:
  assumes "bc d pin {} s" "card {n. pin n \<noteq> 0} < NBUF" "length (f (blk d n s)) = BSIZE"
  obtains t where
    "bindE (bread d n s) (\<lambda>(b, s). bindE (bwrite b (set_data b (f (data (bufs s b))) s)) (brelse b)) = Inr t"
    "bc d pin {} t" "bframe s t" "wrote [(n, f (blk d n s))] s t"
    "\<And>m. blk d m t = (if m = n then f (blk d n s) else blk d m s)"
proof -
  obtain b s1 where 1: "bread d n s = Inr (b, s1)" "holds d n b s1" "data (bufs s1 b) = blk d n s"
    "bc d pin {n} s1" "\<And>m. blk d m s1 = blk d m s" "bframe s s1" "wrote [] s s1"
    by (rule bread_step [OF assms(1), of n]) (use assms(2) in auto)
  let ?s2 = "set_data b (f (blk d n s)) s1"
  note 2 = set_data_step [OF 1(4,2) singletonI assms(3)]
  obtain s3 where 3: "bwrite b ?s2 = Inr s3" "bc d pin {n} s3" "\<And>m. blk d m s3 = blk d m ?s2" "bframe ?s2 s3"
    "wrote [(n, blk d n ?s2)] ?s2 s3" "\<And>m c. holds d m c s3 \<longleftrightarrow> holds d m c ?s2"
    by (rule bwrite_step [OF 2(1), of n b]) (use 1(2) 2(5) in simp_all)
  have d3: "blk d n s3 = disk s3 n" using 3(3) 2(2) wrote_disk(2) [OF 3(5)] by simp
  obtain s4 where 4: "brelse b s3 = Inr s4" "bc d pin {} s4" "\<And>m. blk d m s4 = blk d m s3" "bframe s3 s4"
    "wrote [] s3 s4"
    by (rule brelse_step [OF 3(2), of n b]) (use d3 1(2) 2(5) 3(6) in auto)
  show thesis
  proof (rule that [of s4])
    show "bframe s s4" using 1(6) 2(3) 3(4) 4(4) by (blast intro: bframe_trans)
    show "wrote [(n, f (blk d n s))] s s4"
      using 1(7) 2(4) 3(5) 4(5) by (simp add: 2(2)) (blast intro: wrote_chain)
  qed (simp_all add: 1 2(2) 3 4)
qed

lemma copy_block:
  assumes "bc d pin {} s" "L \<noteq> w" "pin L = 0" "pin w \<noteq> 0" "card {n. pin n \<noteq> 0} < NBUF"
  obtains t where
    "bindE (bread d L s) (\<lambda>(to, s). bindE (bread d w s) (\<lambda>(from, s).
       bindE (bwrite to (set_data to (data (bufs s from)) s)) (\<lambda>s. bindE (brelse from s) (brelse to)))) = Inr t"
    "bc d pin {} t" "bframe s t" "wrote [(L, blk d w s)] s t"
    "\<And>m. blk d m t = (if m = L then blk d w s else blk d m s)"
proof -
  obtain a s1 where 1: "bread d L s = Inr (a, s1)" "holds d L a s1" "data (bufs s1 a) = blk d L s"
    "bc d pin {L} s1" "\<And>m. blk d m s1 = blk d m s" "bframe s s1" "wrote [] s s1"
    by (rule bread_step [OF assms(1), of L]) (use assms(5) in auto)
  obtain b s2 where 2: "bread d w s1 = Inr (b, s2)" "holds d w b s2" "data (bufs s2 b) = blk d w s"
    "bc d pin {w, L} s2" "\<And>m. blk d m s2 = blk d m s" "bframe s1 s2" "wrote [] s1 s2" "holds d L a s2"
    by (rule bread_step [OF 1(4), of w]) (use assms(2-4) 1(2,5) in auto)
  let ?s3 = "set_data a (blk d w s) s2"
  note 3 = set_data_step [OF 2(4,8) insertI2 [OF singletonI] blk_length [OF assms(1), of w]]
  obtain s4 where 4: "bwrite a ?s3 = Inr s4" "bc d pin {w, L} s4" "\<And>m. blk d m s4 = blk d m ?s3" "bframe ?s3 s4"
    "wrote [(L, blk d L ?s3)] ?s3 s4" "\<And>m c. holds d m c s4 \<longleftrightarrow> holds d m c s2"
    by (rule bwrite_step [OF 3(1), of L a]) (use 2(8) 3(5) in simp_all)
  obtain s5 where 5: "brelse b s4 = Inr s5" "bc d pin {L} s5" "\<And>m. blk d m s5 = blk d m s4" "bframe s4 s5"
    "wrote [] s4 s5" "\<And>m c. holds d m c s5 \<longleftrightarrow> holds d m c s2"
    by (rule brelse_step [OF 4(2), of w b]) (use assms(2,4) 2(2) 4(6) in auto)
  have d5: "blk d L s5 = disk s5 L"
    using 3(2) 4(3) 5(3) wrote_disk(2) [OF 4(5)] wrote_disk(1) [OF 5(5)] by simp
  obtain s6 where 6: "brelse a s5 = Inr s6" "bc d pin {} s6" "\<And>m. blk d m s6 = blk d m s5" "bframe s5 s6"
    "wrote [] s5 s6"
    by (rule brelse_step [OF 5(2), of L a]) (use d5 2(8) 5(6) in auto)
  show thesis
  proof (rule that [of s6])
    show "bframe s s6" using 1(6) 2(6) 3(3) 4(4) 5(4) 6(4) by (blast intro: bframe_trans)
    show "wrote [(L, blk d w s)] s s6"
      using 1(7) 2(7) 3(4) 4(5) 5(5) 6(5) by (simp add: 3(2)) (blast intro: wrote_chain)
  qed (simp_all add: 1(1) 2(1,3,5) 3(2) 4(1,3) 5(1,3) 6)
qed

lemma install_block:
  assumes "bc d pin {} s" "L \<noteq> w" "pin L = 0" "card {n. pin n \<noteq> 0} < NBUF"
    "pin w \<noteq> 0 \<or> Suc (card {n. pin n \<noteq> 0}) < NBUF"
  obtains t where
    "bindE (bread d L s) (\<lambda>(lbuf, s). bindE (bread d w s) (\<lambda>(dbuf, s).
       bindE (bwrite dbuf (set_data dbuf (data (bufs s lbuf)) s)) (\<lambda>s.
       bindE (bunpin dbuf s) (\<lambda>s. bindE (brelse lbuf s) (brelse dbuf))))) = Inr t"
    "bc d (pin(w := pin w - 1)) {} t" "bframe s t" "wrote [(w, blk d L s)] s t"
    "\<And>m. blk d m t = (if m = w then blk d L s else blk d m s)"
proof -
  obtain a s1 where 1: "bread d L s = Inr (a, s1)" "holds d L a s1" "data (bufs s1 a) = blk d L s"
    "bc d pin {L} s1" "\<And>m. blk d m s1 = blk d m s" "bframe s s1" "wrote [] s s1"
    by (rule bread_step [OF assms(1), of L]) (use assms(4) in auto)
  have c: "card ({n. pin n \<noteq> 0} \<union> {L}) = Suc (card {n. pin n \<noteq> 0})"
    using assms(1,3) by (simp add: bc_def)
  obtain b s2 where 2: "bread d w s1 = Inr (b, s2)" "holds d w b s2"
    "bc d pin {w, L} s2" "\<And>m. blk d m s2 = blk d m s" "bframe s1 s2" "wrote [] s1 s2" "holds d L a s2"
    by (rule bread_step [OF 1(4), of w]) (use assms(2-5) 1(2,5) c in auto)
  have La: "data (bufs s2 a) = blk d L s" using bc_owns(3) [OF 2(3,7)] 2(4) by simp
  let ?s3 = "set_data b (blk d L s) s2"
  note 3 = set_data_step [OF 2(3,2) insertI1 blk_length [OF assms(1), of L]]
  obtain s4 where 4: "bwrite b ?s3 = Inr s4" "bc d pin {w, L} s4" "\<And>m. blk d m s4 = blk d m ?s3" "bframe ?s3 s4"
    "wrote [(w, blk d w ?s3)] ?s3 s4" "\<And>m c. holds d m c s4 \<longleftrightarrow> holds d m c s2"
    by (rule bwrite_step [OF 3(1), of w b]) (use 2(2) 3(5) in simp_all)
  let ?pin = "pin(w := pin w - 1)"
  obtain s5 where 5: "bunpin b s4 = Inr s5" "bc d ?pin {w, L} s5" "\<And>m. blk d m s5 = blk d m s4" "bframe s4 s5"
    "wrote [] s4 s5" "\<And>m c. holds d m c s5 \<longleftrightarrow> holds d m c s2"
    by (rule bunpin_step [OF 4(2), of w b]) (use 2(2) 4(6) in auto)
  have LD: "blk d L s = disk s L" by (rule blk_clean [OF assms(1,3)]) simp
  have D5: "disk s5 = (disk s)(w := blk d L s)"
    using wrote_disk(1) [OF 1(7)] wrote_disk(1) [OF 2(6)] wrote_disk(1) [OF 3(4)] wrote_disk(2) [OF 4(5)] wrote_disk(1) [OF 5(5)] 3(2)
    by simp
  obtain s6 where 6: "brelse a s5 = Inr s6" "bc d ?pin {w} s6" "\<And>m. blk d m s6 = blk d m s5" "bframe s5 s6"
    "wrote [] s5 s6" "\<And>m c. holds d m c s6 \<longleftrightarrow> holds d m c s2"
    by (rule brelse_step [OF 5(2), of L a]) (use assms(2) LD D5 2(4,7) 3(2) 4(3) 5(3,6) in \<open>auto simp: insert_Diff_if\<close>)
  obtain s7 where 7: "brelse b s6 = Inr s7" "bc d ?pin {} s7" "\<And>m. blk d m s7 = blk d m s6" "bframe s6 s7"
    "wrote [] s6 s7"
    by (rule brelse_step [OF 6(2), of w b]) (use D5 2(2) 3(2) 4(3) 5(3) 6(3,6) wrote_disk(1) [OF 6(5)] in auto)
  show thesis
  proof (rule that [of s7])
    show "bframe s s7" using 1(6) 2(5) 3(3) 4(4) 5(4) 6(4) 7(4) by (blast intro: bframe_trans)
    show "wrote [(w, blk d L s)] s s7"
      using 1(7) 2(6) 3(4) 4(5) 5(5) 6(5) 7(5) by (simp add: 3(2)) (blast intro: wrote_chain)
  qed (simp_all add: 1(1) 2(1,4) La 3(2) 4(1,3) 5(1,3) 6(1,3) 7)
qed

end
