(* ===== verification/Fs.thy ===== *)
theory Fs
  imports Log
begin

text \<open>
  The file system: \<^verbatim>\<open>kernel/fs.c\<close> on the on-disk layout of
  \<^verbatim>\<open>kernel/fs.h\<close>. Blocks are lists of bytes; the super block, inodes and directory
  entries are read from them and written to them at their C offsets. Inodes in memory are the
  entries of the inode cache, named by their index. Path names and names are C strings without the
  null byte that ends them. A \<^verbatim>\<open>struct\<close> on the stack of the caller is the source
  \<open>FromLocal\<close> or the destination \<open>ToLocal\<close> of a transfer; \<^verbatim>\<open>readi\<close>
  returns the bytes it delivered for that purpose.
\<close>

subsection \<open>Constants and data\<close>

definition ROOTINO :: u32 where "ROOTINO = 1"
definition ROOTDEV :: u32 where "ROOTDEV = 1"
definition NINODE :: nat where "NINODE = 50"
definition FSMAGIC :: u32 where "FSMAGIC = 0x10203040"
definition NDIRECT :: nat where "NDIRECT = 12"
definition NINDIRECT :: nat where "NINDIRECT = BSIZE div 4"
definition MAXFILE :: nat where "MAXFILE = NDIRECT + NINDIRECT"
definition IPB :: nat where "IPB = BSIZE div 64"
definition BPB :: nat where "BPB = BSIZE * 8"
definition DIRSIZ :: nat where "DIRSIZ = 14"
definition T_DIR :: u16 where "T_DIR = 1"
definition T_FILE :: u16 where "T_FILE = 2"
definition T_DEVICE :: u16 where "T_DEVICE = 3"

record superblock =
  magic :: u32
  sb_size :: u32
  nblocks :: u32
  ninodes :: u32
  nlog :: u32
  logstart :: u32
  inodestart :: u32
  bmapstart :: u32

record dinode =
  dtype :: u16
  dmajor :: u16
  dminor :: u16
  dnlink :: u16
  dsize :: u32
  daddrs :: "u32 list"

record inode =
  idev :: u32
  inum :: u32
  iref :: int
  ivalid :: bool
  itype :: u16
  imajor :: u16
  iminor :: u16
  inlink :: u16
  isize :: u32
  addrs :: "u32 list"

record fs = log +
  inode :: "nat \<Rightarrow> inode"
  sb :: superblock

record stat =
  st_dev :: u32
  st_ino :: u32
  st_type :: u16
  st_nlink :: u16
  st_size :: u64

definition IBLOCK :: "u32 \<Rightarrow> superblock \<Rightarrow> u32" where
  "IBLOCK i q = i div of_nat IPB + inodestart q"

definition BBLOCK :: "u32 \<Rightarrow> superblock \<Rightarrow> u32" where
  "BBLOCK b q = b div of_nat BPB + bmapstart q"

text \<open>The sleep lock of an inode, after those of the buffers.\<close>

definition ilk :: "nat \<Rightarrow> nat" where "ilk ip = NBUF + ip"

definition upd_inode :: "nat \<Rightarrow> (inode \<Rightarrow> inode) \<Rightarrow> 'a fs_scheme \<Rightarrow> 'a fs_scheme" where
  "upd_inode ip f s = s\<lparr>inode := (inode s)(ip := f (inode s ip))\<rparr>"

text \<open>A pointer that the code dereferences without a check.\<close>

definition deref :: "'a option \<Rightarrow> 'a res" where
  "deref p = (case p of None \<Rightarrow> Inl Undef | Some x \<Rightarrow> Inr x)"

subsection \<open>Layout of structures\<close>

definition get16 :: "u8 list \<Rightarrow> nat \<Rightarrow> u16" where
  "get16 bs off = of_le (take 2 (drop off bs))"

definition sb_of :: "u8 list \<Rightarrow> superblock" where
  "sb_of bs = \<lparr>magic = get32 bs 0, sb_size = get32 bs 4, nblocks = get32 bs 8, ninodes = get32 bs 12,
     nlog = get32 bs 16, logstart = get32 bs 20, inodestart = get32 bs 24, bmapstart = get32 bs 28\<rparr>"

definition words_of :: "u8 list \<Rightarrow> nat \<Rightarrow> nat \<Rightarrow> u32 list" where
  "words_of bs off k = map (\<lambda>i. get32 bs (off + 4 * i)) [0..<k]"

definition dinode_of :: "u8 list \<Rightarrow> dinode" where
  "dinode_of bs = \<lparr>dtype = get16 bs 0, dmajor = get16 bs 2, dminor = get16 bs 4, dnlink = get16 bs 6,
     dsize = get32 bs 8, daddrs = words_of bs 12 (NDIRECT + 1)\<rparr>"

definition bytes_of_dinode :: "dinode \<Rightarrow> u8 list" where
  "bytes_of_dinode d = le_bytes 2 (dtype d) @ le_bytes 2 (dmajor d) @ le_bytes 2 (dminor d) @
     le_bytes 2 (dnlink d) @ le_bytes 4 (dsize d) @ concat (map (le_bytes 4) (daddrs d))"

text \<open>The slot of an inode in its block.\<close>

definition dinode_at :: "u32 \<Rightarrow> u8 list \<Rightarrow> dinode" where
  "dinode_at i bs = dinode_of (take 64 (drop (64 * (unat i mod IPB)) bs))"

definition put_dinode :: "u32 \<Rightarrow> dinode \<Rightarrow> u8 list \<Rightarrow> u8 list" where
  "put_dinode i d bs = splice (64 * (unat i mod IPB)) (bytes_of_dinode d) bs"

subsection \<open>Super block and block allocation\<close>

definition readsb :: "u32 \<Rightarrow> 'a fs_scheme \<Rightarrow> 'a fs_scheme res" where
  "readsb d s = bindE (bread d 1 s) (\<lambda>(bp, s). brelse bp (s\<lparr>sb := sb_of (data (bufs s bp))\<rparr>))"

definition fsinit :: "u32 \<Rightarrow> 'a fs_scheme \<Rightarrow> 'a fs_scheme res" where
  "fsinit d s = bindE (readsb d s) (\<lambda>s.
     if magic (sb s) \<noteq> FSMAGIC then Inl (Panic ''invalid file system'')
     else initlog d (logstart (sb s)) (nlog (sb s)) s)"

definition bzero :: "u32 \<Rightarrow> u32 \<Rightarrow> 'a log_scheme \<Rightarrow> 'a log_scheme res" where
  "bzero d bno s = bindE (bread d bno s) (\<lambda>(bp, s).
     bindE (log_write bp (set_data bp (replicate BSIZE 0) s)) (brelse bp))"

text \<open>The bit of a block in a block of the bitmap.\<close>

definition bit_free :: "u8 list \<Rightarrow> nat \<Rightarrow> bool" where
  "bit_free bs bi \<longleftrightarrow> bs ! (bi div 8) AND push_bit (bi mod 8) 1 = 0"

definition mark_used :: "u8 list \<Rightarrow> nat \<Rightarrow> u8 list" where
  "mark_used bs bi = bs[bi div 8 := bs ! (bi div 8) OR push_bit (bi mod 8) 1]"

definition mark_free :: "u8 list \<Rightarrow> nat \<Rightarrow> u8 list" where
  "mark_free bs bi = bs[bi div 8 := bs ! (bi div 8) AND NOT (push_bit (bi mod 8) 1)]"

text \<open>\<open>lim\<close> is \<^verbatim>\<open>sb.size\<close>, which the loop does not change; \<open>b\<close> is a C \<^verbatim>\<open>int\<close>.\<close>

function balloc_loop :: "u32 \<Rightarrow> nat \<Rightarrow> nat \<Rightarrow> 'a fs_scheme \<Rightarrow> (u32 \<times> 'a fs_scheme) res" where
  "balloc_loop d lim b s =
     (if b \<ge> lim then Inl (Panic ''balloc: out of blocks'')
      else if b \<ge> 2 ^ 31 then Inl Undef
      else bindE (bread d (BBLOCK (of_nat b) (sb s)) s) (\<lambda>(bp, s).
        case find (bit_free (data (bufs s bp))) [0..<min BPB (lim - b)] of
          Some bi \<Rightarrow>
            bindE (log_write bp (set_data bp (mark_used (data (bufs s bp)) bi) s)) (\<lambda>s.
            bindE (brelse bp s) (\<lambda>s.
            bindE (bzero d (of_nat (b + bi)) s) (\<lambda>s. Inr (of_nat (b + bi), s))))
        | None \<Rightarrow> bindE (brelse bp s) (balloc_loop d lim (b + BPB))))"
  by pat_completeness auto
termination
  by (relation "measure (\<lambda>(_, lim, b, _). lim - b)") (auto simp: BPB_def BSIZE_def)

declare balloc_loop.simps [simp del]

definition balloc :: "u32 \<Rightarrow> 'a fs_scheme \<Rightarrow> (u32 \<times> 'a fs_scheme) res" where
  "balloc d s = balloc_loop d (unat (sb_size (sb s))) 0 s"

definition bfree :: "u32 \<Rightarrow> u32 \<Rightarrow> 'a fs_scheme \<Rightarrow> 'a fs_scheme res" where
  "bfree d b s = bindE (bread d (BBLOCK b (sb s)) s) (\<lambda>(bp, s).
     let bi = unat b mod BPB in
     if bit_free (data (bufs s bp)) bi then Inl (Panic ''freeing free block'')
     else bindE (log_write bp (set_data bp (mark_free (data (bufs s bp)) bi) s)) (brelse bp))"

subsection \<open>Inodes\<close>

definition iinit :: "'a fs_scheme \<Rightarrow> 'a fs_scheme" where
  "iinit s = fold (\<lambda>i. initsleeplock (ilk i)) [0..<NINODE] (kinitlock IcacheLock s)"

definition iget :: "u32 \<Rightarrow> u32 \<Rightarrow> 'a fs_scheme \<Rightarrow> (nat \<times> 'a fs_scheme) res" where
  "iget d n s = bindE (kacquire IcacheLock s) (\<lambda>s.
     case find (\<lambda>ip. iref (inode s ip) > 0 \<and> idev (inode s ip) = d \<and> inum (inode s ip) = n) [0..<NINODE] of
       Some ip \<Rightarrow>
         bindE (krelease IcacheLock (upd_inode ip (iref_update (\<lambda>r. r + 1)) s)) (\<lambda>s. Inr (ip, s))
     | None \<Rightarrow>
         (case find (\<lambda>ip. iref (inode s ip) = 0) [0..<NINODE] of
            None \<Rightarrow> Inl (Panic ''iget: no inodes'')
          | Some ip \<Rightarrow>
              bindE (krelease IcacheLock
                  (upd_inode ip (\<lambda>q. q\<lparr>idev := d, inum := n, iref := 1, ivalid := False\<rparr>) s)) (\<lambda>s.
                Inr (ip, s))))"

text \<open>The scan of \<^verbatim>\<open>ialloc\<close> over the inode numbers.\<close>

primrec ialloc_scan :: "u32 \<Rightarrow> u16 \<Rightarrow> u32 list \<Rightarrow> 'a fs_scheme \<Rightarrow> (nat \<times> 'a fs_scheme) res" where
  "ialloc_scan d ty [] s = Inl (Panic ''ialloc: no inodes'')"
| "ialloc_scan d ty (n # ns) s = bindE (bread d (IBLOCK n (sb s)) s) (\<lambda>(bp, s).
     if dtype (dinode_at n (data (bufs s bp))) = 0
     then bindE (log_write bp (set_data bp (put_dinode n
            \<lparr>dtype = ty, dmajor = 0, dminor = 0, dnlink = 0, dsize = 0, daddrs = replicate (NDIRECT + 1) 0\<rparr>
            (data (bufs s bp))) s)) (\<lambda>s. bindE (brelse bp s) (iget d n))
     else bindE (brelse bp s) (ialloc_scan d ty ns))"

definition ialloc :: "u32 \<Rightarrow> u16 \<Rightarrow> 'a fs_scheme \<Rightarrow> (nat \<times> 'a fs_scheme) res" where
  "ialloc d ty s = ialloc_scan d ty (map of_nat [1..<unat (ninodes (sb s))]) s"

definition to_dinode :: "inode \<Rightarrow> dinode" where
  "to_dinode q = \<lparr>dtype = itype q, dmajor = imajor q, dminor = iminor q, dnlink = inlink q,
     dsize = isize q, daddrs = addrs q\<rparr>"

definition iupdate :: "nat \<Rightarrow> 'a fs_scheme \<Rightarrow> 'a fs_scheme res" where
  "iupdate ip s = (let n = inum (inode s ip) in
     bindE (bread (idev (inode s ip)) (IBLOCK n (sb s)) s) (\<lambda>(bp, s).
       bindE (log_write bp (set_data bp (put_dinode n (to_dinode (inode s ip)) (data (bufs s bp))) s))
         (brelse bp)))"

definition idup :: "nat \<Rightarrow> 'a fs_scheme \<Rightarrow> (nat \<times> 'a fs_scheme) res" where
  "idup ip s = bindE (kacquire IcacheLock s) (\<lambda>s.
     bindE (krelease IcacheLock (upd_inode ip (iref_update (\<lambda>r. r + 1)) s)) (\<lambda>s. Inr (ip, s)))"

definition ilock :: "nat \<Rightarrow> 'a fs_scheme \<Rightarrow> 'a fs_scheme res" where
  "ilock ip s =
     (if iref (inode s ip) < 1 then Inl (Panic ''ilock'')
      else bindE (acquiresleep (ilk ip) s) (\<lambda>s.
        if ivalid (inode s ip) then Inr s
        else let n = inum (inode s ip) in
          bindE (bread (idev (inode s ip)) (IBLOCK n (sb s)) s) (\<lambda>(bp, s).
            let d = dinode_at n (data (bufs s bp));
                s = upd_inode ip (\<lambda>q. q\<lparr>itype := dtype d, imajor := dmajor d, iminor := dminor d,
                  inlink := dnlink d, isize := dsize d, addrs := daddrs d\<rparr>) s in
            bindE (brelse bp s) (\<lambda>s.
              if itype (inode s ip) = 0 then Inl (Panic ''ilock: no type'')
              else Inr (upd_inode ip (ivalid_update (\<lambda>_. True)) s)))))"

definition iunlock :: "nat \<Rightarrow> 'a fs_scheme \<Rightarrow> 'a fs_scheme res" where
  "iunlock ip s = bindE (holdingsleep (ilk ip) s) (\<lambda>(h, s).
     if \<not> h \<or> iref (inode s ip) < 1 then Inl (Panic ''iunlock'') else releasesleep (ilk ip) s)"

definition itrunc :: "nat \<Rightarrow> 'a fs_scheme \<Rightarrow> 'a fs_scheme res" where
  "itrunc ip s =
     bindE (foldE (\<lambda>i s.
         if addrs (inode s ip) ! i \<noteq> 0
         then bindE (bfree (idev (inode s ip)) (addrs (inode s ip) ! i) s) (\<lambda>s.
           Inr (upd_inode ip (addrs_update (\<lambda>a. a[i := 0])) s))
         else Inr s) [0..<NDIRECT] s) (\<lambda>s.
     bindE (if addrs (inode s ip) ! NDIRECT \<noteq> 0
            then bindE (bread (idev (inode s ip)) (addrs (inode s ip) ! NDIRECT) s) (\<lambda>(bp, s).
              let a = words_of (data (bufs s bp)) 0 NINDIRECT in
              bindE (foldE (\<lambda>j s. if a ! j \<noteq> 0 then bfree (idev (inode s ip)) (a ! j) s else Inr s)
                [0..<NINDIRECT] s) (\<lambda>s.
              bindE (brelse bp s) (\<lambda>s.
              bindE (bfree (idev (inode s ip)) (addrs (inode s ip) ! NDIRECT) s) (\<lambda>s.
                Inr (upd_inode ip (addrs_update (\<lambda>a. a[NDIRECT := 0])) s)))))
            else Inr s) (\<lambda>s.
       iupdate ip (upd_inode ip (isize_update (\<lambda>_. 0)) s)))"

definition iput :: "nat \<Rightarrow> 'a fs_scheme \<Rightarrow> 'a fs_scheme res" where
  "iput ip s = bindE (kacquire IcacheLock s) (\<lambda>s.
     bindE (if iref (inode s ip) = 1 \<and> ivalid (inode s ip) \<and> inlink (inode s ip) = 0
            then bindE (acquiresleep (ilk ip) s) (\<lambda>s. bindE (krelease IcacheLock s) (\<lambda>s.
              bindE (itrunc ip s) (\<lambda>s.
              bindE (iupdate ip (upd_inode ip (itype_update (\<lambda>_. 0)) s)) (\<lambda>s.
              bindE (releasesleep (ilk ip) (upd_inode ip (ivalid_update (\<lambda>_. False)) s)) (\<lambda>s.
                kacquire IcacheLock s)))))
            else Inr s) (\<lambda>s.
       krelease IcacheLock (upd_inode ip (iref_update (\<lambda>r. r - 1)) s)))"

definition iunlockput :: "nat \<Rightarrow> 'a fs_scheme \<Rightarrow> 'a fs_scheme res" where
  "iunlockput ip s = bindE (iunlock ip s) (iput ip)"

end
