(* ===== verification/Dir.thy ===== *)
theory Dir
  imports Fs
begin

text \<open>
  Inode contents, directories and path names: the second half of \<^verbatim>\<open>kernel/fs.c\<close>.
\<close>

subsection \<open>Inode contents\<close>

definition bmap :: "nat \<Rightarrow> u32 \<Rightarrow> 'a fs_scheme \<Rightarrow> (u32 \<times> 'a fs_scheme) res" where
  "bmap ip bn s =
     (if bn < of_nat NDIRECT
      then let addr = addrs (inode s ip) ! unat bn in
        if addr = 0
        then bindE (balloc (idev (inode s ip)) s) (\<lambda>(addr, s).
          Inr (addr, upd_inode ip (addrs_update (\<lambda>a. a[unat bn := addr])) s))
        else Inr (addr, s)
      else let bn = bn - of_nat NDIRECT in
        if bn < of_nat NINDIRECT
        then bindE (let addr = addrs (inode s ip) ! NDIRECT in
            if addr = 0
            then bindE (balloc (idev (inode s ip)) s) (\<lambda>(addr, s).
              Inr (addr, upd_inode ip (addrs_update (\<lambda>a. a[NDIRECT := addr])) s))
            else Inr (addr, s)) (\<lambda>(addr, s).
          bindE (bread (idev (inode s ip)) addr s) (\<lambda>(bp, s).
          bindE (let addr = get32 (data (bufs s bp)) (4 * unat bn) in
              if addr = 0
              then bindE (balloc (idev (inode s ip)) s) (\<lambda>(addr, s).
                bindE (log_write bp (set_data bp (put32 (4 * unat bn) addr (data (bufs s bp))) s)) (\<lambda>s.
                  Inr (addr, s)))
              else Inr (addr, s)) (\<lambda>(addr, s).
            bindE (brelse bp s) (\<lambda>s. Inr (addr, s)))))
        else Inl (Panic ''bmap: out of range''))"

definition stati :: "nat \<Rightarrow> 'a fs_scheme \<Rightarrow> stat" where
  "stati ip s = (let q = inode s ip in
     \<lparr>st_dev = idev q, st_ino = inum q, st_type = itype q, st_nlink = inlink q, st_size = ucast (isize q)\<rparr>)"

text \<open>How much one round of the loops below moves: to the end of the block at most.\<close>

definition round_size :: "u32 \<Rightarrow> u32 \<Rightarrow> u32" where
  "round_size left off = min left (1024 - off mod 1024)"

lemma unat_mod_1024: "unat (off mod 1024 :: u32) = unat off mod 1024"
  by (simp add: unat_mod_distrib)

lemma unat_block_rest: "unat (1024 - off mod 1024 :: u32) = 1024 - unat off mod 1024"
  using unat_mod_1024 [of off] by (subst unat_sub) (simp_all add: word_le_nat_alt)

lemma round_size_le: "unat (round_size left off) \<le> unat left" "unat (round_size left off) \<le> 1024 - unat off mod 1024"
  by (simp_all add: round_size_def min_def word_le_nat_alt unat_block_rest)

lemma round_size_pos: "0 < left \<Longrightarrow> 0 < unat (round_size left off)"
  using unat_block_rest [of off] by (simp add: round_size_def min_def word_less_nat_alt)

lemma round_size_decreases:
  fixes n tot :: u32
  assumes "tot < n"
  shows "unat (n - (tot + round_size (n - tot) off)) < unat (n - tot)"
proof -
  have pos: "0 < n - tot" using assms by (simp add: word_gt_0)
  have "unat (n - tot - round_size (n - tot) off) = unat (n - tot) - unat (round_size (n - tot) off)"
    by (rule unat_sub) (simp add: word_le_nat_alt round_size_le)
  then have "unat (n - (tot + round_size (n - tot) off)) = unat (n - tot) - unat (round_size (n - tot) off)"
    by (simp add: diff_diff_eq)
  then show ?thesis
    using round_size_pos [OF pos, of off] round_size_le(1) [of "n - tot" off] by linarith
qed

text \<open>\<^verbatim>\<open>readi\<close> returns the count, the bytes it delivered and the state.\<close>

function readi_loop :: "nat \<Rightarrow> dest \<Rightarrow> u32 \<Rightarrow> u32 \<Rightarrow> u32 \<Rightarrow> 'a fs_scheme \<Rightarrow>
    (u32 \<times> u8 list \<times> 'a fs_scheme) res" where
  "readi_loop ip dst off n tot s =
     (if tot < n
      then bindE (bmap ip (off div 1024) s) (\<lambda>(addr, s).
        bindE (bread (idev (inode s ip)) addr s) (\<lambda>(bp, s).
        let m = round_size (n - tot) off;
            bs = take (unat m) (drop (unat (off mod 1024)) (data (bufs s bp))) in
        bindE (either_copyout dst bs (ucast m) s) (\<lambda>(r, s).
          bindE (brelse bp s) (\<lambda>s.
            if r = - 1 then Inr (tot, [], s)
            else bindE (readi_loop ip (dst_next dst (ucast m)) (off + m) n (tot + m) s) (\<lambda>(t, cs, s).
              Inr (t, bs @ cs, s))))))
      else Inr (tot, [], s))"
  by pat_completeness auto
termination
  by (relation "measure (\<lambda>(_, _, _, n, tot, _). unat (n - tot))") (auto simp: round_size_decreases)

declare readi_loop.simps [simp del]

definition readi :: "nat \<Rightarrow> dest \<Rightarrow> u32 \<Rightarrow> u32 \<Rightarrow> 'a fs_scheme \<Rightarrow> (int \<times> u8 list \<times> 'a fs_scheme) res" where
  "readi ip dst off n s =
     (let sz = isize (inode s ip) in
      if off > sz \<or> off + n < off then Inr (0, [], s)
      else bindE (readi_loop ip dst off (if off + n > sz then sz - off else n) 0 s) (\<lambda>(tot, bs, s).
        Inr (sint tot, bs, s)))"

text \<open>
  The loop of \<^verbatim>\<open>writei\<close> returns the final offset. A transfer that fails has stored
  the bytes before the failure in the buffer.
\<close>

function writei_loop :: "nat \<Rightarrow> source \<Rightarrow> u32 \<Rightarrow> u32 \<Rightarrow> u32 \<Rightarrow> 'a fs_scheme \<Rightarrow>
    (u32 \<times> 'a fs_scheme) res" where
  "writei_loop ip src off n tot s =
     (if tot < n
      then bindE (bmap ip (off div 1024) s) (\<lambda>(addr, s).
        bindE (bread (idev (inode s ip)) addr s) (\<lambda>(bp, s).
        let m = round_size (n - tot) off in
        bindE (either_copyin (src_at src (uint tot)) (ucast m) s) (\<lambda>(r, bs).
        let s = set_data bp (splice (unat (off mod 1024)) bs (data (bufs s bp))) s in
          if r = - 1 then bindE (brelse bp s) (\<lambda>s. Inr (off, s))
          else bindE (log_write bp s) (\<lambda>s. bindE (brelse bp s) (\<lambda>s.
            writei_loop ip src (off + m) n (tot + m) s)))))
      else Inr (off, s))"
  by pat_completeness auto
termination
  by (relation "measure (\<lambda>(_, _, _, n, tot, _). unat (n - tot))") (auto simp: round_size_decreases)

declare writei_loop.simps [simp del]

definition writei :: "nat \<Rightarrow> source \<Rightarrow> u32 \<Rightarrow> u32 \<Rightarrow> 'a fs_scheme \<Rightarrow> (int \<times> 'a fs_scheme) res" where
  "writei ip src off n s =
     (if off > isize (inode s ip) \<or> off + n < off then Inr (- 1, s)
      else if unat (off + n) > MAXFILE * BSIZE then Inr (- 1, s)
      else bindE (writei_loop ip src off n 0 s) (\<lambda>(off, s).
        bindE (if n > 0
               then iupdate ip (if off > isize (inode s ip) then upd_inode ip (isize_update (\<lambda>_. off)) s else s)
               else Inr s) (\<lambda>s. Inr (sint n, s))))"

subsection \<open>Directories\<close>

text \<open>The next character of a C string, a null byte at its end.\<close>

definition chr0 :: "u8 list \<Rightarrow> u8" where
  "chr0 xs = (case xs of [] \<Rightarrow> 0 | x # _ \<Rightarrow> x)"

primrec namecmp_loop :: "nat \<Rightarrow> u8 list \<Rightarrow> u8 list \<Rightarrow> int" where
  "namecmp_loop 0 p q = 0"
| "namecmp_loop (Suc n) p q =
     (if chr0 p \<noteq> 0 \<and> chr0 p = chr0 q then namecmp_loop n (tl p) (tl q) else uint (chr0 p) - uint (chr0 q))"

definition namecmp :: "u8 list \<Rightarrow> u8 list \<Rightarrow> int" where
  "namecmp p q = namecmp_loop DIRSIZ p q"

text \<open>The 14 bytes that \<^verbatim>\<open>strncpy\<close> leaves in the name of an entry.\<close>

definition dir_name :: "u8 list \<Rightarrow> u8 list" where
  "dir_name name = take DIRSIZ (takeWhile (\<lambda>c. c \<noteq> 0) name @ replicate DIRSIZ 0)"

definition de_bytes :: "u16 \<Rightarrow> u8 list \<Rightarrow> u8 list" where
  "de_bytes i name = le_bytes 2 i @ dir_name name"

text \<open>\<open>sz\<close> is \<^verbatim>\<open>dp->size\<close>, which \<^verbatim>\<open>readi\<close> does not change.\<close>

function dirlookup_loop :: "nat \<Rightarrow> u8 list \<Rightarrow> nat \<Rightarrow> nat \<Rightarrow> 'a fs_scheme \<Rightarrow>
    ((nat \<times> u32) option \<times> 'a fs_scheme) res" where
  "dirlookup_loop dp name sz off s =
     (if off < sz
      then bindE (readi dp ToLocal (of_nat off) 16 s) (\<lambda>(r, de, s).
        if r \<noteq> 16 then Inl (Panic ''dirlookup read'')
        else if get16 de 0 \<noteq> 0 \<and> namecmp name (drop 2 de) = 0
        then bindE (iget (idev (inode s dp)) (ucast (get16 de 0)) s) (\<lambda>(ip, s). Inr (Some (ip, of_nat off), s))
        else dirlookup_loop dp name sz (off + 16) s)
      else Inr (None, s))"
  by pat_completeness auto
termination
  by (relation "measure (\<lambda>(_, _, sz, off, _). sz - off)") auto

declare dirlookup_loop.simps [simp del]

definition dirlookup :: "nat \<Rightarrow> u8 list \<Rightarrow> 'a fs_scheme \<Rightarrow> ((nat \<times> u32) option \<times> 'a fs_scheme) res" where
  "dirlookup dp name s =
     (if itype (inode s dp) \<noteq> T_DIR then Inl (Panic ''dirlookup not DIR'')
      else dirlookup_loop dp name (unat (isize (inode s dp))) 0 s)"

function dirlink_free :: "nat \<Rightarrow> nat \<Rightarrow> nat \<Rightarrow> 'a fs_scheme \<Rightarrow> (u32 \<times> 'a fs_scheme) res" where
  "dirlink_free dp sz off s =
     (if off < sz
      then bindE (readi dp ToLocal (of_nat off) 16 s) (\<lambda>(r, de, s).
        if r \<noteq> 16 then Inl (Panic ''dirlink read'')
        else if get16 de 0 = 0 then Inr (of_nat off, s)
        else dirlink_free dp sz (off + 16) s)
      else Inr (of_nat off, s))"
  by pat_completeness auto
termination
  by (relation "measure (\<lambda>(_, sz, off, _). sz - off)") auto

declare dirlink_free.simps [simp del]

definition dirlink :: "nat \<Rightarrow> u8 list \<Rightarrow> u32 \<Rightarrow> 'a fs_scheme \<Rightarrow> (int \<times> 'a fs_scheme) res" where
  "dirlink dp name i s = bindE (dirlookup dp name s) (\<lambda>(found, s).
     case found of Some (ip, _) \<Rightarrow> bindE (iput ip s) (\<lambda>s. Inr (- 1, s))
     | None \<Rightarrow> bindE (dirlink_free dp (unat (isize (inode s dp))) 0 s) (\<lambda>(off, s).
         bindE (writei dp (FromLocal (de_bytes (ucast i) name)) off 16 s) (\<lambda>(r, s).
           if r \<noteq> 16 then Inl (Panic ''dirlink'') else Inr (0, s))))"

subsection \<open>Path names\<close>

definition skipelem :: "u8 list \<Rightarrow> (u8 list \<times> u8 list) option" where
  "skipelem path =
     (let p = dropWhile (\<lambda>c. c = 47) path in
      if p = [] then None
      else Some (take DIRSIZ (takeWhile (\<lambda>c. c \<noteq> 47) p), dropWhile (\<lambda>c. c = 47) (dropWhile (\<lambda>c. c \<noteq> 47) p)))"

lemma skipelem_shorter: "skipelem path = Some (e, rest) \<Longrightarrow> length rest < length path"
proof -
  assume *: "skipelem path = Some (e, rest)"
  define p where "p = dropWhile (\<lambda>c. c = 47) path"
  have "p \<noteq> []" and r: "rest = dropWhile (\<lambda>c. c = 47) (dropWhile (\<lambda>c. c \<noteq> 47) p)"
    using * by (auto simp: skipelem_def p_def Let_def split: if_splits)
  then obtain c q where p: "p = c # q" "c \<noteq> 47"
    using hd_dropWhile [of "\<lambda>c. c = 47" path] by (cases p) (auto simp: p_def)
  have "length rest \<le> length (dropWhile (\<lambda>c. c \<noteq> 47) q)"
    using p by (simp add: r length_dropWhile_le)
  also have "\<dots> < length p" using p by (simp add: length_dropWhile_le less_Suc_eq_le)
  also have "\<dots> \<le> length path" by (simp add: p_def length_dropWhile_le)
  finally show ?thesis .
qed

text \<open>
  \<^verbatim>\<open>namex\<close> returns the inode, if there is one, and what it left in
  \<^verbatim>\<open>name\<close>.
\<close>

function namex_loop :: "bool \<Rightarrow> u8 list \<Rightarrow> u8 list \<Rightarrow> nat \<Rightarrow> 'a fs_scheme \<Rightarrow>
    (nat option \<times> u8 list \<times> 'a fs_scheme) res" where
  "namex_loop par path name ip s =
     (case skipelem path of
        None \<Rightarrow> if par then bindE (iput ip s) (\<lambda>s. Inr (None, name, s)) else Inr (Some ip, name, s)
      | Some (name', rest) \<Rightarrow> bindE (ilock ip s) (\<lambda>s.
          if itype (inode s ip) \<noteq> T_DIR then bindE (iunlockput ip s) (\<lambda>s. Inr (None, name', s))
          else if par \<and> rest = [] then bindE (iunlock ip s) (\<lambda>s. Inr (Some ip, name', s))
          else bindE (dirlookup ip name' s) (\<lambda>(found, s).
            case found of None \<Rightarrow> bindE (iunlockput ip s) (\<lambda>s. Inr (None, name', s))
            | Some (nxt, _) \<Rightarrow> bindE (iunlockput ip s) (\<lambda>s. namex_loop par rest name' nxt s))))"
  by pat_completeness auto
termination
  by (relation "measure (\<lambda>(_, path, _). length path)") (auto simp: skipelem_shorter)

declare namex_loop.simps [simp del]

definition namex :: "u8 list \<Rightarrow> bool \<Rightarrow> 'a fs_scheme \<Rightarrow> (nat option \<times> u8 list \<times> 'a fs_scheme) res" where
  "namex path par s =
     bindE (if chr0 path = 47 then iget ROOTDEV ROOTINO s
            else bindE (deref (cwd (cur s))) (\<lambda>ip. idup ip s)) (\<lambda>(ip, s). namex_loop par path [] ip s)"

definition namei :: "u8 list \<Rightarrow> 'a fs_scheme \<Rightarrow> (nat option \<times> 'a fs_scheme) res" where
  "namei path s = bindE (namex path False s) (\<lambda>(r, _, s). Inr (r, s))"

definition nameiparent :: "u8 list \<Rightarrow> 'a fs_scheme \<Rightarrow> (nat option \<times> u8 list \<times> 'a fs_scheme) res" where
  "nameiparent path s = namex path True s"

end
