(* ===== verification/File.thy ===== *)
theory File
  imports Dir
begin

text \<open>
  Open files: \<^verbatim>\<open>kernel/file.c\<close> and \<^verbatim>\<open>pipealloc\<close> of
  \<^verbatim>\<open>kernel/pipe.c\<close>. A file is named by its index in the table. Reads and writes of
  pipes and of the console may go to sleep; then the outcome is \<open>Blocks\<close> and the state is the one
  at the call of \<^verbatim>\<open>sched\<close>.
\<close>

subsection \<open>The file table\<close>

definition NFILE :: nat where "NFILE = 100"
definition NDEV :: int where "NDEV = 10"

datatype filetype = FD_NONE | FD_PIPE | FD_INODE | FD_DEVICE

record kfile =
  ftype :: filetype
  fref :: int
  readable :: bool
  writable :: bool
  fpipe :: u64
  fip :: nat
  foff :: u32
  fmajor :: u16

text \<open>\<open>stat_pad\<close> is what happens to be in the four bytes of padding of a
  \<^verbatim>\<open>struct stat\<close> on the stack.\<close>

record ftab = fs +
  ftable :: "nat \<Rightarrow> kfile"
  stat_pad :: "u8 list"

definition upd_file :: "nat \<Rightarrow> (kfile \<Rightarrow> kfile) \<Rightarrow> 'a ftab_scheme \<Rightarrow> 'a ftab_scheme" where
  "upd_file f g s = s\<lparr>ftable := (ftable s)(f := g (ftable s f))\<rparr>"

definition fileinit :: "'a ftab_scheme \<Rightarrow> 'a ftab_scheme" where
  "fileinit s = kinitlock FtableLock s"

definition filealloc :: "'a ftab_scheme \<Rightarrow> (nat option \<times> 'a ftab_scheme) res" where
  "filealloc s = bindE (kacquire FtableLock s) (\<lambda>s.
     case find (\<lambda>f. fref (ftable s f) = 0) [0..<NFILE] of
       Some f \<Rightarrow> bindE (krelease FtableLock (upd_file f (fref_update (\<lambda>_. 1)) s)) (\<lambda>s. Inr (Some f, s))
     | None \<Rightarrow> bindE (krelease FtableLock s) (\<lambda>s. Inr (None, s)))"

definition filedup :: "nat \<Rightarrow> 'a ftab_scheme \<Rightarrow> (nat \<times> 'a ftab_scheme) res" where
  "filedup f s = bindE (kacquire FtableLock s) (\<lambda>s.
     if fref (ftable s f) < 1 then Inl (Panic ''filedup'')
     else bindE (krelease FtableLock (upd_file f (fref_update (\<lambda>r. r + 1)) s)) (\<lambda>s. Inr (f, s)))"

definition fileclose :: "nat \<Rightarrow> 'a ftab_scheme \<Rightarrow> 'a ftab_scheme res" where
  "fileclose f s = bindE (kacquire FtableLock s) (\<lambda>s.
     if fref (ftable s f) < 1 then Inl (Panic ''fileclose'')
     else let s = upd_file f (fref_update (\<lambda>r. r - 1)) s in
       if fref (ftable s f) > 0 then krelease FtableLock s
       else let ff = ftable s f in
         bindE (krelease FtableLock (upd_file f (\<lambda>q. q\<lparr>fref := 0, ftype := FD_NONE\<rparr>) s)) (\<lambda>s.
           if ftype ff = FD_PIPE then pipeclose (fpipe ff) (writable ff) s
           else if ftype ff = FD_INODE \<or> ftype ff = FD_DEVICE
           then bindE (begin_op s) (\<lambda>s. bindE (iput (fip ff) s) end_op)
           else Inr s))"

subsection \<open>Reading and writing\<close>

definition stat_bytes :: "stat \<Rightarrow> u8 list \<Rightarrow> u8 list" where
  "stat_bytes st pad = le_bytes 4 (st_dev st) @ le_bytes 4 (st_ino st) @ le_bytes 2 (st_type st) @
     le_bytes 2 (st_nlink st) @ take 4 (pad @ replicate 4 0) @ le_bytes 8 (st_size st)"

definition filestat :: "nat \<Rightarrow> u64 \<Rightarrow> 'a ftab_scheme \<Rightarrow> (int \<times> 'a ftab_scheme) res" where
  "filestat f addr s =
     (if ftype (ftable s f) = FD_INODE \<or> ftype (ftable s f) = FD_DEVICE
      then bindE (ilock (fip (ftable s f)) s) (\<lambda>s.
        let st = stati (fip (ftable s f)) s in
        bindE (iunlock (fip (ftable s f)) s) (\<lambda>s.
        bindE (copyout (pagetable (cur s)) addr (stat_bytes st (stat_pad s)) 24 s) (\<lambda>(r, s).
          Inr (if r < 0 then - 1 else 0, s))))
      else Inr (- 1, s))"

definition of_progress :: "progress \<times> 's \<Rightarrow> (int outcome \<times> 's) res" where
  "of_progress r = (case r of (Done n, s) \<Rightarrow> Inr (Returns n, s) | (Asleep _, s) \<Rightarrow> Inr (Blocks, s))"

text \<open>The major number is a C \<^verbatim>\<open>short\<close>.\<close>

definition no_device :: "nat \<Rightarrow> 'a ftab_scheme \<Rightarrow> bool" where
  "no_device f s \<longleftrightarrow> (let m = sint (fmajor (ftable s f)) in m < 0 \<or> m \<ge> NDEV \<or> devsw s m = NoDevice)"

definition fileread :: "nat \<Rightarrow> u64 \<Rightarrow> int \<Rightarrow> 'a ftab_scheme \<Rightarrow> (int outcome \<times> 'a ftab_scheme) res" where
  "fileread f addr n s =
     (if \<not> readable (ftable s f) then Inr (Returns (- 1), s)
      else case ftype (ftable s f) of
        FD_PIPE \<Rightarrow> bindE (piperead (fpipe (ftable s f)) addr n s) of_progress
      | FD_DEVICE \<Rightarrow> if no_device f s then Inr (Returns (- 1), s)
          else bindE (consoleread (ToUser addr) n s) of_progress
      | FD_INODE \<Rightarrow> bindE (ilock (fip (ftable s f)) s) (\<lambda>s.
          bindE (readi (fip (ftable s f)) (ToUser addr) (foff (ftable s f)) (word_of_int n) s) (\<lambda>(r, _, s).
          bindE (iunlock (fip (ftable s f))
              (if r > 0 then upd_file f (foff_update (\<lambda>o'. o' + word_of_int r)) s else s)) (\<lambda>s.
            Inr (Returns r, s))))
      | FD_NONE \<Rightarrow> Inl (Panic ''fileread''))"

definition filewrite_max :: int where
  "filewrite_max = ((MAXOPBLOCKS - 1 - 1 - 2) div 2) * int BSIZE"

text \<open>
  The loop over transactions. \<^verbatim>\<open>writei\<close> returns a negative number or all of
  \<open>n1\<close>, so \<open>i\<close> grows by \<open>n1\<close>.
\<close>

function filewrite_loop :: "nat \<Rightarrow> u64 \<Rightarrow> int \<Rightarrow> int \<Rightarrow> 'a ftab_scheme \<Rightarrow> (int \<times> 'a ftab_scheme) res" where
  "filewrite_loop f addr n i s =
     (if i < n
      then let n1 = min (n - i) filewrite_max in
        bindE (begin_op s) (\<lambda>s. bindE (ilock (fip (ftable s f)) s) (\<lambda>s.
        bindE (writei (fip (ftable s f)) (FromUser (addr + of_int i)) (foff (ftable s f)) (word_of_int n1) s) (\<lambda>(r, s).
        bindE (iunlock (fip (ftable s f))
            (if r > 0 then upd_file f (foff_update (\<lambda>o'. o' + word_of_int r)) s else s)) (\<lambda>s.
        bindE (end_op s) (\<lambda>s.
          if r < 0 then Inr (i, s)
          else if r \<noteq> n1 then Inl (Panic ''short filewrite'')
          else filewrite_loop f addr n (i + n1) s)))))
      else Inr (i, s))"
  by pat_completeness auto
termination
  by (relation "measure (\<lambda>(_, _, n, i, _). nat (n - i))")
    (auto simp: filewrite_max_def MAXOPBLOCKS_def BSIZE_def)

declare filewrite_loop.simps [simp del]

definition filewrite :: "nat \<Rightarrow> u64 \<Rightarrow> int \<Rightarrow> 'a ftab_scheme \<Rightarrow> (int outcome \<times> 'a ftab_scheme) res" where
  "filewrite f addr n s =
     (if \<not> writable (ftable s f) then Inr (Returns (- 1), s)
      else case ftype (ftable s f) of
        FD_PIPE \<Rightarrow> bindE (pipewrite (fpipe (ftable s f)) addr n s) of_progress
      | FD_DEVICE \<Rightarrow> if no_device f s then Inr (Returns (- 1), s)
          else bindE (consolewrite (FromUser addr) n s) of_progress
      | FD_INODE \<Rightarrow> bindE (filewrite_loop f addr n 0 s) (\<lambda>(i, s).
          Inr (Returns (if i = n then n else - 1), s))
      | FD_NONE \<Rightarrow> Inl (Panic ''filewrite''))"

subsection \<open>Creating a pipe\<close>

text \<open>The exit \<^verbatim>\<open>bad\<close> of \<^verbatim>\<open>pipealloc\<close>; no pipe has been allocated there.\<close>

definition pipealloc_bad :: "nat option \<Rightarrow> nat option \<Rightarrow> 'a ftab_scheme \<Rightarrow> ((nat \<times> nat) option \<times> 'a ftab_scheme) res" where
  "pipealloc_bad f0 f1 s =
     bindE (case f0 of None \<Rightarrow> Inr s | Some f \<Rightarrow> fileclose f s) (\<lambda>s.
     bindE (case f1 of None \<Rightarrow> Inr s | Some f \<Rightarrow> fileclose f s) (\<lambda>s. Inr (None, s)))"

definition pipealloc :: "'a ftab_scheme \<Rightarrow> ((nat \<times> nat) option \<times> 'a ftab_scheme) res" where
  "pipealloc s = bindE (filealloc s) (\<lambda>(f0, s).
     case f0 of None \<Rightarrow> pipealloc_bad None None s
     | Some r \<Rightarrow> bindE (filealloc s) (\<lambda>(f1, s).
     case f1 of None \<Rightarrow> pipealloc_bad f0 None s
     | Some w \<Rightarrow> bindE (kalloc s) (\<lambda>(pi, s).
       if pi = 0 then pipealloc_bad f0 f1 s
       else let s = kinitlock (PipeLock pi) (set_pipe pi ((pipe s pi)
                  \<lparr>readopen := True, writeopen := True, nwrite := 0, nread := 0\<rparr>) s);
                s = upd_file r (\<lambda>q. q\<lparr>ftype := FD_PIPE, readable := True, writable := False, fpipe := pi\<rparr>) s;
                s = upd_file w (\<lambda>q. q\<lparr>ftype := FD_PIPE, readable := False, writable := True, fpipe := pi\<rparr>) s
            in Inr (Some (r, w), s))))"

end
