(* ===== verification/Life.thy ===== *)
theory Life
  imports File
begin

text \<open>
  Creation and end of processes: \<^verbatim>\<open>userinit\<close>, \<^verbatim>\<open>fork\<close> and
  \<^verbatim>\<open>exit\<close> of \<^verbatim>\<open>kernel/proc.c\<close>, and \<^verbatim>\<open>kernel/exec.c\<close>.
\<close>

subsection \<open>First process\<close>

definition initcode :: "u8 list" where
  "initcode = [
     0x17, 0x05, 0x00, 0x00, 0x13, 0x05, 0x45, 0x02,
     0x97, 0x05, 0x00, 0x00, 0x93, 0x85, 0x35, 0x02,
     0x93, 0x08, 0x70, 0x00, 0x73, 0x00, 0x00, 0x00,
     0x93, 0x08, 0x20, 0x00, 0x73, 0x00, 0x00, 0x00,
     0xef, 0xf0, 0x9f, 0xff, 0x2f, 0x69, 0x6e, 0x69,
     0x74, 0x00, 0x00, 0x24, 0x00, 0x00, 0x00, 0x00,
     0x00, 0x00, 0x00, 0x00]"

text \<open>\<^verbatim>\<open>safestrcpy\<close> on the bytes of an array of \<open>n\<close> characters.\<close>

definition copy_name :: "nat \<Rightarrow> u8 list \<Rightarrow> u8 list \<Rightarrow> u8 list" where
  "copy_name n src dst =
     (let t = take (n - 1) (takeWhile (\<lambda>c. c \<noteq> 0) src) in t @ [0] @ drop (length t + 1) dst)"

definition userinit :: "'a ftab_scheme \<Rightarrow> 'a ftab_scheme res" where
  "userinit s = bindE (allocproc s) (\<lambda>(r, s).
     bindE (deref r) (\<lambda>p.
     let s = s\<lparr>initproc := r\<rparr> in
     bindE (uvminit (pagetable (proc s p)) initcode s) (\<lambda>s.
     let s = upd_proc p (psz_update (\<lambda>_. PGSIZE)) s;
         s = tf_set p tf_sp PGSIZE (tf_set p tf_epc 0 s);
         s = upd_proc p (pname_update (copy_name 16 (cstr ''initcode''))) s in
     bindE (namei (cstr ''/'') s) (\<lambda>(ip, s).
       krelease (ProcLock p) (upd_proc p (\<lambda>q. q\<lparr>cwd := ip, pstate := RUNNABLE\<rparr>) s)))))"

subsection \<open>fork and exit\<close>

definition TRAPFRAME_SIZE :: nat where "TRAPFRAME_SIZE = 288"

definition fork :: "'a ftab_scheme \<Rightarrow> (int \<times> 'a ftab_scheme) res" where
  "fork s = (let p = the (myproc s) in
     bindE (allocproc s) (\<lambda>(r, s).
     case r of None \<Rightarrow> Inr (- 1, s)
     | Some np \<Rightarrow>
       bindE (uvmcopy (pagetable (proc s p)) (pagetable (proc s np)) (psz (proc s p)) s) (\<lambda>(c, s).
       if c < 0
       then bindE (freeproc np s) (\<lambda>s. bindE (krelease (ProcLock np) s) (\<lambda>s. Inr (- 1, s)))
       else
         let s = upd_proc np (\<lambda>q. q\<lparr>psz := psz (proc s p), parent := Some p\<rparr>) s;
             s = s\<lparr>mem := put_bytes (mem s) (trapframe (proc s np))
                     (bytes (mem s) (trapframe (proc s p)) TRAPFRAME_SIZE)\<rparr>;
             s = tf_set np tf_a0 0 s in
         bindE (foldE (\<lambda>i s. case ofile (proc s p) ! i of None \<Rightarrow> Inr s
             | Some f \<Rightarrow> bindE (filedup f s) (\<lambda>(f, s).
                 Inr (upd_proc np (ofile_update (\<lambda>fs. fs[i := Some f])) s))) [0..<NOFILE] s) (\<lambda>s.
         bindE (deref (cwd (proc s p))) (\<lambda>ip.
         bindE (idup ip s) (\<lambda>(ip, s).
         let s = upd_proc np (\<lambda>q. q\<lparr>cwd := Some ip, pname := copy_name 16 (pname (proc s p)) (pname q)\<rparr>) s;
             n = pid (proc s np);
             s = upd_proc np (pstate_update (\<lambda>_. RUNNABLE)) s in
         bindE (krelease (ProcLock np) s) (\<lambda>s. Inr (n, s))))))))"

text \<open>
  \<^verbatim>\<open>exit\<close> up to its call of \<^verbatim>\<open>sched\<close>, from which it does not return: the
  scheduler runs only processes that are \<^verbatim>\<open>RUNNABLE\<close>.
\<close>

definition close_files :: "nat \<Rightarrow> 'a ftab_scheme \<Rightarrow> 'a ftab_scheme res" where
  "close_files p = foldE (\<lambda>fd s. case ofile (proc s p) ! fd of None \<Rightarrow> Inr s
     | Some f \<Rightarrow> bindE (fileclose f s) (\<lambda>s. Inr (upd_proc p (ofile_update (\<lambda>fs. fs[fd := None])) s)))
     [0..<NOFILE]"

definition exit_zombie :: "int \<Rightarrow> 'a ptab_scheme \<Rightarrow> 'a ptab_scheme res" where
  "exit_zombie status s = (let p = the (myproc s) in
     bindE (deref (initproc s)) (\<lambda>ini.
     bindE (kacquire (ProcLock ini) s) (\<lambda>s. bindE (wakeup1 ini s) (\<lambda>s. bindE (krelease (ProcLock ini) s) (\<lambda>s.
     bindE (kacquire (ProcLock p) s) (\<lambda>s.
     let orig = parent (proc s p) in
     bindE (krelease (ProcLock p) s) (\<lambda>s.
     bindE (deref orig) (\<lambda>pp.
     bindE (kacquire (ProcLock pp) s) (\<lambda>s. bindE (kacquire (ProcLock p) s) (\<lambda>s.
     bindE (reparent p s) (\<lambda>s. bindE (wakeup1 pp s) (\<lambda>s.
     bindE (krelease (ProcLock pp) (upd_proc p (\<lambda>q. q\<lparr>xstate := status, pstate := ZOMBIE\<rparr>) s)) sched))))))))))))"

definition exit :: "int \<Rightarrow> 'a ftab_scheme \<Rightarrow> 'a ftab_scheme res" where
  "exit status s = (let p = the (myproc s) in
     if initproc s = Some p then Inl (Panic ''init exiting'')
     else bindE (close_files p s) (\<lambda>s.
       bindE (begin_op s) (\<lambda>s.
       bindE (deref (cwd (proc s p))) (\<lambda>ip.
       bindE (iput ip s) (\<lambda>s. bindE (end_op s) (\<lambda>s.
         exit_zombie status (upd_proc p (cwd_update (\<lambda>_. None)) s)))))))"

subsection \<open>exec\<close>

definition MAXARG :: nat where "MAXARG = 32"
definition ELF_MAGIC :: u32 where "ELF_MAGIC = 0x464C457F"
definition ELF_PROG_LOAD :: u32 where "ELF_PROG_LOAD = 1"

definition get64 :: "u8 list \<Rightarrow> nat \<Rightarrow> u64" where
  "get64 bs off = of_le (take 8 (drop off bs))"

record elfhdr =
  emagic :: u32
  entry :: u64
  phoff :: u64
  phnum :: u16

record proghdr =
  ptype :: u32
  poff :: u64
  vaddr :: u64
  filesz :: u64
  memsz :: u64

definition elfhdr_of :: "u8 list \<Rightarrow> elfhdr" where
  "elfhdr_of bs = \<lparr>emagic = get32 bs 0, entry = get64 bs 24, phoff = get64 bs 32, phnum = get16 bs 56\<rparr>"

definition proghdr_of :: "u8 list \<Rightarrow> proghdr" where
  "proghdr_of bs = \<lparr>ptype = get32 bs 0, poff = get64 bs 8, vaddr = get64 bs 16, filesz = get64 bs 32, memsz = get64 bs 40\<rparr>"

text \<open>
  The counter of the loop of \<^verbatim>\<open>loadseg\<close> is a \<^verbatim>\<open>uint\<close>. It takes \<open>2 ^ 20\<close> values before it wraps around to 0,
  which happens only when \<^verbatim>\<open>sz\<close> is above \<open>2 ^ 32 - 4096\<close>; for every other size \<open>2 ^ 20\<close> rounds are enough.
\<close>

primrec loadseg_loop :: "nat \<Rightarrow> u64 \<Rightarrow> u64 \<Rightarrow> nat \<Rightarrow> u32 \<Rightarrow> u32 \<Rightarrow> u32 \<Rightarrow> 'a fs_scheme \<Rightarrow> (int \<times> 'a fs_scheme) res" where
  "loadseg_loop 0 pt va ip offset sz i s = Inl OutOfFuel"
| "loadseg_loop (Suc k) pt va ip offset sz i s =
     (if i < sz
      then bindE (walkaddr pt (va + ucast i) s) (\<lambda>pa.
        if pa = 0 then Inl (Panic ''loadseg: address should exist'')
        else let n = if sz - i < 4096 then sz - i else 4096 in
          bindE (readi ip (ToKernel pa) (offset + i) n s) (\<lambda>(r, _, s).
            if word_of_int r \<noteq> n then Inr (- 1, s) else loadseg_loop k pt va ip offset sz (i + 4096) s))
      else Inr (0, s))"

definition loadseg :: "u64 \<Rightarrow> u64 \<Rightarrow> nat \<Rightarrow> u32 \<Rightarrow> u32 \<Rightarrow> 'a fs_scheme \<Rightarrow> (int \<times> 'a fs_scheme) res" where
  "loadseg pt va ip offset sz s =
     (if va mod PGSIZE \<noteq> 0 then Inl (Panic ''loadseg: va must be page aligned'')
      else loadseg_loop (2 ^ 20) pt va ip offset sz 0 s)"

text \<open>The loop over \<open>k\<close> program headers: whether all were loaded, and \<^verbatim>\<open>sz\<close>.\<close>

primrec exec_load :: "nat \<Rightarrow> u32 \<Rightarrow> nat \<Rightarrow> u64 \<Rightarrow> u64 \<Rightarrow> 'a fs_scheme \<Rightarrow> (bool \<times> u64 \<times> 'a fs_scheme) res" where
  "exec_load 0 off ip pt sz s = Inr (True, sz, s)"
| "exec_load (Suc k) off ip pt sz s = bindE (readi ip ToLocal off 56 s) (\<lambda>(r, bs, s).
     if r \<noteq> 56 then Inr (False, sz, s)
     else let ph = proghdr_of bs in
       if ptype ph \<noteq> ELF_PROG_LOAD then exec_load k (off + 56) ip pt sz s
       else if memsz ph < filesz ph \<or> vaddr ph + memsz ph < vaddr ph then Inr (False, sz, s)
       else bindE (uvmalloc pt sz (vaddr ph + memsz ph) s) (\<lambda>(sz1, s).
         if sz1 = 0 then Inr (False, sz, s)
         else if vaddr ph mod PGSIZE \<noteq> 0 then Inr (False, sz1, s)
         else bindE (loadseg pt (vaddr ph) ip (ucast (poff ph)) (ucast (filesz ph)) s) (\<lambda>(r, s).
           if r < 0 then Inr (False, sz1, s) else exec_load k (off + 56) ip pt sz1 s)))"

text \<open>
  The loop over the argument strings, which are in kernel memory: the stack pointer and the
  addresses of the copies, or \<open>None\<close> when the code jumps to \<^verbatim>\<open>bad\<close>.
\<close>

fun push_args :: "u64 list \<Rightarrow> nat \<Rightarrow> u64 \<Rightarrow> u64 \<Rightarrow> u64 \<Rightarrow> 'a phys_scheme \<Rightarrow>
    ((u64 \<times> u64 list) option \<times> 'a phys_scheme) res" where
  "push_args [] argc pt stackbase stk s = Inr (Some (stk, []), s)"
| "push_args (a # argv) argc pt stackbase stk s =
     (if argc \<ge> MAXARG then Inr (None, s)
      else case strlen (mem s) a of None \<Rightarrow> Inl Spins
      | Some n \<Rightarrow>
        let stk = stk - (of_nat n + 1); stk = stk - stk mod 16 in
        if stk < stackbase then Inr (None, s)
        else bindE (copyout pt stk (bytes (mem s) a (n + 1)) (of_nat n + 1) s) (\<lambda>(r, s).
          if r < 0 then Inr (None, s)
          else bindE (push_args argv (argc + 1) pt stackbase stk s) (\<lambda>(q, s).
            Inr (map_option (\<lambda>(stk', us). (stk', stk # us)) q, s))))"

definition exec_bad :: "u64 \<Rightarrow> u64 \<Rightarrow> nat option \<Rightarrow> 'a fs_scheme \<Rightarrow> (int \<times> 'a fs_scheme) res" where
  "exec_bad pt sz ipo s =
     bindE (if pt \<noteq> 0 then proc_freepagetable pt sz s else Inr s) (\<lambda>s.
     bindE (case ipo of None \<Rightarrow> Inr s | Some ip \<Rightarrow> bindE (iunlockput ip s) end_op) (\<lambda>s. Inr (- 1, s)))"

text \<open>The characters after the last slash of a path.\<close>

definition last_elem :: "u8 list \<Rightarrow> u8 list" where
  "last_elem path = rev (takeWhile (\<lambda>c. c \<noteq> 47) (rev path))"

text \<open>\<^verbatim>\<open>exec\<close> from the allocation of the user stack on.\<close>

definition exec_stack :: "u8 list \<Rightarrow> u64 list \<Rightarrow> u64 \<Rightarrow> u64 \<Rightarrow> u64 \<Rightarrow> 'a fs_scheme \<Rightarrow> (int \<times> 'a fs_scheme) res" where
  "exec_stack path argv ent pt sz s = (let p = the (myproc s); oldsz = psz (proc s p); sz = PGROUNDUP sz in
     bindE (uvmalloc pt sz (sz + 2 * PGSIZE) s) (\<lambda>(sz1, s).
     if sz1 = 0 then exec_bad pt sz None s
     else bindE (uvmclear pt (sz1 - 2 * PGSIZE) s) (\<lambda>s.
       let stackbase = sz1 - PGSIZE in
       bindE (push_args argv 0 pt stackbase sz1 s) (\<lambda>(q, s).
       case q of None \<Rightarrow> exec_bad pt sz1 None s
       | Some (stk, us) \<Rightarrow>
         let argc = length us; ustack = concat (map (le_bytes 8) (us @ [0]));
             stk = stk - (of_nat argc + 1) * 8; stk = stk - stk mod 16 in
         if stk < stackbase then exec_bad pt sz1 None s
         else bindE (copyout pt stk ustack ((of_nat argc + 1) * 8) s) (\<lambda>(r, s).
           if r < 0 then exec_bad pt sz1 None s
           else
             let s = upd_proc p (pname_update (copy_name 16 (last_elem path))) (tf_set p tf_a1 stk s);
                 oldpt = pagetable (proc s p);
                 s = upd_proc p (\<lambda>q. q\<lparr>pagetable := pt, psz := sz1\<rparr>) s;
                 s = tf_set p tf_sp stk (tf_set p tf_epc ent s) in
             bindE (proc_freepagetable oldpt oldsz s) (\<lambda>s. Inr (int argc, s)))))))"

definition exec :: "u8 list \<Rightarrow> u64 list \<Rightarrow> 'a fs_scheme \<Rightarrow> (int \<times> 'a fs_scheme) res" where
  "exec path argv s = bindE (begin_op s) (\<lambda>s. bindE (namei path s) (\<lambda>(r, s).
     case r of None \<Rightarrow> bindE (end_op s) (\<lambda>s. Inr (- 1, s))
     | Some ip \<Rightarrow> bindE (ilock ip s) (\<lambda>s. bindE (readi ip ToLocal 0 64 s) (\<lambda>(n, bs, s).
       let elf = elfhdr_of bs in
       if n \<noteq> 64 \<or> emagic elf \<noteq> ELF_MAGIC then exec_bad 0 0 (Some ip) s
       else bindE (proc_pagetable (the (myproc s)) s) (\<lambda>(pt, s).
         if pt = 0 then exec_bad 0 0 (Some ip) s
         else bindE (exec_load (unat (phnum elf)) (ucast (phoff elf)) ip pt 0 s) (\<lambda>(ok, sz, s).
           if \<not> ok then exec_bad pt sz (Some ip) s
           else bindE (iunlockput ip s) (\<lambda>s. bindE (end_op s) (\<lambda>s.
             exec_stack path argv (entry elf) pt sz s))))))))"

end
