(* ===== verification/Syscall.thy ===== *)
theory Syscall
  imports Life
begin

text \<open>
  System calls: \<^verbatim>\<open>kernel/syscall.c\<close>, \<^verbatim>\<open>kernel/sysproc.c\<close> and
  \<^verbatim>\<open>kernel/sysfile.c\<close>. A call returns the word for \<^verbatim>\<open>a0\<close>, or
  \<open>Blocks\<close> in the state in which it entered the scheduler. Values that the code stores through
  a pointer are returned.
\<close>

subsection \<open>Arguments\<close>

definition MAXPATH :: u64 where "MAXPATH = 128"

text \<open>The word at a user address, \<open>None\<close> for the result -1.\<close>

definition fetchaddr :: "u64 \<Rightarrow> 'a ptab_scheme \<Rightarrow> u64 option res" where
  "fetchaddr addr s =
     (if addr \<ge> psz (cur s) \<or> addr + 8 > psz (cur s) then Inr None
      else bindE (copyin (pagetable (cur s)) addr 8 s) (\<lambda>(r, bs).
        Inr (if r \<noteq> 0 then None else Some (of_le bs))))"

text \<open>The result code of \<^verbatim>\<open>fetchstr\<close> and the bytes it stored in the buffer.\<close>

definition fetchstr :: "u64 \<Rightarrow> u64 \<Rightarrow> 'a ptab_scheme \<Rightarrow> (int \<times> u8 list) res" where
  "fetchstr addr lim s = bindE (copyinstr (pagetable (cur s)) addr lim s) (\<lambda>(err, bs).
     Inr (if err < 0 then err else int (length (takeWhile (\<lambda>c. c \<noteq> 0) bs)), bs))"

definition argraw :: "nat \<Rightarrow> 'a ptab_scheme \<Rightarrow> u64 res" where
  "argraw n s = (let p = the (myproc s) in
     if n = 0 then Inr (tf_get p tf_a0 s)
     else if n = 1 then Inr (tf_get p tf_a1 s)
     else if n = 2 then Inr (tf_get p tf_a2 s)
     else if n = 3 then Inr (tf_get p tf_a3 s)
     else if n = 4 then Inr (tf_get p tf_a4 s)
     else if n = 5 then Inr (tf_get p tf_a5 s)
     else Inl (Panic ''argraw''))"

definition argint :: "nat \<Rightarrow> 'a ptab_scheme \<Rightarrow> int res" where
  "argint n s = bindE (argraw n s) (\<lambda>w. Inr (sint (ucast w :: u32)))"

definition argaddr :: "nat \<Rightarrow> 'a ptab_scheme \<Rightarrow> u64 res" where
  "argaddr n s = argraw n s"

definition argstr :: "nat \<Rightarrow> u64 \<Rightarrow> 'a ptab_scheme \<Rightarrow> (int \<times> u8 list) res" where
  "argstr n lim s = bindE (argaddr n s) (\<lambda>addr. fetchstr addr lim s)"

text \<open>A path argument: the string, \<open>None\<close> for a negative result.\<close>

definition argpath :: "nat \<Rightarrow> 'a ptab_scheme \<Rightarrow> u8 list option res" where
  "argpath n s = bindE (argstr n MAXPATH s) (\<lambda>(r, bs).
     Inr (if r < 0 then None else Some (takeWhile (\<lambda>c. c \<noteq> 0) bs)))"

text \<open>A descriptor argument with its file.\<close>

definition argfd :: "nat \<Rightarrow> 'a ptab_scheme \<Rightarrow> (nat \<times> nat) option res" where
  "argfd n s = bindE (argint n s) (\<lambda>fd.
     Inr (if fd < 0 \<or> fd \<ge> int NOFILE then None
          else map_option (\<lambda>f. (nat fd, f)) (ofile (cur s) ! nat fd)))"

definition fdalloc :: "nat \<Rightarrow> 'a ptab_scheme \<Rightarrow> int \<times> 'a ptab_scheme" where
  "fdalloc f s =
     (case find (\<lambda>fd. ofile (cur s) ! fd = None) [0..<NOFILE] of
        None \<Rightarrow> (- 1, s)
      | Some fd \<Rightarrow> (int fd, upd_proc (the (myproc s)) (ofile_update (\<lambda>fs. fs[fd := Some f])) s))"

text \<open>The value of a call whose C type is \<^verbatim>\<open>int\<close>.\<close>

definition ret :: "int \<Rightarrow> 's \<Rightarrow> (u64 outcome \<times> 's) res" where
  "ret n s = Inr (Returns (word_of_int n), s)"

definition ret_of :: "int outcome \<times> 's \<Rightarrow> (u64 outcome \<times> 's) res" where
  "ret_of r = (case r of (Returns n, s) \<Rightarrow> ret n s | (Blocks, s) \<Rightarrow> Inr (Blocks, s))"

subsection \<open>Processes\<close>

definition sys_exit :: "'a ftab_scheme \<Rightarrow> (u64 outcome \<times> 'a ftab_scheme) res" where
  "sys_exit s = bindE (argint 0 s) (\<lambda>n. bindE (exit n s) (\<lambda>s. Inr (Blocks, s)))"

definition sys_getpid :: "'a ftab_scheme \<Rightarrow> (u64 outcome \<times> 'a ftab_scheme) res" where
  "sys_getpid s = ret (pid (cur s)) s"

definition sys_fork :: "'a ftab_scheme \<Rightarrow> (u64 outcome \<times> 'a ftab_scheme) res" where
  "sys_fork s = bindE (fork s) (\<lambda>(r, s). ret r s)"

definition sys_wait :: "'a ftab_scheme \<Rightarrow> (u64 outcome \<times> 'a ftab_scheme) res" where
  "sys_wait s = bindE (argaddr 0 s) (\<lambda>p. bindE (wait p s) ret_of)"

definition sys_sbrk :: "'a ftab_scheme \<Rightarrow> (u64 outcome \<times> 'a ftab_scheme) res" where
  "sys_sbrk s = bindE (argint 0 s) (\<lambda>n.
     let addr = sint (ucast (psz (cur s)) :: u32) in
     bindE (growproc n s) (\<lambda>(r, s). if r < 0 then ret (- 1) s else ret addr s))"

definition sleep_pass :: "u32 \<Rightarrow> u32 \<Rightarrow> 'a ftab_scheme \<Rightarrow> (u64 outcome \<times> 'a ftab_scheme) res" where
  "sleep_pass ticks0 n s =
     (if ticks s - ticks0 < n
      then if killed (cur s) \<noteq> 0 then bindE (krelease TicksLock s) (ret (- 1))
        else bindE (sleep ChTicks TicksLock s) (\<lambda>s. Inr (Blocks, s))
      else bindE (krelease TicksLock s) (ret 0))"

definition sys_sleep :: "'a ftab_scheme \<Rightarrow> (u64 outcome \<times> 'a ftab_scheme) res" where
  "sys_sleep s = bindE (argint 0 s) (\<lambda>n.
     bindE (kacquire TicksLock s) (\<lambda>s. sleep_pass (ticks s) (word_of_int n) s))"

definition sys_sleep_return :: "u32 \<Rightarrow> u32 \<Rightarrow> 'a ftab_scheme \<Rightarrow> (u64 outcome \<times> 'a ftab_scheme) res" where
  "sys_sleep_return ticks0 n s = bindE (sleep_return TicksLock s) (sleep_pass ticks0 n)"

definition sys_kill :: "'a ftab_scheme \<Rightarrow> (u64 outcome \<times> 'a ftab_scheme) res" where
  "sys_kill s = bindE (argint 0 s) (\<lambda>n. bindE (kill n s) (\<lambda>(r, s). ret r s))"

definition sys_uptime :: "'a ftab_scheme \<Rightarrow> (u64 outcome \<times> 'a ftab_scheme) res" where
  "sys_uptime s = bindE (kacquire TicksLock s) (\<lambda>s.
     let xticks = ticks s in bindE (krelease TicksLock s) (\<lambda>s. Inr (Returns (ucast xticks), s)))"

subsection \<open>Open files\<close>

definition sys_dup :: "'a ftab_scheme \<Rightarrow> (u64 outcome \<times> 'a ftab_scheme) res" where
  "sys_dup s = bindE (argfd 0 s) (\<lambda>a.
     case a of None \<Rightarrow> ret (- 1) s
     | Some (_, f) \<Rightarrow> (case fdalloc f s of (fd, s) \<Rightarrow>
         if fd < 0 then ret (- 1) s else bindE (filedup f s) (\<lambda>(_, s). ret fd s)))"

definition sys_read :: "'a ftab_scheme \<Rightarrow> (u64 outcome \<times> 'a ftab_scheme) res" where
  "sys_read s = bindE (argfd 0 s) (\<lambda>a.
     case a of None \<Rightarrow> ret (- 1) s
     | Some (_, f) \<Rightarrow> bindE (argint 2 s) (\<lambda>n. bindE (argaddr 1 s) (\<lambda>p. bindE (fileread f p n s) ret_of)))"

definition sys_write :: "'a ftab_scheme \<Rightarrow> (u64 outcome \<times> 'a ftab_scheme) res" where
  "sys_write s = bindE (argfd 0 s) (\<lambda>a.
     case a of None \<Rightarrow> ret (- 1) s
     | Some (_, f) \<Rightarrow> bindE (argint 2 s) (\<lambda>n. bindE (argaddr 1 s) (\<lambda>p. bindE (filewrite f p n s) ret_of)))"

definition sys_close :: "'a ftab_scheme \<Rightarrow> (u64 outcome \<times> 'a ftab_scheme) res" where
  "sys_close s = bindE (argfd 0 s) (\<lambda>a.
     case a of None \<Rightarrow> ret (- 1) s
     | Some (fd, f) \<Rightarrow>
         bindE (fileclose f (upd_proc (the (myproc s)) (ofile_update (\<lambda>fs. fs[fd := None])) s)) (ret 0))"

definition sys_fstat :: "'a ftab_scheme \<Rightarrow> (u64 outcome \<times> 'a ftab_scheme) res" where
  "sys_fstat s = bindE (argfd 0 s) (\<lambda>a.
     case a of None \<Rightarrow> ret (- 1) s
     | Some (_, f) \<Rightarrow> bindE (argaddr 1 s) (\<lambda>st. bindE (filestat f st s) (\<lambda>(r, s). ret r s)))"

text \<open>The common exit with -1 inside a transaction.\<close>

definition fail_op :: "'a log_scheme \<Rightarrow> (u64 outcome \<times> 'a log_scheme) res" where
  "fail_op s = bindE (end_op s) (ret (- 1))"

definition add_nlink :: "nat \<Rightarrow> u16 \<Rightarrow> 'a fs_scheme \<Rightarrow> 'a fs_scheme" where
  "add_nlink ip d s = upd_inode ip (inlink_update (\<lambda>n. n + d)) s"

definition sys_link_bad :: "nat \<Rightarrow> 'a fs_scheme \<Rightarrow> (u64 outcome \<times> 'a fs_scheme) res" where
  "sys_link_bad ip s = bindE (ilock ip s) (\<lambda>s. bindE (iupdate ip (add_nlink ip (- 1) s)) (\<lambda>s.
     bindE (iunlockput ip s) fail_op))"

definition sys_link :: "'a ftab_scheme \<Rightarrow> (u64 outcome \<times> 'a ftab_scheme) res" where
  "sys_link s = bindE (argpath 0 s) (\<lambda>a. case a of None \<Rightarrow> ret (- 1) s | Some old \<Rightarrow>
     bindE (argpath 1 s) (\<lambda>b. case b of None \<Rightarrow> ret (- 1) s | Some new \<Rightarrow>
     bindE (begin_op s) (\<lambda>s. bindE (namei old s) (\<lambda>(r, s).
     case r of None \<Rightarrow> fail_op s | Some ip \<Rightarrow>
       bindE (ilock ip s) (\<lambda>s.
       if itype (inode s ip) = T_DIR then bindE (iunlockput ip s) fail_op
       else bindE (iupdate ip (add_nlink ip 1 s)) (\<lambda>s. bindE (iunlock ip s) (\<lambda>s.
         bindE (nameiparent new s) (\<lambda>(r, name, s).
         case r of None \<Rightarrow> sys_link_bad ip s | Some dp \<Rightarrow>
           bindE (ilock dp s) (\<lambda>s.
           bindE (if idev (inode s dp) \<noteq> idev (inode s ip) then Inr (- 1, s)
                  else dirlink dp name (inum (inode s ip)) s) (\<lambda>(r, s).
           if r < 0 then bindE (iunlockput dp s) (sys_link_bad ip)
           else bindE (iunlockput dp s) (\<lambda>s. bindE (iput ip s) (\<lambda>s. bindE (end_op s) (ret 0)))))))))))))"

function isdirempty_loop :: "nat \<Rightarrow> nat \<Rightarrow> nat \<Rightarrow> 'a fs_scheme \<Rightarrow> (bool \<times> 'a fs_scheme) res" where
  "isdirempty_loop dp sz off s =
     (if off < sz
      then bindE (readi dp ToLocal (of_nat off) 16 s) (\<lambda>(r, de, s).
        if r \<noteq> 16 then Inl (Panic ''isdirempty: readi'')
        else if get16 de 0 \<noteq> 0 then Inr (False, s)
        else isdirempty_loop dp sz (off + 16) s)
      else Inr (True, s))"
  by pat_completeness auto
termination
  by (relation "measure (\<lambda>(_, sz, off, _). sz - off)") auto

declare isdirempty_loop.simps [simp del]

definition isdirempty :: "nat \<Rightarrow> 'a fs_scheme \<Rightarrow> (bool \<times> 'a fs_scheme) res" where
  "isdirempty dp s = isdirempty_loop dp (unat (isize (inode s dp))) 32 s"

definition sys_unlink :: "'a ftab_scheme \<Rightarrow> (u64 outcome \<times> 'a ftab_scheme) res" where
  "sys_unlink s = bindE (argpath 0 s) (\<lambda>a. case a of None \<Rightarrow> ret (- 1) s | Some path \<Rightarrow>
     bindE (begin_op s) (\<lambda>s. bindE (nameiparent path s) (\<lambda>(r, name, s).
     case r of None \<Rightarrow> fail_op s | Some dp \<Rightarrow>
       bindE (ilock dp s) (\<lambda>s.
       if namecmp name (cstr ''.'') = 0 \<or> namecmp name (cstr ''..'') = 0
       then bindE (iunlockput dp s) fail_op
       else bindE (dirlookup dp name s) (\<lambda>(found, s).
         case found of None \<Rightarrow> bindE (iunlockput dp s) fail_op | Some (ip, off) \<Rightarrow>
           bindE (ilock ip s) (\<lambda>s.
           if sint (inlink (inode s ip)) < 1 then Inl (Panic ''unlink: nlink < 1'')
           else bindE (if itype (inode s ip) = T_DIR then isdirempty ip s else Inr (True, s)) (\<lambda>(e, s).
             if \<not> e then bindE (iunlockput ip s) (\<lambda>s. bindE (iunlockput dp s) fail_op)
             else bindE (writei dp (FromLocal (replicate 16 0)) off 16 s) (\<lambda>(w, s).
               if w \<noteq> 16 then Inl (Panic ''unlink: writei'')
               else bindE (if itype (inode s ip) = T_DIR then iupdate dp (add_nlink dp (- 1) s) else Inr s) (\<lambda>s.
                 bindE (iunlockput dp s) (\<lambda>s.
                 bindE (iupdate ip (add_nlink ip (- 1) s)) (\<lambda>s.
                 bindE (iunlockput ip s) (\<lambda>s. bindE (end_op s) (ret 0)))))))))))))"

definition create :: "u8 list \<Rightarrow> u16 \<Rightarrow> u16 \<Rightarrow> u16 \<Rightarrow> 'a fs_scheme \<Rightarrow> (nat option \<times> 'a fs_scheme) res" where
  "create path ty major minor s = bindE (nameiparent path s) (\<lambda>(r, name, s).
     case r of None \<Rightarrow> Inr (None, s) | Some dp \<Rightarrow>
       bindE (ilock dp s) (\<lambda>s. bindE (dirlookup dp name s) (\<lambda>(found, s).
       case found of
         Some (ip, _) \<Rightarrow> bindE (iunlockput dp s) (\<lambda>s. bindE (ilock ip s) (\<lambda>s.
           if ty = T_FILE \<and> (itype (inode s ip) = T_FILE \<or> itype (inode s ip) = T_DEVICE) then Inr (Some ip, s)
           else bindE (iunlockput ip s) (\<lambda>s. Inr (None, s))))
       | None \<Rightarrow> bindE (ialloc (idev (inode s dp)) ty s) (\<lambda>(ip, s).
           bindE (ilock ip s) (\<lambda>s.
           bindE (iupdate ip (upd_inode ip (\<lambda>q. q\<lparr>imajor := major, iminor := minor, inlink := 1\<rparr>) s)) (\<lambda>s.
           bindE (if ty = T_DIR
                  then bindE (iupdate dp (add_nlink dp 1 s)) (\<lambda>s.
                    bindE (dirlink ip (cstr ''.'') (inum (inode s ip)) s) (\<lambda>(r, s).
                    bindE (if r < 0 then Inr (r, s) else dirlink ip (cstr ''..'') (inum (inode s dp)) s) (\<lambda>(r, s).
                      if r < 0 then Inl (Panic ''create dots'') else Inr s)))
                  else Inr s) (\<lambda>s.
           bindE (dirlink dp name (inum (inode s ip)) s) (\<lambda>(r, s).
             if r < 0 then Inl (Panic ''create: dirlink'')
             else bindE (iunlockput dp s) (\<lambda>s. Inr (Some ip, s))))))))))"

definition O_RDONLY :: u32 where "O_RDONLY = 0"
definition O_WRONLY :: u32 where "O_WRONLY = 1"
definition O_RDWR :: u32 where "O_RDWR = 2"
definition O_CREATE :: u32 where "O_CREATE = 0x200"
definition O_TRUNC :: u32 where "O_TRUNC = 0x400"

text \<open>The inode \<^verbatim>\<open>sys_open\<close> works on, locked, or \<open>None\<close> when it fails.\<close>

definition open_inode :: "u8 list \<Rightarrow> u32 \<Rightarrow> 'a fs_scheme \<Rightarrow> (nat option \<times> 'a fs_scheme) res" where
  "open_inode path omode s =
     (if omode AND O_CREATE \<noteq> 0 then create path T_FILE 0 0 s
      else bindE (namei path s) (\<lambda>(r, s).
        case r of None \<Rightarrow> Inr (None, s) | Some ip \<Rightarrow>
          bindE (ilock ip s) (\<lambda>s.
          if itype (inode s ip) = T_DIR \<and> omode \<noteq> O_RDONLY
          then bindE (iunlockput ip s) (\<lambda>s. Inr (None, s)) else Inr (Some ip, s))))"

definition open_file :: "nat \<Rightarrow> nat \<Rightarrow> u32 \<Rightarrow> 'a ftab_scheme \<Rightarrow> 'a ftab_scheme" where
  "open_file f ip omode s = upd_file f (\<lambda>q.
     (if itype (inode s ip) = T_DEVICE then q\<lparr>ftype := FD_DEVICE, fmajor := imajor (inode s ip)\<rparr>
      else q\<lparr>ftype := FD_INODE, foff := 0\<rparr>)
       \<lparr>fip := ip, readable := omode AND O_WRONLY = 0,
        writable := omode AND O_WRONLY \<noteq> 0 \<or> omode AND O_RDWR \<noteq> 0\<rparr>) s"

definition sys_open :: "'a ftab_scheme \<Rightarrow> (u64 outcome \<times> 'a ftab_scheme) res" where
  "sys_open s = bindE (argpath 0 s) (\<lambda>a. case a of None \<Rightarrow> ret (- 1) s | Some path \<Rightarrow>
     bindE (argint 1 s) (\<lambda>om. let omode = word_of_int om in
     bindE (begin_op s) (\<lambda>s. bindE (open_inode path omode s) (\<lambda>(r, s).
     case r of None \<Rightarrow> fail_op s | Some ip \<Rightarrow>
       if itype (inode s ip) = T_DEVICE \<and>
          (sint (imajor (inode s ip)) < 0 \<or> sint (imajor (inode s ip)) \<ge> NDEV)
       then bindE (iunlockput ip s) fail_op
       else bindE (filealloc s) (\<lambda>(fo, s).
         case fo of None \<Rightarrow> bindE (iunlockput ip s) fail_op | Some f \<Rightarrow>
           (case fdalloc f s of (fd, s) \<Rightarrow>
             if fd < 0 then bindE (fileclose f s) (\<lambda>s. bindE (iunlockput ip s) fail_op)
             else let s = open_file f ip omode s in
               bindE (if omode AND O_TRUNC \<noteq> 0 \<and> itype (inode s ip) = T_FILE then itrunc ip s else Inr s) (\<lambda>s.
               bindE (iunlock ip s) (\<lambda>s. bindE (end_op s) (ret fd)))))))))"

definition sys_mkdir :: "'a ftab_scheme \<Rightarrow> (u64 outcome \<times> 'a ftab_scheme) res" where
  "sys_mkdir s = bindE (begin_op s) (\<lambda>s. bindE (argpath 0 s) (\<lambda>a.
     case a of None \<Rightarrow> fail_op s | Some path \<Rightarrow> bindE (create path T_DIR 0 0 s) (\<lambda>(r, s).
     case r of None \<Rightarrow> fail_op s | Some ip \<Rightarrow> bindE (iunlockput ip s) (\<lambda>s. bindE (end_op s) (ret 0)))))"

definition sys_mknod :: "'a ftab_scheme \<Rightarrow> (u64 outcome \<times> 'a ftab_scheme) res" where
  "sys_mknod s = bindE (begin_op s) (\<lambda>s. bindE (argpath 0 s) (\<lambda>a.
     case a of None \<Rightarrow> fail_op s | Some path \<Rightarrow>
     bindE (argint 1 s) (\<lambda>major. bindE (argint 2 s) (\<lambda>minor.
     bindE (create path T_DEVICE (word_of_int major) (word_of_int minor) s) (\<lambda>(r, s).
     case r of None \<Rightarrow> fail_op s | Some ip \<Rightarrow> bindE (iunlockput ip s) (\<lambda>s. bindE (end_op s) (ret 0)))))))"

definition sys_chdir :: "'a ftab_scheme \<Rightarrow> (u64 outcome \<times> 'a ftab_scheme) res" where
  "sys_chdir s = bindE (begin_op s) (\<lambda>s. bindE (argpath 0 s) (\<lambda>a.
     case a of None \<Rightarrow> fail_op s | Some path \<Rightarrow> bindE (namei path s) (\<lambda>(r, s).
     case r of None \<Rightarrow> fail_op s | Some ip \<Rightarrow>
       bindE (ilock ip s) (\<lambda>s.
       if itype (inode s ip) \<noteq> T_DIR then bindE (iunlockput ip s) fail_op
       else bindE (iunlock ip s) (\<lambda>s.
         bindE (deref (cwd (cur s))) (\<lambda>old.
         bindE (iput old s) (\<lambda>s. bindE (end_op s) (\<lambda>s.
           ret 0 (upd_proc (the (myproc s)) (cwd_update (\<lambda>_. Some ip)) s)))))))))"

text \<open>
  The loop of \<^verbatim>\<open>sys_exec\<close> with \<open>k\<close> entries of \<^verbatim>\<open>argv\<close> left:
  whether it ended normally, and the pages allocated for the strings.
\<close>

primrec exec_args :: "nat \<Rightarrow> u64 \<Rightarrow> u64 list \<Rightarrow> 'a ptab_scheme \<Rightarrow> (bool \<times> u64 list \<times> 'a ptab_scheme) res" where
  "exec_args 0 uargv argv s = Inr (False, argv, s)"
| "exec_args (Suc k) uargv argv s = bindE (fetchaddr (uargv + 8 * of_nat (length argv)) s) (\<lambda>a.
     case a of None \<Rightarrow> Inr (False, argv, s) | Some uarg \<Rightarrow>
       if uarg = 0 then Inr (True, argv, s)
       else bindE (kalloc s) (\<lambda>(pg, s).
         if pg = 0 then Inr (False, argv, s)
         else bindE (fetchstr uarg PGSIZE s) (\<lambda>(r, bs).
           let s = s\<lparr>mem := put_bytes (mem s) pg bs\<rparr> in
           if r < 0 then Inr (False, argv @ [pg], s) else exec_args k uargv (argv @ [pg]) s)))"

definition sys_exec :: "'a ftab_scheme \<Rightarrow> (u64 outcome \<times> 'a ftab_scheme) res" where
  "sys_exec s = bindE (argpath 0 s) (\<lambda>a. case a of None \<Rightarrow> ret (- 1) s | Some path \<Rightarrow>
     bindE (argaddr 1 s) (\<lambda>uargv. bindE (exec_args MAXARG uargv [] s) (\<lambda>(ok, argv, s).
     if ok then bindE (exec path argv s) (\<lambda>(r, s). bindE (foldE kfree argv s) (ret r))
     else bindE (foldE kfree argv s) (ret (- 1)))))"

definition sys_pipe_bad :: "nat \<Rightarrow> nat \<Rightarrow> nat list \<Rightarrow> 'a ftab_scheme \<Rightarrow> (u64 outcome \<times> 'a ftab_scheme) res" where
  "sys_pipe_bad rf0 wf0 fds s =
     bindE (fileclose rf0 (upd_proc (the (myproc s)) (ofile_update (\<lambda>fs. fold (\<lambda>fd fs. fs[fd := None]) fds fs)) s))
       (\<lambda>s. bindE (fileclose wf0 s) (ret (- 1)))"

definition sys_pipe :: "'a ftab_scheme \<Rightarrow> (u64 outcome \<times> 'a ftab_scheme) res" where
  "sys_pipe s = bindE (argaddr 0 s) (\<lambda>fdarray. bindE (pipealloc s) (\<lambda>(r, s).
     case r of None \<Rightarrow> ret (- 1) s | Some (rf0, wf0) \<Rightarrow>
       (case fdalloc rf0 s of (fd0, s) \<Rightarrow>
        if fd0 < 0 then sys_pipe_bad rf0 wf0 [] s
        else case fdalloc wf0 s of (fd1, s) \<Rightarrow>
        if fd1 < 0 then sys_pipe_bad rf0 wf0 [nat fd0] s
        else let pt = pagetable (cur s) in
          bindE (copyout pt fdarray (le_bytes 4 (word_of_int fd0 :: u32)) 4 s) (\<lambda>(c, s).
          bindE (if c < 0 then Inr (c, s) else copyout pt (fdarray + 4) (le_bytes 4 (word_of_int fd1 :: u32)) 4 s) (\<lambda>(c, s).
            if c < 0 then sys_pipe_bad rf0 wf0 [nat fd0, nat fd1] s else ret 0 s)))))"

subsection \<open>Dispatch\<close>

definition syscalls :: "('a ftab_scheme \<Rightarrow> (u64 outcome \<times> 'a ftab_scheme) res) list" where
  "syscalls = [sys_fork, sys_exit, sys_wait, sys_pipe, sys_read, sys_kill, sys_exec, sys_fstat, sys_chdir,
     sys_dup, sys_getpid, sys_sbrk, sys_sleep, sys_uptime, sys_open, sys_write, sys_mknod, sys_unlink,
     sys_link, sys_mkdir, sys_close]"

definition syscall :: "'a ftab_scheme \<Rightarrow> (unit outcome \<times> 'a ftab_scheme) res" where
  "syscall s = (let p = the (myproc s); num = sint (ucast (tf_get p tf_a7 s) :: u32) in
     if num > 0 \<and> num \<le> int (length (syscalls :: ('a ftab_scheme \<Rightarrow> (u64 outcome \<times> 'a ftab_scheme) res) list))
     then bindE ((syscalls ! (nat num - 1)) s) (\<lambda>(r, s).
       case r of Returns v \<Rightarrow> Inr (Returns (), tf_set p tf_a0 v s) | Blocks \<Rightarrow> Inr (Blocks, s))
     else bindE (printf (Some (cstr ''%d %s: unknown sys call %d'' @ [10]))
         [AInt (pid (proc s p)), AStr (Some (pname (proc s p))), AInt num] s) (\<lambda>s.
       Inr (Returns (), tf_set p tf_a0 (- 1) s)))"

end
