(* ===== verification/Virtio.thy ===== *)
theory Virtio
  imports File
begin

text \<open>
  The disk driver: \<^verbatim>\<open>kernel/virtio_disk.c\<close>. The descriptor table and the two rings
  shared with the device are lists; an address in a descriptor is what it points to: the request
  header on the stack of the caller, with its physical address, the data of a buffer, or a status byte. Reads of device
  registers take the values of an arbitrary list, writes are recorded.
  \<^verbatim>\<open>virtio_disk_rw\<close> sleeps until the request is complete, so it is two operations: up
  to the first sleep, and from a wakeup on.
\<close>

subsection \<open>State\<close>

definition NUM :: nat where "NUM = 8"
definition VRING_DESC_F_NEXT :: u16 where "VRING_DESC_F_NEXT = 1"
definition VRING_DESC_F_WRITE :: u16 where "VRING_DESC_F_WRITE = 2"
definition VIRTIO_BLK_T_IN :: u32 where "VIRTIO_BLK_T_IN = 0"
definition VIRTIO_BLK_T_OUT :: u32 where "VIRTIO_BLK_T_OUT = 1"
definition VIRTIO_MMIO_MAGIC_VALUE :: u32 where "VIRTIO_MMIO_MAGIC_VALUE = 0x000"
definition VIRTIO_MMIO_VERSION :: u32 where "VIRTIO_MMIO_VERSION = 0x004"
definition VIRTIO_MMIO_DEVICE_ID :: u32 where "VIRTIO_MMIO_DEVICE_ID = 0x008"
definition VIRTIO_MMIO_VENDOR_ID :: u32 where "VIRTIO_MMIO_VENDOR_ID = 0x00c"
definition VIRTIO_MMIO_DEVICE_FEATURES :: u32 where "VIRTIO_MMIO_DEVICE_FEATURES = 0x010"
definition VIRTIO_MMIO_DRIVER_FEATURES :: u32 where "VIRTIO_MMIO_DRIVER_FEATURES = 0x020"
definition VIRTIO_MMIO_GUEST_PAGE_SIZE :: u32 where "VIRTIO_MMIO_GUEST_PAGE_SIZE = 0x028"
definition VIRTIO_MMIO_QUEUE_SEL :: u32 where "VIRTIO_MMIO_QUEUE_SEL = 0x030"
definition VIRTIO_MMIO_QUEUE_NUM_MAX :: u32 where "VIRTIO_MMIO_QUEUE_NUM_MAX = 0x034"
definition VIRTIO_MMIO_QUEUE_NUM :: u32 where "VIRTIO_MMIO_QUEUE_NUM = 0x038"
definition VIRTIO_MMIO_QUEUE_PFN :: u32 where "VIRTIO_MMIO_QUEUE_PFN = 0x040"
definition VIRTIO_MMIO_QUEUE_NOTIFY :: u32 where "VIRTIO_MMIO_QUEUE_NOTIFY = 0x050"
definition VIRTIO_MMIO_INTERRUPT_STATUS :: u32 where "VIRTIO_MMIO_INTERRUPT_STATUS = 0x060"
definition VIRTIO_MMIO_INTERRUPT_ACK :: u32 where "VIRTIO_MMIO_INTERRUPT_ACK = 0x064"
definition VIRTIO_MMIO_STATUS :: u32 where "VIRTIO_MMIO_STATUS = 0x070"

datatype daddr = NullAddr | Header u64 u32 u64 | DataOf nat | StatusOf nat

record vring_desc =
  daddr :: daddr
  dlen :: u32
  dflags :: u16
  dnext :: u16

text \<open>\<open>bdisk\<close> is the field \<^verbatim>\<open>disk\<close> of the buffers.\<close>

record vdisk =
  desc :: "vring_desc list"
  avail_idx :: u16
  avail_ring :: "u16 list"
  used_id :: u16
  used_elems :: "u32 list"
  vfree :: "bool list"
  used_idx :: u16
  info_b :: "nat option list"
  info_status :: "u8 list"
  bdisk :: "nat \<Rightarrow> bool"

record virtio = ftab +
  vdisk :: vdisk
  disk_pages :: u64
  mmio_in :: "u32 list"
  mmio_out :: "(u32 \<times> u32) list"

definition upd_disk :: "(vdisk \<Rightarrow> vdisk) \<Rightarrow> 'a virtio_scheme \<Rightarrow> 'a virtio_scheme" where
  "upd_disk f s = s\<lparr>vdisk := f (vdisk s)\<rparr>"

definition read_reg :: "u32 \<Rightarrow> 'a virtio_scheme \<Rightarrow> (u32 \<times> 'a virtio_scheme) res" where
  "read_reg r s = (case mmio_in s of [] \<Rightarrow> Inl OutOfFuel | v # vs \<Rightarrow> Inr (v, s\<lparr>mmio_in := vs\<rparr>))"

definition write_reg :: "u32 \<Rightarrow> u32 \<Rightarrow> 'a virtio_scheme \<Rightarrow> 'a virtio_scheme" where
  "write_reg r v s = s\<lparr>mmio_out := mmio_out s @ [(r, v)]\<rparr>"

subsection \<open>Initialisation\<close>

text \<open>The registers that must hold given values, read in order until one does not.\<close>

primrec probe :: "(u32 \<times> u32) list \<Rightarrow> 'a virtio_scheme \<Rightarrow> 'a virtio_scheme res" where
  "probe [] s = Inr s"
| "probe (rv # rvs) s = bindE (read_reg (fst rv) s) (\<lambda>(v, s).
     if v \<noteq> snd rv then Inl (Panic ''could not find virtio disk'') else probe rvs s)"

definition clear_features :: "u32 \<Rightarrow> u32" where
  "clear_features f = fold (\<lambda>k f. f AND NOT (push_bit k 1)) [5, 7, 11, 12, 27, 29, 28] f"

definition virtio_disk_init :: "'a virtio_scheme \<Rightarrow> 'a virtio_scheme res" where
  "virtio_disk_init s =
     bindE (probe [(VIRTIO_MMIO_MAGIC_VALUE, 0x74726976), (VIRTIO_MMIO_VERSION, 1),
         (VIRTIO_MMIO_DEVICE_ID, 2), (VIRTIO_MMIO_VENDOR_ID, 0x554d4551)] (kinitlock DiskLock s)) (\<lambda>s.
     let s = write_reg VIRTIO_MMIO_STATUS 3 (write_reg VIRTIO_MMIO_STATUS 1 s) in
     bindE (read_reg VIRTIO_MMIO_DEVICE_FEATURES s) (\<lambda>(f, s).
     let s = write_reg VIRTIO_MMIO_DRIVER_FEATURES (clear_features f) s;
         s = write_reg VIRTIO_MMIO_STATUS 11 s;
         s = write_reg VIRTIO_MMIO_STATUS 15 s;
         s = write_reg VIRTIO_MMIO_GUEST_PAGE_SIZE 4096 s;
         s = write_reg VIRTIO_MMIO_QUEUE_SEL 0 s in
     bindE (read_reg VIRTIO_MMIO_QUEUE_NUM_MAX s) (\<lambda>(m, s).
       if m = 0 then Inl (Panic ''virtio disk has no queue 0'')
       else if m < of_nat NUM then Inl (Panic ''virtio disk max queue too short'')
       else
         let s = write_reg VIRTIO_MMIO_QUEUE_NUM (of_nat NUM) s;
             s = write_reg VIRTIO_MMIO_QUEUE_PFN (ucast (drop_bit 12 (disk_pages s))) s in
         Inr (upd_disk (\<lambda>d. d
           \<lparr>desc := replicate NUM \<lparr>daddr = NullAddr, dlen = 0, dflags = 0, dnext = 0\<rparr>,
            avail_idx := 0, avail_ring := replicate NUM 0, used_id := 0, used_elems := replicate NUM 0,
            vfree := replicate NUM True\<rparr>) s))))"

subsection \<open>Descriptors\<close>

definition alloc_desc :: "'a virtio_scheme \<Rightarrow> int \<times> 'a virtio_scheme" where
  "alloc_desc s =
     (case find (\<lambda>i. vfree (vdisk s) ! i) [0..<NUM] of
        None \<Rightarrow> (- 1, s)
      | Some i \<Rightarrow> (int i, upd_disk (vfree_update (\<lambda>f. f[i := False])) s))"

definition free_desc :: "nat \<Rightarrow> 'a virtio_scheme \<Rightarrow> 'a virtio_scheme res" where
  "free_desc i s =
     (if i \<ge> NUM then Inl (Panic ''virtio_disk_intr 1'')
      else if vfree (vdisk s) ! i then Inl (Panic ''virtio_disk_intr 2'')
      else wakeup ChDiskFree (upd_disk (\<lambda>d. d
        \<lparr>desc := (desc d)[i := (desc d ! i)\<lparr>daddr := NullAddr\<rparr>], vfree := (vfree d)[i := True]\<rparr>) s))"

text \<open>
  A chain has at most as many descriptors as the table: a longer one visits a descriptor twice and
  \<^verbatim>\<open>free_desc\<close> panics. The first argument bounds the number of rounds by that.
\<close>

primrec free_chain_loop :: "nat \<Rightarrow> nat \<Rightarrow> 'a virtio_scheme \<Rightarrow> 'a virtio_scheme res" where
  "free_chain_loop 0 i s = Inl OutOfFuel"
| "free_chain_loop (Suc k) i s = bindE (free_desc i s) (\<lambda>s.
     if dflags (desc (vdisk s) ! i) AND VRING_DESC_F_NEXT \<noteq> 0
     then free_chain_loop k (unat (dnext (desc (vdisk s) ! i))) s else Inr s)"

definition free_chain :: "nat \<Rightarrow> 'a virtio_scheme \<Rightarrow> 'a virtio_scheme res" where
  "free_chain i s = free_chain_loop (NUM + 1) i s"

text \<open>\<open>got\<close> are the descriptors allocated so far, of three.\<close>

primrec alloc3_loop :: "nat \<Rightarrow> nat list \<Rightarrow> 'a virtio_scheme \<Rightarrow> (nat list option \<times> 'a virtio_scheme) res" where
  "alloc3_loop 0 got s = Inr (Some got, s)"
| "alloc3_loop (Suc k) got s = (case alloc_desc s of (i, s) \<Rightarrow>
     if i < 0 then bindE (foldE free_desc got s) (\<lambda>s. Inr (None, s))
     else alloc3_loop k (got @ [nat i]) s)"

definition alloc3_desc :: "'a virtio_scheme \<Rightarrow> (nat list option \<times> 'a virtio_scheme) res" where
  "alloc3_desc s = alloc3_loop 3 [] s"

subsection \<open>Requests\<close>

text \<open>The three descriptors of a request for buffer \<open>b\<close>, with the header at the physical address \<open>pa\<close>.\<close>

definition set_descs :: "nat \<Rightarrow> nat \<Rightarrow> nat \<Rightarrow> nat \<Rightarrow> u64 \<Rightarrow> bool \<Rightarrow> u64 \<Rightarrow> vdisk \<Rightarrow> vdisk" where
  "set_descs i0 i1 i2 b pa wr sector d = d
     \<lparr>desc := (desc d)
       [i0 := \<lparr>daddr = Header pa (if wr then VIRTIO_BLK_T_OUT else VIRTIO_BLK_T_IN) sector, dlen = 16,
               dflags = VRING_DESC_F_NEXT, dnext = of_nat i1\<rparr>,
        i1 := \<lparr>daddr = DataOf b, dlen = of_nat BSIZE,
               dflags = (if wr then 0 else VRING_DESC_F_WRITE) OR VRING_DESC_F_NEXT, dnext = of_nat i2\<rparr>,
        i2 := \<lparr>daddr = StatusOf i0, dlen = 1, dflags = VRING_DESC_F_WRITE, dnext = 0\<rparr>],
      info_status := (info_status d)[i0 := 0]\<rparr>"

definition submit :: "nat \<Rightarrow> nat \<Rightarrow> vdisk \<Rightarrow> vdisk" where
  "submit i0 b d = d
     \<lparr>bdisk := (bdisk d)(b := True), info_b := (info_b d)[i0 := Some b],
      avail_ring := (avail_ring d)[unat (avail_idx d) mod NUM := of_nat i0],
      avail_idx := avail_idx d + 1\<rparr>"

text \<open>
  \<^verbatim>\<open>virtio_disk_rw\<close> up to its first sleep: for free descriptors, with outcome
  \<open>Blocks\<close>, or for the completion of the request it has made, with the first descriptor as
  its outcome; it holds the lock since it set \<^verbatim>\<open>b->disk\<close>, so it does sleep.
  \<open>buf0\<close> is the address of the header on the kernel stack of the caller, which the compiler chooses.
\<close>

definition rw_try :: "u64 \<Rightarrow> nat \<Rightarrow> bool \<Rightarrow> 'a virtio_scheme \<Rightarrow> (nat outcome \<times> 'a virtio_scheme) res" where
  "rw_try buf0 b wr s = bindE (alloc3_desc s) (\<lambda>(idx, s).
     case idx of None \<Rightarrow> bindE (sleep ChDiskFree DiskLock s) (\<lambda>s. Inr (Blocks, s))
     | Some is3 \<Rightarrow>
         bindE (kvmpa buf0 s) (\<lambda>pa.
         let i0 = is3 ! 0; i1 = is3 ! 1; i2 = is3 ! 2;
             sector = ucast (blockno (bufs s b) * of_nat (BSIZE div 512));
             s = upd_disk (\<lambda>d. submit i0 b (set_descs i0 i1 i2 b pa wr sector d)) s;
             s = write_reg VIRTIO_MMIO_QUEUE_NOTIFY 0 s in
         bindE (sleep (ChBuf b) DiskLock s) (\<lambda>s. Inr (Returns i0, s))))"

definition virtio_disk_rw :: "u64 \<Rightarrow> nat \<Rightarrow> bool \<Rightarrow> 'a virtio_scheme \<Rightarrow> (nat outcome \<times> 'a virtio_scheme) res" where
  "virtio_disk_rw buf0 b wr s = bindE (kacquire DiskLock s) (rw_try buf0 b wr)"

text \<open>Awake after waiting for descriptors.\<close>

definition virtio_disk_rw_retry :: "u64 \<Rightarrow> nat \<Rightarrow> bool \<Rightarrow> 'a virtio_scheme \<Rightarrow> (nat outcome \<times> 'a virtio_scheme) res" where
  "virtio_disk_rw_retry buf0 b wr s = bindE (sleep_return DiskLock s) (rw_try buf0 b wr)"

text \<open>Awake after waiting for the request whose first descriptor is \<open>i0\<close>.\<close>

definition virtio_disk_rw_return :: "nat \<Rightarrow> nat \<Rightarrow> 'a virtio_scheme \<Rightarrow> (unit outcome \<times> 'a virtio_scheme) res" where
  "virtio_disk_rw_return b i0 s = bindE (sleep_return DiskLock s) (\<lambda>s.
     if bdisk (vdisk s) b then bindE (sleep (ChBuf b) DiskLock s) (\<lambda>s. Inr (Blocks, s))
     else bindE (free_chain i0 (upd_disk (info_b_update (\<lambda>f. f[i0 := None])) s)) (\<lambda>s.
       bindE (krelease DiskLock s) (\<lambda>s. Inr (Returns (), s))))"

subsection \<open>Interrupts\<close>

text \<open>
  The loop of the interrupt handler; the first argument bounds the number of rounds, fewer than
  \<^verbatim>\<open>NUM\<close> because both indices count modulo \<^verbatim>\<open>NUM\<close>.
\<close>

primrec intr_loop :: "nat \<Rightarrow> 'a virtio_scheme \<Rightarrow> 'a virtio_scheme res" where
  "intr_loop 0 s = Inl OutOfFuel"
| "intr_loop (Suc k) s =
     (let d = vdisk s in
      if unat (used_idx d) mod NUM = unat (used_id d) mod NUM then Inr s
      else let i = unat (used_elems d ! unat (used_idx d)) in
        if i \<ge> NUM then Inl Undef
        else if info_status d ! i \<noteq> 0 then Inl (Panic ''virtio_disk_intr status'')
        else bindE (deref (info_b d ! i)) (\<lambda>b.
          bindE (wakeup (ChBuf b) (upd_disk (\<lambda>d. d\<lparr>bdisk := (bdisk d)(b := False)\<rparr>) s)) (\<lambda>s.
            intr_loop k (upd_disk (\<lambda>d. d\<lparr>used_idx := (used_idx d + 1) mod of_nat NUM\<rparr>) s))))"

definition virtio_disk_intr :: "'a virtio_scheme \<Rightarrow> 'a virtio_scheme res" where
  "virtio_disk_intr s = bindE (kacquire DiskLock s) (\<lambda>s. bindE (intr_loop NUM s) (\<lambda>s.
     bindE (read_reg VIRTIO_MMIO_INTERRUPT_STATUS s) (\<lambda>(v, s).
       krelease DiskLock (write_reg VIRTIO_MMIO_INTERRUPT_ACK (v AND 3) s))))"

end
