(* ===== verification/Csr.thy ===== *)
theory Csr
  imports Riscv
begin

text \<open>
  Control and status registers: the accessors of \<^verbatim>\<open>kernel/riscv.h\<close> that the kernel
  calls, on the registers of one hart, and \<^verbatim>\<open>kernel/start.c\<close>, which runs in machine
  mode before \<^verbatim>\<open>main\<close>.
\<close>

subsection \<open>Accessors\<close>

definition r_mhartid :: "'a hart_scheme \<Rightarrow> u64" where "r_mhartid h = mhartid h"
definition r_mstatus :: "'a hart_scheme \<Rightarrow> u64" where "r_mstatus h = mstatus h"
definition w_mstatus :: "u64 \<Rightarrow> 'a hart_scheme \<Rightarrow> 'a hart_scheme" where "w_mstatus x h = h\<lparr>mstatus := x\<rparr>"
definition w_mepc :: "u64 \<Rightarrow> 'a hart_scheme \<Rightarrow> 'a hart_scheme" where "w_mepc x h = h\<lparr>mepc := x\<rparr>"
definition r_sstatus :: "'a hart_scheme \<Rightarrow> u64" where "r_sstatus h = sstatus h"
definition w_sstatus :: "u64 \<Rightarrow> 'a hart_scheme \<Rightarrow> 'a hart_scheme" where "w_sstatus x h = h\<lparr>sstatus := x\<rparr>"
definition r_sip :: "'a hart_scheme \<Rightarrow> u64" where "r_sip h = sip h"
definition w_sip :: "u64 \<Rightarrow> 'a hart_scheme \<Rightarrow> 'a hart_scheme" where "w_sip x h = h\<lparr>sip := x\<rparr>"
definition r_sie :: "'a hart_scheme \<Rightarrow> u64" where "r_sie h = sie h"
definition w_sie :: "u64 \<Rightarrow> 'a hart_scheme \<Rightarrow> 'a hart_scheme" where "w_sie x h = h\<lparr>sie := x\<rparr>"
definition r_mie :: "'a hart_scheme \<Rightarrow> u64" where "r_mie h = mie h"
definition w_mie :: "u64 \<Rightarrow> 'a hart_scheme \<Rightarrow> 'a hart_scheme" where "w_mie x h = h\<lparr>mie := x\<rparr>"
definition w_sepc :: "u64 \<Rightarrow> 'a hart_scheme \<Rightarrow> 'a hart_scheme" where "w_sepc x h = h\<lparr>sepc := x\<rparr>"
definition r_sepc :: "'a hart_scheme \<Rightarrow> u64" where "r_sepc h = sepc h"
definition w_medeleg :: "u64 \<Rightarrow> 'a hart_scheme \<Rightarrow> 'a hart_scheme" where "w_medeleg x h = h\<lparr>medeleg := x\<rparr>"
definition w_mideleg :: "u64 \<Rightarrow> 'a hart_scheme \<Rightarrow> 'a hart_scheme" where "w_mideleg x h = h\<lparr>mideleg := x\<rparr>"
definition w_stvec :: "u64 \<Rightarrow> 'a hart_scheme \<Rightarrow> 'a hart_scheme" where "w_stvec x h = h\<lparr>stvec := x\<rparr>"
definition w_mtvec :: "u64 \<Rightarrow> 'a hart_scheme \<Rightarrow> 'a hart_scheme" where "w_mtvec x h = h\<lparr>mtvec := x\<rparr>"
definition w_satp :: "u64 \<Rightarrow> 'a hart_scheme \<Rightarrow> 'a hart_scheme" where "w_satp x h = h\<lparr>satp := x\<rparr>"
definition r_satp :: "'a hart_scheme \<Rightarrow> u64" where "r_satp h = satp h"
definition w_mscratch :: "u64 \<Rightarrow> 'a hart_scheme \<Rightarrow> 'a hart_scheme" where "w_mscratch x h = h\<lparr>mscratch := x\<rparr>"
definition r_scause :: "'a hart_scheme \<Rightarrow> u64" where "r_scause h = scause h"
definition r_stval :: "'a hart_scheme \<Rightarrow> u64" where "r_stval h = stval h"
definition r_tp :: "'a hart_scheme \<Rightarrow> u64" where "r_tp h = tp h"
definition w_tp :: "u64 \<Rightarrow> 'a hart_scheme \<Rightarrow> 'a hart_scheme" where "w_tp x h = h\<lparr>tp := x\<rparr>"

lemmas csr_defs = r_mhartid_def r_mstatus_def w_mstatus_def w_mepc_def r_sstatus_def w_sstatus_def
  r_sip_def w_sip_def r_sie_def w_sie_def r_mie_def w_mie_def w_sepc_def r_sepc_def w_medeleg_def
  w_mideleg_def w_stvec_def w_mtvec_def w_satp_def r_satp_def w_mscratch_def r_scause_def
  r_stval_def r_tp_def w_tp_def

definition MSTATUS_MPP_MASK :: u64 where "MSTATUS_MPP_MASK = push_bit 11 3"
definition MSTATUS_MPP_S :: u64 where "MSTATUS_MPP_S = push_bit 11 1"
definition MSTATUS_MIE :: u64 where "MSTATUS_MIE = push_bit 3 1"
definition SIE_SEIE :: u64 where "SIE_SEIE = push_bit 9 1"
definition SIE_STIE :: u64 where "SIE_STIE = push_bit 5 1"
definition SIE_SSIE :: u64 where "SIE_SSIE = push_bit 1 1"
definition MIE_MTIE :: u64 where "MIE_MTIE = push_bit 7 1"

text \<open>The identity of a CPU is in \<^verbatim>\<open>tp\<close>; it is returned as an \<^verbatim>\<open>int\<close>.\<close>

definition cpuid :: "'a hart_scheme \<Rightarrow> int" where
  "cpuid h = sint (ucast (r_tp h) :: u32)"

subsection \<open>Machine mode\<close>

definition CLINT_MTIMECMP :: "int \<Rightarrow> u64" where
  "CLINT_MTIMECMP hart = CLINT + 0x4000 + 8 * word_of_int hart"

definition CLINT_MTIME :: u64 where "CLINT_MTIME = CLINT + 0xBFF8"

text \<open>
  The state of \<^verbatim>\<open>start\<close>: the registers, memory with the timer's device registers, the
  addresses of \<^verbatim>\<open>main\<close>, \<^verbatim>\<open>timervec\<close> and
  \<^verbatim>\<open>mscratch0\<close>, and whether the hart is in supervisor mode with its program counter.
\<close>

record boot =
  bhart :: hart
  bmem :: memory
  main_pc :: u64
  timervec_pc :: u64
  mscratch0 :: u64
  supervisor :: bool
  bpc :: u64

definition timerinit :: "boot \<Rightarrow> boot" where
  "timerinit s =
     (let id = sint (ucast (r_mhartid (bhart s)) :: u32); interval = 1000000;
          m = store64 (bmem s) (CLINT_MTIMECMP id) (load64 (bmem s) CLINT_MTIME + interval);
          scratch = mscratch0 s + 8 * (32 * word_of_int id);
          m = store64 m (scratch + 32) (CLINT_MTIMECMP id);
          m = store64 m (scratch + 40) interval;
          h = w_mtvec (timervec_pc s) (w_mscratch scratch (bhart s));
          h = w_mstatus (r_mstatus h OR MSTATUS_MIE) h;
          h = w_mie (r_mie h OR MIE_MTIE) h
      in s\<lparr>bmem := m, bhart := h\<rparr>)"

text \<open>The instruction \<^verbatim>\<open>mret\<close>: go to \<^verbatim>\<open>mepc\<close> in the mode of \<^verbatim>\<open>MPP\<close>.\<close>

definition mret :: "boot \<Rightarrow> boot" where
  "mret s = s\<lparr>bpc := mepc (bhart s), supervisor := mstatus (bhart s) AND MSTATUS_MPP_MASK = MSTATUS_MPP_S\<rparr>"

definition start :: "boot \<Rightarrow> boot" where
  "start s =
     (let h = bhart s;
          x = r_mstatus h AND NOT MSTATUS_MPP_MASK;
          x = x OR MSTATUS_MPP_S;
          h = w_satp 0 (w_mepc (main_pc s) (w_mstatus x h));
          h = w_mideleg 0xffff (w_medeleg 0xffff h);
          h = w_sie (r_sie h OR SIE_SEIE OR SIE_STIE OR SIE_SSIE) h;
          s = timerinit (s\<lparr>bhart := h\<rparr>);
          id = sint (ucast (r_mhartid (bhart s)) :: u32)
      in mret (s\<lparr>bhart := w_tp (word_of_int id) (bhart s)\<rparr>))"

end
