(* ===== verification/Trap.thy ===== *)
theory Trap
  imports Syscall Virtio Csr
begin

text \<open>
  Traps and device interrupts: \<^verbatim>\<open>kernel/trap.c\<close>, \<^verbatim>\<open>kernel/plic.c\<close>,
  \<^verbatim>\<open>forkret\<close> of \<^verbatim>\<open>kernel/proc.c\<close> and \<^verbatim>\<open>kernel/main.c\<close>.
  The state has the registers of the hart the code runs on. The addresses of code are the linker's.
  A trap handler that gives up the CPU stops in the state of its call of \<^verbatim>\<open>sched\<close>.
\<close>

subsection \<open>State\<close>

record trap = virtio +
  hart :: hart
  kernelvec_pc :: u64
  uservec_pc :: u64
  userret_pc :: u64
  usertrap_pc :: u64
  plic_in :: "u32 list"
  plic_out :: "(u64 \<times> u32) list"
  first :: bool
  started :: bool

definition upd_hart :: "(hart \<Rightarrow> hart) \<Rightarrow> 'a trap_scheme \<Rightarrow> 'a trap_scheme" where
  "upd_hart f s = s\<lparr>hart := f (hart s)\<rparr>"

subsection \<open>Interrupt controller\<close>

definition UART0_IRQ :: int where "UART0_IRQ = 10"
definition VIRTIO0_IRQ :: int where "VIRTIO0_IRQ = 1"

definition PLIC_SENABLE :: "int \<Rightarrow> u64" where
  "PLIC_SENABLE h = PLIC + 0x2080 + word_of_int h * 0x100"

definition PLIC_SPRIORITY :: "int \<Rightarrow> u64" where
  "PLIC_SPRIORITY h = PLIC + 0x201000 + word_of_int h * 0x2000"

definition PLIC_SCLAIM :: "int \<Rightarrow> u64" where
  "PLIC_SCLAIM h = PLIC + 0x201004 + word_of_int h * 0x2000"

definition plic_write :: "u64 \<Rightarrow> u32 \<Rightarrow> 'a trap_scheme \<Rightarrow> 'a trap_scheme" where
  "plic_write a v s = s\<lparr>plic_out := plic_out s @ [(a, v)]\<rparr>"

definition plicinit :: "'a trap_scheme \<Rightarrow> 'a trap_scheme" where
  "plicinit s = plic_write (PLIC + word_of_int VIRTIO0_IRQ * 4) 1
     (plic_write (PLIC + word_of_int UART0_IRQ * 4) 1 s)"

definition plicinithart :: "'a trap_scheme \<Rightarrow> 'a trap_scheme" where
  "plicinithart s = (let h = cpuid (hart s) in
     plic_write (PLIC_SPRIORITY h) 0
       (plic_write (PLIC_SENABLE h) (push_bit (nat UART0_IRQ) 1 OR push_bit (nat VIRTIO0_IRQ) 1) s))"

definition plic_claim :: "'a trap_scheme \<Rightarrow> (int \<times> 'a trap_scheme) res" where
  "plic_claim s = (case plic_in s of [] \<Rightarrow> Inl OutOfFuel | v # vs \<Rightarrow> Inr (sint v, s\<lparr>plic_in := vs\<rparr>))"

definition plic_complete :: "int \<Rightarrow> 'a trap_scheme \<Rightarrow> 'a trap_scheme" where
  "plic_complete irq s = plic_write (PLIC_SCLAIM (cpuid (hart s))) (word_of_int irq) s"

subsection \<open>Interrupts\<close>

definition trapinit :: "'a trap_scheme \<Rightarrow> 'a trap_scheme" where
  "trapinit s = kinitlock TicksLock s"

definition trapinithart :: "'a trap_scheme \<Rightarrow> 'a trap_scheme" where
  "trapinithart s = upd_hart (w_stvec (kernelvec_pc s)) s"

definition clockintr :: "'a trap_scheme \<Rightarrow> 'a trap_scheme res" where
  "clockintr s = bindE (kacquire TicksLock s) (\<lambda>s.
     bindE (wakeup ChTicks (s\<lparr>ticks := ticks s + 1\<rparr>)) (krelease TicksLock))"

definition devintr :: "'a trap_scheme \<Rightarrow> (int \<times> 'a trap_scheme) res" where
  "devintr s = (let sc = r_scause (hart s) in
     if sc AND 0x8000000000000000 \<noteq> 0 \<and> sc AND 0xff = 9
     then bindE (plic_claim s) (\<lambda>(irq, s).
       bindE (if irq = UART0_IRQ then uartintr s
              else if irq = VIRTIO0_IRQ then virtio_disk_intr s
              else if irq \<noteq> 0 then printf (Some (cstr ''unexpected interrupt irq=%d'' @ [10])) [AInt irq] s
              else Inr s) (\<lambda>s.
         Inr (1, if irq \<noteq> 0 then plic_complete irq s else s)))
     else if sc = 0x8000000000000001
     then bindE (if cpuid (hart s) = 0 then clockintr s else Inr s) (\<lambda>s.
       Inr (2, upd_hart (\<lambda>h. w_sip (r_sip h AND NOT 2) h) s))
     else Inr (0, s))"

subsection \<open>Traps from user space\<close>

text \<open>
  \<^verbatim>\<open>usertrapret\<close> ends with a jump to \<^verbatim>\<open>userret\<close> in the trampoline page:
  the address it jumps to and the two arguments.
\<close>

record userjump =
  uj_fn :: u64
  uj_trapframe :: u64
  uj_satp :: u64

definition usertrapret :: "'a trap_scheme \<Rightarrow> userjump \<times> 'a trap_scheme" where
  "usertrapret s =
     (let p = the (myproc s);
          s = upd_hart intr_off s;
          s = upd_hart (w_stvec (TRAMPOLINE + (uservec_pc s - trampoline s))) s;
          s = tf_set p tf_kernel_satp (r_satp (hart s)) s;
          s = tf_set p tf_kernel_sp (kstack (proc s p) + PGSIZE) s;
          s = tf_set p tf_kernel_trap (usertrap_pc s) s;
          s = tf_set p tf_kernel_hartid (r_tp (hart s)) s;
          x = r_sstatus (hart s) AND NOT SSTATUS_SPP;
          x = x OR SSTATUS_SPIE;
          s = upd_hart (w_sstatus x) s;
          s = upd_hart (w_sepc (tf_get p tf_epc s)) s
      in (\<lparr>uj_fn = TRAMPOLINE + (userret_pc s - trampoline s), uj_trapframe = TRAPFRAME,
           uj_satp = MAKE_SATP (pagetable (proc s p))\<rparr>, s))"

definition forkret :: "'a trap_scheme \<Rightarrow> (userjump \<times> 'a trap_scheme) res" where
  "forkret s = bindE (krelease (ProcLock (the (myproc s))) s) (\<lambda>s.
     bindE (if first s then fsinit ROOTDEV (s\<lparr>first := False\<rparr>) else Inr s) (\<lambda>s. Inr (usertrapret s)))"

text \<open>The end of \<^verbatim>\<open>usertrap\<close>, once the cause of the trap has been handled.\<close>

definition usertrap_end :: "int \<Rightarrow> 'a trap_scheme \<Rightarrow> (userjump outcome \<times> 'a trap_scheme) res" where
  "usertrap_end which_dev s =
     (if killed (cur s) \<noteq> 0 then bindE (exit (- 1) s) (\<lambda>s. Inr (Blocks, s))
      else if which_dev = 2 then bindE (yield s) (\<lambda>s. Inr (Blocks, s))
      else case usertrapret s of (j, s) \<Rightarrow> Inr (Returns j, s))"

definition usertrap :: "'a trap_scheme \<Rightarrow> (userjump outcome \<times> 'a trap_scheme) res" where
  "usertrap s =
     (if r_sstatus (hart s) AND SSTATUS_SPP \<noteq> 0 then Inl (Panic ''usertrap: not from user mode'')
      else let s = upd_hart (w_stvec (kernelvec_pc s)) s; p = the (myproc s);
               s = tf_set p tf_epc (r_sepc (hart s)) s in
        if r_scause (hart s) = 8
        then if killed (proc s p) \<noteq> 0 then bindE (exit (- 1) s) (\<lambda>s. Inr (Blocks, s))
          else let s = upd_hart intr_on (tf_set p tf_epc (tf_get p tf_epc s + 4) s) in
            bindE (syscall s) (\<lambda>(r, s). case r of Blocks \<Rightarrow> Inr (Blocks, s) | Returns _ \<Rightarrow> usertrap_end 0 s)
        else bindE (devintr s) (\<lambda>(w, s).
          if w \<noteq> 0 then usertrap_end w s
          else bindE (printf (Some (cstr ''usertrap(): unexpected scause %p pid=%d'' @ [10]))
              [APtr (r_scause (hart s)), AInt (pid (proc s p))] s) (\<lambda>s.
            bindE (printf (Some (cstr ''            sepc=%p stval=%p'' @ [10]))
              [APtr (r_sepc (hart s)), APtr (r_stval (hart s))] s) (\<lambda>s.
            usertrap_end 0 (upd_proc p (killed_update (\<lambda>_. 1)) s)))))"

text \<open>\<^verbatim>\<open>usertrap\<close> after its \<^verbatim>\<open>yield\<close>.\<close>

definition usertrap_return :: "'a trap_scheme \<Rightarrow> (userjump \<times> 'a trap_scheme) res" where
  "usertrap_return s = bindE (yield_return s) (\<lambda>s. Inr (usertrapret s))"

subsection \<open>Traps from the kernel\<close>

definition kerneltrap :: "'a trap_scheme \<Rightarrow> (unit outcome \<times> 'a trap_scheme) res" where
  "kerneltrap s =
     (let epc = r_sepc (hart s); st = r_sstatus (hart s); sc = r_scause (hart s) in
      if st AND SSTATUS_SPP = 0 then Inl (Panic ''kerneltrap: not from supervisor mode'')
      else if intr_get (hart s) then Inl (Panic ''kerneltrap: interrupts enabled'')
      else bindE (devintr s) (\<lambda>(w, s).
        if w = 0
        then bindE (printf (Some (cstr ''scause %p'' @ [10])) [APtr sc] s) (\<lambda>s.
          bindE (printf (Some (cstr ''sepc=%p stval=%p'' @ [10]))
            [APtr (r_sepc (hart s)), APtr (r_stval (hart s))] s) (\<lambda>s. Inl (Panic ''kerneltrap'')))
        else if w = 2 \<and> myproc s \<noteq> None \<and> pstate (cur s) = RUNNING
        then bindE (yield s) (\<lambda>s. Inr (Blocks, s))
        else Inr (Returns (), upd_hart (w_sstatus st) (upd_hart (w_sepc epc) s))))"

text \<open>\<^verbatim>\<open>kerneltrap\<close> after its \<^verbatim>\<open>yield\<close>, with the registers it saved on its stack.\<close>

definition kerneltrap_return :: "u64 \<Rightarrow> u64 \<Rightarrow> 'a trap_scheme \<Rightarrow> 'a trap_scheme res" where
  "kerneltrap_return epc st s = bindE (yield_return s) (\<lambda>s.
     Inr (upd_hart (w_sstatus st) (upd_hart (w_sepc epc) s)))"

subsection \<open>Boot\<close>

text \<open>\<^verbatim>\<open>main\<close> up to its call of \<^verbatim>\<open>scheduler\<close>.\<close>

definition main_cpu0 :: "'a trap_scheme \<Rightarrow> 'a trap_scheme res" where
  "main_cpu0 s =
     bindE (printf (Some [10]) [] (printfinit (consoleinit s))) (\<lambda>s.
     bindE (printf (Some (cstr ''xv6 kernel is booting'' @ [10])) [] s) (\<lambda>s.
     bindE (printf (Some [10]) [] s) (\<lambda>s.
     bindE (kinit s) (\<lambda>s. bindE (kvminit s) (\<lambda>s.
     let s = upd_hart (kvminithart s) s in
     bindE (procinit s (hart s)) (\<lambda>(s, h).
     let s = plicinithart (plicinit (trapinithart (trapinit (s\<lparr>hart := h\<rparr>))));
         s = fileinit (iinit (binit s)) in
     bindE (virtio_disk_init s) (\<lambda>s. bindE (userinit s) (\<lambda>s. Inr (s\<lparr>started := True\<rparr>)))))))))"

definition main_other :: "'a trap_scheme \<Rightarrow> 'a trap_scheme res" where
  "main_other s =
     (if \<not> started s then Inl Spins
      else bindE (printf (Some (cstr ''hart %d starting'' @ [10])) [AInt (cpuid (hart s))] s) (\<lambda>s.
        Inr (plicinithart (trapinithart (upd_hart (kvminithart s) s)))))"

definition main :: "'a trap_scheme \<Rightarrow> 'a trap_scheme res" where
  "main s = (if cpuid (hart s) = 0 then main_cpu0 s else main_other s)"

end
