(* ===== verification/Asm.thy ===== *)
theory Asm
  imports Csr Proc
begin

text \<open>
  The assembly routines: \<^verbatim>\<open>kernel/swtch.S\<close>, \<^verbatim>\<open>kernel/trampoline.S\<close>,
  \<^verbatim>\<open>kernel/kernelvec.S\<close> and \<^verbatim>\<open>kernel/entry.S\<close> as lists of instructions,
  and a model of the instructions they use. Memory is the memory of the address space that the
  routine's loads and stores go to: they all come before a change of \<^verbatim>\<open>satp\<close> or all
  after it.
\<close>

subsection \<open>Instructions\<close>

datatype reg =
    RA | SP | GP | TP | T0 | T1 | T2 | S0 | S1 | A0 | A1 | A2 | A3 | A4 | A5 | A6 | A7
  | S2 | S3 | S4 | S5 | S6 | S7 | S8 | S9 | S10 | S11 | T3 | T4 | T5 | T6

datatype csr = Sscratch | Satp | Mscratch | Sip | Mhartid

datatype instr =
    SD reg nat reg
  | LD reg nat reg
  | CSRRW reg csr reg
  | CSRW csr reg
  | CSRR reg csr
  | ADDI reg reg u64
  | ADD reg reg reg
  | MUL reg reg reg
  | LI reg u64
  | SFENCE
  | JR reg
  | CALL u64 u64
  | SRET
  | MRET

text \<open>\<open>jump\<close> is where control goes when the routine is left: to the address in a register or, by
  \<^verbatim>\<open>sret\<close> and \<^verbatim>\<open>mret\<close>, back to the code that was interrupted.\<close>

datatype jump = NoJump | JumpTo u64 | TrapReturn

record core =
  regs :: "reg \<Rightarrow> u64"
  csrs :: "csr \<Rightarrow> u64"
  cmem :: memory
  jump :: jump

definition set_reg :: "reg \<Rightarrow> u64 \<Rightarrow> core \<Rightarrow> core" where
  "set_reg r v s = s\<lparr>regs := (regs s)(r := v)\<rparr>"

fun exec1 :: "instr \<Rightarrow> core \<Rightarrow> core" where
  "exec1 (SD r off b) s = s\<lparr>cmem := store64 (cmem s) (regs s b + of_nat off) (regs s r)\<rparr>"
| "exec1 (LD r off b) s = set_reg r (load64 (cmem s) (regs s b + of_nat off)) s"
| "exec1 (CSRRW rd c rs) s = set_reg rd (csrs s c) (s\<lparr>csrs := (csrs s)(c := regs s rs)\<rparr>)"
| "exec1 (CSRW c rs) s = s\<lparr>csrs := (csrs s)(c := regs s rs)\<rparr>"
| "exec1 (CSRR rd c) s = set_reg rd (csrs s c) s"
| "exec1 (ADDI rd rs v) s = set_reg rd (regs s rs + v) s"
| "exec1 (ADD rd r1 r2) s = set_reg rd (regs s r1 + regs s r2) s"
| "exec1 (MUL rd r1 r2) s = set_reg rd (regs s r1 * regs s r2) s"
| "exec1 (LI rd v) s = set_reg rd v s"
| "exec1 SFENCE s = s"
| "exec1 (JR r) s = s\<lparr>jump := JumpTo (regs s r)\<rparr>"
| "exec1 (CALL a back) s = (set_reg RA back s)\<lparr>jump := JumpTo a\<rparr>"
| "exec1 SRET s = s\<lparr>jump := TrapReturn\<rparr>"
| "exec1 MRET s = s\<lparr>jump := TrapReturn\<rparr>"

definition run :: "instr list \<Rightarrow> core \<Rightarrow> core" where
  "run is s = fold exec1 is s"

text \<open>A run of stores or loads of registers at offsets from a base register.\<close>

definition saves :: "reg \<Rightarrow> (reg \<times> nat) list \<Rightarrow> instr list" where
  "saves b rs = map (\<lambda>(r, off). SD r off b) rs"

definition loads :: "reg \<Rightarrow> (reg \<times> nat) list \<Rightarrow> instr list" where
  "loads b rs = map (\<lambda>(r, off). LD r off b) rs"

subsection \<open>The routines\<close>

text \<open>The layout of \<^verbatim>\<open>struct context\<close>.\<close>

definition context_regs :: "(reg \<times> nat) list" where
  "context_regs = [(RA, 0), (SP, 8), (S0, 16), (S1, 24), (S2, 32), (S3, 40), (S4, 48), (S5, 56),
     (S6, 64), (S7, 72), (S8, 80), (S9, 88), (S10, 96), (S11, 104)]"

definition swtch :: "instr list" where
  "swtch = saves A0 context_regs @ loads A1 context_regs @ [JR RA]"

text \<open>The user registers in \<^verbatim>\<open>struct trapframe\<close> but for \<^verbatim>\<open>a0\<close>.\<close>

definition trapframe_regs :: "(reg \<times> nat) list" where
  "trapframe_regs = [(RA, 40), (SP, 48), (GP, 56), (TP, 64), (T0, 72), (T1, 80), (T2, 88), (S0, 96),
     (S1, 104), (A1, 120), (A2, 128), (A3, 136), (A4, 144), (A5, 152), (A6, 160), (A7, 168), (S2, 176),
     (S3, 184), (S4, 192), (S5, 200), (S6, 208), (S7, 216), (S8, 224), (S9, 232), (S10, 240), (S11, 248),
     (T3, 256), (T4, 264), (T5, 272), (T6, 280)]"

definition uservec :: "instr list" where
  "uservec = CSRRW A0 Sscratch A0 # saves A0 trapframe_regs @
     [CSRR T0 Sscratch, SD T0 112 A0, LD SP 8 A0, LD TP 32 A0, LD T0 16 A0, LD T1 0 A0,
      CSRW Satp T1, SFENCE, JR T0]"

definition userret :: "instr list" where
  "userret = [CSRW Satp A1, SFENCE, LD T0 112 A0, CSRW Sscratch T0] @ loads A0 trapframe_regs @
     [CSRRW A0 Sscratch A0, SRET]"

text \<open>The frame that \<^verbatim>\<open>kernelvec\<close> builds on the stack; \<^verbatim>\<open>tp\<close> is not reloaded.\<close>

definition kernelvec_save :: "(reg \<times> nat) list" where
  "kernelvec_save = [(RA, 0), (SP, 8), (GP, 16), (TP, 24), (T0, 32), (T1, 40), (T2, 48), (S0, 56),
     (S1, 64), (A0, 72), (A1, 80), (A2, 88), (A3, 96), (A4, 104), (A5, 112), (A6, 120), (A7, 128),
     (S2, 136), (S3, 144), (S4, 152), (S5, 160), (S6, 168), (S7, 176), (S8, 184), (S9, 192), (S10, 200),
     (S11, 208), (T3, 216), (T4, 224), (T5, 232), (T6, 240)]"

definition kernelvec_restore :: "(reg \<times> nat) list" where
  "kernelvec_restore = [(RA, 0), (SP, 8), (GP, 16), (T0, 32), (T1, 40), (T2, 48), (S0, 56),
     (S1, 64), (A0, 72), (A1, 80), (A2, 88), (A3, 96), (A4, 104), (A5, 112), (A6, 120), (A7, 128),
     (S2, 136), (S3, 144), (S4, 152), (S5, 160), (S6, 168), (S7, 176), (S8, 184), (S9, 192), (S10, 200),
     (S11, 208), (T3, 216), (T4, 224), (T5, 232), (T6, 240)]"

text \<open>\<^verbatim>\<open>kernelvec\<close> around its call of \<^verbatim>\<open>kerneltrap\<close>, a function on the state.\<close>

definition kernelvec :: "(core \<Rightarrow> core) \<Rightarrow> core \<Rightarrow> core" where
  "kernelvec kerneltrap s =
     run (loads SP kernelvec_restore @ [ADDI SP SP 256, SRET])
       (kerneltrap (run (ADDI SP SP (- 256) # saves SP kernelvec_save) s))"

definition timervec :: "instr list" where
  "timervec = [CSRRW A0 Mscratch A0, SD A1 0 A0, SD A2 8 A0, SD A3 16 A0,
     LD A1 32 A0, LD A2 40 A0, LD A3 0 A1, ADD A3 A3 A2, SD A3 0 A1,
     LI A1 2, CSRW Sip A1,
     LD A3 16 A0, LD A2 8 A0, LD A1 0 A0, CSRRW A0 Mscratch A0, MRET]"

text \<open>\<^verbatim>\<open>_entry\<close> with the addresses of the stacks, of \<^verbatim>\<open>start\<close> and of the loop after the call.\<close>

definition entry :: "u64 \<Rightarrow> u64 \<Rightarrow> u64 \<Rightarrow> instr list" where
  "entry stack0 start_pc spin = [LI SP stack0, LI A0 4096, CSRR A1 Mhartid, ADDI A1 A1 1, MUL A0 A0 A1,
     ADD SP SP A0, CALL start_pc spin]"

subsection \<open>Runs of stores and loads\<close>

lemma run_simps [simp]:
  "run [] s = s" "run (i # is) s = run is (exec1 i s)" "run (is @ js) s = run js (run is s)"
  by (simp_all add: run_def)

definition offs_ok :: "(reg \<times> nat) list \<Rightarrow> bool" where
  "offs_ok rs \<longleftrightarrow> distinct (map snd rs) \<and> (\<forall>off \<in> set (map snd rs). off mod 8 = 0 \<and> off < 4096)"

definition save_mem :: "(reg \<times> nat) list \<Rightarrow> u64 \<Rightarrow> (reg \<Rightarrow> u64) \<Rightarrow> memory \<Rightarrow> memory" where
  "save_mem rs b R m = fold (\<lambda>(r, off) m. store64 m (b + of_nat off) (R r)) rs m"

lemma load64_store64_apart:
  assumes "8 \<le> unat (b - a)" "unat (b - a) \<le> 2 ^ 64 - 8"
  shows "load64 (store64 m a v) b = load64 m b"
proof (rule load64_cong)
  fix i :: nat assume "i < 8"
  then have i: "unat (of_nat i :: u64) = i" by (intro unat_of_nat_small) simp
  have "unat (b - a + of_nat i) = unat (b - a) + i"
    using assms(2) \<open>i < 8\<close> by (subst unat_add_small) (simp_all add: i)
  then have "8 \<le> unat (b + of_nat i - a)" using assms(1) by (simp add: algebra_simps)
  then show "store64 m a v (b + of_nat i) = m (b + of_nat i)" by (rule store64_other)
qed

lemma load64_store64_offsets:
  fixes off off' :: nat
  assumes "off \<noteq> off'" "off mod 8 = 0" "off' mod 8 = 0" "off < 4096" "off' < 4096"
  shows "load64 (store64 m (x + of_nat off) v) (x + of_nat off') = load64 m (x + of_nat off')"
proof (rule load64_store64_apart)
  have u: "unat (of_nat off :: u64) = off" "unat (of_nat off' :: u64) = off'"
    using assms by (simp_all add: unat_of_nat_small)
  have d: "x + of_nat off' - (x + of_nat off) = of_nat off' - (of_nat off :: u64)" by simp
  have gap: "off + 8 \<le> off' \<or> off' + 8 \<le> off" using assms by presburger
  show "8 \<le> unat (x + of_nat off' - (x + of_nat off))"
    unfolding d unat_sub_if' u using gap assms(4) by auto
  show "unat (x + of_nat off' - (x + of_nat off)) \<le> 2 ^ 64 - 8"
    unfolding d unat_sub_if' u using gap assms(4,5) by auto
qed

lemma load_save_mem_out:
  "offs_ok rs \<Longrightarrow> off \<notin> snd ` set rs \<Longrightarrow> off mod 8 = 0 \<Longrightarrow> off < 4096 \<Longrightarrow>
   load64 (save_mem rs b R m) (b + of_nat off) = load64 m (b + of_nat off)"
  by (induction rs arbitrary: m)
    (auto simp: save_mem_def offs_ok_def split_beta load64_store64_offsets)

lemma load_save_mem_in:
  assumes "offs_ok rs" "(r, off) \<in> set rs"
  shows "load64 (save_mem rs b R m) (b + of_nat off) = R r"
  using assms
proof (induction rs arbitrary: m)
  case (Cons p rs)
  have rs: "offs_ok rs" using Cons.prems(1) by (simp add: offs_ok_def)
  have step: "save_mem (p # rs) b R m = save_mem rs b R (store64 m (b + of_nat (snd p)) (R (fst p)))"
    by (simp add: save_mem_def split_beta)
  show ?case
  proof (cases "(r, off) = p")
    case True
    then have "off \<notin> snd ` set rs" "off mod 8 = 0" "off < 4096"
      using Cons.prems(1) by (force simp: offs_ok_def)+
    then have "load64 (save_mem rs b R (store64 m (b + of_nat off) (R r))) (b + of_nat off) = R r"
      using rs by (simp add: load_save_mem_out mem_simps)
    then show ?thesis using True by (simp add: step) (metis fst_conv snd_conv)
  next
    case False
    then show ?thesis using Cons by (simp add: step rs)
  qed
qed simp

lemma run_saves: "run (saves b rs) s = s\<lparr>cmem := save_mem rs (regs s b) (regs s) (cmem s)\<rparr>"
  by (induction rs arbitrary: s) (auto simp: saves_def save_mem_def)

text \<open>Loads whose base register keeps its value.\<close>

definition load_regs :: "(reg \<times> nat) list \<Rightarrow> u64 \<Rightarrow> memory \<Rightarrow> (reg \<Rightarrow> u64) \<Rightarrow> reg \<Rightarrow> u64" where
  "load_regs rs b m R r = (case map_of rs r of None \<Rightarrow> R r | Some off \<Rightarrow> load64 m (b + of_nat off))"

lemma run_loads:
  assumes "distinct (map fst rs)" "\<And>off. (b, off) \<in> set rs \<Longrightarrow> load64 (cmem s) (regs s b + of_nat off) = regs s b"
  shows "run (loads b rs) s = s\<lparr>regs := load_regs rs (regs s b) (cmem s) (regs s)\<rparr>"
  using assms
proof (induction rs arbitrary: s)
  case Nil
  then show ?case by (simp add: loads_def load_regs_def)
next
  case (Cons p rs)
  obtain r off where p: "p = (r, off)" by force
  let ?t = "exec1 (LD r off b) s"
  have b: "regs ?t b = regs s b" and m: "cmem ?t = cmem s"
    using Cons.prems(2) [of off] by (auto simp: p set_reg_def)
  have "run (loads b rs) ?t = ?t\<lparr>regs := load_regs rs (regs ?t b) (cmem ?t) (regs ?t)\<rparr>"
    using Cons.prems by (intro Cons.IH) (auto simp: b m simp del: exec1.simps)
  moreover have "load_regs rs (regs s b) (cmem s) (regs ?t) = load_regs (p # rs) (regs s b) (cmem s) (regs s)"
    using Cons.prems(1)
    by (intro ext) (auto simp: load_regs_def p set_reg_def split: option.splits dest!: map_of_SomeD, force+)
  ultimately have "run (loads b rs) ?t = ?t\<lparr>regs := load_regs (p # rs) (regs s b) (cmem s) (regs s)\<rparr>"
    by (simp only: b m)
  moreover have "run (loads b (p # rs)) s = run (loads b rs) ?t" by (simp add: loads_def p)
  ultimately show ?case by (simp add: set_reg_def)
qed

lemma load_regs_in: "distinct (map fst rs) \<Longrightarrow> (r, off) \<in> set rs \<Longrightarrow> load_regs rs b m R r = load64 m (b + of_nat off)"
  by (simp add: load_regs_def)

lemma load_regs_out: "r \<notin> fst ` set rs \<Longrightarrow> load_regs rs b m R r = R r"
  by (simp add: load_regs_def map_of_eq_None_iff [THEN iffD2])

lemma layouts:
  "offs_ok context_regs" "offs_ok trapframe_regs" "offs_ok kernelvec_save" "offs_ok kernelvec_restore"
  by (simp_all add: offs_ok_def context_regs_def trapframe_regs_def kernelvec_save_def kernelvec_restore_def)

lemma layouts_distinct:
  "distinct (map fst context_regs)" "distinct (map fst trapframe_regs)" "distinct (map fst kernelvec_restore)"
  by (simp_all add: context_regs_def trapframe_regs_def kernelvec_restore_def)

subsection \<open>What the routines do\<close>

lemma in_context: "(r, off) \<in> set context_regs \<Longrightarrow> off mod 8 = 0 \<and> off \<le> 104"
  by (auto simp: context_regs_def)

lemma swtch_state:
  "run swtch s =
     (let m = save_mem context_regs (regs s A0) (regs s) (cmem s);
          R = load_regs context_regs (regs s A1) m (regs s)
      in s\<lparr>regs := R, cmem := m, jump := JumpTo (R RA)\<rparr>)"
proof -
  let ?t = "s\<lparr>cmem := save_mem context_regs (regs s A0) (regs s) (cmem s)\<rparr>"
  have "run (loads A1 context_regs) ?t = ?t\<lparr>regs := load_regs context_regs (regs ?t A1) (cmem ?t) (regs ?t)\<rparr>"
    by (rule run_loads) (auto simp: layouts_distinct context_regs_def)
  then show ?thesis by (simp add: swtch_def run_saves Let_def)
qed

text \<open>Contexts that do not overlap.\<close>

definition apart :: "u64 \<Rightarrow> u64 \<Rightarrow> bool" where
  "apart a b \<longleftrightarrow> 112 \<le> unat (b - a) \<and> unat (b - a) \<le> 2 ^ 64 - 112"

lemma unat_shift:
  fixes d :: u64
  assumes "112 \<le> unat d" "unat d \<le> 2 ^ 64 - 112" "i \<le> 104" "j \<le> 104"
  shows "unat (d + of_nat i - of_nat j) = unat d + i - j"
proof -
  have u: "unat (of_nat i :: u64) = i" "unat (of_nat j :: u64) = j"
    using assms by (simp_all add: unat_of_nat_small)
  have "unat (d + of_nat i) = unat d + i" using assms by (subst unat_add_small) (simp_all add: u)
  then show ?thesis using assms by (subst unat_sub) (simp_all add: u word_le_nat_alt)
qed

lemma load_save_mem_apart:
  assumes "apart a b" "set rs \<subseteq> set context_regs" "(r, off) \<in> set context_regs"
  shows "load64 (save_mem rs a R m) (b + of_nat off) = load64 m (b + of_nat off)"
  using assms(2)
proof (induction rs arbitrary: m)
  case Nil
  then show ?case by (simp add: save_mem_def)
next
  case (Cons p rs)
  obtain q o' where p: "p = (q, o')" by force
  have o': "o' \<le> 104" and off: "off \<le> 104" using Cons.prems assms(3) in_context by (auto simp: p)
  moreover have d: "112 \<le> unat (b - a)" "unat (b - a) \<le> 2 ^ 64 - 112"
    using assms(1) by (simp_all add: apart_def)
  ultimately have "unat (b - a + of_nat off - of_nat o') = unat (b - a) + off - o'"
    by (intro unat_shift)
  then have "unat (b + of_nat off - (a + of_nat o')) = unat (b - a) + off - o'"
    by (simp add: algebra_simps)
  then have "load64 (store64 m (a + of_nat o') (R q)) (b + of_nat off) = load64 m (b + of_nat off)"
    using o' off d by (intro load64_store64_apart) simp_all
  then show ?case using Cons by (simp add: save_mem_def p)
qed

text \<open>
  C27. \<^verbatim>\<open>swtch\<close> suspends and resumes a thread: when a thread has called
  \<^verbatim>\<open>swtch(old, new)\<close>, and some thread later calls \<^verbatim>\<open>swtch(cur, old)\<close> with
  the saved context unchanged in between, the stack pointer and all callee-saved registers are again
  those of the first call, and control goes back to where it was called from.
\<close>

theorem swtch_resumes:
  assumes "regs u A1 = regs s A0" "apart (regs u A0) (regs u A1)"
    and "\<And>r off. (r, off) \<in> set context_regs \<Longrightarrow>
      load64 (cmem u) (regs s A0 + of_nat off) = load64 (cmem (run swtch s)) (regs s A0 + of_nat off)"
  shows "(\<forall>r \<in> {RA, SP, S0, S1, S2, S3, S4, S5, S6, S7, S8, S9, S10, S11}.
      regs (run swtch u) r = regs s r) \<and> jump (run swtch u) = JumpTo (regs s RA)"
proof -
  have saved: "regs (run swtch u) r = regs s r" if "(r, off) \<in> set context_regs" for r off
  proof -
    have "regs (run swtch u) r = load64 (cmem u) (regs s A0 + of_nat off)"
      using that assms(1,2) load_save_mem_apart [OF assms(2) subset_refl that]
      by (simp add: swtch_state Let_def load_regs_in layouts_distinct)
    also have "\<dots> = load64 (save_mem context_regs (regs s A0) (regs s) (cmem s)) (regs s A0 + of_nat off)"
      using assms(3) [OF that] by (simp add: swtch_state Let_def)
    also have "\<dots> = regs s r" using that by (simp add: load_save_mem_in layouts)
    finally show ?thesis .
  qed
  have j: "jump (run swtch u) = JumpTo (regs (run swtch u) RA)" by (simp add: swtch_state Let_def)
  show ?thesis unfolding j by (auto simp: saved context_regs_def)
qed

text \<open>The first call suspends the boot thread at 0x5000, the second one resumes it.\<close>

definition core_sample :: core where
  "core_sample = \<lparr>regs = (\<lambda>_. 7)(A0 := 0x5000, A1 := 0x6000), csrs = \<lambda>_. 0, cmem = \<lambda>_. 0, jump = NoJump\<rparr>"

theorem swtch_resumes_witness:
  "regs (run swtch ((run swtch core_sample)\<lparr>regs := (\<lambda>_. 1)(A0 := 0x6000, A1 := 0x5000)\<rparr>)) S5 = 7"
proof -
  let ?u = "(run swtch core_sample)\<lparr>regs := (\<lambda>_. 1)(A0 := 0x6000, A1 := 0x5000)\<rparr>"
  have "(\<forall>r \<in> {RA, SP, S0, S1, S2, S3, S4, S5, S6, S7, S8, S9, S10, S11}.
      regs (run swtch ?u) r = regs core_sample r) \<and> jump (run swtch ?u) = JumpTo (regs core_sample RA)"
    by (rule swtch_resumes) (simp_all add: core_sample_def apart_def)
  then show ?thesis by (simp add: core_sample_def)
qed

subsection \<open>User traps\<close>

lemma trapframe_covers: "r \<noteq> A0 \<Longrightarrow> map_of trapframe_regs r \<noteq> None"
  by (cases r) (simp_all add: trapframe_regs_def)

lemma trapframe_offs: "\<forall>p \<in> set trapframe_regs. 40 \<le> snd p \<and> snd p \<le> 280 \<and> snd p mod 8 = 0"
  by (simp add: trapframe_regs_def)

lemma not_in_trapframe: "A0 \<notin> fst ` set trapframe_regs" "112 \<notin> snd ` set trapframe_regs"
  "0 \<notin> snd ` set trapframe_regs" "8 \<notin> snd ` set trapframe_regs" "16 \<notin> snd ` set trapframe_regs"
  "32 \<notin> snd ` set trapframe_regs"
  by (simp_all add: trapframe_regs_def)

text \<open>The memory \<^verbatim>\<open>uservec\<close> leaves: the user registers are in the trapframe.\<close>

definition uservec_mem :: "core \<Rightarrow> memory" where
  "uservec_mem s = (let a = csrs s Sscratch in
     store64 (save_mem trapframe_regs a ((regs s)(A0 := a)) (cmem s)) (a + of_nat 112) (regs s A0))"

lemma uservec_mem_load:
  fixes off :: nat
  assumes "off mod 8 = 0" "off < 4096" "off \<notin> snd ` set trapframe_regs" "off \<noteq> 112"
  shows "load64 (uservec_mem s) (csrs s Sscratch + of_nat off) = load64 (cmem s) (csrs s Sscratch + of_nat off)"
  using assms load64_store64_offsets [of 112 off]
  by (simp add: uservec_mem_def Let_def load_save_mem_out layouts)

lemma uservec_mem_reg:
  assumes "(r, off) \<in> set trapframe_regs"
  shows "load64 (uservec_mem s) (csrs s Sscratch + of_nat off) = regs s r"
proof -
  have "off \<noteq> 112" "off mod 8 = 0" "off < 4096" "r \<noteq> A0" using assms by (auto simp: trapframe_regs_def)
  then show ?thesis
    using load64_store64_offsets [of 112 off] load_save_mem_in [OF layouts(2) assms]
    by (simp add: uservec_mem_def Let_def)
qed

lemma uservec_state:
  "cmem (run uservec s) = uservec_mem s"
  "regs (run uservec s) SP = load64 (cmem s) (csrs s Sscratch + 8)"
  "regs (run uservec s) TP = load64 (cmem s) (csrs s Sscratch + 32)"
  "csrs (run uservec s) Satp = load64 (cmem s) (csrs s Sscratch)"
  "jump (run uservec s) = JumpTo (load64 (cmem s) (csrs s Sscratch + 16))"
proof -
  let ?a = "csrs s Sscratch"
  let ?m = "save_mem trapframe_regs ?a ((regs s)(A0 := ?a)) (cmem s)"
  have m: "store64 ?m (?a + 112) (regs s A0) = uservec_mem s" by (simp add: uservec_mem_def Let_def)
  have l: "load64 (uservec_mem s) (?a + 8) = load64 (cmem s) (?a + 8)"
    "load64 (uservec_mem s) (?a + 16) = load64 (cmem s) (?a + 16)"
    "load64 (uservec_mem s) (?a + 32) = load64 (cmem s) (?a + 32)"
    "load64 (uservec_mem s) ?a = load64 (cmem s) ?a"
    using uservec_mem_load [of 8 s] uservec_mem_load [of 16 s] uservec_mem_load [of 32 s]
      uservec_mem_load [of 0 s] by (simp_all add: not_in_trapframe)
  show "cmem (run uservec s) = uservec_mem s" "regs (run uservec s) SP = load64 (cmem s) (?a + 8)"
    "regs (run uservec s) TP = load64 (cmem s) (?a + 32)" "csrs (run uservec s) Satp = load64 (cmem s) ?a"
    "jump (run uservec s) = JumpTo (load64 (cmem s) (?a + 16))"
    by (simp_all add: uservec_def run_saves set_reg_def m l)
qed

lemma userret_state:
  "regs (run userret u) = (load_regs trapframe_regs (regs u A0) (cmem u) (regs u))(A0 := load64 (cmem u) (regs u A0 + 112))"
    "csrs (run userret u) = (csrs u)(Satp := regs u A1, Sscratch := regs u A0)"
    "jump (run userret u) = TrapReturn"
proof -
  let ?t = "run [CSRW Satp A1, SFENCE, LD T0 112 A0, CSRW Sscratch T0] u"
  have l: "run (loads A0 trapframe_regs) ?t = ?t\<lparr>regs := load_regs trapframe_regs (regs ?t A0) (cmem ?t) (regs ?t)\<rparr>"
    by (rule run_loads) (auto simp: layouts_distinct trapframe_regs_def)
  have t: "regs ?t = (regs u)(T0 := load64 (cmem u) (regs u A0 + 112))" "cmem ?t = cmem u" "jump ?t = jump u"
    "csrs ?t = (csrs u)(Satp := regs u A1, Sscratch := load64 (cmem u) (regs u A0 + 112))"
    by (simp_all add: set_reg_def)
  have T0: "load_regs trapframe_regs a m (R(T0 := v)) = load_regs trapframe_regs a m R" for a m R v
    using trapframe_covers [of T0] by (intro ext) (auto simp: load_regs_def split: option.splits)
  have A0: "load_regs trapframe_regs a m R A0 = R A0" for a m R
    by (simp add: load_regs_out not_in_trapframe)
  have "run userret u = run [CSRRW A0 Sscratch A0, SRET] (run (loads A0 trapframe_regs) ?t)"
    by (simp add: userret_def)
  then show "regs (run userret u) = (load_regs trapframe_regs (regs u A0) (cmem u) (regs u))(A0 := load64 (cmem u) (regs u A0 + 112))"
    "csrs (run userret u) = (csrs u)(Satp := regs u A1, Sscratch := regs u A0)"
    "jump (run userret u) = TrapReturn"
    unfolding l by (simp_all add: t T0 A0 set_reg_def fun_eq_iff)
qed

text \<open>
  C28. A trap and the return from it give the user program its registers back:
  \<^verbatim>\<open>uservec\<close> enters the kernel with the stack pointer, \<^verbatim>\<open>tp\<close>, page table and
  address that \<^verbatim>\<open>usertrapret\<close> stored in the trapframe, and if the saved registers are still
  in the trapframe when \<^verbatim>\<open>userret\<close> runs, all 31 registers are those of the moment of the
  trap, under the page table passed to it, and \<^verbatim>\<open>sscratch\<close> is ready for the next trap.
\<close>

theorem trap_round_trip:
  assumes "csrs s Sscratch = a" "regs u A0 = a"
    and "\<And>off :: nat. 40 \<le> off \<Longrightarrow> off \<le> 280 \<Longrightarrow> off mod 8 = 0 \<Longrightarrow>
      load64 (cmem u) (a + of_nat off) = load64 (cmem (run uservec s)) (a + of_nat off)"
  shows "regs (run uservec s) SP = load64 (cmem s) (a + tf_kernel_sp) \<and>
    regs (run uservec s) TP = load64 (cmem s) (a + tf_kernel_hartid) \<and>
    csrs (run uservec s) Satp = load64 (cmem s) (a + tf_kernel_satp) \<and>
    jump (run uservec s) = JumpTo (load64 (cmem s) (a + tf_kernel_trap)) \<and>
    regs (run userret u) = regs s \<and> csrs (run userret u) Satp = regs u A1 \<and>
    csrs (run userret u) Sscratch = a \<and> jump (run userret u) = TrapReturn"
proof -
  have "regs (run userret u) r = regs s r" for r
  proof (cases "r = A0")
    case True
    have "load64 (cmem u) (a + of_nat 112) = load64 (uservec_mem s) (a + of_nat 112)"
      using assms(3) [of 112] by (simp only: uservec_state(1)) simp
    then show ?thesis
      using True assms(1,2) by (simp add: userret_state uservec_mem_def Let_def mem_simps)
  next
    case False
    then obtain off where off: "(r, off) \<in> set trapframe_regs"
      using trapframe_covers by (auto dest: map_of_SomeD)
    then have "40 \<le> off" "off \<le> 280" "off mod 8 = 0" using trapframe_offs by auto
    note off = off this
    have "regs (run userret u) r = load64 (cmem u) (a + of_nat off)"
      using False off(1) assms(2) by (simp add: userret_state load_regs_in layouts_distinct)
    also have "\<dots> = load64 (uservec_mem s) (a + of_nat off)"
      using assms(3) [OF off(2-4)] by (simp only: uservec_state(1))
    also have "\<dots> = regs s r" using uservec_mem_reg [OF off(1), of s] by (simp only: assms(1))
    finally show ?thesis .
  qed
  then have "regs (run userret u) = regs s" by blast
  then show ?thesis using assms(1,2)
    by (simp add: uservec_state userret_state(2,3) tf_kernel_sp_def tf_kernel_hartid_def tf_kernel_satp_def
        tf_kernel_trap_def)
qed

theorem trap_round_trip_witness:
  "regs (run userret ((run uservec core_sample)\<lparr>regs := (\<lambda>_. 1)(A0 := 0)\<rparr>)) A1 = 0x6000"
proof -
  let ?u = "(run uservec core_sample)\<lparr>regs := (\<lambda>_. 1)(A0 := 0)\<rparr>"
  have "regs (run userret ?u) = regs core_sample"
    using trap_round_trip [of core_sample 0 ?u] by (simp add: core_sample_def)
  then show ?thesis by (simp add: core_sample_def)
qed

subsection \<open>Traps in the kernel\<close>

lemma kernelvec_covers: "r \<noteq> TP \<Longrightarrow> map_of kernelvec_restore r \<noteq> None"
  by (cases r) (simp_all add: kernelvec_restore_def)

lemma kernelvec_offs: "\<forall>p \<in> set kernelvec_restore. snd p \<le> 240 \<and> p \<in> set kernelvec_save"
  by (simp add: kernelvec_restore_def kernelvec_save_def)

text \<open>
  C29. A trap taken in kernel code is invisible to the code it interrupts: if
  \<^verbatim>\<open>kerneltrap\<close> keeps to the calling convention, that is, it returns with the stack pointer
  it was called with and does not touch the frame of its caller, then all registers but
  \<^verbatim>\<open>tp\<close>, which holds the number of the CPU the thread now runs on, are what they were.
\<close>

theorem kernelvec_transparent:
  assumes "\<And>u. regs (kerneltrap u) SP = regs u SP"
    and "\<And>u x. unat (x - regs u SP) < 256 \<Longrightarrow> cmem (kerneltrap u) x = cmem u x"
    and "r \<noteq> TP"
  shows "regs (kernelvec kerneltrap s) r = regs s r \<and> jump (kernelvec kerneltrap s) = TrapReturn"
proof -
  define f where "f = regs s SP - 256"
  define R where "R = (regs s)(SP := f)"
  define u where "u = run (ADDI SP SP (- 256) # saves SP kernelvec_save) s"
  define t where "t = kerneltrap u"
  have u: "regs u = R" "cmem u = save_mem kernelvec_save f R (cmem s)"
    by (simp_all add: u_def run_saves set_reg_def R_def f_def)
  have tSP: "regs t SP = f" using assms(1) [of u] by (simp add: t_def u R_def)
  have load: "load64 (cmem t) (f + of_nat off) = R q" if "(q, off) \<in> set kernelvec_restore" for q off
  proof -
    have off: "off \<le> 240" "(q, off) \<in> set kernelvec_save" using kernelvec_offs that by auto
    have "load64 (cmem t) (f + of_nat off) = load64 (cmem u) (f + of_nat off)"
    proof (rule load64_cong)
      fix i :: nat assume "i < 8"
      then have "unat (of_nat (off + i) :: u64) = off + i" using off by (intro unat_of_nat_small) simp
      then have "unat (f + of_nat off + of_nat i - regs u SP) < 256"
        using off \<open>i < 8\<close> by (simp add: u R_def)
      then show "cmem t (f + of_nat off + of_nat i) = cmem u (f + of_nat off + of_nat i)"
        unfolding t_def by (rule assms(2))
    qed
    then show ?thesis by (simp add: u load_save_mem_in [OF layouts(3) off(2)])
  qed
  have l: "run (loads SP kernelvec_restore) t = t\<lparr>regs := load_regs kernelvec_restore f (cmem t) (regs t)\<rparr>"
    using run_loads [of kernelvec_restore SP t] load tSP layouts_distinct by (simp add: R_def)
  have k: "kernelvec kerneltrap s = run [ADDI SP SP 256, SRET] (run (loads SP kernelvec_restore) t)"
    by (simp add: kernelvec_def t_def u_def)
  obtain off where off: "(r, off) \<in> set kernelvec_restore" using kernelvec_covers [OF assms(3)] by (auto dest: map_of_SomeD)
  have "load_regs kernelvec_restore f (cmem t) (regs t) r = R r"
    using off load by (simp add: load_regs_in layouts_distinct)
  moreover have "load_regs kernelvec_restore f (cmem t) (regs t) SP = R SP"
    using load [of SP 8] by (simp add: load_regs_in [of _ SP 8] layouts_distinct kernelvec_restore_def)
  ultimately show ?thesis unfolding k l by (simp add: set_reg_def R_def f_def)
qed

theorem kernelvec_transparent_witness:
  "regs (kernelvec (\<lambda>u. set_reg S3 99 (set_reg A0 1 u)) core_sample) S3 = 7"
  using kernelvec_transparent [of "\<lambda>u. set_reg S3 99 (set_reg A0 1 u)" S3 core_sample]
  by (simp add: set_reg_def core_sample_def)

subsection \<open>The timer interrupt\<close>

lemma load64_store64_off0:
  "off mod 8 = 0 \<Longrightarrow> 0 < off \<Longrightarrow> off < 4096 \<Longrightarrow>
   load64 (store64 m x v) (x + of_nat off) = load64 m (x + of_nat off)"
  using load64_store64_offsets [of 0 off m x v] by simp

text \<open>
  \<^verbatim>\<open>timervec\<close> leaves all registers alone, programs the next tick and raises a supervisor
  software interrupt, provided that the scratch area does not overlap the timer register.
\<close>

lemma timervec_ticks:
  assumes "csrs s Mscratch = a" "c = load64 (cmem s) (a + 32)"
    and "\<And>off :: nat. off < 48 \<Longrightarrow> off mod 8 = 0 \<Longrightarrow>
      8 \<le> unat (a + of_nat off - c) \<and> unat (a + of_nat off - c) \<le> 2 ^ 64 - 8 \<and>
      8 \<le> unat (c - (a + of_nat off)) \<and> unat (c - (a + of_nat off)) \<le> 2 ^ 64 - 8"
  shows "regs (run timervec s) = regs s" "csrs (run timervec s) = (csrs s)(Sip := 2)"
    "load64 (cmem (run timervec s)) c = load64 (cmem s) c + load64 (cmem s) (a + 40)"
proof -
  let ?m1 = "store64 (cmem s) a (regs s A1)"
  let ?m2 = "store64 ?m1 (a + 8) (regs s A2)"
  let ?m3 = "store64 ?m2 (a + 16) (regs s A3)"
  have o: "load64 ?m3 (a + 32) = c" "load64 ?m3 (a + 40) = load64 (cmem s) (a + 40)"
    using assms(2) load64_store64_offsets [of 16 32] load64_store64_offsets [of 8 32] load64_store64_off0 [of 32]
      load64_store64_offsets [of 16 40] load64_store64_offsets [of 8 40] load64_store64_off0 [of 40] by simp_all
  have c: "load64 ?m3 c = load64 (cmem s) c"
    using assms(3) [of 0] assms(3) [of 8] assms(3) [of 16] by (simp add: load64_store64_apart)
  let ?v = "load64 (cmem s) c + load64 (cmem s) (a + 40)"
  let ?m4 = "store64 ?m3 c ?v"
  have r: "load64 ?m4 (a + 16) = regs s A3" "load64 ?m4 (a + 8) = regs s A2" "load64 ?m4 a = regs s A1"
    using assms(3) [of 16] assms(3) [of 8] assms(3) [of 0] load64_store64_offsets [of 16 8]
      load64_store64_offsets [of 16 0] load64_store64_offsets [of 8 0]
    by (simp_all add: load64_store64_apart mem_simps)
  show "regs (run timervec s) = regs s" "csrs (run timervec s) = (csrs s)(Sip := 2)"
    "load64 (cmem (run timervec s)) c = ?v"
    using assms(1) by (auto simp: timervec_def set_reg_def o c r mem_simps fun_eq_iff)
qed

text \<open>Each CPU starts on its own page of \<^verbatim>\<open>stack0\<close>.\<close>

lemma entry_stack:
  "regs (run (entry stack0 pc spin) s) SP = stack0 + 4096 * (csrs s Mhartid + 1)"
  "jump (run (entry stack0 pc spin) s) = JumpTo pc"
  by (simp_all add: entry_def set_reg_def)

end
