(* ===== verification/LogCrash.thy ===== *)
theory LogCrash
  imports Log
begin

text \<open>
  Crash safety of the log of \<^verbatim>\<open>kernel/log.c\<close>. The disk after a crash is the disk with a prefix of the
  writes that were issued; a write of one block is atomic. The theory gives the writes of a commit and of a recovery
  as explicit lists, and shows that recovery finds either none or all of a transaction.
\<close>

subsection \<open>Words in a block\<close>

lemma length_splice [simp]: "off + length xs \<le> length bs \<Longrightarrow> length (splice off xs bs) = length bs"
  by (simp add: splice_def)

lemma splice_take_drop: "off + length xs \<le> length bs \<Longrightarrow> take (length xs) (drop off (splice off xs bs)) = xs"
  by (simp add: splice_def)

lemma nth_splice:
  "off + length xs \<le> length bs \<Longrightarrow> i < length bs \<Longrightarrow>
   splice off xs bs ! i = (if off \<le> i \<and> i < off + length xs then xs ! (i - off) else bs ! i)"
  by (auto simp: splice_def nth_append)

lemma length_put32 [simp]: "off + 4 \<le> length bs \<Longrightarrow> length (put32 off w bs) = length bs"
  by (simp add: put32_def)

lemma get32_put32_same: "off + 4 \<le> length bs \<Longrightarrow> get32 (put32 off w bs) off = w"
  using splice_take_drop [of off "le_bytes 4 w" bs] by (simp add: get32_def put32_def of_le_le_bytes)

lemma get32_put32_other:
  assumes "off + 4 \<le> length bs" "off' + 4 \<le> length bs" "off' + 4 \<le> off \<or> off + 4 \<le> off'"
  shows "get32 (put32 off w bs) off' = get32 bs off'"
proof -
  have "take 4 (drop off' (put32 off w bs)) = take 4 (drop off' bs)"
    using assms by (intro nth_equalityI) (auto simp: put32_def nth_splice)
  then show ?thesis by (simp add: get32_def)
qed

lemma put_words:
  assumes "4 + 4 * n \<le> length bs"
  shows "length (fold (\<lambda>i. put32 (4 + 4 * i) (ws ! i)) [0..<n] bs) = length bs"
    "get32 (fold (\<lambda>i. put32 (4 + 4 * i) (ws ! i)) [0..<n] bs) 0 = get32 bs 0"
    "i < n \<Longrightarrow> get32 (fold (\<lambda>i. put32 (4 + 4 * i) (ws ! i)) [0..<n] bs) (4 + 4 * i) = ws ! i"
  using assms
proof (induction n arbitrary: i)
  case (Suc n)
  case 3
  then show ?case using Suc(1,3) by (cases "i = n") (simp_all add: get32_put32_same get32_put32_other)
qed (simp_all add: get32_put32_other)

lemma head_bytes_get:
  assumes "length hb = BSIZE" "n \<le> LOGSIZE"
  shows "length (head_bytes (int n) ws hb) = BSIZE" "get32 (head_bytes (int n) ws hb) 0 = of_nat n"
    "i < n \<Longrightarrow> get32 (head_bytes (int n) ws hb) (4 + 4 * i) = ws ! i"
  using put_words [of n "put32 0 (of_nat n) hb"] assms
  by (simp_all add: head_bytes_def BSIZE_def LOGSIZE_def get32_put32_same)

subsection \<open>The loops over the log\<close>

definition log_area :: "u32 \<Rightarrow> u32 set" where
  "log_area st = (\<lambda>i. st + of_nat i) ` {..<LOGSIZE}"

definition log_blk :: "u32 \<Rightarrow> nat \<Rightarrow> u32" where
  "log_blk st i = st + of_nat i + 1"

lemma log_blk_eq: "log_blk st i = st + of_nat (Suc i)"
  by (simp add: log_blk_def)

lemma log_blk_area: "Suc i < LOGSIZE \<Longrightarrow> log_blk st i \<in> log_area st"
  unfolding log_area_def log_blk_eq by (rule imageI) simp

lemma start_area: "st \<in> log_area st"
  unfolding log_area_def by (rule image_eqI [of _ _ 0]) (simp_all add: LOGSIZE_def)

lemma log_area_inj: "i \<le> LOGSIZE \<Longrightarrow> j \<le> LOGSIZE \<Longrightarrow> (st :: u32) + of_nat i = st + of_nat j \<longleftrightarrow> i = j"
proof
  assume le: "i \<le> LOGSIZE" "j \<le> LOGSIZE" and eq: "st + of_nat i = st + of_nat j"
  have "i = unat (of_nat i :: u32)" "j = unat (of_nat j :: u32)"
    using le by (simp_all add: LOGSIZE_def unat_of_nat_small)
  with eq show "i = j" by simp
qed simp

lemma log_blk_inj: "i < LOGSIZE \<Longrightarrow> j < LOGSIZE \<Longrightarrow> log_blk st i = log_blk st j \<longleftrightarrow> i = j"
  using log_area_inj [of "Suc i" "Suc j"] by (simp add: log_blk_eq del: of_nat_Suc)

lemma log_blk_start: "i < LOGSIZE \<Longrightarrow> log_blk st i \<noteq> st"
  using log_area_inj [of "Suc i" 0 st] by (simp add: log_blk_eq del: of_nat_Suc)

lemma bframe_log:
  assumes "bframe s t"
  shows "log_dev t = log_dev s" "log_start t = log_start s" "log_size t = log_size s" "lh_n t = lh_n s"
    "lh_block t = lh_block s" "outstanding t = outstanding s" "committing t = committing s"
  using assms by (auto simp: bframe_def)

lemma bread_frame:
  assumes "bc d pin {} s" "card {n. pin n \<noteq> 0} < NBUF" "bread d n s = Inr (b, t)"
  shows "bframe s t"
  by (rule bread_step [OF assms(1), of n]) (use assms(2,3) in auto)

lemma write_tail_eq:
  assumes "bc (log_dev s) pin {} s" "card {n. pin n \<noteq> 0} < NBUF"
  shows "write_tail i s = bindE (bread (log_dev s) (log_blk (log_start s) i) s) (\<lambda>(to, s').
     bindE (bread (log_dev s) (lh_block s ! i) s') (\<lambda>(from, s).
     bindE (bwrite to (set_data to (data (bufs s from)) s)) (\<lambda>s. bindE (brelse from s) (brelse to))))"
  unfolding write_tail_def log_blk_def
  by (cases "bread (log_dev s) (log_start s + of_nat i + 1) s")
    (auto dest: bread_frame [OF assms] simp: bframe_log)

lemma write_log_writes:
  assumes "bc (log_dev s) pin {} s" "i < LOGSIZE" "card {n. pin n \<noteq> 0} < NBUF"
    "\<forall>j<i. pin (lh_block s ! j) \<noteq> 0" "\<forall>m\<in>log_area (log_start s). pin m = 0"
  shows "\<exists>t. foldE write_tail [0..<i] s = Inr t \<and> bc (log_dev s) pin {} t \<and> bframe s t \<and>
    wrote (map (\<lambda>j. (log_blk (log_start s) j, blk (log_dev s) (lh_block s ! j) s)) [0..<i]) s t \<and>
    (\<forall>m. m \<notin> log_area (log_start s) \<longrightarrow> blk (log_dev s) m t = blk (log_dev s) m s)"
  using assms(2,4)
proof (induction i)
  case 0
  then show ?case using assms(1) by simp
next
  case (Suc i)
  let ?d = "log_dev s" and ?L = "log_blk (log_start s) i" and ?w = "lh_block s ! i"
  from Suc obtain t where t: "foldE write_tail [0..<i] s = Inr t" "bc ?d pin {} t" "bframe s t"
    "wrote (map (\<lambda>j. (log_blk (log_start s) j, blk ?d (lh_block s ! j) s)) [0..<i]) s t"
    "\<forall>m. m \<notin> log_area (log_start s) \<longrightarrow> blk ?d m t = blk ?d m s"
    by auto
  have L: "?L \<in> log_area (log_start s)" using Suc.prems(1) by (simp add: log_blk_area)
  then have pin: "pin ?L = 0" using assms(5) by blast
  have w: "pin ?w \<noteq> 0" using Suc.prems(2) by simp
  then have "?w \<notin> log_area (log_start s)" using assms(5) by blast
  then have wt: "blk ?d ?w t = blk ?d ?w s" using t(5) by blast
  obtain u where u: "write_tail i t = Inr u" "bc ?d pin {} u" "bframe t u" "wrote [(?L, blk ?d ?w t)] t u"
    "\<And>m. blk ?d m u = (if m = ?L then blk ?d ?w t else blk ?d m t)"
    by (rule copy_block [OF t(2), of ?L ?w])
      (use pin w assms(3) in \<open>auto simp: write_tail_eq [of t pin] t(2) bframe_log [OF t(3)]\<close>)
  then show ?case using t L wt
    by (intro exI [of _ u]) (auto simp: foldE_append intro: bframe_trans dest: wrote_trans)
qed

lemma install_tail_eq:
  assumes "bc (log_dev s) pin {} s" "card {n. pin n \<noteq> 0} < NBUF"
  shows "install_tail i s = bindE (bread (log_dev s) (log_blk (log_start s) i) s) (\<lambda>(lbuf, s').
     bindE (bread (log_dev s) (lh_block s ! i) s') (\<lambda>(dbuf, s).
     bindE (bwrite dbuf (set_data dbuf (data (bufs s lbuf)) s)) (\<lambda>s.
     bindE (bunpin dbuf s) (\<lambda>s. bindE (brelse lbuf s) (brelse dbuf)))))"
  unfolding install_tail_def log_blk_def
  by (cases "bread (log_dev s) (log_start s + of_nat i + 1) s")
    (auto dest: bread_frame [OF assms] simp: bframe_log)

definition unpin :: "(u32 \<Rightarrow> u32) \<Rightarrow> u32 set \<Rightarrow> u32 \<Rightarrow> u32" where
  "unpin pin ws m = (if m \<in> ws then pin m - 1 else pin m)"

lemma unpin_simps [simp]: "unpin pin {} = pin"
  "w \<notin> ws \<Longrightarrow> (unpin pin ws)(w := unpin pin ws w - 1) = unpin pin (insert w ws)"
  by (auto simp: unpin_def fun_eq_iff)

lemma install_writes:
  fixes s :: "'a log_scheme"
  defines "ws \<equiv> \<lambda>i. set (take i (lh_block s))"
  assumes "bc (log_dev s) pin {} s" "i < LOGSIZE" "i \<le> length (lh_block s)"
    "distinct (take i (lh_block s))" "log_area (log_start s) \<inter> ws i = {}" "\<forall>m\<in>log_area (log_start s). pin m = 0"
    "\<forall>j<i. card {n. unpin pin (ws j) n \<noteq> 0} < NBUF \<and>
      (pin (lh_block s ! j) \<noteq> 0 \<or> Suc (card {n. unpin pin (ws j) n \<noteq> 0}) < NBUF)"
  shows "\<exists>t. foldE install_tail [0..<i] s = Inr t \<and> bc (log_dev s) (unpin pin (ws i)) {} t \<and> bframe s t \<and>
    wrote (map (\<lambda>j. (lh_block s ! j, blk (log_dev s) (log_blk (log_start s) j) s)) [0..<i]) s t \<and>
    (\<forall>m\<in>log_area (log_start s). blk (log_dev s) m t = blk (log_dev s) m s)"
  using assms(3-6,8)
proof (induction i)
  case 0
  then show ?case using assms(2) by (simp add: ws_def)
next
  case (Suc i)
  let ?d = "log_dev s" and ?L = "log_blk (log_start s) i" and ?w = "lh_block s ! i" and ?p = "unpin pin (ws i)"
  have ws: "ws (Suc i) = insert ?w (ws i)" "?w \<notin> ws i"
    using Suc.prems(2,3) by (auto simp: ws_def take_Suc_conv_app_nth)
  from Suc obtain t where t: "foldE install_tail [0..<i] s = Inr t" "bc ?d ?p {} t" "bframe s t"
    "wrote (map (\<lambda>j. (lh_block s ! j, blk ?d (log_blk (log_start s) j) s)) [0..<i]) s t"
    "\<forall>m\<in>log_area (log_start s). blk ?d m t = blk ?d m s"
    by (auto simp: ws take_Suc_conv_app_nth)
  have L: "?L \<in> log_area (log_start s)" using Suc.prems(1) by (simp add: log_blk_area)
  have Lw: "?L \<noteq> ?w" "?L \<notin> ws i" using L Suc.prems(4) by (auto simp: ws)
  then have pin: "?p ?L = 0" "?p ?w = pin ?w" using assms(7) L ws by (auto simp: unpin_def)
  have card: "card {n. ?p n \<noteq> 0} < NBUF" "pin ?w \<noteq> 0 \<or> Suc (card {n. ?p n \<noteq> 0}) < NBUF"
    using Suc.prems(5) by auto
  obtain u where u: "install_tail i t = Inr u" "bc ?d (?p(?w := ?p ?w - 1)) {} u" "bframe t u" "wrote [(?w, blk ?d ?L t)] t u"
    "\<And>m. blk ?d m u = (if m = ?w then blk ?d ?L t else blk ?d m t)"
    by (rule install_block [OF t(2), of ?L ?w])
      (use pin Lw card in \<open>auto simp: install_tail_eq [of t ?p] t(2) bframe_log [OF t(3)]\<close>)
  have "blk ?d m u = blk ?d m s" if "m \<in> log_area (log_start s)" for m
    using that u(5) t(5) Suc.prems(4) ws by auto
  moreover have "wrote (map (\<lambda>j. (lh_block s ! j, blk ?d (log_blk (log_start s) j) s)) [0..<Suc i]) s u"
    using wrote_trans [OF t(4) u(4)] t(5) L by simp
  moreover have "bframe s u" using t(3) u(3) by (rule bframe_trans)
  moreover have "foldE install_tail [0..<Suc i] s = Inr u" using t(1) u(1) by (simp add: foldE_append)
  moreover have "bc ?d (unpin pin (ws (Suc i))) {} u" using u(2) ws by simp
  ultimately show ?case by blast
qed

lemma log_upd_simps [simp]:
  "bc d pin ls (s\<lparr>lh_n := x\<rparr>) = bc d pin ls s" "blk d m (s\<lparr>lh_n := x\<rparr>) = blk d m s" "holds d m b (s\<lparr>lh_n := x\<rparr>) = holds d m b s"
  "bc d pin ls (s\<lparr>lh_block := w\<rparr>) = bc d pin ls s" "blk d m (s\<lparr>lh_block := w\<rparr>) = blk d m s" "holds d m b (s\<lparr>lh_block := w\<rparr>) = holds d m b s"
  "bc d pin ls (s\<lparr>outstanding := x\<rparr>) = bc d pin ls s" "blk d m (s\<lparr>outstanding := x\<rparr>) = blk d m s"
  "bc d pin ls (s\<lparr>committing := c\<rparr>) = bc d pin ls s" "blk d m (s\<lparr>committing := c\<rparr>) = blk d m s"
  "bc d pin ls (s\<lparr>log_start := w'\<rparr>) = bc d pin ls s" "bc d pin ls (s\<lparr>log_size := x\<rparr>) = bc d pin ls s"
  "bc d pin ls (s\<lparr>log_dev := w'\<rparr>) = bc d pin ls s"
  by (simp_all add: bc_def blk_def cached_def holds_def bc_buf_def myproc_def split: option.split)

lemma wrote_log_upd [simp]: "wrote W (s\<lparr>lh_n := x\<rparr>) t = wrote W s t" "wrote W s (t\<lparr>lh_n := x\<rparr>) = wrote W s t"
  "wrote W (s\<lparr>lh_block := w\<rparr>) t = wrote W s t" "wrote W s (t\<lparr>lh_block := w\<rparr>) = wrote W s t"
  by (simp_all add: wrote_def)

lemma bframe_lh_n:
  assumes "bframe s t"
  shows "bframe (s\<lparr>lh_n := x\<rparr>) (t\<lparr>lh_n := x\<rparr>)"
proof -
  obtain sl bf lr dk dw pr where t: "t = s\<lparr>slock := sl, bufs := bf, lru := lr, disk := dk, dwrites := dw, proc := pr\<rparr>"
    and k: "\<forall>l\<ge>NBUF. slock t l = slock s l" "\<forall>p. (proc t p)\<lparr>pstate := UNUSED\<rparr> = (proc s p)\<lparr>pstate := UNUSED\<rparr>"
    using assms unfolding bframe_def by blast
  have "t\<lparr>lh_n := x\<rparr> = s\<lparr>lh_n := x, slock := sl, bufs := bf, lru := lr, disk := dk, dwrites := dw, proc := pr\<rparr>"
    by (rule log.equality) (simp_all add: t)
  then show ?thesis by (simp only:) (rule bframeI, use k in \<open>simp_all add: t\<close>)
qed

lemma write_head_step:
  assumes "bc (log_dev s) pin {} s" "card {n. pin n \<noteq> 0} < NBUF" "lh_n s = int n" "n \<le> LOGSIZE"
  obtains t where "write_head s = Inr t" "bc (log_dev s) pin {} t" "bframe s t"
    "wrote [(log_start s, head_bytes (int n) (lh_block s) (blk (log_dev s) (log_start s) s))] s t"
    "\<And>m. m \<noteq> log_start s \<Longrightarrow> blk (log_dev s) m t = blk (log_dev s) m s"
proof -
  let ?f = "head_bytes (int n) (lh_block s)"
  have eq: "write_head s = bindE (bread (log_dev s) (log_start s) s) (\<lambda>(b, s).
      bindE (bwrite b (set_data b (?f (data (bufs s b))) s)) (brelse b))"
    unfolding write_head_def
    by (cases "bread (log_dev s) (log_start s) s") (auto dest!: bread_frame [OF assms(1,2)] simp: bframe_log assms(3))
  have len: "length (?f (blk (log_dev s) (log_start s) s)) = BSIZE"
    using blk_length [OF assms(1)] assms(4) by (simp add: head_bytes_get)
  show thesis
    by (rule write_block [OF assms(1,2), where f = ?f and n = "log_start s"]) (use len that eq in auto)
qed

definition pins :: "u32 set \<Rightarrow> u32 \<Rightarrow> u32" where
  "pins ws m = (if m \<in> ws then 1 else 0)"

lemma pins_zero [simp]: "pins ws m = 0 \<longleftrightarrow> m \<notin> ws"
  by (simp add: pins_def)

lemma pins_support [simp]: "{n. pins ws n \<noteq> 0} = ws" "unpin (pins ws) ws = (\<lambda>_. 0)"
  by (auto simp: pins_def unpin_def fun_eq_iff)

lemma unpin_pins: "{n. unpin (pins ws) vs n \<noteq> 0} = (ws - vs) \<union> (vs - ws)"
  by (auto simp: pins_def unpin_def)

definition logged :: "'a log_scheme \<Rightarrow> u32 list" where
  "logged s = take (nat (lh_n s)) (lh_block s)"

text \<open>
  The invariant of the log while the blocks \<open>ls\<close> are locked, and between the steps of system calls: the
  logged blocks are pinned in the cache and lie outside the log, there is room in the header, and the header on the
  disk is empty.
\<close>

definition log_inv :: "u32 set \<Rightarrow> 'a log_scheme \<Rightarrow> bool" where
  "log_inv ls s \<longleftrightarrow> bc (log_dev s) (pins (set (logged s))) ls s \<and> 0 \<le> lh_n s \<and> lh_n s < int LOGSIZE \<and>
     log_size s \<le> int LOGSIZE \<and> length (lh_block s) = LOGSIZE \<and> distinct (logged s) \<and>
     log_area (log_start s) \<inter> set (logged s) = {} \<and> get32 (disk s (log_start s)) 0 = 0"

definition log_ok :: "'a log_scheme \<Rightarrow> bool" where
  "log_ok s \<longleftrightarrow> log_inv {} s"

definition log_copies :: "'a log_scheme \<Rightarrow> (u32 \<times> u8 list) list" where
  "log_copies s = map (\<lambda>j. (log_blk (log_start s) j, blk (log_dev s) (lh_block s ! j) s)) [0..<nat (lh_n s)]"

definition installs :: "'a log_scheme \<Rightarrow> (u32 \<times> u8 list) list" where
  "installs s = map (\<lambda>j. (lh_block s ! j, blk (log_dev s) (lh_block s ! j) s)) [0..<nat (lh_n s)]"

definition new_head :: "'a log_scheme \<Rightarrow> u8 list" where
  "new_head s = head_bytes (lh_n s) (lh_block s) (disk s (log_start s))"

text \<open>The disk writes of a commit, in order.\<close>

definition commit_writes :: "'a log_scheme \<Rightarrow> (u32 \<times> u8 list) list" where
  "commit_writes s = (if lh_n s = 0 then []
     else log_copies s @ [(log_start s, new_head s)] @ installs s @
       [(log_start s, head_bytes 0 (lh_block s) (new_head s))])"

lemma log_ok_card:
  assumes "log_ok s"
  shows "card (set (logged s)) < NBUF" "length (logged s) = nat (lh_n s)" "nat (lh_n s) < LOGSIZE"
    "\<And>j. j < nat (lh_n s) \<Longrightarrow> logged s ! j = lh_block s ! j"
    "\<And>j. j < nat (lh_n s) \<Longrightarrow> lh_block s ! j \<in> set (logged s)"
    "\<And>m. m \<in> log_area (log_start s) \<Longrightarrow> pins (set (logged s)) m = 0"
proof -
  show l: "length (logged s) = nat (lh_n s)" using assms by (auto simp: log_ok_def log_inv_def logged_def)
  show n: "nat (lh_n s) < LOGSIZE" using assms by (auto simp: log_ok_def log_inv_def nat_less_iff)
  show "card (set (logged s)) < NBUF"
    using card_length [of "logged s"] l n by (simp add: LOGSIZE_def NBUF_def)
  show e: "logged s ! j = lh_block s ! j" if "j < nat (lh_n s)" for j using that by (simp add: logged_def)
  show "lh_block s ! j \<in> set (logged s)" if "j < nat (lh_n s)" for j using that l e nth_mem by metis
  show "pins (set (logged s)) m = 0" if "m \<in> log_area (log_start s)" for m
    using that assms by (auto simp: log_ok_def log_inv_def pins_def)
qed

lemma disk_log_copies:
  assumes "j < nat (lh_n s)" "nat (lh_n s) \<le> LOGSIZE"
  shows "apply_writes (log_copies s) D (log_blk (log_start s) j) = blk (log_dev s) (lh_block s ! j) s"
  unfolding log_copies_def
  by (rule apply_writes_map) (use assms in \<open>auto simp: distinct_map inj_on_def log_blk_inj\<close>)

lemma log_copies_area:
  assumes "nat (lh_n s) < LOGSIZE" "w \<in> set (log_copies s)"
  shows "fst w \<in> log_area (log_start s)" "fst w \<noteq> log_start s"
  using assms log_blk_start by (auto simp: log_copies_def intro!: log_blk_area)

lemma disk_log_copies_other:
  assumes "nat (lh_n s) < LOGSIZE" "m \<notin> log_area (log_start s) - {log_start s}"
  shows "apply_writes (log_copies s) D m = D m"
  using assms log_copies_area [of s] by (intro apply_writes_other) blast

lemma disk_installs:
  assumes "log_ok s"
  shows "apply_writes (installs s) D m = (if m \<in> set (logged s) then blk (log_dev s) m s else D m)"
proof (cases "m \<in> set (logged s)")
  case True
  then obtain j where j: "j < nat (lh_n s)" "m = lh_block s ! j"
    using log_ok_card(2,4) [OF assms] by (metis in_set_conv_nth)
  have "distinct (logged s)" using assms by (simp add: log_ok_def log_inv_def)
  moreover have "map ((!) (lh_block s)) [0..<nat (lh_n s)] = logged s"
    using log_ok_card(2,4) [OF assms] by (intro nth_equalityI) simp_all
  ultimately have "distinct (map ((!) (lh_block s)) [0..<nat (lh_n s)])" by simp
  from apply_writes_map [OF this] j True show ?thesis by (simp add: installs_def)
next
  case False
  then show ?thesis
    using log_ok_card(5) [OF assms] by (auto simp: installs_def intro!: apply_writes_other)
qed

text \<open>A commit writes the copies to the log, the header, the home blocks and the empty header, in this order.\<close>

lemma commit_step:
  assumes "log_ok s"
  obtains t where "commit s = Inr t" "wrote (commit_writes s) s t" "log_ok t" "lh_n t = 0" "bframe (s\<lparr>lh_n := 0\<rparr>) t"
proof (cases "lh_n s = 0")
  case True
  have "s\<lparr>lh_n := lh_n s\<rparr> = s" by simp
  then have "s\<lparr>lh_n := 0\<rparr> = s" by (simp only: True)
  then have "bframe (s\<lparr>lh_n := 0\<rparr>) s" by (simp only: bframe_refl)
  then show thesis using that [of s] assms True by (simp add: commit_def commit_writes_def)
next
  case False
  let ?d = "log_dev s" and ?n = "nat (lh_n s)" and ?st = "log_start s" and ?P = "pins (set (logged s))"
  note ok = log_ok_card [OF assms]
  have bc0: "bc ?d ?P {} s" and n: "0 < lh_n s" and len: "length (lh_block s) = LOGSIZE"
    using assms False by (auto simp: log_ok_def log_inv_def)
  have card: "card {n. ?P n \<noteq> 0} < NBUF" using ok(1) by simp
  obtain s1 where 1: "write_log s = Inr s1" "bc ?d ?P {} s1" "bframe s s1" "wrote (log_copies s) s s1"
    using write_log_writes [OF bc0, of ?n] ok by (auto simp: write_log_def log_copies_def)
  note f1 = bframe_log [OF 1(3)]
  have D1: "blk ?d m s1 = apply_writes (log_copies s) (disk s) m" if "m \<in> log_area ?st" for m
    using blk_clean [OF 1(2)] ok(6) that 1(4) by (simp add: wrote_def)
  have h: "blk ?d ?st s1 = disk s ?st"
    using D1 [OF start_area] disk_log_copies_other [of s ?st] ok(3) by simp
  obtain s2 where 2: "write_head s1 = Inr s2" "bc ?d ?P {} s2" "bframe s1 s2" "wrote [(?st, new_head s)] s1 s2"
    "\<And>m. m \<noteq> ?st \<Longrightarrow> blk ?d m s2 = blk ?d m s1"
    using write_head_step [of s1 ?P ?n] 1(2) card ok(3) n h f1 by (auto simp: new_head_def)
  note f2 = bframe_log [OF 2(3)]
  have take: "take ?n (lh_block s) = logged s" by (simp add: logged_def)
  have c: "card {m. unpin ?P (set (take j (lh_block s))) m \<noteq> 0} < NBUF" if "j < ?n" for j
  proof -
    have "set (take j (lh_block s)) \<subseteq> set (logged s)" using that by (simp add: logged_def set_take_subset_set_take)
    then have "card {m. unpin ?P (set (take j (lh_block s))) m \<noteq> 0} \<le> card (set (logged s))"
      unfolding unpin_pins by (intro card_mono) auto
    with ok(1) show ?thesis by simp
  qed
  have "\<exists>s3. foldE install_tail [0..<?n] s2 = Inr s3 \<and> bc (log_dev s2) (unpin ?P (set (take ?n (lh_block s2)))) {} s3 \<and> bframe s2 s3 \<and>
    wrote (map (\<lambda>j. (lh_block s2 ! j, blk (log_dev s2) (log_blk (log_start s2) j) s2)) [0..<?n]) s2 s3 \<and>
    (\<forall>m\<in>log_area (log_start s2). blk (log_dev s2) m s3 = blk (log_dev s2) m s2)"
    by (rule install_writes) (use 2(2) ok len assms c in \<open>auto simp: f1 f2 take log_ok_def log_inv_def\<close>)
  moreover have "map (\<lambda>j. (lh_block s2 ! j, blk (log_dev s2) (log_blk (log_start s2) j) s2)) [0..<?n] = installs s"
    using D1 [OF log_blk_area] 2(5) ok(3) by (auto simp: installs_def f1 f2 log_blk_start disk_log_copies)
  ultimately obtain s3 where 3: "install_trans s2 = Inr s3" "bc ?d (\<lambda>_. 0) {} s3" "bframe s2 s3" "wrote (installs s) s2 s3"
    by (auto simp: f1 f2 take install_trans_def)
  note f3 = bframe_log [OF 3(3)]
  have D3: "disk s3 ?st = new_head s"
    using 3(4) 2(4) disk_installs [OF assms] assms start_area [of ?st] by (auto simp: wrote_def log_ok_def log_inv_def)
  then have h3: "blk ?d ?st s3 = new_head s" using blk_clean [OF 3(2)] by simp
  obtain t where t: "write_head (s3\<lparr>lh_n := 0\<rparr>) = Inr t" "bc ?d (\<lambda>_. 0) {} t" "bframe (s3\<lparr>lh_n := 0\<rparr>) t"
    "wrote [(?st, head_bytes 0 (lh_block s) (new_head s))] s3 t"
    using write_head_step [of "s3\<lparr>lh_n := 0\<rparr>" "\<lambda>_. 0" 0] 3(2) h3 by (auto simp: f1 f2 f3 NBUF_def)
  note f4 = bframe_log [OF t(3)]
  have W: "wrote (commit_writes s) s t"
    using 1(4) 2(4) 3(4) t(4) False by (simp add: wrote_def commit_writes_def)
  have "length (new_head s) = BSIZE" using head_bytes_get(1) [of "disk s ?st" ?n] bc0 ok(3) n by (simp add: new_head_def bc_def)
  then have "get32 (disk t ?st) 0 = 0" using t(4) head_bytes_get(2) [of "new_head s" 0] by (simp add: wrote_def)
  then have "log_ok t" using t(2) len assms by (simp add: log_ok_def log_inv_def logged_def f1 f2 f3 f4 pins_def [abs_def] LOGSIZE_def)
  moreover have "bframe (s\<lparr>lh_n := 0\<rparr>) t"
    using bframe_lh_n [OF bframe_trans [OF 1(3) bframe_trans [OF 2(3) 3(3)]]] t(3) by (rule bframe_trans)
  ultimately show thesis using that [of t] W n t(1) 1(1) 2(1) 3(1) by (simp add: commit_def f4)
qed

subsection \<open>Recovery\<close>

lemma sint_of_nat_small: "n < 2 ^ 31 \<Longrightarrow> sint (of_nat n :: u32) = int n"
  using int_word_sint [where 'a = 32 and x = "int n"] by simp

lemma read_head_step:
  assumes "bc (log_dev s) pin {} s" "card {n. pin n \<noteq> 0} < NBUF" "pin (log_start s) = 0" "n < LOGSIZE"
    "get32 (disk s (log_start s)) 0 = of_nat n"
  obtains t where "read_head s = Inr t" "bc (log_dev s) pin {} t" "wrote [] s t" "lh_n t = int n"
    "lh_block t = map (\<lambda>i. get32 (disk s (log_start s)) (4 + 4 * i)) [0..<n] @ drop n (lh_block s)"
    "log_dev t = log_dev s" "log_start t = log_start s" "log_size t = log_size s" "outstanding t = outstanding s"
    "committing t = committing s" "held t = held s"
proof -
  let ?d = "log_dev s" and ?st = "log_start s"
  have H: "blk ?d ?st s = disk s ?st" using blk_clean [OF assms(1,3)] by simp
  obtain b s1 where 1: "bread ?d ?st s = Inr (b, s1)" "holds ?d ?st b s1" "data (bufs s1 b) = disk s ?st"
    "bc ?d pin {?st} s1" "\<And>m. blk ?d m s1 = blk ?d m s" "bframe s s1" "wrote [] s s1"
    by (rule bread_step [OF assms(1), of ?st]) (use assms(2) H in auto)
  note f1 = bframe_log [OF 1(6)]
  let ?ws = "map (\<lambda>i. get32 (disk s ?st) (4 + 4 * i)) [0..<n]"
  let ?s2 = "s1\<lparr>lh_n := int n, lh_block := ?ws @ drop n (lh_block s)\<rparr>"
  have 2: "bc ?d pin {?st} ?s2" "holds ?d ?st b ?s2" "blk ?d ?st ?s2 = disk ?s2 ?st"
    using 1(2,4,5) H wrote_disk(1) [OF 1(7)] by simp_all
  obtain t where t: "brelse b ?s2 = Inr t" "bc ?d pin {} t" "bframe ?s2 t" "wrote [] ?s2 t"
    by (rule brelse_step [OF 2(1,2)]) (use 2(3) in auto)
  note ft = bframe_log [OF t(3)]
  have n: "sint (get32 (disk s ?st) 0) = int n"
    using assms(4,5) by (simp add: sint_of_nat_small LOGSIZE_def)
  have "held t = held s" using bframe_proc(1) [OF t(3)] bframe_proc(1) [OF 1(6)] by simp
  moreover have "read_head s = Inr t"
    using 1(1,3) t(1) assms(4) by (simp add: read_head_def Let_def n f1)
  ultimately show thesis
    using that [of t] t(2,4) 1(7) by (simp add: ft f1 wrote_def)
qed

text \<open>
  What recovery reads from the disk and what it writes, and a disk whose log can be recovered. That
  \<^verbatim>\<open>initlog\<close> writes the list \<open>recovery_writes\<close> is lemma \<open>initlog_step\<close>.
\<close>

definition hdr_n :: "u32 \<Rightarrow> (u32 \<Rightarrow> u8 list) \<Rightarrow> nat" where
  "hdr_n st D = unat (get32 (D st) 0)"

definition hdr_blocks :: "u32 \<Rightarrow> (u32 \<Rightarrow> u8 list) \<Rightarrow> u32 list" where
  "hdr_blocks st D = map (\<lambda>i. get32 (D st) (4 + 4 * i)) [0..<hdr_n st D]"

definition log_disk :: "u32 \<Rightarrow> (u32 \<Rightarrow> u8 list) \<Rightarrow> bool" where
  "log_disk st D \<longleftrightarrow> hdr_n st D < LOGSIZE \<and> length (D st) = BSIZE \<and> distinct (hdr_blocks st D) \<and>
     log_area st \<inter> set (hdr_blocks st D) = {}"

definition reinstalls :: "u32 \<Rightarrow> (u32 \<Rightarrow> u8 list) \<Rightarrow> (u32 \<times> u8 list) list" where
  "reinstalls st D = map (\<lambda>j. (hdr_blocks st D ! j, D (log_blk st j))) [0..<hdr_n st D]"

definition recovery_writes :: "u32 \<Rightarrow> (u32 \<Rightarrow> u8 list) \<Rightarrow> (u32 \<times> u8 list) list" where
  "recovery_writes st D = reinstalls st D @ [(st, put32 0 0 (D st))]"

definition recovered :: "u32 \<Rightarrow> (u32 \<Rightarrow> u8 list) \<Rightarrow> u32 \<Rightarrow> u8 list" where
  "recovered st D = apply_writes (recovery_writes st D) D"

text \<open>
  The state at a boot, with an empty buffer cache, and the disks that any number of crashes leave: each time the machine
  boots, \<^verbatim>\<open>initlog\<close> runs, and it stops after a prefix of the writes that \<^verbatim>\<open>initlog\<close> issues.
\<close>

definition boots :: "u32 \<Rightarrow> 'a log_scheme \<Rightarrow> bool" where
  "boots d r \<longleftrightarrow> bc d (\<lambda>_. 0) {} r \<and> length (lh_block r) = LOGSIZE"

inductive crashes :: "u32 \<Rightarrow> u32 \<Rightarrow> u32 \<Rightarrow> (u32 \<Rightarrow> u8 list) \<Rightarrow> (u32 \<Rightarrow> u8 list) \<Rightarrow> bool" for d st nlog D where
  no_crash: "crashes d st nlog D D"
| crash: "crashes d st nlog D (disk r) \<Longrightarrow> boots d r \<Longrightarrow> initlog d st nlog (r :: log) = Inr u \<Longrightarrow>
    dwrites u = dwrites r @ W \<Longrightarrow> crashes d st nlog D (apply_writes (take k W) (disk r))"

lemma unpin_zero: "{n. unpin (\<lambda>_. 0) ws n \<noteq> 0} = ws"
  by (auto simp: unpin_def)

lemma initlog_step:
  fixes r :: "'a log_scheme"
  assumes "boots d r" "log_disk st (disk r)"
  obtains u where "initlog d st nlog r = Inr u" "wrote (recovery_writes st (disk r)) r u" "lh_n u = 0"
    "bc d (unpin (\<lambda>_. 0) (set (hdr_blocks st (disk r)))) {} u"
proof -
  let ?D = "disk r"
  let ?n = "hdr_n st ?D" and ?ws = "hdr_blocks st ?D"
  define s where "s = r\<lparr>log_start := st, log_size := sint nlog, log_dev := d\<rparr>"
  have boot: "bc d (\<lambda>_. 0) {} r" "length (lh_block r) = LOGSIZE" using assms(1) by (simp_all add: boots_def)
  have held: "held r = {}" using boot(1) by (simp add: bc_def)
  have init: "initlog d st nlog r = recover_from_log s"
    by (simp add: initlog_def s_def kinitlock_def held LOGSIZE_def BSIZE_def held_id)
  have s: "log_dev s = d" "log_start s = st" "disk s = ?D" "lh_block s = lh_block r" "dwrites s = dwrites r" by (simp_all add: s_def)
  have bc: "bc (log_dev s) (\<lambda>_. 0) {} s" using boot(1) by (simp add: s_def)
  have n: "?n < LOGSIZE" "?n \<le> length ?ws" "length ?ws = ?n" and dj: "distinct ?ws" "log_area st \<inter> set ?ws = {}"
    using assms(2) by (simp_all add: log_disk_def hdr_blocks_def)
  have hn: "get32 (disk s (log_start s)) 0 = of_nat ?n" by (simp add: s hdr_n_def)
  obtain s1 where 1: "read_head s = Inr s1" "bc d (\<lambda>_. 0) {} s1" "wrote [] s s1" "lh_n s1 = int ?n"
    "lh_block s1 = ?ws @ drop ?n (lh_block r)" "log_dev s1 = d" "log_start s1 = st"
    by (rule read_head_step [OF bc _ _ n(1) hn]) (simp_all add: NBUF_def s hdr_blocks_def)
  have take: "take j (lh_block s1) = take j ?ws" if "j \<le> ?n" for j using that n(3) by (simp add: 1(5))
  have nth: "lh_block s1 ! j = ?ws ! j" if "j < ?n" for j using that n(3) by (simp add: 1(5) nth_append)
  have c: "card (set (take j ?ws)) \<le> j" for j using card_length [of "take j ?ws"] by simp
  have "\<exists>s2. foldE install_tail [0..<?n] s1 = Inr s2 \<and> bc (log_dev s1) (unpin (\<lambda>_. 0) (set (take ?n (lh_block s1)))) {} s2 \<and> bframe s1 s2 \<and>
    wrote (map (\<lambda>j. (lh_block s1 ! j, blk (log_dev s1) (log_blk (log_start s1) j) s1)) [0..<?n]) s1 s2 \<and>
    (\<forall>m\<in>log_area (log_start s1). blk (log_dev s1) m s2 = blk (log_dev s1) m s1)"
  proof (rule install_writes)
    show "\<forall>j<?n. card {n. unpin (\<lambda>_. 0) (set (take j (lh_block s1))) n \<noteq> 0} < NBUF \<and>
      ((0 :: u32) \<noteq> 0 \<or> Suc (card {n. unpin (\<lambda>_. 0) (set (take j (lh_block s1))) n \<noteq> 0}) < NBUF)"
    proof (intro allI impI)
      fix j assume "j < ?n"
      then show "card {n. unpin (\<lambda>_. 0) (set (take j (lh_block s1))) n \<noteq> 0} < NBUF \<and>
      ((0 :: u32) \<noteq> 0 \<or> Suc (card {n. unpin (\<lambda>_. 0) (set (take j (lh_block s1))) n \<noteq> 0}) < NBUF)"
        using c [of j] n(1) by (simp add: unpin_zero take NBUF_def LOGSIZE_def)
    qed
  qed (use 1(2,5,6,7) n dj take boot(2) in simp_all)
  moreover have "map (\<lambda>j. (lh_block s1 ! j, blk (log_dev s1) (log_blk (log_start s1) j) s1)) [0..<?n] = reinstalls st ?D"
    using nth wrote_disk(1) [OF 1(3)] blk_clean [OF 1(2)] by (simp add: reinstalls_def 1(6,7) s)
  ultimately obtain s2 where 2: "install_trans s1 = Inr s2" "bc d (unpin (\<lambda>_. 0) (set ?ws)) {} s2" "bframe s1 s2"
    "wrote (reinstalls st ?D) s1 s2" "blk d st s2 = blk d st s1"
    using start_area [of st] take [of ?n] n(3) by (auto simp: install_trans_def 1)
  note f2 = bframe_log [OF 2(3)]
  have H: "blk d st s2 = ?D st" using 2(5) blk_clean [OF 1(2)] wrote_disk(1) [OF 1(3)] by (simp add: s)
  have "card {n. unpin (\<lambda>_. 0) (set ?ws) n \<noteq> 0} < NBUF"
    using c [of ?n] n by (simp add: unpin_zero NBUF_def LOGSIZE_def)
  then obtain u where u: "write_head (s2\<lparr>lh_n := 0\<rparr>) = Inr u" "bc d (unpin (\<lambda>_. 0) (set ?ws)) {} u" "bframe (s2\<lparr>lh_n := 0\<rparr>) u"
    "wrote [(st, put32 0 0 (?D st))] s2 u"
    using write_head_step [of "s2\<lparr>lh_n := 0\<rparr>" "unpin (\<lambda>_. 0) (set ?ws)" 0] 2(2) H by (auto simp: f2 1 head_bytes_def)
  show thesis
  proof (rule that [of u])
    show "initlog d st nlog r = Inr u" using init 1(1) 2(1) u(1) by (simp add: recover_from_log_def)
    show "wrote (recovery_writes st ?D) r u"
      using 1(3) 2(4) u(4) by (simp add: wrote_def recovery_writes_def s)
  qed (use u(2) bframe_log(4) [OF u(3)] in simp_all)
qed

lemma apply_writes_mem: "m \<in> fst ` set W \<Longrightarrow> apply_writes W D m = apply_writes W D' m"
proof (induction W arbitrary: D D')
  case (Cons w W)
  obtain n x where w: "w = (n, x)" by (cases w)
  show ?case
  proof (cases "m \<in> fst ` set W")
    case True
    then show ?thesis using Cons.IH [OF True] by (simp add: w)
  next
    case False
    then show ?thesis using Cons.prems by (simp add: w apply_writes_other)
  qed
qed simp

lemma apply_writes_again: "apply_writes W (apply_writes (take k W) D) m = apply_writes W D m"
proof (cases "m \<in> fst ` set W")
  case True
  then show ?thesis by (rule apply_writes_mem)
next
  case False
  then have "m \<notin> fst ` set (take k W)" by (auto dest: in_set_takeD)
  with False show ?thesis by (simp add: apply_writes_other)
qed

lemma fst_reinstalls: "fst ` set (reinstalls st D) = set (hdr_blocks st D)"
proof -
  have "map fst (reinstalls st D) = hdr_blocks st D"
    by (rule nth_equalityI) (simp_all add: reinstalls_def hdr_blocks_def)
  then show ?thesis by (metis list.set_map)
qed

lemma recovered_home: "m \<notin> log_area st \<Longrightarrow> recovered st D m = apply_writes (reinstalls st D) D m"
  using start_area [of st] by (auto simp: recovered_def recovery_writes_def)

text \<open>Disks that agree on the log.\<close>

lemma same_log:
  assumes "\<And>m. m \<in> log_area st \<Longrightarrow> D' m = D m"
  shows "hdr_n st D' = hdr_n st D" "hdr_blocks st D' = hdr_blocks st D" "log_disk st D' = log_disk st D"
    "log_disk st D \<Longrightarrow> reinstalls st D' = reinstalls st D"
proof -
  have H: "D' st = D st" using assms start_area by blast
  then show "hdr_n st D' = hdr_n st D" "hdr_blocks st D' = hdr_blocks st D" "log_disk st D' = log_disk st D"
    by (simp_all add: hdr_n_def hdr_blocks_def log_disk_def)
  then show "reinstalls st D' = reinstalls st D" if "log_disk st D"
    using that assms log_blk_area by (auto simp: reinstalls_def log_disk_def)
qed

lemma empty_log:
  assumes "get32 (D st) 0 = 0" "length (D st) = BSIZE"
  shows "log_disk st D" "m \<notin> log_area st \<Longrightarrow> recovered st D m = D m"
  using assms by (simp_all add: log_disk_def hdr_n_def hdr_blocks_def LOGSIZE_def recovered_home reinstalls_def)

text \<open>Recovery can be repeated: a crash in the middle of it does not change what it recovers.\<close>

lemma recovery_idempotent:
  fixes k :: nat
  assumes "log_disk st D"
  defines "D' \<equiv> apply_writes (take k (recovery_writes st D)) D"
  shows "log_disk st D' \<and> (\<forall>m. m \<notin> log_area st \<longrightarrow> recovered st D' m = recovered st D m)"
proof (cases "k \<le> length (reinstalls st D)")
  case True
  then have D': "D' = apply_writes (take k (reinstalls st D)) D" by (simp add: D'_def recovery_writes_def)
  have "D' m = D m" if "m \<in> log_area st" for m
  proof -
    have "fst ` set (take k (reinstalls st D)) \<subseteq> set (hdr_blocks st D)"
      using fst_reinstalls [of st D] by (auto dest: in_set_takeD)
    then have "m \<notin> fst ` set (take k (reinstalls st D))" using that assms(1) by (auto simp: log_disk_def)
    then show ?thesis by (simp add: D' apply_writes_other)
  qed
  note same = same_log [OF this]
  show ?thesis
    using assms(1) by (simp add: same recovered_home) (simp add: D' apply_writes_again)
next
  case False
  then have D': "D' = recovered st D" by (simp add: D'_def recovery_writes_def recovered_def)
  have H: "D' st = put32 0 0 (D st)" by (simp add: D' recovered_def recovery_writes_def)
  have "length (D st) = BSIZE" using assms(1) by (simp add: log_disk_def)
  then have "get32 (D' st) 0 = 0" "length (D' st) = BSIZE" by (simp_all add: H get32_put32_same BSIZE_def)
  from empty_log [where D = D' and st = st, OF this] show ?thesis by (simp add: D')
qed

lemma crashes_recover:
  assumes "crashes d st nlog D D'" "log_disk st D"
  shows "log_disk st D' \<and> (\<forall>m. m \<notin> log_area st \<longrightarrow> recovered st D' m = recovered st D m)"
  using assms
proof (induction rule: crashes.induct)
  case (crash r u W k)
  then have D': "log_disk st (disk r)" "\<forall>m. m \<notin> log_area st \<longrightarrow> recovered st (disk r) m = recovered st D m" by simp_all
  obtain v where "initlog d st nlog r = Inr v" "wrote (recovery_writes st (disk r)) r v"
    using crash.hyps(2) D'(1) by (rule initlog_step)
  then have "W = recovery_writes st (disk r)" using crash.hyps(3,4) by (simp add: wrote_def)
  with D' recovery_idempotent [OF D'(1), of k] show ?case by simp
qed simp

text \<open>
  A crash in the middle of a commit: before the header is written, once the home blocks are being written, and
  after the log has been erased.
\<close>

lemma log_ok_disk:
  assumes "log_ok s"
  shows "length (disk s m) = BSIZE" "m \<notin> set (logged s) \<Longrightarrow> blk (log_dev s) m s = disk s m"
    "get32 (disk s (log_start s)) 0 = 0" "log_start s \<notin> set (logged s)"
  using assms start_area [of "log_start s"] blk_clean [of "log_dev s" "pins (set (logged s))" "{}" s m]
  by (auto simp: log_ok_def log_inv_def bc_def)

lemma commit_early:
  assumes "log_ok s" "D = apply_writes (take k (log_copies s)) (disk s)"
  shows "log_disk (log_start s) D \<and> (\<forall>m. m \<notin> log_area (log_start s) \<longrightarrow> recovered (log_start s) D m = disk s m)"
proof -
  let ?st = "log_start s"
  have "D m = disk s m" if "m \<notin> log_area ?st - {?st}" for m
  proof -
    have "fst x \<in> log_area ?st - {?st}" if "x \<in> set (log_copies s)" for x
      using log_copies_area [OF log_ok_card(3) [OF assms(1)] that] by simp
    then have "m \<notin> fst ` set (take k (log_copies s))" using that by (auto dest: in_set_takeD)
    then show ?thesis by (simp add: assms(2) apply_writes_other)
  qed
  then show ?thesis using empty_log [of D ?st] log_ok_disk(1,3) [OF assms(1)] by simp
qed

definition logged_disk :: "'a log_scheme \<Rightarrow> u32 \<Rightarrow> u8 list" where
  "logged_disk s = apply_writes (log_copies s @ [(log_start s, new_head s)]) (disk s)"

lemma logged_disk:
  assumes "log_ok s"
  shows "logged_disk s (log_start s) = new_head s"
    "j < nat (lh_n s) \<Longrightarrow> logged_disk s (log_blk (log_start s) j) = blk (log_dev s) (lh_block s ! j) s"
    "m \<notin> log_area (log_start s) \<Longrightarrow> logged_disk s m = disk s m"
    "hdr_n (log_start s) (logged_disk s) = nat (lh_n s)" "hdr_blocks (log_start s) (logged_disk s) = logged s"
    "log_disk (log_start s) (logged_disk s)" "reinstalls (log_start s) (logged_disk s) = installs s"
proof -
  let ?st = "log_start s" and ?n = "nat (lh_n s)"
  note ok = log_ok_card [OF assms]
  show H: "logged_disk s ?st = new_head s" by (simp add: logged_disk_def)
  show L: "logged_disk s (log_blk ?st j) = blk (log_dev s) (lh_block s ! j) s" if "j < ?n" for j
    using that ok(3) log_blk_start [of j ?st] disk_log_copies [of j s] by (simp add: logged_disk_def)
  show "logged_disk s m = disk s m" if "m \<notin> log_area ?st"
    using that start_area [of ?st] ok(3) disk_log_copies_other [of s m] by (auto simp: logged_disk_def)
  have n: "lh_n s = int ?n" using assms by (simp add: log_ok_def log_inv_def)
  have head: "length (new_head s) = BSIZE" "get32 (new_head s) 0 = word_of_nat ?n"
      "\<And>i. i < ?n \<Longrightarrow> get32 (new_head s) (4 + 4 * i) = lh_block s ! i"
    using head_bytes_get [OF log_ok_disk(1) [OF assms, of ?st] less_imp_le [OF ok(3)], where ws = "lh_block s"] n
    unfolding new_head_def by (metis of_int_of_nat_eq)+
  show N: "hdr_n ?st (logged_disk s) = ?n"
    using ok(3) head(2) by (simp add: hdr_n_def H LOGSIZE_def unat_of_nat_small)
  show W: "hdr_blocks ?st (logged_disk s) = logged s"
    by (rule nth_equalityI) (simp_all add: hdr_blocks_def N ok(2,4) H head(3))
  show "log_disk ?st (logged_disk s)"
    using assms head(1) ok(3) by (simp add: log_disk_def N W H) (simp add: log_ok_def log_inv_def)
  show "reinstalls ?st (logged_disk s) = installs s"
    by (simp add: reinstalls_def installs_def N W L ok(4))
qed

lemma installs_outside: "log_ok s \<Longrightarrow> m \<in> log_area (log_start s) \<Longrightarrow> m \<notin> fst ` set (installs s)"
  using log_ok_card(5) by (fastforce simp: installs_def log_ok_def log_inv_def)

lemma commit_middle:
  assumes "log_ok s" "D = apply_writes (take j (installs s)) (logged_disk s)"
  shows "log_disk (log_start s) D \<and> (\<forall>m. m \<notin> log_area (log_start s) \<longrightarrow> recovered (log_start s) D m = blk (log_dev s) m s)"
proof -
  have "D m = logged_disk s m" if "m \<in> log_area (log_start s)" for m
    using installs_outside [OF assms(1) that] by (auto simp: assms(2) intro!: apply_writes_other dest: in_set_takeD)
  note same = same_log [OF this]
  show ?thesis
    using logged_disk [OF assms(1)] log_ok_disk(2) [OF assms(1)]
    by (simp add: same recovered_home) (simp add: assms(2) apply_writes_again disk_installs [OF assms(1)])
qed

lemma commit_late:
  assumes "log_ok s" "D = apply_writes (installs s @ [(log_start s, head_bytes 0 (lh_block s) (new_head s))]) (logged_disk s)"
  shows "log_disk (log_start s) D \<and> (\<forall>m. m \<notin> log_area (log_start s) \<longrightarrow> recovered (log_start s) D m = blk (log_dev s) m s)"
proof -
  let ?st = "log_start s"
  have "length (logged_disk s ?st) = BSIZE" using logged_disk(6) [OF assms(1)] by (simp add: log_disk_def)
  then have H: "length (D ?st) = BSIZE" "get32 (D ?st) 0 = 0"
    using head_bytes_get(1,2) [of "new_head s" 0] logged_disk(1) [OF assms(1)] by (simp_all add: assms(2))
  have "D m = blk (log_dev s) m s" if "m \<notin> log_area ?st" for m
    using that start_area [of ?st] logged_disk(3) [OF assms(1)] log_ok_disk(2) [OF assms(1), of m]
    by (auto simp: assms(2) disk_installs [OF assms(1)])
  then show ?thesis using empty_log [where D = D and st = ?st, OF H(2,1)] by simp
qed

lemma commit_prefix:
  assumes "log_ok s" "D = apply_writes (take k (commit_writes s)) (disk s)"
  shows "log_disk (log_start s) D \<and> (\<forall>m. m \<notin> log_area (log_start s) \<longrightarrow>
    recovered (log_start s) D m = (if k \<le> nat (lh_n s) then disk s m else blk (log_dev s) m s))"
proof (cases "lh_n s = 0")
  case True
  then have D: "D = apply_writes (take 0 (log_copies s)) (disk s)" and "logged s = []"
    by (simp_all add: assms(2) commit_writes_def logged_def)
  then show ?thesis using commit_early [OF assms(1) D] log_ok_disk(2) [OF assms(1)] by simp
next
  case False
  let ?n = "nat (lh_n s)"
  have lens: "length (log_copies s) = ?n" "length (installs s) = ?n" by (simp_all add: log_copies_def installs_def)
  consider "k \<le> ?n" | "?n < k" "k - Suc ?n \<le> ?n" | "?n < k - Suc ?n" by linarith
  then show ?thesis
  proof cases
    case 1
    then have "D = apply_writes (take k (log_copies s)) (disk s)"
      by (simp add: assms(2) commit_writes_def False lens)
    from commit_early [OF assms(1) this] 1 show ?thesis by simp
  next
    case 2
    then have "take k (commit_writes s) = (log_copies s @ [(log_start s, new_head s)]) @ take (k - Suc ?n) (installs s)"
      by (simp add: commit_writes_def False lens take_Cons' Suc_diff_Suc)
    then have "D = apply_writes (take (k - Suc ?n) (installs s)) (logged_disk s)"
      unfolding assms(2) logged_disk_def by (simp only: apply_writes_simps)
    from commit_middle [OF assms(1) this] 2 show ?thesis by simp
  next
    case 3
    then have k: "Suc (Suc (?n + ?n)) \<le> k" by linarith
    then have "take k (commit_writes s) = commit_writes s" by (simp add: commit_writes_def lens)
    then have "D = apply_writes (installs s @ [(log_start s, head_bytes 0 (lh_block s) (new_head s))]) (logged_disk s)"
      using False by (simp add: assms(2) logged_disk_def commit_writes_def)
    from commit_late [OF assms(1) this] k show ?thesis by simp
  qed
qed

subsection \<open>Properties\<close>

text \<open>
  C1. A commit is atomic with respect to crashes. It succeeds and issues a sequence \<open>W\<close> of disk writes. If the machine stops
  after any prefix of these writes, is restarted with an empty buffer cache, and is restarted again any number of times, each time
  after a prefix of the writes that the recovery of \<^verbatim>\<open>initlog\<close> has issued, then \<^verbatim>\<open>initlog\<close> succeeds and leaves
  on every block outside the log either what was there before the commit, or what the transaction had stored, and the choice is
  the same for all the blocks: it depends only on whether the header was written.
\<close>

theorem commit_crash_safe:
  assumes "log_ok s"
  shows "\<exists>t W. commit s = Inr t \<and> dwrites t = dwrites s @ W \<and> disk t = apply_writes W (disk s) \<and>
    (\<forall>k (r :: 'a log_scheme). boots (log_dev s) r \<longrightarrow>
       crashes (log_dev s) (log_start s) nlog (apply_writes (take k W) (disk s)) (disk r) \<longrightarrow>
       (\<exists>u. initlog (log_dev s) (log_start s) nlog r = Inr u \<and>
         (\<forall>m. m \<notin> log_area (log_start s) \<longrightarrow> disk u m = (if k \<le> nat (lh_n s) then disk s m else blk (log_dev s) m s))))"
proof -
  obtain t where t: "commit s = Inr t" "wrote (commit_writes s) s t" using assms(1) by (rule commit_step)
  have "\<exists>u. initlog (log_dev s) (log_start s) nlog r = Inr u \<and>
      (\<forall>m. m \<notin> log_area (log_start s) \<longrightarrow> disk u m = (if k \<le> nat (lh_n s) then disk s m else blk (log_dev s) m s))"
    if r: "boots (log_dev s) r"
      "crashes (log_dev s) (log_start s) nlog (apply_writes (take k (commit_writes s)) (disk s)) (disk r)"
    for k and r :: "'a log_scheme"
  proof -
    note p = commit_prefix [OF assms refl, of k]
    note c = crashes_recover [OF r(2) conjunct1 [OF p]]
    obtain u where u: "initlog (log_dev s) (log_start s) nlog r = Inr u"
      "wrote (recovery_writes (log_start s) (disk r)) r u"
      using r(1) conjunct1 [OF c] by (rule initlog_step)
    have "disk u = recovered (log_start s) (disk r)" using u(2) by (simp add: wrote_def recovered_def)
    with u(1) p c show ?thesis by simp
  qed
  with t show ?thesis by (intro exI [of _ t] exI [of _ "commit_writes s"]) (simp add: wrote_def)
qed

definition boot_sample :: "(u32 \<Rightarrow> u8 list) \<Rightarrow> log" where
  "boot_sample D = bio.extend (bio.truncate (bio_sample\<lparr>disk := D\<rparr>)) (log.fields 2 30 0 False 1 0 (replicate 30 0))"

definition log_sample :: log where
  "log_sample = (boot_sample (\<lambda>_. replicate 1024 0))
     \<lparr>bufs := (\<lambda>_. \<lparr>valid = False, dev = 0, blockno = 0, refcnt = 0, data = []\<rparr>)
        (0 := \<lparr>valid = True, dev = 1, blockno = 40, refcnt = 1, data = replicate 1024 7\<rparr>),
      outstanding := 1, lh_n := 1, lh_block := 40 # replicate 29 0\<rparr>"

lemmas sample_defs = log_sample_def boot_sample_def bio_sample_def bio.defs log.defs

lemma boot_sample_bc: "(\<And>n. length (D n) = 1024) \<Longrightarrow> bc 1 (\<lambda>_. 0) {} (boot_sample D)"
  by (rule bc_fresh) (auto simp: sample_defs NBUF_def BSIZE_def)

lemma log_sample_fields: "log_start log_sample = 2" "log_dev log_sample = 1" "lh_n log_sample = 1"
  "lh_block log_sample = 40 # replicate 29 0" "disk log_sample = (\<lambda>_. replicate 1024 0)" "log_size log_sample = 30"
  "logged log_sample = [40]"
  "outstanding log_sample = 1"
  by (simp_all add: sample_defs logged_def)

lemma of_nat_area: "(40 :: u32) \<notin> log_area 2"
  by (auto simp: log_area_def LOGSIZE_def lessThan_nat_numeral lessThan_Suc)

lemma log_sample_ok: "log_ok log_sample"
proof -
  have "bc 1 (pins {40}) {} log_sample"
    unfolding bc_def bc_buf_def holds_def by (auto simp: sample_defs NBUF_def BSIZE_def pins_def Let_def)
  then show ?thesis using of_nat_area
    by (simp add: log_ok_def log_inv_def log_sample_fields LOGSIZE_def get32_def of_le_zeros [of "replicate 4 0", simplified])
qed

lemma log_sample_bc: "bc 1 (pins {40}) {} log_sample"
  using log_sample_ok by (simp add: log_ok_def log_inv_def log_sample_fields)

lemma log_sample_blk: "blk 1 40 log_sample = replicate 1024 7"
  by (subst blk_valid [OF log_sample_bc, of 40 0]) (simp_all add: holds_def sample_defs NBUF_def)

lemma apply_writes_length:
  "\<forall>w\<in>set W. length (snd w) = l \<Longrightarrow> \<forall>n. length (D n) = l \<Longrightarrow> length (apply_writes W D n) = l"
  by (induction W arbitrary: D) auto

lemma commit_writes_length:
  assumes "log_ok s" "w \<in> set (commit_writes s)"
  shows "length (snd w) = BSIZE"
proof -
  have "length (blk (log_dev s) m s) = BSIZE" for m using assms(1) blk_length by (auto simp: log_ok_def log_inv_def)
  moreover have h: "length (new_head s) = BSIZE"
    using logged_disk(1,6) [OF assms(1)] by (simp add: log_disk_def)
  moreover have "length (head_bytes 0 (lh_block s) (new_head s)) = BSIZE" using head_bytes_get(1) [OF h, of 0] by simp
  ultimately show ?thesis using assms(2)
    by (auto simp: commit_writes_def log_copies_def installs_def split: if_splits)
qed

text \<open>A crash after the header was written, and another one in the recovery, after it wrote the home block.\<close>

theorem commit_crash_safe_witness:
  "\<exists>t W v V u. commit log_sample = Inr t \<and> dwrites t = dwrites log_sample @ W \<and>
     initlog 1 2 30 (boot_sample (apply_writes (take 2 W) (disk log_sample))) = Inr v \<and> dwrites v = V \<and>
     initlog 1 2 30 (boot_sample (apply_writes (take 1 V) (apply_writes (take 2 W) (disk log_sample)))) = Inr u \<and>
     disk u 40 = replicate 1024 7"
proof -
  have b: "boots (log_dev log_sample) (boot_sample D)" if "\<And>n. length (D n) = BSIZE" for D
    using boot_sample_bc [of D] that by (simp add: boots_def log_sample_fields BSIZE_def) (simp add: sample_defs LOGSIZE_def)
  have d: "disk (boot_sample D) = D" "dwrites (boot_sample D) = []" for D by (simp_all add: sample_defs)
  from commit_crash_safe [OF log_sample_ok, where nlog = 30 and 'a = unit] obtain t W where
    1: "commit log_sample = Inr t" "dwrites t = dwrites log_sample @ W" and
    2: "\<And>k (r :: log). boots 1 r \<Longrightarrow>
       crashes 1 2 30 (apply_writes (take k W) (disk log_sample)) (disk r) \<Longrightarrow>
       \<exists>u. initlog 1 2 30 r = Inr u \<and> (\<forall>m. m \<notin> log_area 2 \<longrightarrow> disk u m = (if k \<le> 1 then disk log_sample m else blk 1 m log_sample))"
    unfolding log_sample_fields by auto
  obtain t' where "commit log_sample = Inr t'" "wrote (commit_writes log_sample) log_sample t'"
    using log_sample_ok by (rule commit_step)
  then have W: "W = commit_writes log_sample" using 1 by (simp add: wrote_def)
  let ?D = "apply_writes (take 2 W) (disk log_sample)"
  have D: "length (?D n) = BSIZE" for n
    by (rule apply_writes_length)
      (auto simp: W log_sample_fields BSIZE_def dest!: in_set_takeD commit_writes_length [OF log_sample_ok])
  have L: "log_disk 2 ?D" using commit_prefix [OF log_sample_ok refl, of 2] by (simp add: W log_sample_fields)
  have c0: "crashes 1 2 30 ?D (disk (boot_sample ?D))" unfolding d by (rule no_crash)
  obtain v where v: "initlog 1 2 30 (boot_sample ?D) = Inr v" "wrote (recovery_writes 2 ?D) (boot_sample ?D) v"
    using initlog_step [of 1 "boot_sample ?D" 2 30] b [of ?D] D L by (auto simp: d log_sample_fields)
  let ?V = "dwrites v" and ?E = "apply_writes (take 1 (dwrites v)) ?D"
  have V: "?V = recovery_writes 2 ?D" using v(2) by (simp add: wrote_def d)
  have "crashes 1 2 30 ?D ?E"
    using crash [OF c0 _ v(1), of ?V 1] b [of ?D] D by (simp add: d log_sample_fields)
  moreover have "length (?E n) = BSIZE" for n
    by (rule apply_writes_length)
      (auto simp: V D recovery_writes_def reinstalls_def BSIZE_def dest!: in_set_takeD)
  ultimately obtain u where "initlog 1 2 30 (boot_sample ?E) = Inr u" "disk u 40 = replicate 1024 7"
    using 2 [of "boot_sample ?E" 2] b [of ?E] of_nat_area log_sample_blk by (auto simp: d log_sample_fields)
  then show ?thesis using 1 v(1) by blast
qed

end
