(* ===== verification/Transaction.thy ===== *)
theory Transaction
  imports LogCrash
begin

text \<open>
  The log as a transactional store: \<^verbatim>\<open>begin_op\<close>, \<^verbatim>\<open>log_write\<close> and
  \<^verbatim>\<open>end_op\<close> of \<^verbatim>\<open>kernel/log.c\<close>, the contract that the file system relies on,
  and the two places where the code falls short of it.
\<close>

subsection \<open>Transactions\<close>

lemma length_takeWhile_mem: "w \<in> set xs \<Longrightarrow> length (takeWhile (\<lambda>x. x \<noteq> w) xs) < length xs"
  by (induction xs) auto

lemma takeWhile_notin: "w \<notin> set xs \<Longrightarrow> takeWhile (\<lambda>x. x \<noteq> w) xs = xs"
  by (induction xs) auto

lemma lh_find_in:
  assumes "w \<in> set (take n ws)"
  shows "lh_find ws w n < n" "lh_find ws w n < length ws" "ws[lh_find ws w n := w] = ws"
proof -
  let ?i = "length (takeWhile (\<lambda>x. x \<noteq> w) (take n ws))"
  have "?i < length (take n ws)" using assms by (rule length_takeWhile_mem)
  moreover have "take n ws ! ?i = w" using nth_length_takeWhile [OF \<open>?i < length (take n ws)\<close>] by simp
  ultimately show "lh_find ws w n < n" "lh_find ws w n < length ws" "ws[lh_find ws w n := w] = ws"
    by (simp_all add: lh_find_def list_update_same_conv)
qed

lemma lh_find_notin: "w \<notin> set (take n ws) \<Longrightarrow> n \<le> length ws \<Longrightarrow> lh_find ws w n = n"
  by (simp add: lh_find_def takeWhile_notin)

definition log_room :: "'a log_scheme \<Rightarrow> int" where
  "log_room s = min (int LOGSIZE) (log_size s - 1) - lh_n s"

lemma log_write_eq:
  assumes "held s = {}" "1 \<le> outstanding s" "0 < log_room s" "0 \<le> lh_n s" "length (lh_block s) = LOGSIZE"
    "blockno (bufs s b) = n"
  shows "log_write b s = Inr (if n \<in> set (logged s) then s
     else upd_buf b (\<lambda>q. q\<lparr>refcnt := refcnt q + 1\<rparr>)
       (s\<lparr>lh_n := lh_n s + 1, lh_block := (lh_block s)[nat (lh_n s) := n]\<rparr>))"
proof (cases "n \<in> set (logged s)")
  case True
  note f = lh_find_in [OF True [unfolded logged_def]]
  have "int (lh_find (lh_block s) n (nat (lh_n s))) \<noteq> lh_n s" using f(1) assms(4) by linarith
  then show ?thesis using assms True f(3) by (simp add: log_write_def lock_defs log_room_def Let_def held_id)
next
  case False
  then have f: "lh_find (lh_block s) n (nat (lh_n s)) = nat (lh_n s)"
    using assms(3-5) by (intro lh_find_notin) (auto simp: logged_def log_room_def)
  show ?thesis using assms False
    by (simp add: log_write_def lock_defs log_room_def Let_def f bpin_eq upd_buf_def)
qed

lemma logged_append:
  assumes "0 \<le> lh_n s" "lh_n s < int LOGSIZE" "length (lh_block s) = LOGSIZE"
  shows "logged (s\<lparr>lh_n := lh_n s + 1, lh_block := (lh_block s)[nat (lh_n s) := n]\<rparr>) = logged s @ [n]"
  using assms by (simp add: logged_def nat_add_distrib take_Suc_conv_app_nth)

lemma pins_insert: "n \<notin> ws \<Longrightarrow> (pins ws)(n := pins ws n + 1) = pins (insert n ws)"
  by (auto simp: pins_def fun_eq_iff)

lemma log_room_less: "0 < log_room s \<Longrightarrow> lh_n s < int LOGSIZE \<and> lh_n s < log_size s - 1"
  by (auto simp: log_room_def)

text \<open>What a step inside a transaction leaves alone: all but the buffers, the disk, the run states and the header.\<close>

definition lframe :: "'a log_scheme \<Rightarrow> 'a log_scheme \<Rightarrow> bool" where
  "lframe s t \<longleftrightarrow> bframe (s\<lparr>lh_n := lh_n t, lh_block := lh_block t\<rparr>) t"

lemma bframe_lh_block:
  assumes "bframe s t"
  shows "bframe (s\<lparr>lh_block := x\<rparr>) (t\<lparr>lh_block := x\<rparr>)"
proof -
  obtain sl bf lr dk dw pr where t: "t = s\<lparr>slock := sl, bufs := bf, lru := lr, disk := dk, dwrites := dw, proc := pr\<rparr>"
    and k: "\<forall>l\<ge>NBUF. slock t l = slock s l" "\<forall>p. (proc t p)\<lparr>pstate := UNUSED\<rparr> = (proc s p)\<lparr>pstate := UNUSED\<rparr>"
    using assms unfolding bframe_def by blast
  have "t\<lparr>lh_block := x\<rparr> = s\<lparr>lh_block := x, slock := sl, bufs := bf, lru := lr, disk := dk, dwrites := dw, proc := pr\<rparr>"
    by (rule log.equality) (simp_all add: t)
  then show ?thesis by (simp only:) (rule bframeI, use k in \<open>simp_all add: t\<close>)
qed

lemma lframe_bframe: "bframe s t \<Longrightarrow> lframe s t"
  using bframe_log(4,5) [of s t] by (simp add: lframe_def)

lemma lframe_refl [simp]: "lframe s s"
  by (simp add: lframe_bframe)

lemma lframe_trans [trans]:
  assumes "lframe s t" "lframe t u"
  shows "lframe s u"
proof -
  have "bframe (s\<lparr>lh_n := lh_n t, lh_block := lh_block t\<rparr>) t" using assms(1) by (simp add: lframe_def)
  from bframe_lh_block [OF bframe_lh_n [OF this, of "lh_n u"], of "lh_block u"]
  have "bframe (s\<lparr>lh_n := lh_n u, lh_block := lh_block u\<rparr>) (t\<lparr>lh_n := lh_n u, lh_block := lh_block u\<rparr>)" by simp
  with assms(2) show ?thesis unfolding lframe_def by (blast intro: bframe_trans)
qed

lemma lframe_log:
  assumes "lframe s t"
  shows "log_dev t = log_dev s" "log_start t = log_start s" "log_size t = log_size s"
    "outstanding t = outstanding s" "committing t = committing s" "held t = held s" "me t = me s"
  using bframe_log [OF assms [unfolded lframe_def]] bframe_proc [OF assms [unfolded lframe_def]] by simp_all

lemma log_write_step:
  assumes "log_inv ls s" "holds (log_dev s) n b s" "n \<in> ls" "n \<notin> log_area (log_start s)"
    "1 \<le> outstanding s" "0 < log_room s"
  obtains t where "log_write b s = Inr t" "log_inv ls t" "n \<in> set (logged t)" "set (logged t) = insert n (set (logged s))"
    "\<And>m. blk (log_dev s) m t = blk (log_dev s) m s" "lframe s t" "wrote [] s t" "\<And>d m c. holds d m c t \<longleftrightarrow> holds d m c s"
    "log_room s - 1 \<le> log_room t"
proof (cases "n \<in> set (logged s)")
  case True
  then have "log_write b s = Inr s"
    using assms by (subst log_write_eq) (auto simp: log_inv_def bc_def holds_def)
  with True show thesis using that [of s] assms(1) by auto
next
  case False
  let ?d = "log_dev s"
  let ?s1 = "s\<lparr>lh_n := lh_n s + 1, lh_block := (lh_block s)[nat (lh_n s) := n]\<rparr>"
  let ?t = "upd_buf b (\<lambda>q. q\<lparr>refcnt := refcnt q + 1\<rparr>) ?s1"
  have inv: "bc ?d (pins (set (logged s))) ls s" "held s = {}" "0 \<le> lh_n s" "lh_n s < int LOGSIZE"
    "length (lh_block s) = LOGSIZE" "log_size s \<le> int LOGSIZE"
    using assms(1) by (simp_all add: log_inv_def bc_def)
  have eq: "log_write b s = Inr ?t"
    using log_write_eq [OF inv(2) assms(5,6) inv(3,5)] assms(2) False by (simp add: holds_def)
  have ap: "logged ?t = logged s @ [n]" using logged_append [OF inv(3-5)] by (simp add: logged_def upd_buf_def)
  have "bc ?d (pins (set (logged s))) ls ?s1" "holds ?d n b ?s1" using inv(1) assms(2) by simp_all
  note pin = bc_repin [OF this assms(3), where k = 1]
  have bc: "bc ?d (pins (set (logged ?t))) ls ?t"
    using pin(1) pins_insert [OF False] by (simp add: ap)
  have t: "log_dev ?t = ?d" "log_start ?t = log_start s" "log_size ?t = log_size s" "lh_n ?t = lh_n s + 1"
    "lh_block ?t = (lh_block s)[nat (lh_n s) := n]" "disk ?t = disk s" "dwrites ?t = dwrites s"
    by (simp_all add: upd_buf_def)
  have room: "lh_n s + 1 < int LOGSIZE" using assms(6) inv(6) by (auto simp: log_room_def)
  show thesis
  proof (rule that [of ?t])
    show "log_inv ls ?t"
      using bc assms(1,4) False room inv by (simp add: log_inv_def t ap)
    show "lframe s ?t" unfolding lframe_def t by (rule bframe_upd_buf)
    show "holds d m c ?t \<longleftrightarrow> holds d m c s" for d m c by (simp add: holds_def upd_buf_def)
  qed (use eq ap pin(2) in \<open>simp_all add: t wrote_def log_room_def\<close>)
qed

text \<open>
  The use of the log that the comment before \<^verbatim>\<open>log_write\<close> describes: read a block, change it, log it and
  release it. The change is seen by every later read and does not reach the disk.
\<close>

definition log_update :: "u32 \<Rightarrow> (u8 list \<Rightarrow> u8 list) \<Rightarrow> 'a log_scheme \<Rightarrow> 'a log_scheme res" where
  "log_update n f s = bindE (bread (log_dev s) n s) (\<lambda>(b, s).
     bindE (log_write b (set_data b (f (data (bufs s b))) s)) (brelse b))"

lemma log_inv_locked: "log_inv ls s \<Longrightarrow> \<forall>m\<in>ls. pins (set (logged s)) m + 1 \<noteq> 0"
  by (simp add: pins_def)

lemma log_inv_bc: "log_inv ls s \<Longrightarrow> bc (log_dev s) (pins (set (logged s))) ls s"
  by (simp add: log_inv_def)

text \<open>The steps of the buffer cache inside a transaction.\<close>

lemma log_bread_step:
  assumes "log_inv ls s" "n \<notin> ls" "card (set (logged s) \<union> ls) < NBUF"
  obtains b t where "bread (log_dev s) n s = Inr (b, t)" "holds (log_dev s) n b t" "data (bufs t b) = blk (log_dev s) n s"
    "log_inv (insert n ls) t" "\<And>m. blk (log_dev s) m t = blk (log_dev s) m s" "bframe s t" "wrote [] s t"
    "\<And>m c. m \<in> ls \<Longrightarrow> holds (log_dev s) m c s \<Longrightarrow> holds (log_dev s) m c t" "logged t = logged s"
proof -
  have card: "card ({n. pins (set (logged s)) n \<noteq> 0} \<union> ls) < NBUF" using assms(3) by simp
  obtain b t where b: "bread (log_dev s) n s = Inr (b, t)" "holds (log_dev s) n b t" "data (bufs t b) = blk (log_dev s) n s"
    "bc (log_dev s) (pins (set (logged s))) (insert n ls) t" "\<And>m. blk (log_dev s) m t = blk (log_dev s) m s" "bframe s t" "wrote [] s t"
    "\<And>m c. m \<in> ls \<Longrightarrow> holds (log_dev s) m c s \<Longrightarrow> holds (log_dev s) m c t"
    using bread_step [OF log_inv_bc [OF assms(1)] assms(2) log_inv_locked [OF assms(1)]] card by metis
  note f = bframe_log [OF b(6)]
  have l: "logged t = logged s" by (simp add: logged_def f)
  have "log_inv (insert n ls) t" using assms(1) b(4) wrote_disk(1) [OF b(7)] by (simp add: log_inv_def f l)
  then show thesis using that b l by blast
qed

lemma log_brelse_step:
  assumes "log_inv ls s" "holds (log_dev s) n b s" "n \<in> ls" "n \<in> set (logged s) \<or> blk (log_dev s) n s = disk s n"
  obtains t where "brelse b s = Inr t" "log_inv (ls - {n}) t" "\<And>m. blk (log_dev s) m t = blk (log_dev s) m s" "bframe s t"
    "wrote [] s t" "\<And>m c. holds (log_dev s) m c t \<longleftrightarrow> holds (log_dev s) m c s" "logged t = logged s"
proof -
  have pin: "pins (set (logged s)) n \<noteq> 0 \<or> blk (log_dev s) n s = disk s n" using assms(4) by simp
  obtain t where t: "brelse b s = Inr t" "bc (log_dev s) (pins (set (logged s))) (ls - {n}) t"
    "\<And>m. blk (log_dev s) m t = blk (log_dev s) m s" "bframe s t"
    "wrote [] s t" "\<And>m c. holds (log_dev s) m c t \<longleftrightarrow> holds (log_dev s) m c s"
    using brelse_step [OF log_inv_bc [OF assms(1)] assms(2,3) pin] by metis
  note f = bframe_log [OF t(4)]
  have l: "logged t = logged s" by (simp add: logged_def f)
  have "log_inv (ls - {n}) t" using assms(1) t(2) wrote_disk(1) [OF t(5)] by (simp add: log_inv_def f l)
  then show thesis using that t l by blast
qed

lemma log_set_data_step:
  assumes "log_inv ls s" "holds (log_dev s) n b s" "n \<in> ls" "length x = BSIZE"
  shows "log_inv ls (set_data b x s)" "blk (log_dev s) m (set_data b x s) = (if m = n then x else blk (log_dev s) m s)"
    "bframe s (set_data b x s)" "wrote [] s (set_data b x s)"
    "holds (log_dev s) m c (set_data b x s) \<longleftrightarrow> holds (log_dev s) m c s" "logged (set_data b x s) = logged s"
proof -
  note d = set_data_step [OF log_inv_bc [OF assms(1)] assms(2-4)]
  show "bframe s (set_data b x s)" "wrote [] s (set_data b x s)"
    "blk (log_dev s) m (set_data b x s) = (if m = n then x else blk (log_dev s) m s)"
    "holds (log_dev s) m c (set_data b x s) \<longleftrightarrow> holds (log_dev s) m c s" by (rule d)+
  note f = bframe_log [OF d(3)]
  show l: "logged (set_data b x s) = logged s" by (simp add: logged_def f)
  show "log_inv ls (set_data b x s)" using assms(1) d(1) wrote_disk(1) [OF d(4)] by (simp add: log_inv_def f l)
qed

lemma log_room_bframe: "bframe s t \<Longrightarrow> log_room t = log_room s"
  by (simp add: log_room_def bframe_log)

lemma log_update_step:
  assumes "log_ok s" "n \<notin> log_area (log_start s)" "1 \<le> outstanding s" "0 < log_room s" "length (f (blk (log_dev s) n s)) = BSIZE"
  obtains t where "log_update n f s = Inr t" "log_ok t" "lframe s t" "wrote [] s t" "log_room s - 1 \<le> log_room t"
    "set (logged t) = insert n (set (logged s))"
    "\<And>m. blk (log_dev s) m t = (if m = n then f (blk (log_dev s) n s) else blk (log_dev s) m s)"
proof -
  let ?d = "log_dev s"
  have inv: "log_inv {} s" using assms(1) by (simp add: log_ok_def)
  obtain b s1 where 1: "bread ?d n s = Inr (b, s1)" "holds ?d n b s1" "data (bufs s1 b) = blk ?d n s"
    "log_inv {n} s1" "\<And>m. blk ?d m s1 = blk ?d m s" "bframe s s1" "wrote [] s s1" "logged s1 = logged s"
    by (rule log_bread_step [OF inv, of n]) (use log_ok_card(1) [OF assms(1)] in auto)
  note f1 = bframe_log [OF 1(6)]
  let ?x = "f (blk ?d n s)" and ?s2 = "set_data b (f (blk ?d n s)) s1"
  note 2 = log_set_data_step [OF 1(4), of n b ?x, unfolded f1, OF 1(2) singletonI assms(5)]
  note f2 = bframe_log [OF 2(3)]
  obtain s3 where 3: "log_write b ?s2 = Inr s3" "log_inv {n} s3" "n \<in> set (logged s3)" "set (logged s3) = insert n (set (logged ?s2))"
    "\<And>m. blk ?d m s3 = blk ?d m ?s2" "lframe ?s2 s3" "wrote [] ?s2 s3" "\<And>d m c. holds d m c s3 \<longleftrightarrow> holds d m c ?s2"
    "log_room ?s2 - 1 \<le> log_room s3"
    by (rule log_write_step [OF 2(1), of n b])
      (use assms(2-4) 1(2) 2(5) in \<open>simp_all add: f1 f2 log_room_bframe [OF 1(6)] log_room_bframe [OF 2(3)]\<close>)
  note f3 = lframe_log [OF 3(6)]
  obtain t where t: "brelse b s3 = Inr t" "log_inv {} t" "\<And>m. blk ?d m t = blk ?d m s3" "bframe s3 t" "wrote [] s3 t" "logged t = logged s3"
    by (rule log_brelse_step [OF 3(2), of n b]) (use 1(2) 2(5) 3(3,8) in \<open>auto simp: f1 f2 f3\<close>)
  show thesis
  proof (rule that [of t])
    show "log_update n f s = Inr t" using 1(1,3) 3(1) t(1) by (simp add: log_update_def)
    show "lframe s t"
      using lframe_bframe [OF 1(6)] lframe_bframe [OF 2(3)] 3(6) lframe_bframe [OF t(4)] by (blast intro: lframe_trans)
    show "wrote [] s t" using 1(7) 2(4) 3(7) t(5) by (blast intro: wrote_chain)
    show "log_room s - 1 \<le> log_room t"
      using 3(9) by (simp add: log_room_bframe [OF 1(6)] log_room_bframe [OF 2(3)] log_room_bframe [OF t(4)])
  qed (use t(2) in \<open>simp_all add: log_ok_def t(6) 2(6) 1(8) 3(4) t(3) 3(5) 2(2) 1(5)\<close>)
qed

text \<open>
  The last \<^verbatim>\<open>end_op\<close> of a transaction commits it; one that is not the last only gives its reservation back.
\<close>

lemma log_ok_upd [simp]:
  "log_ok (s\<lparr>outstanding := x\<rparr>) = log_ok s" "log_ok (s\<lparr>committing := c\<rparr>) = log_ok s"
  by (simp_all add: log_ok_def log_inv_def logged_def)

lemma commit_writes_upd [simp]:
  "commit_writes (s\<lparr>outstanding := x\<rparr>) = commit_writes s" "commit_writes (s\<lparr>committing := c\<rparr>) = commit_writes s"
  by (simp_all add: commit_writes_def log_copies_def installs_def new_head_def)

lemma log_ok_held: "log_ok s \<Longrightarrow> held s = {}"
  by (simp add: log_ok_def log_inv_def bc_def)

definition wake_log :: "'a log_scheme \<Rightarrow> 'a log_scheme" where
  "wake_log s = s\<lparr>proc := woken ChLog (proc s)\<rparr>"

lemma end_op_last:
  assumes "log_ok s" "outstanding s = 1" "\<not> committing s"
    "commit (s\<lparr>outstanding := 0, committing := True\<rparr>) = Inr t" "held t = {}"
  shows "end_op s = Inr (wake_log (t\<lparr>committing := False\<rparr>))"
  using assms log_ok_held [OF assms(1)]
  by (simp add: end_op_def lock_defs held_id Let_def wakeup_eq wake_log_def)

lemma wake_log_simps [simp]:
  "bc d pin ls (wake_log s) = bc d pin ls s" "blk d m (wake_log s) = blk d m s" "logged (wake_log s) = logged s"
  "disk (wake_log s) = disk s" "dwrites (wake_log s) = dwrites s" "lh_n (wake_log s) = lh_n s" "lh_block (wake_log s) = lh_block s"
  "log_dev (wake_log s) = log_dev s" "log_start (wake_log s) = log_start s" "log_size (wake_log s) = log_size s"
  "outstanding (wake_log s) = outstanding s" "committing (wake_log s) = committing s" "held (wake_log s) = held s"
  by (simp_all add: wake_log_def bc_def blk_def cached_def holds_def bc_buf_def myproc_def logged_def split: option.split)

lemma log_ok_wake [simp]: "log_ok (wake_log s) = log_ok s"
  by (simp add: log_ok_def log_inv_def)

lemma commit_disk:
  assumes "log_ok s" "m \<notin> log_area (log_start s)"
  shows "apply_writes (commit_writes s) (disk s) m = blk (log_dev s) m s"
proof (cases "lh_n s = 0")
  case True
  then show ?thesis using log_ok_disk(2) [OF assms(1), of m] by (simp add: commit_writes_def logged_def)
next
  case False
  have "m \<noteq> log_start s" using assms(2) start_area by metis
  moreover have "apply_writes (commit_writes s) (disk s) =
      apply_writes (installs s @ [(log_start s, head_bytes 0 (lh_block s) (new_head s))]) (logged_disk s)"
    using False by (simp add: commit_writes_def logged_disk_def)
  ultimately show ?thesis
    using log_ok_disk(2) [OF assms(1), of m] logged_disk(3) [OF assms]
    by (simp add: disk_installs [OF assms(1)])
qed

lemma end_op_step:
  assumes "log_ok s" "outstanding s = 1" "\<not> committing s"
  obtains t where "end_op s = Inr t" "log_ok t" "lh_n t = 0" "outstanding t = 0" "\<not> committing t"
    "dwrites t = dwrites s @ commit_writes s"
    "\<And>m. m \<notin> log_area (log_start s) \<Longrightarrow> disk t m = blk (log_dev s) m s \<and> blk (log_dev s) m t = blk (log_dev s) m s"
    "log_dev t = log_dev s" "log_start t = log_start s" "log_size t = log_size s"
proof -
  let ?s = "s\<lparr>outstanding := 0, committing := True\<rparr>"
  have ok: "log_ok ?s" using assms(1) by simp
  obtain t where t: "commit ?s = Inr t" "wrote (commit_writes s) ?s t" "log_ok t" "lh_n t = 0" "bframe (?s\<lparr>lh_n := 0\<rparr>) t"
    using commit_step [OF ok] by (metis commit_writes_upd)
  note f = bframe_log [OF t(5)]
  have home: "disk t m = blk (log_dev s) m s \<and> blk (log_dev s) m t = blk (log_dev s) m s" if "m \<notin> log_area (log_start s)" for m
  proof -
    have "disk t m = blk (log_dev s) m s" using t(2) commit_disk [OF assms(1) that] by (simp add: wrote_def)
    moreover have "blk (log_dev t) m t = disk t m" using log_ok_disk(2) [OF t(3)] t(4) by (simp add: logged_def)
    ultimately show ?thesis using f by simp
  qed
  have "end_op s = Inr (wake_log (t\<lparr>committing := False\<rparr>))"
    using assms t(1) log_ok_held [OF t(3)] by (rule end_op_last)
  then show thesis
    by (rule that) (use t home f in \<open>simp_all add: wrote_def\<close>)
qed

text \<open>The contract of a transactional store: what is stored is seen at once and becomes durable at the end, all together.\<close>

locale tx_store =
  fixes inv :: "nat \<Rightarrow> 's \<Rightarrow> bool"
    and view :: "'s \<Rightarrow> u32 \<Rightarrow> u8 list"
    and durable :: "'s \<Rightarrow> u32 \<Rightarrow> u8 list"
    and store :: "u32 \<Rightarrow> u8 list \<Rightarrow> 's \<Rightarrow> 's res"
    and finish :: "'s \<Rightarrow> 's res"
    and home :: "u32 set"
  assumes store_ok: "inv (Suc r) s \<Longrightarrow> n \<in> home \<Longrightarrow> length x = BSIZE \<Longrightarrow>
      \<exists>t. store n x s = Inr t \<and> inv r t \<and> (\<forall>m\<in>home. view t m = ((view s)(n := x)) m \<and> durable t m = durable s m)"
    and finish_ok: "inv r s \<Longrightarrow> \<exists>t. finish s = Inr t \<and> (\<forall>m\<in>home. durable t m = view s m \<and> view t m = view s m)"
begin

lemma store_all:
  assumes "inv (length W) s" "\<forall>(n, x)\<in>set W. n \<in> home \<and> length x = BSIZE"
  shows "\<exists>t. foldE (\<lambda>(n, x). store n x) W s = Inr t \<and> inv 0 t \<and>
    (\<forall>m\<in>home. view t m = apply_writes W (view s) m \<and> durable t m = durable s m)"
  using assms
proof (induction W arbitrary: s)
  case (Cons w W)
  obtain n x where w: "w = (n, x)" by (cases w)
  from Cons.prems obtain t where t: "store n x s = Inr t" "inv (length W) t"
    "\<forall>m\<in>home. view t m = ((view s)(n := x)) m \<and> durable t m = durable s m"
    using store_ok [of "length W" s n x] by (auto simp: w)
  from Cons.IH [OF t(2)] Cons.prems(2) obtain u where u: "foldE (\<lambda>(n, x). store n x) W t = Inr u" "inv 0 u"
    "\<forall>m\<in>home. view u m = apply_writes W (view t) m \<and> durable u m = durable t m"
    by (auto simp: w)
  have "apply_writes W (view t) m = apply_writes W ((view s)(n := x)) m" if "m \<in> home" for m
    using t(3) that by (cases "m \<in> fst ` set W") (auto simp: apply_writes_other intro: apply_writes_mem)
  with t u show ?case by (simp add: w)
qed simp

lemma atomic:
  assumes "inv (length W) s" "\<forall>(n, x)\<in>set W. n \<in> home \<and> length x = BSIZE"
  shows "\<exists>t u. foldE (\<lambda>(n, x). store n x) W s = Inr t \<and> finish t = Inr u \<and>
    (\<forall>m\<in>home. durable t m = durable s m \<and> durable u m = apply_writes W (view s) m)"
proof -
  from store_all [OF assms] obtain t where t: "foldE (\<lambda>(n, x). store n x) W s = Inr t" "inv 0 t"
    "\<forall>m\<in>home. view t m = apply_writes W (view s) m \<and> durable t m = durable s m" by blast
  with finish_ok [OF t(2)] show ?thesis by auto
qed

end

definition in_tx :: "u32 \<Rightarrow> u32 \<Rightarrow> nat \<Rightarrow> 'a log_scheme \<Rightarrow> bool" where
  "in_tx d st r s \<longleftrightarrow> log_ok s \<and> log_dev s = d \<and> log_start s = st \<and> outstanding s = 1 \<and> \<not> committing s \<and>
     int r \<le> log_room s"

interpretation log_tx: tx_store "in_tx d st" "\<lambda>s m. blk d m s" disk "\<lambda>n x. log_update n (\<lambda>_. x)" end_op "- log_area st"
proof unfold_locales
  fix r n and x :: "u8 list" and s :: "'a log_scheme"
  assume a: "in_tx d st (Suc r) s" "n \<in> - log_area st" "length x = BSIZE"
  obtain t where "log_update n (\<lambda>_. x) s = Inr t" "log_ok t" "lframe s t" "wrote [] s t" "log_room s - 1 \<le> log_room t"
    "\<And>m. blk (log_dev s) m t = (if m = n then x else blk (log_dev s) m s)"
    by (rule log_update_step [of s n "\<lambda>_. x"]) (use a in \<open>auto simp: in_tx_def\<close>)
  with a show "\<exists>t. log_update n (\<lambda>_. x) s = Inr t \<and> in_tx d st r t \<and>
    (\<forall>m\<in>- log_area st. blk d m t = ((\<lambda>m. blk d m s)(n := x)) m \<and> disk t m = disk s m)"
    by (intro exI [of _ t]) (simp add: in_tx_def lframe_log wrote_def)
next
  fix r and s :: "'a log_scheme"
  assume "in_tx d st r s"
  then show "\<exists>t. end_op s = Inr t \<and> (\<forall>m\<in>- log_area st. disk t m = blk d m s \<and> blk d m t = blk d m s)"
    by (auto simp: in_tx_def elim: end_op_step)
qed

subsection \<open>Properties\<close>

text \<open>
  C2. The log is a transactional store. Inside a system call, updates through \<^verbatim>\<open>bread\<close>,
  \<^verbatim>\<open>log_write\<close> and \<^verbatim>\<open>brelse\<close> of as many blocks as there is room for succeed and leave
  every home block on the disk as it was; the \<^verbatim>\<open>end_op\<close> of the last system call then makes all of them
  durable, the last update of a block winning.
\<close>

theorem transaction_atomic:
  assumes "log_ok s" "outstanding s = 1" "\<not> committing s" "int (length W) \<le> log_room s"
    "\<forall>(n, x)\<in>set W. n \<notin> log_area (log_start s) \<and> length x = BSIZE"
  shows "\<exists>t u. foldE (\<lambda>(n, x). log_update n (\<lambda>_. x)) W s = Inr t \<and> end_op t = Inr u \<and>
    (\<forall>m. m \<notin> log_area (log_start s) \<longrightarrow>
      disk t m = disk s m \<and> disk u m = apply_writes W (\<lambda>m. blk (log_dev s) m s) m)"
proof -
  have "in_tx (log_dev s) (log_start s) (length W) s" using assms(1-4) by (simp add: in_tx_def)
  from log_tx.atomic [OF this, unfolded Compl_iff Ball_def] assms(5) show ?thesis by (simp add: Ball_def)
qed

theorem transaction_atomic_witness:
  "\<exists>t u. foldE (\<lambda>(n, x). log_update n (\<lambda>_. x)) [(45, replicate 1024 1), (46, replicate 1024 2)] log_sample = Inr t \<and>
     end_op t = Inr u \<and> disk t 45 = replicate 1024 0 \<and> disk u 45 = replicate 1024 1 \<and> disk u 40 = replicate 1024 7"
proof -
  have home: "45 \<notin> log_area 2" "46 \<notin> log_area 2" "(40 :: u32) \<notin> log_area 2"
    by (auto simp: log_area_def LOGSIZE_def lessThan_nat_numeral lessThan_Suc)
  have c: "\<not> committing log_sample" by (simp add: sample_defs)
  have "\<exists>t u. foldE (\<lambda>(n, x). log_update n (\<lambda>_. x)) [(45, replicate 1024 1), (46, replicate 1024 2)] log_sample = Inr t \<and>
    end_op t = Inr u \<and> (\<forall>m. m \<notin> log_area (log_start log_sample) \<longrightarrow> disk t m = disk log_sample m \<and>
      disk u m = apply_writes [(45, replicate 1024 1), (46, replicate 1024 2)] (\<lambda>m. blk (log_dev log_sample) m log_sample) m)"
    by (rule transaction_atomic [OF log_sample_ok])
      (simp_all add: log_sample_fields log_room_def LOGSIZE_def BSIZE_def home c)
  then show ?thesis
    using home log_sample_blk by (auto simp: log_sample_fields)
qed

lemma of_nat_eq32: "i < 2 ^ 32 \<Longrightarrow> j < 2 ^ 32 \<Longrightarrow> (of_nat i :: u32) = of_nat j \<longleftrightarrow> i = j"
proof
  assume le: "i < 2 ^ 32" "j < 2 ^ 32" and eq: "(of_nat i :: u32) = of_nat j"
  have "i = unat (of_nat i :: u32)" "j = unat (of_nat j :: u32)" using le by (simp_all add: unat_of_nat_small)
  with eq show "i = j" by simp
qed simp

lemma begin_op_eq:
  assumes "held s = {}" "\<not> committing s" "lh_n s + (outstanding s + 1) * MAXOPBLOCKS \<le> int LOGSIZE"
  shows "begin_op s = Inr (s\<lparr>outstanding := outstanding s + 1\<rparr>)"
  using assms by (simp add: begin_op_def lock_defs held_id)

lemma log_updates:
  assumes "log_ok s" "1 \<le> outstanding s" "log_size s = int LOGSIZE" "distinct ns" "set ns \<inter> set (logged s) = {}"
    "set ns \<inter> log_area (log_start s) = {}" "lh_n s + int (length ns) < int LOGSIZE" "length x = BSIZE"
  shows "\<exists>t. foldE (\<lambda>n. log_update n (\<lambda>_. x)) ns s = Inr t \<and> log_ok t \<and> lframe s t \<and>
    lh_n t = lh_n s + int (length ns)"
  using assms
proof (induction ns arbitrary: s)
  case (Cons n ns)
  have room: "0 < log_room s" using Cons.prems(3,7) by (simp add: log_room_def)
  obtain t where t: "log_update n (\<lambda>_. x) s = Inr t" "log_ok t" "lframe s t" "set (logged t) = insert n (set (logged s))"
    by (rule log_update_step [OF Cons.prems(1) _ Cons.prems(2) room, of n "\<lambda>_. x"]) (use Cons.prems(6,8) in auto)
  note f = lframe_log [OF t(3)]
  have count: "lh_n u = int (card (set (logged u)))" if "log_ok u" for u :: "'a log_scheme"
  proof -
    have "distinct (logged u)" "0 \<le> lh_n u" using that by (simp_all add: log_ok_def log_inv_def)
    then show ?thesis using log_ok_card(2) [OF that] by (simp add: distinct_card)
  qed
  have n: "lh_n t = lh_n s + 1"
    using count [OF t(2)] count [OF Cons.prems(1)] t(4) Cons.prems(5) by simp
  have "\<exists>u. foldE (\<lambda>n. log_update n (\<lambda>_. x)) ns t = Inr u \<and> log_ok u \<and> lframe t u \<and> lh_n u = lh_n t + int (length ns)"
    by (rule Cons.IH) (use t Cons.prems in \<open>auto simp: f n\<close>)
  then show ?case using t n by (auto intro: lframe_trans)
qed simp

text \<open>
  C37. The reservation of \<^verbatim>\<open>begin_op\<close> is one block larger than the log. With the log of thirty blocks that
  \<^verbatim>\<open>mkfs\<close> makes, \<^verbatim>\<open>begin_op\<close> admits three system calls and so reserves thirty blocks for them;
  twenty-nine updates succeed, and the thirtieth panics, because the header takes one of the thirty blocks.
\<close>

theorem reservation_overflow:
  assumes "log_ok s" "lh_n s = 0" "outstanding s = 0" "\<not> committing s" "log_size s = int LOGSIZE"
    "distinct ns" "length ns = 30" "set ns \<inter> log_area (log_start s) = {}" "length x = BSIZE"
  shows "\<exists>t u. foldE (\<lambda>_. begin_op) [0..<3] s = Inr t \<and> outstanding t * MAXOPBLOCKS = 30 \<and>
    foldE (\<lambda>n. log_update n (\<lambda>_. x)) (take 29 ns) t = Inr u \<and>
    log_update (ns ! 29) (\<lambda>_. x) u = Inl (Panic ''too big a transaction'')"
proof -
  let ?t = "s\<lparr>outstanding := 3\<rparr>"
  have b: "foldE (\<lambda>_. begin_op) [0..<3] s = Inr ?t"
    using assms(2-4) log_ok_held [OF assms(1)]
    by (simp add: begin_op_eq upt_rec numeral_3_eq_3 MAXOPBLOCKS_def LOGSIZE_def)
  have "\<exists>u. foldE (\<lambda>n. log_update n (\<lambda>_. x)) (take 29 ns) ?t = Inr u \<and> log_ok u \<and> lframe ?t u \<and>
      lh_n u = lh_n ?t + int (length (take 29 ns))"
    by (rule log_updates) (use assms in \<open>auto simp: logged_def LOGSIZE_def dest: in_set_takeD\<close>)
  then obtain u where u: "foldE (\<lambda>n. log_update n (\<lambda>_. x)) (take 29 ns) ?t = Inr u" "log_ok u" "lframe ?t u" "lh_n u = 29"
    using assms(2,7) by auto
  note f = lframe_log [OF u(3)]
  have inv: "log_inv {} u" using u(2) by (simp add: log_ok_def)
  obtain b v where v: "bread (log_dev u) (ns ! 29) u = Inr (b, v)" "bframe u v"
    by (rule log_bread_step [OF inv, of "ns ! 29"]) (use log_ok_card(1) [OF u(2)] in auto)
  then have "log_update (ns ! 29) (\<lambda>_. x) u = Inl (Panic ''too big a transaction'')"
    using u(4) bframe_log [OF v(2)] f assms(5)
    by (simp add: log_update_def log_write_def set_data_def upd_buf_def LOGSIZE_def)
  with b u(1) show ?thesis by (auto simp: MAXOPBLOCKS_def)
qed

theorem reservation_overflow_witness:
  "\<exists>t u. foldE (\<lambda>_. begin_op) [0..<3] (boot_sample (\<lambda>_. replicate 1024 0)) = Inr t \<and> outstanding t * MAXOPBLOCKS = 30 \<and>
    foldE (\<lambda>n. log_update n (\<lambda>_. replicate 1024 1)) (take 29 (map of_nat [40..<70])) t = Inr u \<and>
    log_update (map of_nat [40..<70] ! 29) (\<lambda>_. replicate 1024 1) u = Inl (Panic ''too big a transaction'')"
proof (rule reservation_overflow)
  have bc: "bc 1 (\<lambda>_. 0) {} (boot_sample (\<lambda>_. replicate 1024 0))" by (rule boot_sample_bc) simp
  have p: "pins {} = (\<lambda>_. 0)" by (simp add: pins_def fun_eq_iff)
  have boot: "log_dev (boot_sample D) = 1" "lh_n (boot_sample D) = 0" "logged (boot_sample D) = []" "log_size (boot_sample D) = 30"
    "lh_block (boot_sample D) = replicate 30 0" "log_start (boot_sample D) = 2" "disk (boot_sample D) = D" for D
    by (simp_all add: sample_defs logged_def)
  have [simp]: "of_le (replicate 4 0) = 0" using of_le_zeros [of "replicate 4 ()"] by simp
  show "log_ok (boot_sample (\<lambda>_. replicate 1024 0))"
    using bc by (simp add: log_ok_def log_inv_def boot p LOGSIZE_def get32_def)
  have "inj_on (of_nat :: nat \<Rightarrow> u32) {40..<70}" by (rule inj_onI) (simp add: of_nat_eq32)
  then show "distinct (map (of_nat :: nat \<Rightarrow> u32) [40..<70])" by (simp add: distinct_map)
  show "set (map of_nat [40..<70]) \<inter> log_area (log_start (boot_sample (\<lambda>_. replicate 1024 0))) = {}"
  proof -
    have "(of_nat j :: u32) \<noteq> 2 + of_nat i" if "40 \<le> j" "j < 70" "i < 30" for i j
      using that of_nat_eq32 [of j "2 + i"] by simp
    then show ?thesis unfolding boot log_area_def LOGSIZE_def set_map set_upt by auto
  qed
qed (simp_all add: sample_defs LOGSIZE_def BSIZE_def)

text \<open>
  C38. Recovery drops a reference that nothing holds. \<^verbatim>\<open>install_trans\<close> unpins every home block, which in a
  commit gives back the pin of \<^verbatim>\<open>log_write\<close>; after a restart there is no such pin. The reference count of the
  buffer of every recovered block is then the largest 32-bit number, so that the buffer is never free again, and the next
  \<^verbatim>\<open>bread\<close> of the block brings it to zero while the caller holds the buffer, which makes the buffer a candidate for
  being recycled.
\<close>

theorem recovery_underflows:
  assumes "bc d (\<lambda>_. 0) {} r" "log_disk st (disk r)" "length (lh_block r) = LOGSIZE" "w \<in> set (hdr_blocks st (disk r))"
  shows "\<exists>u b t. initlog d st nlog r = Inr u \<and> holds d w b u \<and> refcnt (bufs u b) = 2 ^ 32 - 1 \<and>
    bread d w u = Inr (b, t) \<and> owns b t \<and> refcnt (bufs t b) = 0"
proof -
  let ?p = "unpin (\<lambda>_. 0) (set (hdr_blocks st (disk r)))"
  obtain u where u: "initlog d st nlog r = Inr u" "bc d ?p {} u"
    by (rule initlog_step [of d r st nlog]) (use assms(1-3) in \<open>auto simp: boots_def\<close>)
  have p: "?p w = - 1" using assms(4) by (simp add: unpin_def)
  then obtain b where b: "holds d w b u" using u(2) unfolding bc_def by force
  then have b': "b < NBUF" "dev (bufs u b) = d" "blockno (bufs u b) = w" by (simp_all add: holds_def)
  note e = bc_bufE [OF bc_bufD [OF u(2) b'(1)] b'(2,3)]
  have ref: "refcnt (bufs u b) = - 1" using e(1) p by simp
  have c: "cached d w u = Some b" using b by (simp add: bc_cached [OF u(2)])
  have "bread d w u = Inr (b, bread_state d w b u)"
    using u(2) e(2) c by (intro bread_eq) (simp_all add: bc_def bget_buf_def)
  moreover have "refcnt (bufs (bread_state d w b u) b) = 0" using ref c by (simp add: bufs_bread_state)
  moreover have "owns b (bread_state d w b u)" by (simp add: owns_def slock_bread_state myproc_def)
  ultimately show ?thesis using u(1) b ref by auto
qed

theorem recovery_underflows_witness:
  "\<exists>u b t. initlog 1 2 30 (boot_sample ((\<lambda>_. replicate 1024 0)(2 := head_bytes 1 [40] (replicate 1024 0)))) = Inr u \<and>
     holds 1 40 b u \<and> refcnt (bufs u b) = 2 ^ 32 - 1 \<and> bread 1 40 u = Inr (b, t) \<and> owns b t \<and> refcnt (bufs t b) = 0"
proof (rule recovery_underflows)
  let ?H = "head_bytes 1 [40] (replicate 1024 0)"
  let ?D = "(\<lambda>_. replicate 1024 0)(2 := ?H)"
  have h: "length ?H = 1024" "get32 ?H 0 = 1" "get32 ?H 4 = 40"
    using head_bytes_get(1,2) [of "replicate 1024 0" 1, where ws = "[40]"]
      head_bytes_get(3) [of "replicate 1024 0" 1, where ws = "[40]" and i = 0]
    by (simp_all add: BSIZE_def LOGSIZE_def)
  have D: "disk (boot_sample ?D) = ?D" by (simp add: sample_defs)
  show "bc 1 (\<lambda>_. 0) {} (boot_sample ?D)" by (rule boot_sample_bc) (simp add: h)
  have n: "hdr_n 2 ?D = 1" "hdr_blocks 2 ?D = [40]" by (simp_all add: hdr_n_def hdr_blocks_def h)
  show "log_disk 2 (disk (boot_sample ?D))" using of_nat_area
    unfolding D by (simp add: log_disk_def n h BSIZE_def LOGSIZE_def)
  show "40 \<in> set (hdr_blocks 2 (disk (boot_sample ?D)))" unfolding D by (simp add: n)
qed (simp add: sample_defs LOGSIZE_def)

end
