(* ===== verification/Sched.thy ===== *)
theory Sched
  imports Proc
begin

text \<open>
  The scheduler of \<^verbatim>\<open>kernel/proc.c\<close> on several CPUs. The state has the run state and the lock of every
  process, and for every CPU where it is in the loop of \<^verbatim>\<open>scheduler\<close>, the process it runs, and its flag
  \<^verbatim>\<open>found\<close>. One step of a CPU acquires or releases a process lock, changes a run state, or switches between
  the scheduler and a process. A kernel thread is any program that keeps the rules of \<^verbatim>\<open>proc.c\<close>: it changes
  the run state of a process only while it holds its lock, its own only from \<open>RUNNING\<close> (\<^verbatim>\<open>yield\<close>,
  \<^verbatim>\<open>sleep\<close>, \<^verbatim>\<open>exit\<close>), that of another one only as \<^verbatim>\<open>wakeup\<close>,
  \<^verbatim>\<open>kill\<close>, \<^verbatim>\<open>fork\<close> and \<^verbatim>\<open>wait\<close> do, and it enters the scheduler as
  \<^verbatim>\<open>sched\<close> checks: holding the lock of its process and no other one.
\<close>

subsection \<open>The machine\<close>

datatype sched_pc =
    AtLock nat
  | Locked nat
  | Running nat
  | AtUnlock nat
  | PassEnd
  | Wfi
  | Handler nat nat

record sched_state =
  pst :: "nat \<Rightarrow> procstate"
  plk :: "nat \<Rightarrow> nat option"
  spc :: "nat \<Rightarrow> sched_pc"
  curp :: "nat \<Rightarrow> nat option"
  found :: "nat \<Rightarrow> bool"

definition at_pc :: "nat \<Rightarrow> sched_pc \<Rightarrow> sched_state \<Rightarrow> sched_state" where
  "at_pc c pc s = s\<lparr>spc := (spc s)(c := pc)\<rparr>"

definition lock_p :: "nat \<Rightarrow> nat option \<Rightarrow> sched_state \<Rightarrow> sched_state" where
  "lock_p p h s = s\<lparr>plk := (plk s)(p := h)\<rparr>"

definition set_pst :: "nat \<Rightarrow> procstate \<Rightarrow> sched_state \<Rightarrow> sched_state" where
  "set_pst p st s = s\<lparr>pst := (pst s)(p := st)\<rparr>"

definition set_curp :: "nat \<Rightarrow> nat option \<Rightarrow> sched_state \<Rightarrow> sched_state" where
  "set_curp c h s = s\<lparr>curp := (curp s)(c := h)\<rparr>"

definition set_found :: "nat \<Rightarrow> bool \<Rightarrow> sched_state \<Rightarrow> sched_state" where
  "set_found c b s = s\<lparr>found := (found s)(c := b)\<rparr>"

definition next_proc :: "nat \<Rightarrow> sched_pc" where
  "next_proc p = (if Suc p < NPROC then AtLock (Suc p) else PassEnd)"

inductive scheduler :: "sched_state \<Rightarrow> nat \<Rightarrow> sched_state \<Rightarrow> bool" where
  lock: "spc s c = AtLock p \<Longrightarrow> plk s p = None \<Longrightarrow> scheduler s c (at_pc c (Locked p) (lock_p p (Some c) s))"
| run: "spc s c = Locked p \<Longrightarrow> pst s p = RUNNABLE \<Longrightarrow>
    scheduler s c (at_pc c (Running p) (set_curp c (Some p) (set_pst p RUNNING s)))"
| skip: "spc s c = Locked p \<Longrightarrow> pst s p \<noteq> RUNNABLE \<Longrightarrow> scheduler s c (at_pc c (AtUnlock p) s)"
| unlock: "spc s c = AtUnlock p \<Longrightarrow> scheduler s c (at_pc c (next_proc p) (lock_p p None s))"
| again: "spc s c = PassEnd \<Longrightarrow> found s c \<Longrightarrow> scheduler s c (at_pc c (AtLock 0) (set_found c False s))"
| idle: "spc s c = PassEnd \<Longrightarrow> \<not> found s c \<Longrightarrow> scheduler s c (at_pc c Wfi s)"
| wake: "spc s c = Wfi \<Longrightarrow> scheduler s c (at_pc c (AtLock 0) (set_found c False s))"

inductive thread_step :: "sched_state \<Rightarrow> nat \<Rightarrow> sched_state \<Rightarrow> bool" where
  t_lock: "spc s c = Running p \<Longrightarrow> plk s q = None \<Longrightarrow> q < NPROC \<Longrightarrow> thread_step s c (lock_p q (Some c) s)"
| t_unlock: "spc s c = Running p \<Longrightarrow> plk s q = Some c \<Longrightarrow> (q = p \<Longrightarrow> pst s p = RUNNING) \<Longrightarrow>
    thread_step s c (lock_p q None s)"
| t_self: "spc s c = Running p \<Longrightarrow> plk s p = Some c \<Longrightarrow> pst s p = RUNNING \<Longrightarrow> st \<in> {RUNNABLE, SLEEPING, ZOMBIE} \<Longrightarrow>
    thread_step s c (set_pst p st s)"
| t_other: "spc s c = Running p \<Longrightarrow> plk s q = Some c \<Longrightarrow> q \<noteq> p \<Longrightarrow>
    (pst s q, st) \<in> {(SLEEPING, RUNNABLE), (UNUSED, RUNNABLE), (ZOMBIE, UNUSED)} \<Longrightarrow> thread_step s c (set_pst q st s)"
| t_sched: "spc s c = Running p \<Longrightarrow> plk s p = Some c \<Longrightarrow> pst s p \<noteq> RUNNING \<Longrightarrow>
    {q. plk s q = Some c} = {p} \<Longrightarrow>
    thread_step s c (at_pc c (AtUnlock p) (set_found c True (set_curp c None s)))"
| h_lock: "spc s c = AtLock p \<Longrightarrow> plk s q = None \<Longrightarrow> q < NPROC \<Longrightarrow> thread_step s c (at_pc c (Handler p q) (lock_p q (Some c) s))"
| h_wakeup: "spc s c = Handler p q \<Longrightarrow> pst s q = SLEEPING \<Longrightarrow> thread_step s c (set_pst q RUNNABLE s)"
| h_unlock: "spc s c = Handler p q \<Longrightarrow> thread_step s c (at_pc c (AtLock p) (lock_p q None s))"

definition smp_step :: "sched_state \<Rightarrow> nat \<Rightarrow> sched_state \<Rightarrow> bool" where
  "smp_step s c t \<longleftrightarrow> scheduler s c t \<or> thread_step s c t"

definition smp_init :: "sched_state \<Rightarrow> bool" where
  "smp_init s \<longleftrightarrow> (\<forall>p. plk s p = None \<and> pst s p \<noteq> RUNNING) \<and> (\<forall>c. spc s c = AtLock 0 \<and> curp s c = None)"

inductive smp_reachable :: "sched_state \<Rightarrow> bool" where
  init: "smp_init s \<Longrightarrow> smp_reachable s"
| step: "smp_reachable s \<Longrightarrow> smp_step s c t \<Longrightarrow> smp_reachable t"

lemmas smp_upd = at_pc_def lock_p_def set_pst_def set_curp_def set_found_def next_proc_def

subsection \<open>Invariant\<close>

text \<open>
  What a CPU relies on at each point, where \<open>on p\<close> is the CPU that process \<open>p\<close> is on.
\<close>

definition cpu_ok :: "sched_state \<Rightarrow> (nat \<Rightarrow> nat option) \<Rightarrow> nat \<Rightarrow> bool" where
  "cpu_ok s on c = (case spc s c of
       Locked p \<Rightarrow> curp s c = None \<and> plk s p = Some c
     | AtUnlock p \<Rightarrow> curp s c = None \<and> plk s p = Some c
     | Handler p q \<Rightarrow> curp s c = None \<and> plk s q = Some c
     | Running p \<Rightarrow> curp s c = Some p \<and> on p = Some c \<and> (pst s p = RUNNING \<or> plk s p = Some c)
     | _ \<Rightarrow> curp s c = None)"

definition proc_ok :: "sched_state \<Rightarrow> (nat \<Rightarrow> nat option) \<Rightarrow> nat \<Rightarrow> bool" where
  "proc_ok s on p = (case on p of None \<Rightarrow> pst s p \<noteq> RUNNING | Some c \<Rightarrow> spc s c = Running p)"

definition smp_inv :: "sched_state \<Rightarrow> (nat \<Rightarrow> nat option) \<Rightarrow> bool" where
  "smp_inv s on \<longleftrightarrow> (\<forall>c. cpu_ok s on c) \<and> (\<forall>p. proc_ok s on p)"

lemma smp_inv_update:
  assumes "smp_inv s on" "cpu_ok t on' c" "proc_ok t on' p"
    "\<And>c'. c' \<noteq> c \<Longrightarrow> cpu_ok s on c' \<Longrightarrow> cpu_ok s on c \<Longrightarrow> proc_ok s on p \<Longrightarrow> cpu_ok t on' c'"
    "\<And>p'. p' \<noteq> p \<Longrightarrow> proc_ok s on p' \<Longrightarrow> cpu_ok s on c \<Longrightarrow> proc_ok t on' p'"
  shows "smp_inv t on'"
  using assms unfolding smp_inv_def by metis

lemma smp_inv_step:
  assumes I: "smp_inv s on" and step: "smp_step s c t"
  shows "\<exists>on'. smp_inv t on'"
proof -
  have ok: "cpu_ok s on c'" "proc_ok s on p" for c' p using I by (simp_all add: smp_inv_def)
  note d = cpu_ok_def proc_ok_def smp_upd
  from step have "scheduler s c t \<or> thread_step s c t" by (simp add: smp_step_def)
  then show ?thesis
  proof
    assume "scheduler s c t"
    then show ?thesis
    proof cases
      case (lock p)
      have "smp_inv t on"
        by (rule smp_inv_update [OF I, where c = c and p = p])
          (use lock ok(1) [of c] ok(2) [of p] in \<open>auto simp: d split: sched_pc.splits option.splits if_splits\<close>)
      then show ?thesis by blast
    next
      case (run p)
      have "smp_inv t (on(p := Some c))"
        by (rule smp_inv_update [OF I, where c = c and p = p])
          (use run ok(1) [of c] ok(2) [of p] in \<open>auto simp: d split: sched_pc.splits option.splits if_splits\<close>)
      then show ?thesis by blast
    next
      case (skip p)
      have "smp_inv t on"
        by (rule smp_inv_update [OF I, where c = c and p = p])
          (use skip ok(1) [of c] ok(2) [of p] in \<open>auto simp: d split: sched_pc.splits option.splits if_splits\<close>)
      then show ?thesis by blast
    next
      case (unlock p)
      have "smp_inv t on"
        by (rule smp_inv_update [OF I, where c = c and p = p])
          (use unlock ok(1) [of c] ok(2) [of p] in \<open>auto simp: d split: sched_pc.splits option.splits if_splits\<close>)
      then show ?thesis by blast
    next
      case again
      have "smp_inv t on"
        by (rule smp_inv_update [OF I, where c = c and p = 0])
          (use again ok(1) [of c] ok(2) [of 0] in \<open>auto simp: d split: sched_pc.splits option.splits if_splits\<close>)
      then show ?thesis by blast
    next
      case idle
      have "smp_inv t on"
        by (rule smp_inv_update [OF I, where c = c and p = 0])
          (use idle ok(1) [of c] ok(2) [of 0] in \<open>auto simp: d split: sched_pc.splits option.splits if_splits\<close>)
      then show ?thesis by blast
    next
      case wake
      have "smp_inv t on"
        by (rule smp_inv_update [OF I, where c = c and p = 0])
          (use wake ok(1) [of c] ok(2) [of 0] in \<open>auto simp: d split: sched_pc.splits option.splits if_splits\<close>)
      then show ?thesis by blast
    qed
  next
    assume "thread_step s c t"
    then show ?thesis
    proof cases
      case (t_lock p q)
      have "smp_inv t on"
        by (rule smp_inv_update [OF I, where c = c and p = q])
          (use t_lock ok(1) [of c] ok(2) [of q] in \<open>auto simp: d split: sched_pc.splits option.splits if_splits\<close>)
      then show ?thesis by blast
    next
      case (t_unlock p q)
      have "smp_inv t on"
        by (rule smp_inv_update [OF I, where c = c and p = q])
          (use t_unlock ok(1) [of c] ok(2) [of q] in \<open>auto simp: d split: sched_pc.splits option.splits if_splits\<close>)
      then show ?thesis by blast
    next
      case (t_self p st)
      have "smp_inv t on"
        by (rule smp_inv_update [OF I, where c = c and p = p])
          (use t_self ok(1) [of c] ok(2) [of p] in \<open>auto simp: d split: sched_pc.splits option.splits if_splits\<close>)
      then show ?thesis by blast
    next
      case (t_other p q st)
      have "smp_inv t on"
        by (rule smp_inv_update [OF I, where c = c and p = q])
          (use t_other ok(1) [of c] ok(2) [of q] in \<open>auto simp: d split: sched_pc.splits option.splits if_splits\<close>)
      then show ?thesis by blast
    next
      case (t_sched p)
      have "smp_inv t (on(p := None))"
        by (rule smp_inv_update [OF I, where c = c and p = p])
          (use t_sched(1-4) ok(1) [of c] ok(2) [of p] in \<open>auto simp: d split: sched_pc.splits option.splits if_splits\<close>)
      then show ?thesis by blast
    next
      case (h_lock p q)
      have "smp_inv t on"
        by (rule smp_inv_update [OF I, where c = c and p = q])
          (use h_lock ok(1) [of c] ok(2) [of q] in \<open>auto simp: d split: sched_pc.splits option.splits if_splits\<close>)
      then show ?thesis by blast
    next
      case (h_wakeup p q)
      have "smp_inv t on"
        by (rule smp_inv_update [OF I, where c = c and p = q])
          (use h_wakeup ok(1) [of c] ok(2) [of q] in \<open>auto simp: d split: sched_pc.splits option.splits if_splits\<close>)
      then show ?thesis by blast
    next
      case (h_unlock p q)
      have "smp_inv t on"
        by (rule smp_inv_update [OF I, where c = c and p = q])
          (use h_unlock ok(1) [of c] ok(2) [of q] in \<open>auto simp: d split: sched_pc.splits option.splits if_splits\<close>)
      then show ?thesis by blast
    qed
  qed
qed

lemma smp_reachable_inv: "smp_reachable s \<Longrightarrow> \<exists>on. smp_inv s on"
proof (induction rule: smp_reachable.induct)
  case (init s)
  then have "smp_inv s (\<lambda>_. None)" by (simp add: smp_inv_def smp_init_def cpu_ok_def proc_ok_def)
  then show ?case by blast
next
  case (step s c t)
  then show ?case using smp_inv_step by blast
qed

lemma running_on:
  assumes "smp_reachable s" "pst s p = RUNNING"
  shows "\<exists>c. curp s c = Some p"
proof -
  obtain on where "smp_inv s on" using smp_reachable_inv [OF assms(1)] by blast
  then have c: "\<And>c. cpu_ok s on c" and p: "proc_ok s on p" by (simp_all add: smp_inv_def)
  from assms(2) p obtain d where "spc s d = Running p" by (auto simp: proc_ok_def split: option.splits)
  then show ?thesis using c [of d] by (auto simp: cpu_ok_def)
qed

subsection \<open>Progress of the scheduler\<close>

text \<open>An execution of the machine.\<close>

definition smp_run :: "(nat \<Rightarrow> sched_state) \<Rightarrow> nat \<Rightarrow> bool" where
  "smp_run f n \<longleftrightarrow> (\<forall>i<n. \<exists>c. smp_step (f i) c (f (Suc i)))"

lemma smp_run_step: "smp_run f n \<Longrightarrow> i < n \<Longrightarrow> \<exists>c. smp_step (f i) c (f (Suc i))"
  by (simp add: smp_run_def)

lemma smp_run_reachable: "smp_reachable (f 0) \<Longrightarrow> smp_run f n \<Longrightarrow> i \<le> n \<Longrightarrow> smp_reachable (f i)"
proof (induction i)
  case (Suc i)
  then have "i < n" by simp
  then show ?case using Suc smp_run_step by (metis Suc_leD smp_reachable.step)
qed simp

text \<open>The process that the loop of a CPU is at exists, and outside a process a CPU holds only the lock it is at.\<close>

definition pc_ok :: "sched_state \<Rightarrow> nat \<Rightarrow> bool" where
  "pc_ok s c = (case spc s c of
       AtLock p \<Rightarrow> p < NPROC \<and> (\<forall>q. plk s q \<noteq> Some c)
     | Locked p \<Rightarrow> p < NPROC \<and> (\<forall>q. plk s q = Some c \<longleftrightarrow> q = p)
     | Running p \<Rightarrow> p < NPROC
     | AtUnlock p \<Rightarrow> p < NPROC \<and> (\<forall>q. plk s q = Some c \<longleftrightarrow> q = p)
     | Handler p q \<Rightarrow> p < NPROC \<and> (\<forall>r. plk s r = Some c \<longleftrightarrow> r = q)
     | _ \<Rightarrow> \<forall>q. plk s q \<noteq> Some c)"

text \<open>A step of a CPU leaves the program counters and the locks of the others alone.\<close>

lemma other_cpu:
  assumes "smp_step s c t" "pc_ok s c" "d \<noteq> c"
  shows "spc t d = spc s d" "plk t q = Some d \<longleftrightarrow> plk s q = Some d"
proof -
  have "spc s c = AtUnlock r \<Longrightarrow> plk s r = Some c" "spc s c = Handler p r \<Longrightarrow> plk s r = Some c" for p r
    using assms(2) by (simp_all add: pc_ok_def)
  then show "spc t d = spc s d" "plk t q = Some d \<longleftrightarrow> plk s q = Some d"
    using assms(1,3) unfolding smp_step_def
    by (auto elim!: scheduler.cases thread_step.cases simp: smp_upd split: if_splits)
qed

lemma own_pc_ok:
  assumes "smp_step s c t" "pc_ok s c"
  shows "pc_ok t c"
  using assms(1) unfolding smp_step_def
proof
  assume "scheduler s c t"
  then show ?thesis using assms(2) by cases (auto simp: pc_ok_def smp_upd NPROC_def)
next
  assume "thread_step s c t"
  then show ?thesis
  proof cases
    case (t_sched p)
    then have "\<forall>q. plk s q = Some c \<longleftrightarrow> q = p" by blast
    then show ?thesis using t_sched(1,2) assms(2) by (simp add: pc_ok_def smp_upd)
  qed (use assms(2) in \<open>auto simp: pc_ok_def smp_upd\<close>)
qed

lemma pc_ok_step:
  assumes "smp_step s c t" "pc_ok s c" "pc_ok s d"
  shows "pc_ok t d"
proof (cases "d = c")
  case True
  then show ?thesis using own_pc_ok [OF assms(1,2)] by simp
next
  case False
  then show ?thesis using other_cpu [OF assms(1,2) False] assms(3)
    by (auto simp: pc_ok_def split: sched_pc.splits)
qed

lemma pc_ok_reachable: "smp_reachable s \<Longrightarrow> pc_ok s c"
proof (induction arbitrary: c rule: smp_reachable.induct)
  case (init s)
  then show ?case by (simp add: smp_init_def pc_ok_def NPROC_def)
next
  case (step s c' t)
  then show ?case using pc_ok_step by blast
qed

text \<open>
  The steps of its own that the loop of a CPU takes, at most, before it has the lock of process \<open>p\<close>: three for every process, and
  two at the end of a pass.
\<close>

definition pos :: "sched_pc \<Rightarrow> nat" where
  "pos pc = (case pc of AtLock q \<Rightarrow> 3 * q | Handler q r \<Rightarrow> 3 * q | Locked q \<Rightarrow> 3 * q + 1 | Running q \<Rightarrow> 3 * q + 2
     | AtUnlock q \<Rightarrow> 3 * q + 2 | PassEnd \<Rightarrow> 3 * NPROC | Wfi \<Rightarrow> 3 * NPROC + 1)"

definition steps_to :: "nat \<Rightarrow> sched_pc \<Rightarrow> nat" where
  "steps_to p pc = (if pos pc \<le> 3 * p + 1 then 3 * p + 1 - pos pc else 3 * NPROC + 2 + (3 * p + 1) - pos pc)"

lemma steps_to_step:
  assumes "smp_step s c' t" "pc_ok s c" "p < NPROC" "spc s c \<noteq> Locked p"
  shows "steps_to p (spc t c) \<le> steps_to p (spc s c)"
    and "scheduler s c t \<Longrightarrow> steps_to p (spc t c) < steps_to p (spc s c)"
proof -
  show lt: "scheduler s c t \<Longrightarrow> steps_to p (spc t c) < steps_to p (spc s c)"
    using assms(2-4) by (auto elim!: scheduler.cases simp: pc_ok_def smp_upd steps_to_def pos_def) arith+
  show "steps_to p (spc t c) \<le> steps_to p (spc s c)"
  proof (cases "scheduler s c t")
    case True
    then show ?thesis using lt by simp
  next
    case False
    have "pos (spc t c) = pos (spc s c)" if "scheduler s c' t"
    proof -
      have "c' \<noteq> c" using that False by blast
      with that show ?thesis by cases (simp_all add: smp_upd)
    qed
    moreover have "pos (spc t c) = pos (spc s c)" if "thread_step s c' t" using that by cases (auto simp: smp_upd pos_def)
    ultimately show ?thesis using assms(1) by (auto simp: smp_step_def steps_to_def)
  qed
qed

lemma steps_to_bound: "pc_ok s c \<Longrightarrow> p < NPROC \<Longrightarrow> steps_to p (spc s c) \<le> 3 * NPROC + 1"
  by (auto simp: pc_ok_def steps_to_def pos_def split: sched_pc.splits)

text \<open>A runnable process stays runnable until a scheduler starts it, in particular one that has its lock.\<close>

lemma runnable_step:
  assumes "smp_step s c t" "pst s p = RUNNABLE"
  shows "pst t p = RUNNABLE \<or> pst t p = RUNNING"
    "spc s c' = Locked p \<Longrightarrow> pst t p = RUNNING \<or> spc t c' = Locked p"
  using assms unfolding smp_step_def
  by (auto elim!: scheduler.cases thread_step.cases simp: smp_upd split: if_splits)

text \<open>
  While a process waits to be started, every step of the loop of a CPU brings the CPU nearer to it.
\<close>

lemma waiting_steps:
  assumes "smp_reachable (f 0)" "smp_run f n" "p < NPROC" "pst (f 0) p = RUNNABLE" "k \<le> n" "\<forall>i\<le>k. pst (f i) p \<noteq> RUNNING"
  shows "pst (f k) p = RUNNABLE \<and>
    card {i. i < k \<and> scheduler (f i) c (f (Suc i))} + steps_to p (spc (f k) c) \<le> steps_to p (spc (f 0) c)"
  using assms(5,6)
proof (induction k)
  case 0
  then show ?case using assms(4) by simp
next
  case (Suc k)
  then have k: "k < n" and IH: "pst (f k) p = RUNNABLE"
      "card {i. i < k \<and> scheduler (f i) c (f (Suc i))} + steps_to p (spc (f k) c) \<le> steps_to p (spc (f 0) c)"
    by simp_all
  obtain c' where s: "smp_step (f k) c' (f (Suc k))" using smp_run_step [OF assms(2) k] by blast
  have ok: "pc_ok (f k) c" by (rule pc_ok_reachable [OF smp_run_reachable [OF assms(1,2)]]) (use k in simp)
  have nr: "pst (f (Suc k)) p \<noteq> RUNNING" using Suc.prems(2) by blast
  have r: "pst (f (Suc k)) p = RUNNABLE" using runnable_step(1) [OF s IH(1)] nr by blast
  let ?C = "\<lambda>k. {i. i < k \<and> scheduler (f i) c (f (Suc i))}"
  have C: "?C (Suc k) = (if scheduler (f k) c (f (Suc k)) then insert k (?C k) else ?C k)"
    by (auto simp: less_Suc_eq)
  have "card (?C (Suc k)) + steps_to p (spc (f (Suc k)) c) \<le> card (?C k) + steps_to p (spc (f k) c)"
  proof (cases "spc (f k) c = Locked p")
    case True
    then have "spc (f (Suc k)) c = Locked p" using runnable_step(2) [OF s IH(1)] nr by blast
    moreover have "\<not> scheduler (f k) c (f (Suc k))"
      using True IH(1) nr by (auto elim!: scheduler.cases simp: smp_upd)
    ultimately show ?thesis using True C by simp
  next
    case False
    note st = steps_to_step [OF s ok assms(3) False]
    show ?thesis
    proof (cases "scheduler (f k) c (f (Suc k))")
      case True
      then have "card (?C (Suc k)) = Suc (card (?C k))" unfolding C by simp
      with st(2) [OF True] show ?thesis by linarith
    qed (use st(1) C in simp)
  qed
  then show ?case using r IH(2) by simp
qed

lemma waiting_bound:
  assumes "smp_reachable (f 0)" "smp_run f n" "p < NPROC" "pst (f 0) p = RUNNABLE" "\<forall>i\<le>n. pst (f i) p \<noteq> RUNNING"
  shows "card {i. i < n \<and> scheduler (f i) c (f (Suc i))} \<le> 3 * NPROC + 1"
  using waiting_steps [OF assms(1-4) order_refl assms(5), of c] steps_to_bound [OF pc_ok_reachable [OF assms(1)] assms(3), of c]
  by simp

text \<open>The loop is never stuck, but for a lock that another CPU has.\<close>

lemma scheduler_enabled:
  assumes "smp_reachable s"
  shows "(\<exists>t. scheduler s c t) \<or> (\<exists>q. spc s c = Running q) \<or> (\<exists>q r. spc s c = Handler q r) \<or>
    (\<exists>q d. spc s c = AtLock q \<and> plk s q = Some d \<and> d \<noteq> c)"
proof (cases "spc s c")
  case (AtLock q)
  show ?thesis
  proof (cases "plk s q")
    case None
    then show ?thesis using AtLock scheduler.lock by blast
  next
    case (Some d)
    then have "d \<noteq> c" using pc_ok_reachable [OF assms, of c] AtLock by (auto simp: pc_ok_def)
    then show ?thesis using AtLock Some by blast
  qed
next
  case (Locked q)
  then show ?thesis using scheduler.run scheduler.skip by (cases "pst s q = RUNNABLE") blast+
next
  case PassEnd
  then show ?thesis using scheduler.again scheduler.idle by (cases "found s c") blast+
qed (use scheduler.unlock scheduler.wake in blast)+

subsection \<open>Properties\<close>

text \<open>
  C8. In every reachable state of the machine, with any number of CPUs, no process is on two CPUs, and every process in
  state \<open>RUNNING\<close> is on one.
\<close>

theorem one_cpu_per_process:
  assumes "smp_reachable s"
  shows "(curp s c = Some p \<longrightarrow> curp s c' = Some p \<longrightarrow> c = c') \<and> (pst s p = RUNNING \<longrightarrow> (\<exists>c. curp s c = Some p))"
proof -
  obtain on where "smp_inv s on" using smp_reachable_inv [OF assms] by blast
  then have ok: "cpu_ok s on c" for c by (simp add: smp_inv_def)
  have "on p = Some c" if "curp s c = Some p" for c
    using ok [of c] that by (auto simp: cpu_ok_def split: sched_pc.splits)
  from this [of c] this [of c'] show ?thesis using running_on [OF assms] by auto
qed

definition smp_sample :: sched_state where
  "smp_sample = \<lparr>pst = (\<lambda>p. if p < 3 then RUNNABLE else UNUSED), plk = (\<lambda>_. None), spc = (\<lambda>_. AtLock 0),
     curp = (\<lambda>_. None), found = (\<lambda>_. False)\<rparr>"

lemma smp_sample_reachable: "smp_reachable smp_sample"
  by (rule smp_reachable.init) (simp add: smp_init_def smp_sample_def)

definition smp_sample_run :: "nat \<Rightarrow> sched_state" where
  "smp_sample_run i = (case i of 0 \<Rightarrow> smp_sample | Suc 0 \<Rightarrow> at_pc 5 (Locked 0) (lock_p 0 (Some 5) smp_sample)
     | _ \<Rightarrow> at_pc 5 (Running 0) (set_curp 5 (Some 0) (set_pst 0 RUNNING (at_pc 5 (Locked 0) (lock_p 0 (Some 5) smp_sample)))))"

lemma smp_sample_steps: "smp_step (smp_sample_run 0) 5 (smp_sample_run 1)" "smp_step (smp_sample_run 1) 5 (smp_sample_run 2)"
proof -
  show "smp_step (smp_sample_run 0) 5 (smp_sample_run 1)"
    unfolding smp_step_def smp_sample_run_def
    by (simp, rule disjI1, rule scheduler.lock) (simp_all add: smp_sample_def)
  show "smp_step (smp_sample_run 1) 5 (smp_sample_run 2)"
    unfolding smp_step_def smp_sample_run_def
    by (simp add: numeral_2_eq_2, rule disjI1, rule scheduler.run) (simp_all add: smp_sample_def smp_upd)
qed

theorem one_cpu_per_process_witness:
  "pst (smp_sample_run 2) 0 = RUNNING \<and> (\<exists>c. curp (smp_sample_run 2) c = Some 0)"
proof -
  have "smp_reachable (smp_sample_run 2)"
    using smp_sample_reachable smp_sample_steps
    by (metis smp_reachable.step smp_sample_run_def old.nat.simps(4))
  moreover have "pst (smp_sample_run 2) 0 = RUNNING" by (simp add: smp_sample_run_def numeral_2_eq_2 smp_upd)
  ultimately show ?thesis using one_cpu_per_process [of "smp_sample_run 2" 0 0 0] by blast
qed

text \<open>
  C9. A runnable process gets a CPU. In every execution, however the CPUs interleave, by the time that any one CPU has made
  \<open>3 * NPROC + 2\<close> steps of the loop of \<^verbatim>\<open>scheduler\<close>, not counting those of the processes and interrupt handlers that run on it in
  between, a process that was runnable at the start has been running on some CPU. And the loop makes its steps: at every time a CPU that is not
  running a process or a handler can take its next step, unless it waits for a process lock that another CPU holds.
\<close>

theorem runnable_gets_cpu:
  assumes "smp_reachable (f 0)" "smp_run f n" "p < NPROC" "pst (f 0) p = RUNNABLE"
  shows "(3 * NPROC + 2 \<le> card {i. i < n \<and> scheduler (f i) c (f (Suc i))} \<longrightarrow>
      (\<exists>i\<le>n. \<exists>c'. curp (f i) c' = Some p \<and> pst (f i) p = RUNNING)) \<and>
    (\<forall>i\<le>n. (\<exists>t. scheduler (f i) c t) \<or> (\<exists>q. spc (f i) c = Running q) \<or> (\<exists>q r. spc (f i) c = Handler q r) \<or>
      (\<exists>q d. spc (f i) c = AtLock q \<and> plk (f i) q = Some d \<and> d \<noteq> c))"
proof (intro conjI impI allI)
  assume "3 * NPROC + 2 \<le> card {i. i < n \<and> scheduler (f i) c (f (Suc i))}"
  then obtain i where i: "i \<le> n" "pst (f i) p = RUNNING" using waiting_bound [OF assms, of c] by fastforce
  then show "\<exists>i\<le>n. \<exists>c'. curp (f i) c' = Some p \<and> pst (f i) p = RUNNING"
    using running_on [OF smp_run_reachable [OF assms(1,2) i(1)] i(2)] by blast
next
  fix i assume "i \<le> n"
  then show "(\<exists>t. scheduler (f i) c t) \<or> (\<exists>q. spc (f i) c = Running q) \<or> (\<exists>q r. spc (f i) c = Handler q r) \<or>
      (\<exists>q d. spc (f i) c = AtLock q \<and> plk (f i) q = Some d \<and> d \<noteq> c)"
    by (intro scheduler_enabled smp_run_reachable [OF assms(1,2)])
qed

text \<open>A pass of one CPU over a table with one runnable process, which yields at once, and the start of the next pass.\<close>

definition pass_state :: "nat \<Rightarrow> nat \<Rightarrow> sched_state" where
  "pass_state p ph = (let s = set_found 5 True (smp_sample\<lparr>pst := (\<lambda>q. if q = 0 then RUNNABLE else UNUSED)\<rparr>) in
     if ph = 0 then at_pc 5 (if p < NPROC then AtLock p else PassEnd) s
     else at_pc 5 (if ph = 1 then Locked p else AtUnlock p) (lock_p p (Some 5) s))"

definition next_pass :: sched_state where
  "next_pass = at_pc 5 (AtLock 0) (set_found 5 False (pass_state NPROC 0))"

definition pass_run :: "nat \<Rightarrow> sched_state" where
  "pass_run i = (let s = smp_sample\<lparr>pst := (\<lambda>q. if q = 0 then RUNNABLE else UNUSED)\<rparr>; l = lock_p 0 (Some 5) s in
     if i < 5 then [s, at_pc 5 (Locked 0) l, at_pc 5 (Running 0) (set_curp 5 (Some 0) (set_pst 0 RUNNING l)),
       at_pc 5 (Running 0) (set_curp 5 (Some 0) l), at_pc 5 (AtUnlock 0) (set_found 5 True l)] ! i
     else if i < 195 then pass_state (1 + (i - 5) div 3) ((i - 5) mod 3)
     else if i = 195 then next_pass else at_pc 5 (Locked 0) (lock_p 0 (Some 5) next_pass))"

lemmas pass_defs = pass_run_def pass_state_def smp_sample_def smp_upd

lemma pass_run_start:
  assumes "i < 5"
  shows "if i = 2 \<or> i = 3 then thread_step (pass_run i) 5 (pass_run (Suc i)) else scheduler (pass_run i) 5 (pass_run (Suc i))"
proof -
  consider "i = 0" | "i = 1" | "i = 2" | "i = 3" | "i = 4" using assms by atomize_elim arith
  then show ?thesis
  proof cases
    case 1
    have "scheduler (pass_run 0) 5 (at_pc 5 (Locked 0) (lock_p 0 (Some 5) (pass_run 0)))"
      by (rule scheduler.lock) (simp_all add: pass_defs)
    then show ?thesis by (simp add: 1 pass_run_def)
  next
    case 2
    have "scheduler (pass_run 1) 5 (at_pc 5 (Running 0) (set_curp 5 (Some 0) (set_pst 0 RUNNING (pass_run 1))))"
      by (rule scheduler.run) (simp_all add: pass_defs)
    moreover have "at_pc 5 (Running 0) (set_curp 5 (Some 0) (set_pst 0 RUNNING (pass_run 1))) = pass_run 2"
      by (simp add: pass_defs numeral_2_eq_2)
    ultimately show ?thesis by (simp add: 2 numeral_2_eq_2)
  next
    case 3
    have "thread_step (pass_run 2) 5 (set_pst 0 RUNNABLE (pass_run 2))"
      by (rule thread_step.t_self [of _ _ 0]) (simp_all add: pass_defs numeral_2_eq_2)
    moreover have "set_pst 0 RUNNABLE (pass_run 2) = pass_run 3"
      by (simp add: pass_defs numeral_2_eq_2 numeral_3_eq_3 fun_eq_iff)
    ultimately show ?thesis by (simp add: 3 numeral_3_eq_3 numeral_2_eq_2)
  next
    case 4
    have "thread_step (pass_run 3) 5 (at_pc 5 (AtUnlock 0) (set_found 5 True (set_curp 5 None (pass_run 3))))"
      by (rule thread_step.t_sched) (auto simp: pass_defs numeral_3_eq_3 split: if_splits)
    moreover have "at_pc 5 (AtUnlock 0) (set_found 5 True (set_curp 5 None (pass_run 3))) = pass_run 4"
      by (simp add: pass_defs numeral_3_eq_3 fun_eq_iff)
    ultimately show ?thesis by (simp add: 4)
  next
    case 5
    have "scheduler (pass_run 4) 5 (at_pc 5 (next_proc 0) (lock_p 0 None (pass_run 4)))"
      by (rule scheduler.unlock) (simp add: pass_defs)
    moreover have "at_pc 5 (next_proc 0) (lock_p 0 None (pass_run 4)) = pass_run 5"
      by (simp add: pass_defs NPROC_def fun_eq_iff)
    ultimately show ?thesis by (simp add: 5)
  qed
qed

lemma pass_state_step:
  assumes "p < NPROC" "0 < p"
  shows "scheduler (pass_state p 0) 5 (pass_state p 1)" "scheduler (pass_state p 1) 5 (pass_state p 2)"
    "scheduler (pass_state p 2) 5 (pass_state (Suc p) 0)"
proof -
  have "scheduler (pass_state p 0) 5 (at_pc 5 (Locked p) (lock_p p (Some 5) (pass_state p 0)))"
    by (rule scheduler.lock) (use assms in \<open>simp_all add: pass_defs\<close>)
  then show "scheduler (pass_state p 0) 5 (pass_state p 1)" using assms(1) by (simp add: pass_defs)
  have "scheduler (pass_state p 1) 5 (at_pc 5 (AtUnlock p) (pass_state p 1))"
    by (rule scheduler.skip) (use assms in \<open>simp_all add: pass_defs\<close>)
  then show "scheduler (pass_state p 1) 5 (pass_state p 2)" by (simp add: pass_defs)
  have "scheduler (pass_state p 2) 5 (at_pc 5 (next_proc p) (lock_p p None (pass_state p 2)))"
    by (rule scheduler.unlock) (simp add: pass_defs)
  then show "scheduler (pass_state p 2) 5 (pass_state (Suc p) 0)" by (simp add: pass_defs fun_upd_idem)
qed

lemma pass_run_scheduler:
  assumes "i < 196" "i \<noteq> 2" "i \<noteq> 3"
  shows "scheduler (pass_run i) 5 (pass_run (Suc i))"
proof -
  consider "i < 5" | k where "i = 5 + k" "k < 189" | "i = 194" | "i = 195"
  proof (cases "i < 5 \<or> i = 194 \<or> i = 195")
    case False
    then have "i = 5 + (i - 5)" "i - 5 < 189" using assms(1) by linarith+
    then show thesis by (rule that(2))
  qed (use that in blast)
  then show ?thesis
  proof cases
    case 1
    then show ?thesis using pass_run_start [OF 1] assms(2,3) by simp
  next
    case (2 k)
    let ?p = "1 + k div 3"
    have p: "?p < NPROC" "0 < ?p" using 2(2) by (simp_all add: NPROC_def)
    have r: "pass_run i = pass_state ?p (k mod 3)" "pass_run (Suc i) = pass_state (1 + Suc k div 3) (Suc k mod 3)"
      using 2 by (simp_all add: pass_run_def)
    consider "k mod 3 = 0" | "k mod 3 = 1" | "k mod 3 = 2" by atomize_elim arith
    then show ?thesis using pass_state_step [OF p] by cases (simp_all add: r mod_Suc div_Suc numeral_2_eq_2)
  next
    case 3
    have "scheduler (pass_state NPROC 0) 5 next_pass"
      unfolding next_pass_def by (rule scheduler.again) (simp_all add: pass_defs)
    then show ?thesis by (simp add: 3 pass_run_def NPROC_def)
  next
    case 4
    have "scheduler next_pass 5 (at_pc 5 (Locked 0) (lock_p 0 (Some 5) next_pass))"
      by (rule scheduler.lock) (simp_all add: next_pass_def pass_defs)
    then show ?thesis by (simp add: 4 pass_run_def)
  qed
qed

lemma pass_run_steps: "smp_run pass_run 196"
  unfolding smp_run_def smp_step_def
proof (intro allI impI)
  fix i :: nat
  assume "i < 196"
  then show "\<exists>c. scheduler (pass_run i) c (pass_run (Suc i)) \<or> thread_step (pass_run i) c (pass_run (Suc i))"
    using pass_run_scheduler [of i] pass_run_start [of i] by (cases "i = 2 \<or> i = 3") auto
qed

lemma pass_run_count: "3 * NPROC + 2 \<le> card {i. i < 196 \<and> scheduler (pass_run i) 5 (pass_run (Suc i))}"
proof -
  have "{..<196} - {2, 3} \<subseteq> {i. i < 196 \<and> scheduler (pass_run i) 5 (pass_run (Suc i))}"
    using pass_run_scheduler by auto
  then have "card ({..<196} - {2, 3 :: nat}) \<le> card {i. i < 196 \<and> scheduler (pass_run i) 5 (pass_run (Suc i))}"
    by (intro card_mono) simp_all
  then show ?thesis by (simp add: NPROC_def card_Diff_subset)
qed

theorem runnable_gets_cpu_witness: "\<exists>i\<le>196. \<exists>c'. curp (pass_run i) c' = Some 0 \<and> pst (pass_run i) 0 = RUNNING"
proof -
  have "smp_reachable (pass_run 0)" by (rule smp_reachable.init) (simp add: smp_init_def pass_defs)
  moreover have "0 < NPROC" "pst (pass_run 0) 0 = RUNNABLE" by (simp_all add: pass_defs NPROC_def)
  ultimately show ?thesis using runnable_gets_cpu [OF _ pass_run_steps, of 0 5] pass_run_count by blast
qed

end
