(* ===== verification/Grep.thy ===== *)
theory Grep
  imports Prelude
begin

text \<open>
  The pattern matcher of \<^verbatim>\<open>user/grep.c\<close>. A C string is the list of its bytes before the terminating
  null byte, so that a pointer into it is a suffix of the list and \<^verbatim>\<open>*p == 0\<close> is the empty list.
\<close>

subsection \<open>The matcher\<close>

abbreviation (input) CARET :: u8 where "CARET \<equiv> 94"
abbreviation (input) STAR :: u8 where "STAR \<equiv> 42"
abbreviation (input) DOT :: u8 where "DOT \<equiv> 46"
abbreviation (input) DOLLAR :: u8 where "DOLLAR \<equiv> 36"

function matchhere :: "u8 list \<Rightarrow> u8 list \<Rightarrow> bool"
  and matchstar :: "u8 \<Rightarrow> u8 list \<Rightarrow> u8 list \<Rightarrow> bool"
where
  "matchhere re str =
     (case re of [] \<Rightarrow> True
      | r # re' \<Rightarrow>
          if re' \<noteq> [] \<and> hd re' = STAR then matchstar r (tl re') str
          else if r = DOLLAR \<and> re' = [] then str = []
          else if str \<noteq> [] \<and> (r = DOT \<or> r = hd str) then matchhere re' (tl str)
          else False)"
| "matchstar c re str =
     (if matchhere re str then True
      else if str \<noteq> [] \<and> (hd str = c \<or> c = DOT) then matchstar c re (tl str)
      else False)"
  by pat_completeness auto
termination
  by (relation "inv_image (less_than <*lex*> less_than <*lex*> less_than)
      (case_sum (\<lambda>(re, str). (length re, length str, 0)) (\<lambda>(c, re, str). (length re, length str, 1 :: nat)))")
    (auto simp: neq_Nil_conv)

fun match_loop :: "u8 list \<Rightarrow> u8 list \<Rightarrow> bool" where
  "match_loop re str =
     (if matchhere re str then True else case str of [] \<Rightarrow> False | _ # str' \<Rightarrow> match_loop re str')"

definition match_re :: "u8 list \<Rightarrow> u8 list \<Rightarrow> bool" where
  "match_re re str = (if re \<noteq> [] \<and> hd re = CARET then matchhere (tl re) str else match_loop re str)"

declare matchhere.simps [simp del] matchstar.simps [simp del] match_loop.simps [simp del]

subsection \<open>The language of a pattern\<close>

text \<open>
  The reference: a pattern is a sequence of characters and starred characters, possibly closed by \<^verbatim>\<open>$\<close>,
  and denotes a set of strings.
\<close>

datatype item = Chr u8 | Star u8

fun items :: "u8 list \<Rightarrow> item list \<times> bool" where
  "items [] = ([], False)"
| "items [c] = (if c = DOLLAR then ([], True) else ([Chr c], False))"
| "items (c # d # re) =
     (if d = STAR then (let (ps, a) = items re in (Star c # ps, a)) else (let (ps, a) = items (d # re) in (Chr c # ps, a)))"

definition chars :: "u8 \<Rightarrow> u8 set" where
  "chars c = (if c = DOT then UNIV else {c})"

fun lang :: "item list \<Rightarrow> u8 list set" where
  "lang [] = {[]}"
| "lang (Chr c # ps) = {x # u | x u. x \<in> chars c \<and> u \<in> lang ps}"
| "lang (Star c # ps) = {xs @ u | xs u. xs \<in> lists (chars c) \<and> u \<in> lang ps}"

definition prefix_match :: "item list \<times> bool \<Rightarrow> u8 list \<Rightarrow> bool" where
  "prefix_match p str = (\<exists>u v. str = u @ v \<and> u \<in> lang (fst p) \<and> (snd p \<longrightarrow> v = []))"

lemma prefix_match_nil: "prefix_match ([], False) str" "prefix_match ([], True) str \<longleftrightarrow> str = []"
  by (auto simp: prefix_match_def)

lemma prefix_matchI: "str = u @ v \<Longrightarrow> u \<in> lang ps \<Longrightarrow> (a \<longrightarrow> v = []) \<Longrightarrow> prefix_match (ps, a) str"
  by (auto simp: prefix_match_def)

lemma prefix_matchE:
  assumes "prefix_match (ps, a) str"
  obtains u v where "str = u @ v" "u \<in> lang ps" "a \<longrightarrow> v = []"
  using assms by (auto simp: prefix_match_def)

lemma prefix_match_chr:
  "prefix_match (Chr c # ps, a) str \<longleftrightarrow> str \<noteq> [] \<and> hd str \<in> chars c \<and> prefix_match (ps, a) (tl str)"
proof
  assume "prefix_match (Chr c # ps, a) str"
  then obtain u v where u: "str = u @ v" "u \<in> lang (Chr c # ps)" "a \<longrightarrow> v = []" by (rule prefix_matchE)
  then obtain x w where "u = x # w" "x \<in> chars c" "w \<in> lang ps" by auto
  with u show "str \<noteq> [] \<and> hd str \<in> chars c \<and> prefix_match (ps, a) (tl str)" by (simp add: prefix_matchI)
next
  assume *: "str \<noteq> [] \<and> hd str \<in> chars c \<and> prefix_match (ps, a) (tl str)"
  then have "prefix_match (ps, a) (tl str)" by simp
  then obtain u v where u: "tl str = u @ v" "u \<in> lang ps" "a \<longrightarrow> v = []" by (rule prefix_matchE)
  show "prefix_match (Chr c # ps, a) str"
  proof (rule prefix_matchI)
    show "str = (hd str # u) @ v" using * u(1) by (metis append_Cons list.collapse)
    show "hd str # u \<in> lang (Chr c # ps)" using * u(2) by simp
  qed (use u(3) in simp)
qed

lemma prefix_match_star:
  "prefix_match (Star c # ps, a) str \<longleftrightarrow> prefix_match (ps, a) str \<or>
     str \<noteq> [] \<and> hd str \<in> chars c \<and> prefix_match (Star c # ps, a) (tl str)"
proof
  assume "prefix_match (Star c # ps, a) str"
  then obtain w v where w: "str = w @ v" "w \<in> lang (Star c # ps)" "a \<longrightarrow> v = []" by (rule prefix_matchE)
  then obtain xs u where u: "w = xs @ u" "xs \<in> lists (chars c)" "u \<in> lang ps" by (simp only: lang.simps) blast
  show "prefix_match (ps, a) str \<or> str \<noteq> [] \<and> hd str \<in> chars c \<and> prefix_match (Star c # ps, a) (tl str)"
  proof (cases xs)
    case Nil
    then have "prefix_match (ps, a) str" using w u by (intro prefix_matchI [of _ u v]) simp_all
    then show ?thesis ..
  next
    case (Cons x ys)
    then have "ys @ u \<in> lang (Star c # ps)" "x \<in> chars c" using u by (auto simp only: lang.simps) auto
    moreover have "str = x # (ys @ u) @ v" using w u Cons by simp
    ultimately show ?thesis using w(3) by (simp del: lang.simps append_assoc add: prefix_matchI)
  qed
next
  assume "prefix_match (ps, a) str \<or> str \<noteq> [] \<and> hd str \<in> chars c \<and> prefix_match (Star c # ps, a) (tl str)"
  then show "prefix_match (Star c # ps, a) str"
  proof
    assume "prefix_match (ps, a) str"
    then obtain u v where u: "str = u @ v" "u \<in> lang ps" "a \<longrightarrow> v = []" by (rule prefix_matchE)
    moreover from u(2) have "u \<in> lang (Star c # ps)" unfolding lang.simps by (blast intro: lists.Nil append_Nil [symmetric])
    ultimately show ?thesis by (simp only: prefix_matchI)
  next
    assume *: "str \<noteq> [] \<and> hd str \<in> chars c \<and> prefix_match (Star c # ps, a) (tl str)"
    then have "prefix_match (Star c # ps, a) (tl str)" by simp
    then obtain w v where w: "tl str = w @ v" "w \<in> lang (Star c # ps)" "a \<longrightarrow> v = []" by (rule prefix_matchE)
    then obtain xs u where u: "w = xs @ u" "xs \<in> lists (chars c)" "u \<in> lang ps" by (simp only: lang.simps) blast
    show ?thesis
    proof (rule prefix_matchI)
      show "str = (hd str # w) @ v" using * w(1) by (metis append_Cons list.collapse)
      have "hd str # w = (hd str # xs) @ u" "hd str # xs \<in> lists (chars c)" using * u by simp_all
      then show "hd str # w \<in> lang (Star c # ps)" unfolding lang.simps using u(3) by blast
    qed (use w(3) in simp)
  qed
qed

lemma items_cons: "items (c # re) = (if re \<noteq> [] \<and> hd re = STAR then (let (ps, a) = items (tl re) in (Star c # ps, a))
    else if c = DOLLAR \<and> re = [] then ([], True) else (let (ps, a) = items re in (Chr c # ps, a)))"
  by (cases re) auto

lemma chars_iff: "x \<in> chars c \<longleftrightarrow> c = DOT \<or> x = c"
  by (simp add: chars_def)

lemma matchhere_correct:
  "matchhere re str \<longleftrightarrow> prefix_match (items re) str"
  "matchstar c re str \<longleftrightarrow> prefix_match (Star c # fst (items re), snd (items re)) str"
proof (induction re str and c re str rule: matchhere_matchstar.induct)
  case (1 re str)
  show ?case
  proof (cases re)
    case Nil
    then show ?thesis by (simp add: matchhere.simps prefix_match_nil)
  next
    case (Cons r re')
    then show ?thesis using 1
      by (subst matchhere.simps)
        (auto simp: items_cons prefix_match_nil prefix_match_chr chars_iff split: prod.splits)
  qed
next
  case (2 c re str)
  then show ?case
    by (subst matchstar.simps, subst prefix_match_star) (auto simp: chars_iff)
qed

lemma match_loop_correct: "match_loop re str \<longleftrightarrow> (\<exists>p q. str = p @ q \<and> matchhere re q)"
proof (induction str)
  case Nil
  then show ?case by (simp add: match_loop.simps)
next
  case (Cons x str)
  have "(\<exists>p q. x # str = p @ q \<and> matchhere re q) \<longleftrightarrow> matchhere re (x # str) \<or> (\<exists>p q. str = p @ q \<and> matchhere re q)"
    by (auto simp: Cons_eq_append_conv)
  with Cons show ?case by (simp add: match_loop.simps)
qed

text \<open>
  C26. The matcher decides the language of the pattern: the text matches exactly when it contains, at its start if the
  pattern begins with \<^verbatim>\<open>^\<close>, a string of the language of the pattern, which reaches the end of the text if the
  pattern ends with \<^verbatim>\<open>$\<close>. In particular the mutually recursive matcher terminates on all inputs.
\<close>

theorem match_denotes_pattern:
  "match_re re str \<longleftrightarrow>
     (if re \<noteq> [] \<and> hd re = CARET
      then \<exists>u v. str = u @ v \<and> u \<in> lang (fst (items (tl re))) \<and> (snd (items (tl re)) \<longrightarrow> v = [])
      else \<exists>p u v. str = p @ u @ v \<and> u \<in> lang (fst (items re)) \<and> (snd (items re) \<longrightarrow> v = []))"
  by (auto simp: match_re_def match_loop_correct matchhere_correct prefix_match_def)

theorem match_denotes_pattern_witness:
  "match_re (cstr ''a*$'') (cstr ''xaa'') \<and> \<not> match_re (cstr ''^b'') (cstr ''ab'')"
proof -
  have s: "cstr ''xaa'' = [120, 97, 97]" "cstr ''a*$'' = [97, 42, 36]" by (simp_all add: cstr_def)
  have "[97, 97] \<in> lang [Star 97]" by (simp add: chars_def)
  then have 1: "match_re [97, 42, 36] [120, 97, 97]"
    unfolding match_denotes_pattern [of "[97, 42, 36]" "[120, 97, 97]"]
    by (simp del: lang.simps) (rule exI [of _ "[120]"], rule exI [of _ "[97, 97]"], simp del: lang.simps)
  have "\<not> match_re (cstr ''^b'') (cstr ''ab'')"
    using match_denotes_pattern [of "cstr ''^b''" "cstr ''ab''"] by (auto simp: cstr_def chars_def)
  with 1 show ?thesis by (simp add: s)
qed

end
