(* ===== verification/DiskRequest.thy ===== *)
theory DiskRequest
  imports Virtio
begin

text \<open>
  A request to the disk driver of \<^verbatim>\<open>kernel/virtio_disk.c\<close> from the call to its return, with the device as a
  parameter, against the completed request that \<^verbatim>\<open>kernel/bio.c\<close> relies on.
\<close>

subsection \<open>The device\<close>

text \<open>
  The device is not code of the kernel. What the driver relies on is the interface of the specification. The device counts
  the requests it has taken, modulo \<open>2 ^ 16\<close>. A request is pending when the index of the available ring is past that count; the
  device looks when the driver has written the number of the queue to the notification register, and does nothing
  otherwise. It takes the chain of descriptors whose head is in the ring at its count, moves the data between the disk and
  the buffer, in the direction of the request and, for a read, only if the driver marked the data as writable, stores a zero
  status and appends the head to the used ring.
\<close>

definition chain_block :: "u64 \<Rightarrow> u32" where
  "chain_block sector = ucast (sector div 2)"

definition served :: "u32 \<Rightarrow> u64 \<Rightarrow> nat \<Rightarrow> nat \<Rightarrow> nat \<Rightarrow> 'a virtio_scheme \<Rightarrow> 'a virtio_scheme" where
  "served ty sector b j i0 s =
     upd_disk (\<lambda>d. d\<lparr>used_id := used_id d + 1, used_elems := (used_elems d)[unat (used_id d) mod NUM := of_nat i0],
         info_status := (info_status d)[j := 0]\<rparr>)
       (if ty = VIRTIO_BLK_T_OUT
        then s\<lparr>disk := (disk s)(chain_block sector := data (bufs s b)), dwrites := dwrites s @ [(chain_block sector, data (bufs s b))]\<rparr>
        else upd_buf b (data_update (\<lambda>_. disk s (chain_block sector))) s)"

definition is_request :: "nat \<Rightarrow> vdisk \<Rightarrow> u32 \<Rightarrow> u64 \<Rightarrow> nat \<Rightarrow> nat \<Rightarrow> bool" where
  "is_request i0 d ty sector b j \<longleftrightarrow>
     (let e0 = desc d ! i0; e1 = desc d ! unat (dnext e0); e2 = desc d ! unat (dnext e1) in
      (\<exists>pa. daddr e0 = Header pa ty sector) \<and> dlen e0 = 16 \<and> dflags e0 = VRING_DESC_F_NEXT \<and>
      daddr e1 = DataOf b \<and> dlen e1 = 1024 \<and>
      dflags e1 = VRING_DESC_F_NEXT OR (if ty = VIRTIO_BLK_T_IN then VRING_DESC_F_WRITE else 0) \<and>
      ty \<in> {VIRTIO_BLK_T_IN, VIRTIO_BLK_T_OUT} \<and>
      daddr e2 = StatusOf j \<and> dlen e2 = 1 \<and> dflags e2 = VRING_DESC_F_WRITE)"

definition pending_request :: "u16 \<Rightarrow> 'a virtio_scheme \<Rightarrow> bool" where
  "pending_request k s \<longleftrightarrow> avail_idx (vdisk s) \<noteq> k \<and> mmio_out s \<noteq> [] \<and> last (mmio_out s) = (VIRTIO_MMIO_QUEUE_NOTIFY, 0)"

definition virtio_device :: "(u16 \<Rightarrow> 'a virtio_scheme \<Rightarrow> 'a virtio_scheme option) \<Rightarrow> bool" where
  "virtio_device serve \<longleftrightarrow>
     (\<forall>k s. \<not> pending_request k s \<longrightarrow> serve k s = None) \<and>
     (\<forall>k s i0 ty sector b j. pending_request k s \<longrightarrow> unat (avail_ring (vdisk s) ! (unat k mod NUM)) = i0 \<longrightarrow>
       is_request i0 (vdisk s) ty sector b j \<longrightarrow> serve k s = Some (served ty sector b j i0 s))"

lemma virtio_deviceD:
  "virtio_device serve \<Longrightarrow> pending_request k s \<Longrightarrow> unat (avail_ring (vdisk s) ! (unat k mod NUM)) = i0 \<Longrightarrow>
   is_request i0 (vdisk s) ty sector b j \<Longrightarrow> serve k s = Some (served ty sector b j i0 s)"
  unfolding virtio_device_def by blast

text \<open>The translation of an address of the kernel stack.\<close>

lemma kvmpa_eq:
  "kvmpa va s = (if va \<ge> MAXVA then Inl (Panic ''walk'')
     else case node (mem s) (kernel_pagetable s) (vpath va) of None \<Rightarrow> Inl (Panic ''kvmpa'')
     | Some q \<Rightarrow> let pte = slot q (PX 0 va) in
         if pte = 0 \<or> load64 (mem s) pte AND PTE_V = 0 then Inl (Panic ''kvmpa'')
         else Inr (PTE2PA (load64 (mem s) pte) + va mod PGSIZE))"
proof (cases "va < MAXVA")
  case True
  then show ?thesis using walk_False [OF True, of "kernel_pagetable s" s]
    by (auto simp: kvmpa_def Let_def leD split: option.split)
qed (simp add: kvmpa_def walk_def not_less)

lemma kvmpa_cong:
  "mem t = mem s \<Longrightarrow> kernel_pagetable t = kernel_pagetable s \<Longrightarrow> kvmpa va t = kvmpa va s"
  unfolding kvmpa_eq by (simp only:)

subsection \<open>One request\<close>

definition vquiet :: "'a virtio_scheme \<Rightarrow> bool" where
  "vquiet s \<longleftrightarrow> (let d = vdisk s in
     length (desc d) = NUM \<and> length (avail_ring d) = NUM \<and> length (used_elems d) = NUM \<and> length (info_b d) = NUM \<and>
     length (info_status d) = NUM \<and> vfree d = replicate NUM True \<and> unat (used_idx d) < NUM \<and>
     unat (used_id d) mod NUM = unat (used_idx d) \<and> (\<forall>b. \<not> bdisk d b))"

lemma alloc3_quiet:
  assumes "vfree (vdisk s) = replicate NUM True"
  shows "alloc3_desc s = Inr (Some [0, 1, 2], upd_disk (vfree_update (\<lambda>_. [False, False, False, True, True, True, True, True])) s)"
  using assms
  by (simp add: alloc3_desc_def numeral_3_eq_3 alloc_desc_def NUM_def upt_rec upd_disk_def numeral_eq_Suc)

definition requested :: "u64 \<Rightarrow> nat \<Rightarrow> bool \<Rightarrow> 'a virtio_scheme \<Rightarrow> 'a virtio_scheme" where
  "requested pa b wr s = write_reg VIRTIO_MMIO_QUEUE_NOTIFY 0
     (upd_disk (\<lambda>d. submit 0 b (set_descs 0 1 2 b pa wr (ucast (blockno (bufs s b) * 2))
        (d\<lparr>vfree := [False, False, False, True, True, True, True, True]\<rparr>))) s)"

lemma rw_quiet:
  assumes "vquiet s" "held s = {}" "me s = Some p" "kvmpa buf0 s = Inr pa"
  shows "virtio_disk_rw buf0 b wr s = Inr (Returns 0,
    upd_proc p (\<lambda>q. q\<lparr>pchan := ChBuf b, pstate := SLEEPING\<rparr>) ((requested pa b wr s)\<lparr>held := {ProcLock p}\<rparr>))"
proof -
  have "kvmpa buf0 (upd_disk f (s\<lparr>held := h\<rparr>)) = Inr pa" for f h
    using assms(4) kvmpa_cong [of "upd_disk f (s\<lparr>held := h\<rparr>)" s buf0] by (simp add: upd_disk_def)
  from this [unfolded upd_disk_def] show ?thesis using assms(1-3)
    by (simp add: virtio_disk_rw_def rw_try_def alloc3_quiet vquiet_def Let_def lock_defs sleep_def sched_def myproc_def
        requested_def upd_disk_def write_reg_def upd_proc_def BSIZE_def insert_Diff_if)
qed

lemma chain_block_sector:
  assumes "n < 2 ^ 31"
  shows "chain_block (ucast (n * 2 :: u32)) = n"
proof -
  have "unat n < 2 ^ 31" using assms by (simp add: word_less_nat_alt)
  then have "unat (n * 2) = unat n * 2" by (simp add: unat_word_ariths)
  then have "unat (ucast (n * 2 :: u32) div 2 :: u64) = unat n" by (simp add: unat_div unat_ucast_up)
  moreover have "take_bit 32 (unat n) = unat n" by (rule take_bit_nat_eq_self) (use unsigned_less [of n] in simp)
  ultimately have "unat (chain_block (ucast (n * 2 :: u32))) = unat n"
    unfolding chain_block_def by (simp add: unsigned_ucast_eq)
  then show ?thesis by (simp add: word_unat_eq_iff)
qed

lemma requested_vdisk:
  assumes "vquiet s"
  shows "is_request 0 (vdisk (requested pa b wr s)) (if wr then VIRTIO_BLK_T_OUT else VIRTIO_BLK_T_IN)
      (ucast (blockno (bufs s b) * 2)) b 0"
    "avail_ring (vdisk (requested pa b wr s)) ! (unat (avail_idx (vdisk s)) mod NUM) = 0"
    "avail_idx (vdisk (requested pa b wr s)) = avail_idx (vdisk s) + 1"
    "mmio_out (requested pa b wr s) = mmio_out s @ [(VIRTIO_MMIO_QUEUE_NOTIFY, 0)]"
  using assms
  by (auto simp: requested_def write_reg_def upd_disk_def submit_def set_descs_def is_request_def vquiet_def Let_def NUM_def
      VIRTIO_BLK_T_IN_def VIRTIO_BLK_T_OUT_def BSIZE_def or.commute)

lemma ring_succ:
  "unat (x + 1 :: u16) mod 8 = (unat x + 1) mod 8"
  "unat y < 8 \<Longrightarrow> unat ((y + 1) mod 8 :: u16) = (unat y + 1) mod 8"
proof -
  show succ: "unat (x + 1) mod 8 = (unat x + 1) mod 8" for x :: u16
    by (simp add: unat_word_ariths mod_mod_cancel)
  show "unat y < 8 \<Longrightarrow> unat ((y + 1) mod 8) = (unat y + 1) mod 8" using succ [of y] by (simp add: unat_mod)
qed

definition completed :: "nat \<Rightarrow> 'a virtio_scheme \<Rightarrow> 'a virtio_scheme" where
  "completed b s = s\<lparr>proc := woken (ChBuf b) (proc s),
     vdisk := (vdisk s)\<lparr>used_idx := (used_idx (vdisk s) + 1) mod 8, bdisk := (bdisk (vdisk s))(b := False)\<rparr>\<rparr>"

lemma intr_one:
  assumes "held s = {}" "mmio_in s = v # vs" "unat (used_idx (vdisk s)) < 8" "info_b (vdisk s) ! 0 = Some b"
    "unat (used_id (vdisk s)) mod 8 = (unat (used_idx (vdisk s)) + 1) mod 8"
    "used_elems (vdisk s) ! unat (used_idx (vdisk s)) = 0" "info_status (vdisk s) ! 0 = 0"
  shows "virtio_disk_intr s = Inr (write_reg VIRTIO_MMIO_INTERRUPT_ACK (v AND 3) ((completed b s)\<lparr>mmio_in := vs\<rparr>))"
proof -
  have ne: "unat (used_idx (vdisk s)) mod 8 \<noteq> unat (used_id (vdisk s)) mod 8" 
    using assms(3,5) by (cases "unat (used_idx (vdisk s)) = 7") auto
  have "intr_loop (Suc (Suc k)) (s\<lparr>held := {DiskLock}\<rparr>) = Inr ((completed b s)\<lparr>held := {DiskLock}\<rparr>)" for k
    using assms ne ring_succ(2) [OF assms(3)]
    by (simp add: NUM_def Let_def deref_def wakeup_eq upd_disk_def completed_def)
  from this [of 6] have "intr_loop NUM (s\<lparr>held := {DiskLock}\<rparr>) = Inr ((completed b s)\<lparr>held := {DiskLock}\<rparr>)"
    by (simp add: NUM_def)
  then show ?thesis using assms(1,2)
    by (simp add: virtio_disk_intr_def lock_defs read_reg_def write_reg_def completed_def)
qed

text \<open>The descriptors of the request in flight.\<close>

definition in_flight :: "vdisk \<Rightarrow> bool" where
  "in_flight d \<longleftrightarrow> length (desc d) = 8 \<and> vfree d = [False, False, False, True, True, True, True, True] \<and>
     dflags (desc d ! 0) AND VRING_DESC_F_NEXT \<noteq> 0 \<and> dnext (desc d ! 0) = 1 \<and>
     dflags (desc d ! 1) AND VRING_DESC_F_NEXT \<noteq> 0 \<and> dnext (desc d ! 1) = 2 \<and>
     dflags (desc d ! 2) AND VRING_DESC_F_NEXT = 0"

definition freed :: "'a virtio_scheme \<Rightarrow> 'a virtio_scheme" where
  "freed s = s\<lparr>vdisk := (vdisk s)\<lparr>desc := (desc (vdisk s))[0 := (desc (vdisk s) ! 0)\<lparr>daddr := NullAddr\<rparr>,
       1 := (desc (vdisk s) ! 1)\<lparr>daddr := NullAddr\<rparr>, 2 := (desc (vdisk s) ! 2)\<lparr>daddr := NullAddr\<rparr>],
     vfree := replicate NUM True\<rparr>,
     proc := woken ChDiskFree (woken ChDiskFree (woken ChDiskFree (proc s)))\<rparr>"

lemma free_chain_one:
  assumes "held s = {DiskLock}" "in_flight (vdisk s)"
  shows "free_chain 0 s = Inr (freed s)"
proof -
  have "replicate 8 True = [True, True, True, True, True, True, True, True]" by (simp add: numeral_eq_Suc)
  then have "free_chain_loop (Suc (Suc (Suc k))) 0 s = Inr (freed s)" for k
    using assms
    by (simp add: free_desc_def in_flight_def NUM_def wakeup_eq upd_disk_def nth_list_update freed_def)
  from this [of 6] show ?thesis by (simp add: free_chain_def NUM_def)
qed

lemma return_one:
  assumes "held s = {ProcLock p}" "me s = Some p" "in_flight (vdisk s)" "\<not> bdisk (vdisk s) b"
  shows "virtio_disk_rw_return b 0 s = Inr (Returns (),
    (freed (upd_disk (info_b_update (\<lambda>f. f[0 := None])) (upd_proc p (pchan_update (\<lambda>_. NoChan)) s)))\<lparr>held := {}\<rparr>)"
proof -
  let ?s = "upd_disk (info_b_update (\<lambda>f. f[0 := None])) ((upd_proc p (pchan_update (\<lambda>_. NoChan)) s)\<lparr>held := {DiskLock}\<rparr>)"
  have "free_chain 0 ?s = Inr (freed ?s)"
    by (rule free_chain_one) (use assms(3) in \<open>simp_all add: upd_disk_def upd_proc_def in_flight_def\<close>)
  then show ?thesis using assms
    by (simp add: virtio_disk_rw_return_def sleep_return_def lock_defs myproc_def Let_def upd_proc_def upd_disk_def freed_def)
qed

definition resume :: "nat \<Rightarrow> 'a virtio_scheme \<Rightarrow> 'a virtio_scheme" where
  "resume p s = (upd_proc p (pstate_update (\<lambda>_. RUNNING)) s)\<lparr>held := {ProcLock p}, me := Some p\<rparr>"

lemma requested_fields:
  assumes "vquiet s"
  shows "in_flight (vdisk (requested pa b wr s))" "info_b (vdisk (requested pa b wr s)) ! 0 = Some b"
    "used_idx (vdisk (requested pa b wr s)) = used_idx (vdisk s)" "used_id (vdisk (requested pa b wr s)) = used_id (vdisk s)"
    "used_elems (vdisk (requested pa b wr s)) = used_elems (vdisk s)" "bdisk (vdisk (requested pa b wr s)) = (bdisk (vdisk s))(b := True)"
    "length (info_status (vdisk (requested pa b wr s))) = 8" "length (info_b (vdisk (requested pa b wr s))) = 8"
    "length (avail_ring (vdisk (requested pa b wr s))) = 8"
    "bufs (requested pa b wr s) = bufs s" "disk (requested pa b wr s) = disk s" "dwrites (requested pa b wr s) = dwrites s"
    "held (requested pa b wr s) = held s" "me (requested pa b wr s) = me s" "mmio_in (requested pa b wr s) = mmio_in s"
    "proc (requested pa b wr s) = proc s"
  using assms
  by (simp_all add: requested_def write_reg_def upd_disk_def submit_def set_descs_def vquiet_def Let_def NUM_def in_flight_def
      VRING_DESC_F_NEXT_def VRING_DESC_F_WRITE_def nth_list_update)

lemma served_fields:
  "disk (served ty sector b j i0 s) = (if ty = VIRTIO_BLK_T_OUT then (disk s)(chain_block sector := data (bufs s b)) else disk s)"
  "dwrites (served ty sector b j i0 s) = dwrites s @ (if ty = VIRTIO_BLK_T_OUT then [(chain_block sector, data (bufs s b))] else [])"
  "bufs (served ty sector b j i0 s) = (if ty = VIRTIO_BLK_T_OUT then bufs s
     else (bufs s)(b := (bufs s b)\<lparr>data := disk s (chain_block sector)\<rparr>))"
  "vdisk (served ty sector b j i0 s) = (vdisk s)\<lparr>used_id := used_id (vdisk s) + 1,
     used_elems := (used_elems (vdisk s))[unat (used_id (vdisk s)) mod NUM := of_nat i0],
     info_status := (info_status (vdisk s))[j := 0]\<rparr>"
  "held (served ty sector b j i0 s) = held s" "proc (served ty sector b j i0 s) = proc s" "mmio_in (served ty sector b j i0 s) = mmio_in s"
  by (simp_all add: served_def upd_disk_def upd_buf_def)

lemma disk_rw_fields:
  "disk (disk_rw b wr s) = (if wr then (disk s)(blockno (bufs s b) := data (bufs s b)) else disk s)"
  "dwrites (disk_rw b wr s) = dwrites s @ (if wr then [(blockno (bufs s b), data (bufs s b))] else [])"
  "bufs (disk_rw b wr s) = (if wr then bufs s else (bufs s)(b := (bufs s b)\<lparr>data := disk s (blockno (bufs s b))\<rparr>))"
  by (simp_all add: disk_rw_def Let_def upd_buf_def)

text \<open>
  C3. With any device that follows the specification, a request of \<^verbatim>\<open>virtio_disk_rw\<close> on an idle disk does what
  the buffer cache takes it to do. The call publishes the request, with the index of the available ring one further than the
  count of the device and the device notified, and sleeps; the device, which takes only requests that are published and
  notified, serves it; the interrupt handler wakes the caller without a panic; and the caller, resumed by the scheduler,
  returns. Then exactly the transfer of \<open>disk_rw\<close> has taken place, on the buffer and on the disk, and the driver is idle again,
  with all its descriptors free and the index equal to the new count of the device.
\<close>

theorem disk_request_refines:
  assumes "virtio_device serve" "vquiet s" "held s = {}" "me s = Some p" "p < NPROC" "blockno (bufs s b) < 2 ^ 31"
    "mmio_in s = m # ms" "kvmpa buf0 s = Inr pa"
  shows "\<exists>t u v w. virtio_disk_rw buf0 b wr s = Inr (Returns 0, t) \<and>
    serve (avail_idx (vdisk s)) (t\<lparr>held := {}\<rparr>) = Some u \<and>
    virtio_disk_intr u = Inr v \<and> pstate (proc v p) = RUNNABLE \<and>
    virtio_disk_rw_return b 0 (resume p v) = Inr (Returns (), w) \<and>
    bufs w = bufs (disk_rw b wr s) \<and> disk w = disk (disk_rw b wr s) \<and> dwrites w = dwrites (disk_rw b wr s) \<and> vquiet w \<and>
    avail_idx (vdisk w) = avail_idx (vdisk s) + 1"
proof -
  let ?ty = "if wr then VIRTIO_BLK_T_OUT else VIRTIO_BLK_T_IN" and ?sec = "ucast (blockno (bufs s b) * 2) :: u64"
  define r where "r = requested pa b wr s"
  define t where "t = upd_proc p (\<lambda>q. q\<lparr>pchan := ChBuf b, pstate := SLEEPING\<rparr>) (r\<lparr>held := {ProcLock p}\<rparr>)"
  define u where "u = served ?ty ?sec b 0 0 (t\<lparr>held := {}\<rparr>)"
  define v where "v = write_reg VIRTIO_MMIO_INTERRUPT_ACK (m AND 3) ((completed b u)\<lparr>mmio_in := ms\<rparr>)"
  note r = requested_fields [OF assms(2), of pa b wr, folded r_def]
  have 1: "virtio_disk_rw buf0 b wr s = Inr (Returns 0, t)" using rw_quiet [OF assms(2-4,8)] by (simp add: t_def r_def)
  have td: "vdisk (t\<lparr>held := {}\<rparr>) = vdisk r" "bufs t = bufs s" "disk t = disk s" "dwrites t = dwrites s" "mmio_in t = mmio_in s"
    "mmio_out t = mmio_out r" "proc t = (proc s)(p := (proc s p)\<lparr>pchan := ChBuf b, pstate := SLEEPING\<rparr>)"
    using r(10-16) by (simp_all add: t_def upd_proc_def)
  note rv = requested_vdisk [OF assms(2), of pa b wr, folded r_def]
  have "pending_request (avail_idx (vdisk s)) (t\<lparr>held := {}\<rparr>)" using rv(3,4) td(1,6) by (simp add: pending_request_def)
  then have 2: "serve (avail_idx (vdisk s)) (t\<lparr>held := {}\<rparr>) = Some u"
    unfolding u_def by (rule virtio_deviceD [OF assms(1)]) (use rv(1,2) in \<open>simp_all add: td(1)\<close>)
  have q: "unat (used_idx (vdisk s)) < 8" "unat (used_id (vdisk s)) mod 8 = unat (used_idx (vdisk s))"
      "length (used_elems (vdisk s)) = 8"
    using assms(2) by (simp_all add: vquiet_def Let_def NUM_def)
  have ud: "vdisk u = (vdisk r)\<lparr>used_id := used_id (vdisk s) + 1, used_elems := (used_elems (vdisk s))[unat (used_idx (vdisk s)) := 0],
      info_status := (info_status (vdisk r))[0 := 0]\<rparr>"
    using q(2) r(4,5) td(1) by (simp add: u_def served_fields NUM_def)
  have uf: "held u = {}" "mmio_in u = m # ms" "proc u = proc t"
    using assms(7) td(5) by (simp_all add: u_def served_fields)
  have ring: "unat (used_id (vdisk s) + 1) mod 8 = (unat (used_idx (vdisk s)) + 1) mod 8"
    unfolding ring_succ(1) using q(2) by (metis mod_add_left_eq)
  have 3: "virtio_disk_intr u = Inr v"
    unfolding v_def by (rule intr_one) (use uf q r ring in \<open>simp_all add: ud\<close>)
  have bd: "(bdisk (vdisk s))(b := False) = bdisk (vdisk s)" using assms(2) by (simp add: vquiet_def Let_def fun_upd_idem_iff)
  have vf: "bufs v = bufs u" "disk v = disk u" "dwrites v = dwrites u" "proc v = woken (ChBuf b) (proc t)"
    "vdisk v = (vdisk u)\<lparr>used_idx := (used_idx (vdisk s) + 1) mod 8, bdisk := bdisk (vdisk s)\<rparr>"
    using uf r(3,6) bd by (simp_all add: v_def completed_def write_reg_def ud)
  have 4: "pstate (proc v p) = RUNNABLE" using assms(5) by (simp add: vf(4) td(7) woken_def wake_def)
  let ?w = "(freed (upd_disk (info_b_update (\<lambda>f. f[0 := None])) (upd_proc p (pchan_update (\<lambda>_. NoChan)) (resume p v))))\<lparr>held := {}\<rparr>"
  have rd: "vdisk (resume p v) = vdisk v" by (simp add: resume_def upd_proc_def)
  have 5: "virtio_disk_rw_return b 0 (resume p v) = Inr (Returns (), ?w)"
    by (rule return_one)
      (use r(1) assms(2) in \<open>simp_all add: rd vf(5) ud in_flight_def vquiet_def Let_def\<close>, simp_all add: resume_def)
  have w: "bufs ?w = bufs u" "disk ?w = disk u" "dwrites ?w = dwrites u"
    by (simp_all add: freed_def upd_disk_def upd_proc_def resume_def vf)
  have wd: "vquiet ?w"
    using assms(2) q r(1,7-9) ring ring_succ(2) [OF q(1)] rd vf(5) ud
    by (simp add: freed_def upd_disk_def upd_proc_def vquiet_def Let_def NUM_def in_flight_def)
  have wa: "avail_idx (vdisk ?w) = avail_idx (vdisk s) + 1"
    using rv(3) rd vf(5) ud by (simp add: freed_def upd_disk_def upd_proc_def)
  have bl: "chain_block ?sec = blockno (bufs s b)" using assms(6) by (rule chain_block_sector)
  have "bufs u = bufs (disk_rw b wr s)" "disk u = disk (disk_rw b wr s)" "dwrites u = dwrites (disk_rw b wr s)"
    by (simp_all add: u_def served_fields disk_rw_fields td bl VIRTIO_BLK_T_IN_def VIRTIO_BLK_T_OUT_def)
  note fin = this
  show ?thesis
    by (rule exI [of _ t], rule exI [of _ u], rule exI [of _ v], rule exI [of _ ?w])
      (intro conjI 1 2 3 4 5 wd wa trans [OF w(1) fin(1)] trans [OF w(2) fin(2)] trans [OF w(3) fin(3)])
qed

definition sample_device :: "u16 \<Rightarrow> 'a virtio_scheme \<Rightarrow> 'a virtio_scheme option" where
  "sample_device k s =
     (let d = vdisk s; i0 = unat (avail_ring d ! (unat k mod NUM)); e0 = desc d ! i0; e1 = desc d ! unat (dnext e0);
          e2 = desc d ! unat (dnext e1) in
      if \<not> pending_request k s then None
      else case (daddr e0, daddr e1, daddr e2) of
        (Header pa ty sector, DataOf b, StatusOf j) \<Rightarrow> Some (served ty sector b j i0 s) | _ \<Rightarrow> None)"

lemma sample_device: "virtio_device sample_device"
  by (auto simp: virtio_device_def sample_device_def is_request_def Let_def)

definition virtio_sample :: virtio where
  "virtio_sample = \<lparr>held = {}, kend = 0, mem = mem one_page, freelist = 0, kernel_pagetable = 0x87ffe000, etext = 0, trampoline = 0,
     proc = (\<lambda>_. empty_proc)(0 := empty_proc\<lparr>pstate := RUNNING, pid := 1\<rparr>), me = Some 0, initproc = Some 0,
     nextpid = 2, forkret_pc = 0, ticks = 0, pipe = (\<lambda>_. new_pipe), lsr_in = [], rhr_in = [],
     regs_out = [], uart_tx_buf = replicate 32 0, uart_tx_w = 0, uart_tx_r = 0, panicked = False,
     devsw = (\<lambda>_. NoDevice), cons_buf = replicate 128 0, cons_r = 0, cons_w = 0, cons_e = 0, pr_locking = True,
     slock = (\<lambda>_. \<lparr>slocked = False, spid = 0\<rparr>), bufs = (\<lambda>_. \<lparr>valid = False, dev = 1, blockno = 33, refcnt = 0, data = []\<rparr>),
     lru = rev [0..<30], disk = (\<lambda>n. replicate 1024 (ucast n)), dwrites = [],
     log_start = 2, log_size = 30, outstanding = 0, committing = False, log_dev = 1, lh_n = 0, lh_block = replicate 30 0,
     inode = (\<lambda>_. \<lparr>idev = 0, inum = 0, iref = 0, ivalid = False, itype = 0, imajor = 0, iminor = 0, inlink = 0, isize = 0,
       addrs = replicate 13 0\<rparr>),
     sb = \<lparr>magic = 0, sb_size = 0, nblocks = 0, ninodes = 0, nlog = 0, logstart = 0, inodestart = 0, bmapstart = 0\<rparr>,
     ftable = (\<lambda>_. \<lparr>ftype = FD_NONE, fref = 0, readable = False, writable = False, fpipe = 0, fip = 0, foff = 0, fmajor = 0\<rparr>),
     stat_pad = replicate 4 0,
     vdisk = \<lparr>desc = replicate 8 \<lparr>daddr = NullAddr, dlen = 0, dflags = 0, dnext = 0\<rparr>, avail_idx = 0, avail_ring = replicate 8 0,
       used_id = 0, used_elems = replicate 8 0, vfree = replicate 8 True, used_idx = 0, info_b = replicate 8 None,
       info_status = replicate 8 0, bdisk = (\<lambda>_. False)\<rparr>,
     disk_pages = 0, mmio_in = [1], mmio_out = []\<rparr>"

lemma virtio_sample_kvmpa: "kvmpa 4000 virtio_sample = Inr 0x87ffdfa0"
proof -
  have lt: "(4000 :: u64) < MAXVA" by (simp add: MAXVA_eq)
  have l: "lookup (mem one_page) 0x87ffe000 4000 = PA2PTE 0x87ffd000 OR 0x1e OR 1" using one_page_memory(4) [OF lt] by simp
  have v: "PTE2PA (PA2PTE 0x87ffd000 OR 0x1e OR 1) = 0x87ffd000" "(PA2PTE 0x87ffd000 OR 0x1e OR 1) AND PTE_V \<noteq> 0"
    using pte_mk [of "0x1e" "0x87ffd000"] PGROUNDDOWN_id [of "0x87ffd000"] PTE_V_mk(1) [of "0x87ffd000" "0x1e"]
    by (simp_all add: page_aligned_def)
  obtain q where q: "node (mem one_page) 0x87ffe000 (vpath 4000) = Some q"
    using l v(2) by (cases "node (mem one_page) 0x87ffe000 (vpath 4000)") (auto simp: lookup_def)
  have "slot q (PX 0 4000) \<noteq> 0"
    using one_page_memory(2) node_in_pages [OF q]
    by (intro slot_nonzero PX_less) (auto dest: pt_wf_aligned pt_wf_nonzero)
  moreover have "load64 (mem one_page) (slot q (PX 0 4000)) = PA2PTE 0x87ffd000 OR 0x1e OR 1" using l q by (simp add: lookup_def)
  ultimately show ?thesis using q v lt by (simp add: kvmpa_eq) (simp add: virtio_sample_def Let_def leD)
qed

theorem disk_request_refines_witness:
  "\<exists>t u v w. virtio_disk_rw 4000 4 False virtio_sample = Inr (Returns 0, t) \<and>
    sample_device 0 (t\<lparr>held := {}\<rparr>) = Some u \<and> virtio_disk_intr u = Inr v \<and>
    virtio_disk_rw_return 4 0 (resume 0 v) = Inr (Returns (), w) \<and> data (bufs w 4) = replicate 1024 33"
proof -
  have a: "avail_idx (vdisk virtio_sample) = 0" by (simp add: virtio_sample_def)
  have "\<exists>t u v w. virtio_disk_rw 4000 4 False virtio_sample = Inr (Returns 0, t) \<and>
    sample_device (avail_idx (vdisk virtio_sample)) (t\<lparr>held := {}\<rparr>) = Some u \<and>
    virtio_disk_intr u = Inr v \<and> pstate (proc v 0) = RUNNABLE \<and>
    virtio_disk_rw_return 4 0 (resume 0 v) = Inr (Returns (), w) \<and>
    bufs w = bufs (disk_rw 4 False virtio_sample) \<and> disk w = disk (disk_rw 4 False virtio_sample) \<and>
    dwrites w = dwrites (disk_rw 4 False virtio_sample) \<and> vquiet w \<and>
    avail_idx (vdisk w) = avail_idx (vdisk virtio_sample) + 1"
    by (rule disk_request_refines [OF sample_device _ _ _ _ _ _ virtio_sample_kvmpa])
      (simp_all add: virtio_sample_def vquiet_def NUM_def NPROC_def)
  moreover have "data (bufs (disk_rw 4 False virtio_sample) 4) = replicate 1024 33"
    by (simp add: disk_rw_fields) (simp add: virtio_sample_def)
  ultimately show ?thesis unfolding a by metis
qed

end
