(* ===== verification/BlockAlloc.thy ===== *)
theory BlockAlloc
  imports Transaction Dir
begin

text \<open>
  Operations on blocks inside a system call, and the block allocator of \<^verbatim>\<open>kernel/fs.c\<close>. The steps of
  the buffer cache and the log are stated over the view of the blocks that an operation sees, the buffers it has
  locked and the room that is left in the log; \<^verbatim>\<open>balloc\<close> and \<^verbatim>\<open>bfree\<close> are shown against the
  set of free blocks that the bitmap denotes.
\<close>

subsection \<open>The blocks that an operation sees\<close>

definition view :: "'a log_scheme \<Rightarrow> u32 \<Rightarrow> u8 list" where
  "view s = (\<lambda>m. blk (log_dev s) m s)"

definition own :: "u32 \<Rightarrow> nat \<Rightarrow> 'a log_scheme \<Rightarrow> bool" where
  "own n b s \<longleftrightarrow> holds (log_dev s) n b s"

text \<open>A locked buffer that may be released: its contents are logged or are those of the disk.\<close>

definition clean :: "u32 \<Rightarrow> 'a log_scheme \<Rightarrow> bool" where
  "clean n s \<longleftrightarrow> n \<in> set (logged s) \<or> view s n = disk s n"

text \<open>
  Inside a system call that has the buffers of the blocks \<open>ls\<close> locked and room for \<open>r\<close> more
  \<^verbatim>\<open>log_write\<close>s. Three buffers remain for blocks that are only read.
\<close>

definition in_op :: "nat \<Rightarrow> u32 set \<Rightarrow> 'a log_scheme \<Rightarrow> bool" where
  "in_op r ls s \<longleftrightarrow> log_inv ls s \<and> 1 \<le> outstanding s \<and> int r \<le> log_room s \<and> lh_n s + int r + 3 \<le> int NBUF"

text \<open>What an operation on blocks leaves alone: the disk, the rest of the kernel, and the buffers locked by its caller.\<close>

definition oframe :: "u32 set \<Rightarrow> 'a log_scheme \<Rightarrow> 'a log_scheme \<Rightarrow> bool" where
  "oframe ls s t \<longleftrightarrow> lframe s t \<and> wrote [] s t \<and> set (logged s) \<subseteq> set (logged t) \<and>
     (\<forall>m\<in>ls. \<forall>c. own m c s \<longrightarrow> own m c t)"

lemma oframe_refl [simp]: "oframe ls s s"
  by (simp add: oframe_def wrote_def)

lemma oframe_trans [trans]: "oframe ls s t \<Longrightarrow> oframe ls t u \<Longrightarrow> oframe ls s u"
  unfolding oframe_def by (meson lframe_trans order_trans wrote_chain(1))

lemma oframe_mono: "oframe ls s t \<Longrightarrow> ls' \<subseteq> ls \<Longrightarrow> oframe ls' s t"
  unfolding oframe_def by blast

lemma oframe_log:
  assumes "oframe ls s t"
  shows "log_dev t = log_dev s" "log_start t = log_start s" "log_size t = log_size s"
    "outstanding t = outstanding s" "committing t = committing s" "held t = held s" "me t = me s" "disk t = disk s"
    "dwrites t = dwrites s"
  using lframe_log [of s t] wrote_disk(1) [of s t] assms by (auto simp: oframe_def wrote_def)

lemma lframe_fs:
  assumes "lframe s (t :: 'a fs_scheme)"
  shows "inode t = inode s" "sb t = sb s" "mem t = mem s" "l \<ge> NBUF \<Longrightarrow> slock t l = slock s l"
    "pid (proc t p) = pid (proc s p)" "pagetable (proc t p) = pagetable (proc s p)"
proof -
  have f: "bframe (s\<lparr>lh_n := lh_n t, lh_block := lh_block t\<rparr>) t" using assms by (simp add: lframe_def)
  then obtain sl bf lr dk dw pr where
    "t = (s\<lparr>lh_n := lh_n t, lh_block := lh_block t\<rparr>)\<lparr>slock := sl, bufs := bf, lru := lr, disk := dk, dwrites := dw, proc := pr\<rparr>"
    unfolding bframe_def by (elim conjE exE)
  show "inode t = inode s" "sb t = sb s" by (subst \<open>t = _\<close>, simp)+
  show "mem t = mem s" "pid (proc t p) = pid (proc s p)" "pagetable (proc t p) = pagetable (proc s p)"
    using bframe_proc [OF f] by simp_all
  show "l \<ge> NBUF \<Longrightarrow> slock t l = slock s l" using f by (simp add: bframe_def)
qed

lemma oframe_fs:
  assumes "oframe ls s (t :: 'a fs_scheme)"
  shows "inode t = inode s" "sb t = sb s" "mem t = mem s" "l \<ge> NBUF \<Longrightarrow> slock t l = slock s l"
    "pid (proc t p) = pid (proc s p)" "pagetable (proc t p) = pagetable (proc s p)"
  using lframe_fs [of s t] assms by (auto simp: oframe_def)

lemma clean_mono: "oframe ls s t \<Longrightarrow> view t m = view s m \<Longrightarrow> clean m s \<Longrightarrow> clean m t"
  using oframe_log [of ls s t] by (auto simp: clean_def oframe_def)

lemma in_op_inv: "in_op r ls s \<Longrightarrow> log_inv ls s"
  by (simp add: in_op_def)

lemma in_op_less: "in_op r ls s \<Longrightarrow> k \<le> r \<Longrightarrow> in_op k ls s"
  by (simp add: in_op_def)

lemma view_length: "in_op r ls s \<Longrightarrow> length (view s m) = BSIZE"
  using blk_length [OF log_inv_bc [OF in_op_inv]] by (auto simp: view_def)

lemma logged_card: "log_inv ls s \<Longrightarrow> card (set (logged s)) \<le> nat (lh_n s)"
  using card_length [of "logged s"] by (auto simp: logged_def)

subsection \<open>Steps\<close>

lemma op_bread:
  assumes "in_op r ls s" "n \<notin> ls" "card ls \<le> 2"
  obtains b t where "bread (log_dev s) n s = Inr (b, t)" "own n b t" "data (bufs t b) = view s n" "in_op r (insert n ls) t"
    "view t = view s" "oframe ls s t" "clean n t"
proof -
  note I = in_op_inv [OF assms(1)]
  have fin: "finite ls" using I by (simp add: log_inv_def bc_def)
  have "card (set (logged s) \<union> ls) \<le> card (set (logged s)) + card ls" by (rule card_Un_le)
  then have "card (set (logged s) \<union> ls) < NBUF"
    using logged_card [OF I] assms(1,3) by (auto simp: in_op_def log_inv_def)
  then obtain b t where 1: "bread (log_dev s) n s = Inr (b, t)" "holds (log_dev s) n b t" "data (bufs t b) = blk (log_dev s) n s"
    "log_inv (insert n ls) t" "\<And>m. blk (log_dev s) m t = blk (log_dev s) m s" "bframe s t" "wrote [] s t"
    "\<And>m c. m \<in> ls \<Longrightarrow> holds (log_dev s) m c s \<Longrightarrow> holds (log_dev s) m c t" "logged t = logged s"
    by (rule log_bread_step [OF I assms(2)]) blast
  note f = bframe_log [OF 1(6)]
  have v: "view t = view s" using 1(5) by (simp add: view_def f)
  show thesis
  proof (rule that [OF 1(1)])
    show "in_op r (insert n ls) t" using assms(1) 1(4) log_room_bframe [OF 1(6)] by (simp add: in_op_def f)
    show "oframe ls s t" using 1(7,8,9) lframe_bframe [OF 1(6)] by (simp add: oframe_def own_def f)
    have "n \<in> set (logged s) \<or> blk (log_dev s) n s = disk s n"
      using blk_clean [OF log_inv_bc [OF I], of n] assms(2) by auto
    then show "clean n t" using 1(9) wrote_disk(1) [OF 1(7)] by (simp add: clean_def v) (simp add: view_def)
  qed (use 1(2,3) v in \<open>simp_all add: own_def f view_def\<close>)
qed

lemma op_brelse:
  assumes "in_op r ls s" "own n b s" "n \<in> ls" "clean n s"
  obtains t where "brelse b s = Inr t" "in_op r (ls - {n}) t" "view t = view s" "oframe ls s t"
proof -
  note I = in_op_inv [OF assms(1)]
  obtain t where 1: "brelse b s = Inr t" "log_inv (ls - {n}) t" "\<And>m. blk (log_dev s) m t = blk (log_dev s) m s" "bframe s t"
    "wrote [] s t" "\<And>m c. holds (log_dev s) m c t \<longleftrightarrow> holds (log_dev s) m c s" "logged t = logged s"
    by (rule log_brelse_step [OF I]) (use assms(2-4) in \<open>auto simp: own_def clean_def view_def\<close>)
  note f = bframe_log [OF 1(4)]
  show thesis
  proof (rule that [OF 1(1)])
    show "in_op r (ls - {n}) t" using assms(1) 1(2) log_room_bframe [OF 1(4)] by (simp add: in_op_def f)
    show "oframe ls s t" using 1(5-7) lframe_bframe [OF 1(4)] by (simp add: oframe_def own_def f)
  qed (use 1(3) in \<open>simp add: view_def f\<close>)
qed

lemma op_set_data:
  assumes "in_op r ls s" "own n b s" "n \<in> ls" "length x = BSIZE"
  shows "in_op r ls (set_data b x s)" "view (set_data b x s) = (view s)(n := x)" "oframe ls s (set_data b x s)"
    "own m c (set_data b x s) \<longleftrightarrow> own m c s"
proof -
  note 1 = log_set_data_step [OF in_op_inv [OF assms(1)] assms(2) [unfolded own_def] assms(3,4)]
  note f = bframe_log [OF 1(3)]
  show "in_op r ls (set_data b x s)" using assms(1) 1(1) log_room_bframe [OF 1(3)] by (simp add: in_op_def f)
  show "view (set_data b x s) = (view s)(n := x)" using 1(2) by (auto simp: view_def f)
  show h: "own m c (set_data b x s) \<longleftrightarrow> own m c s" for m c using 1(5) by (simp add: own_def f)
  show "oframe ls s (set_data b x s)" using 1(4,6) lframe_bframe [OF 1(3)] h by (simp add: oframe_def)
qed

lemma op_log_write:
  assumes "in_op (Suc r) ls s" "own n b s" "n \<in> ls" "n \<notin> log_area (log_start s)"
  obtains t where "log_write b s = Inr t" "in_op r ls t" "view t = view s" "oframe ls s t" "clean n t" "\<And>m c. own m c t \<longleftrightarrow> own m c s"
proof -
  have pre: "1 \<le> outstanding s" "0 < log_room s" using assms(1) by (simp_all add: in_op_def)
  obtain t where 1: "log_write b s = Inr t" "log_inv ls t" "n \<in> set (logged t)" "set (logged t) = insert n (set (logged s))"
    "\<And>m. blk (log_dev s) m t = blk (log_dev s) m s" "lframe s t" "wrote [] s t" "\<And>d m c. holds d m c t \<longleftrightarrow> holds d m c s"
    "log_room s - 1 \<le> log_room t"
    by (rule log_write_step [OF in_op_inv [OF assms(1)] assms(2) [unfolded own_def] assms(3,4) pre]) blast
  note f = lframe_log [OF 1(6)]
  show thesis
  proof (rule that [OF 1(1)])
    show "in_op r ls t" using assms(1) 1(2,9) by (auto simp: in_op_def f log_room_def split: if_splits)
    show "oframe ls s t" using 1(4,6,7,8) by (auto simp: oframe_def own_def f)
  qed (use 1(3,5,8) in \<open>simp_all add: clean_def view_def own_def f\<close>)
qed

subsection \<open>The bitmap\<close>

lemma and_push_bit_1: "k < LENGTH('a) \<Longrightarrow> (x :: 'a::len word) AND push_bit k 1 = 0 \<longleftrightarrow> \<not> bit x k"
  by (auto simp: bit_eq_iff [of "x AND 2 ^ k"] bit_and_iff bit_exp_iff)

lemma bit_free_iff: "bit_free bs i \<longleftrightarrow> \<not> bit (bs ! (i div 8)) (i mod 8)"
  unfolding bit_free_def by (rule and_push_bit_1) simp

lemma bit_free_mark:
  assumes "i < 8 * length bs"
  shows "bit_free (mark_used bs i) j \<longleftrightarrow> j \<noteq> i \<and> bit_free bs j"
    "bit_free (mark_free bs i) j \<longleftrightarrow> j = i \<or> bit_free bs j"
proof -
  have d: "j div 8 = i div 8 \<Longrightarrow> j mod 8 = i mod 8 \<longleftrightarrow> j = i" by (metis div_mult_mod_eq)
  have l: "i div 8 < length bs" using assms by simp
  have u: "bit (push_bit (i mod 8) 1 :: u8) (j mod 8) \<longleftrightarrow> j mod 8 = i mod 8"
    using bit_push_bit_iff [of "i mod 8" "1 :: u8" "j mod 8"] by (auto simp: bit_1_iff)
  have bs: "bit ((bs ! (i div 8)) OR push_bit (i mod 8) 1) (j mod 8) \<longleftrightarrow> bit (bs ! (i div 8)) (j mod 8) \<or> j mod 8 = i mod 8"
    "bit ((bs ! (i div 8)) AND NOT (push_bit (i mod 8) 1)) (j mod 8) \<longleftrightarrow> bit (bs ! (i div 8)) (j mod 8) \<and> j mod 8 \<noteq> i mod 8"
    by (simp_all only: bit_or_iff bit_and_iff bit_not_iff u) simp_all
  show "bit_free (mark_used bs i) j \<longleftrightarrow> j \<noteq> i \<and> bit_free bs j"
    "bit_free (mark_free bs i) j \<longleftrightarrow> j = i \<or> bit_free bs j"
    unfolding bit_free_iff mark_used_def mark_free_def using d l bs
    by (cases "j div 8 = i div 8"; simp del: push_bit_of_1; blast)+
qed

definition bitmap_blocks :: "superblock \<Rightarrow> u32 set" where
  "bitmap_blocks q = (\<lambda>b. BBLOCK b q) ` {b. b < sb_size q}"

definition free_blocks :: "'a fs_scheme \<Rightarrow> u32 set" where
  "free_blocks s = {b. b < sb_size (sb s) \<and> bit_free (view s (BBLOCK b (sb s))) (unat b mod BPB)}"

text \<open>
  The bitmap lies outside the log, and no block of the log or of the bitmap is free. Block numbers fit in an
  \<^verbatim>\<open>int\<close>.
\<close>

definition bitmap_ok :: "'a fs_scheme \<Rightarrow> bool" where
  "bitmap_ok s \<longleftrightarrow> sb_size (sb s) < 2 ^ 31 \<and> bitmap_blocks (sb s) \<inter> log_area (log_start s) = {} \<and>
     free_blocks s \<inter> (log_area (log_start s) \<union> bitmap_blocks (sb s)) = {}"

lemma bit_index: "unat b mod BPB < 8 * BSIZE" "unat b mod BPB < BPB"
  by (simp_all add: BPB_def BSIZE_def)

lemma BBLOCK_eq: "BBLOCK b q = BBLOCK c q \<longleftrightarrow> unat b div BPB = unat c div BPB"
proof -
  have "BBLOCK b q = BBLOCK c q \<longleftrightarrow> b div 8192 = c div 8192" by (simp add: BBLOCK_def BPB_def BSIZE_def)
  also have "\<dots> \<longleftrightarrow> unat (b div 8192) = unat (c div 8192)" by (simp only: word_unat_eq_iff)
  finally show ?thesis by (simp add: unat_div_distrib BPB_def BSIZE_def)
qed

lemma BBLOCK_same: "BBLOCK b q = BBLOCK c q \<Longrightarrow> unat b mod BPB = unat c mod BPB \<longleftrightarrow> b = c"
  unfolding BBLOCK_eq by (metis div_mult_mod_eq word_unat_eq_iff)

lemma BBLOCK_bitmap: "b < sb_size q \<Longrightarrow> BBLOCK b q \<in> bitmap_blocks q"
  by (auto simp: bitmap_blocks_def)

text \<open>Taking and giving back a block.\<close>

lemma free_blocks_take:
  assumes "b \<in> free_blocks s" "bitmap_ok s" "in_op r ls s" "sb t = sb s"
    "view t = (view s)(BBLOCK b (sb s) := mark_used (view s (BBLOCK b (sb s))) (unat b mod BPB), b := x)"
  shows "free_blocks t = free_blocks s - {b}"
proof -
  have b: "b \<notin> bitmap_blocks (sb s)" using assms(1,2) by (auto simp: bitmap_ok_def)
  have len: "unat b mod BPB < 8 * length (view s m)" for m using view_length [OF assms(3)] bit_index by simp
  have "bit_free (view t (BBLOCK c (sb s))) (unat c mod BPB) \<longleftrightarrow>
      c \<noteq> b \<and> bit_free (view s (BBLOCK c (sb s))) (unat c mod BPB)" if "c < sb_size (sb s)" for c
  proof -
    have "BBLOCK c (sb s) \<noteq> b" using b BBLOCK_bitmap [OF that] by auto
    then show ?thesis using bit_free_mark(1) [OF len] BBLOCK_same [of c "sb s" b] by (auto simp: assms(5))
  qed
  then show ?thesis by (auto simp: free_blocks_def assms(4))
qed

lemma free_blocks_give:
  assumes "b < sb_size (sb s)" "in_op r ls s" "sb t = sb s"
    "view t = (view s)(BBLOCK b (sb s) := mark_free (view s (BBLOCK b (sb s))) (unat b mod BPB))"
  shows "free_blocks t = insert b (free_blocks s)"
proof -
  have len: "unat b mod BPB < 8 * length (view s m)" for m using view_length [OF assms(2)] bit_index by simp
  have "bit_free (view t (BBLOCK c (sb s))) (unat c mod BPB) \<longleftrightarrow>
      c = b \<or> bit_free (view s (BBLOCK c (sb s))) (unat c mod BPB)" for c
    using bit_free_mark(2) [OF len] BBLOCK_same [of c "sb s" b] by (auto simp: assms(4))
  then show ?thesis using assms(1) by (auto simp: free_blocks_def assms(3))
qed

lemma length_mark [simp]: "length (mark_used bs i) = length bs" "length (mark_free bs i) = length bs"
  by (simp_all add: mark_used_def mark_free_def)

subsection \<open>Updates of one block\<close>

text \<open>\<^verbatim>\<open>log_write\<close> and \<^verbatim>\<open>brelse\<close> of a buffer whose data has been changed.\<close>

lemma op_store:
  assumes "in_op (Suc r) ls s" "own n b s" "n \<in> ls" "n \<notin> log_area (log_start s)" "length x = BSIZE"
  obtains t u where "log_write b (set_data b x s) = Inr t" "brelse b t = Inr u" "in_op r (ls - {n}) u"
    "view u = (view s)(n := x)" "oframe ls s u" "in_op r ls t" "view t = (view s)(n := x)" "oframe ls s t" "own n b t" "clean n t"
proof -
  note 1 = op_set_data [OF assms(1-3,5)]
  obtain t where 2: "log_write b (set_data b x s) = Inr t" "in_op r ls t" "view t = view (set_data b x s)"
    "oframe ls (set_data b x s) t" "clean n t" "\<And>m c. own m c t \<longleftrightarrow> own m c (set_data b x s)"
    by (rule op_log_write [OF 1(1), of n b]) (use assms(2-4) oframe_log [OF 1(3)] 1(4) in auto)
  have "own n b t" using assms(2) 1(4) 2(6) by simp
  from op_brelse [OF 2(2) this assms(3) 2(5)] obtain u where
    3: "brelse b t = Inr u" "in_op r (ls - {n}) u" "view u = view t" "oframe ls t u" by blast
  show thesis by (rule that [OF 2(1) 3(1,2)]) (use 1 2 3 assms(2) in \<open>auto intro: oframe_trans\<close>)
qed

lemma op_bzero:
  assumes "in_op (Suc r) ls s" "n \<notin> ls" "card ls \<le> 2" "n \<notin> log_area (log_start s)" "d = log_dev s"
  obtains t where "bzero d n s = Inr t" "in_op r ls t" "view t = (view s)(n := replicate BSIZE 0)" "oframe ls s t"
proof -
  obtain b t where 1: "bread (log_dev s) n s = Inr (b, t)" "own n b t" "in_op (Suc r) (insert n ls) t" "view t = view s" "oframe ls s t"
    by (rule op_bread [OF assms(1-3)]) blast
  obtain u v where 2: "log_write b (set_data b (replicate BSIZE 0) t) = Inr u" "brelse b u = Inr v"
    "in_op r (insert n ls - {n}) v" "view v = (view t)(n := replicate BSIZE 0)" "oframe (insert n ls) t v"
    by (rule op_store [OF 1(3,2), of "replicate BSIZE 0"]) (use assms(4) oframe_log [OF 1(5)] in auto)
  show thesis
    by (rule that [of v]) (use 1 2 assms(2,5) in \<open>auto simp: bzero_def intro: oframe_trans oframe_mono\<close>)
qed

lemma find_upt: "find P [0..<n] = Some i \<longleftrightarrow> i < n \<and> P i \<and> (\<forall>j<i. \<not> P j)"
  by (auto simp: find_Some_iff)

text \<open>The bits that one round of the loop of \<^verbatim>\<open>balloc\<close> looks at.\<close>

lemma scan_bit:
  assumes "sb_size (sb s) < 2 ^ 31" "BPB dvd b" "i < BPB" "b + i < unat (sb_size (sb s))"
  shows "bit_free (view s (BBLOCK (of_nat b) (sb s))) i \<longleftrightarrow> of_nat (b + i) \<in> free_blocks s"
    "BBLOCK (of_nat (b + i)) (sb s) = BBLOCK (of_nat b) (sb s)" "unat (of_nat (b + i) :: u32) = b + i"
    "unat (of_nat (b + i) :: u32) mod BPB = i"
proof -
  have lt: "b + i < 2 ^ 31" using assms(1,4) by (simp add: word_less_nat_alt)
  then show u: "unat (of_nat (b + i) :: u32) = b + i" by (intro unat_of_nat_small) simp
  have u0: "unat (of_nat b :: u32) = b" using lt by (intro unat_of_nat_small) simp
  from assms(2) obtain k where b: "b = BPB * k" by (rule dvdE)
  show B: "BBLOCK (of_nat (b + i)) (sb s) = BBLOCK (of_nat b) (sb s)"
    unfolding BBLOCK_eq u u0 using assms(3) by (simp add: b)
  show m: "unat (of_nat (b + i) :: u32) mod BPB = i" unfolding u using assms(3) by (simp add: b)
  have "of_nat (b + i) < sb_size (sb s)" using assms(4) unfolding word_less_nat_alt u .
  then show "bit_free (view s (BBLOCK (of_nat b) (sb s))) i \<longleftrightarrow> of_nat (b + i) \<in> free_blocks s"
    unfolding free_blocks_def mem_Collect_eq B m by simp
qed

lemma scan_hit:
  assumes "bitmap_ok s" "BPB dvd b" "\<forall>c\<in>free_blocks s. b \<le> unat c"
    "find (bit_free (view s (BBLOCK (of_nat b) (sb s)))) [0..<min BPB (unat (sb_size (sb s)) - b)] = Some i"
  shows "of_nat (b + i) \<in> free_blocks s" "\<forall>c\<in>free_blocks s. of_nat (b + i) \<le> c" "i < BPB" "b + i < unat (sb_size (sb s))"
proof -
  have sz: "sb_size (sb s) < 2 ^ 31" using assms(1) by (simp add: bitmap_ok_def)
  from assms(4) have i: "i < BPB" "b + i < unat (sb_size (sb s))" "bit_free (view s (BBLOCK (of_nat b) (sb s))) i"
    "\<And>j. j < i \<Longrightarrow> \<not> bit_free (view s (BBLOCK (of_nat b) (sb s))) j" by (auto simp: find_upt)
  show "i < BPB" "b + i < unat (sb_size (sb s))" by (rule i)+
  note at = scan_bit [OF sz assms(2)]
  show "of_nat (b + i) \<in> free_blocks s" using at(1) [OF i(1,2)] i(3) by simp
  show "\<forall>c\<in>free_blocks s. of_nat (b + i) \<le> c"
  proof (intro ballI, rule ccontr)
    fix c assume c: "c \<in> free_blocks s" "\<not> of_nat (b + i) \<le> c"
    then have le: "b \<le> unat c" "unat c < b + i"
      using assms(3) at(3) [OF i(1,2)] by (auto simp: word_le_nat_alt)
    define j where "j = unat c - b"
    have j: "j < i" "b + j = unat c" using le by (auto simp: j_def)
    then have "bit_free (view s (BBLOCK (of_nat b) (sb s))) j"
      using at(1) [of j] i(1,2) c(1) by simp
    with i(4) j(1) show False by blast
  qed
qed

lemma scan_miss:
  assumes "bitmap_ok s" "BPB dvd b" "\<forall>c\<in>free_blocks s. b \<le> unat c"
    "find (bit_free (view s (BBLOCK (of_nat b) (sb s)))) [0..<min BPB (unat (sb_size (sb s)) - b)] = None"
  shows "\<forall>c\<in>free_blocks s. b + BPB \<le> unat c"
proof (intro ballI, rule ccontr)
  fix c assume c: "c \<in> free_blocks s" "\<not> b + BPB \<le> unat c"
  then have le: "b \<le> unat c" "unat c < b + BPB" "unat c < unat (sb_size (sb s))"
    using assms(3) by (auto simp: free_blocks_def word_less_nat_alt)
  define j where "j = unat c - b"
  have j: "j < BPB" "b + j = unat c" using le by (auto simp: j_def)
  have "sb_size (sb s) < 2 ^ 31" using assms(1) by (simp add: bitmap_ok_def)
  from scan_bit(1) [OF this assms(2) j(1)] j(2) le(3) c(1)
  have "bit_free (view s (BBLOCK (of_nat b) (sb s))) j" by simp
  with assms(4) le(3) j show False by (auto simp: find_None_iff)
qed

lemma bitmap_ok_view:
  assumes "view t = view s" "sb t = sb s" "log_start t = log_start s"
  shows "free_blocks t = free_blocks s" "bitmap_ok t = bitmap_ok s"
  using assms by (simp_all add: free_blocks_def bitmap_ok_def)

lemma balloc_loop_finds:
  assumes "in_op (Suc (Suc r)) ls s" "card ls \<le> 2" "ls \<inter> bitmap_blocks (sb s) = {}" "ls \<inter> free_blocks s = {}"
    "bitmap_ok s" "BPB dvd b" "\<forall>c\<in>free_blocks s. b \<le> unat c" "free_blocks s \<noteq> {}"
  shows "\<exists>a t. balloc_loop (log_dev s) (unat (sb_size (sb s))) b s = Inr (a, t) \<and> a \<in> free_blocks s \<and>
    (\<forall>c\<in>free_blocks s. a \<le> c) \<and> in_op r ls t \<and> oframe ls s t \<and>
    view t = (view s)(BBLOCK a (sb s) := mark_used (view s (BBLOCK a (sb s))) (unat a mod BPB), a := replicate BSIZE 0)"
  using assms
proof (induction "unat (sb_size (sb s)) - b" arbitrary: b s rule: less_induct)
  case less
  note ok = less.prems(5)
  let ?d = "log_dev s" and ?lim = "unat (sb_size (sb s))" and ?n = "BBLOCK (of_nat b) (sb s)"
  from less.prems(8) obtain c where c: "c \<in> free_blocks s" by blast
  have lim: "b < ?lim" "?lim < 2 ^ 31"
    using less.prems(7) c ok by (force simp: free_blocks_def word_less_nat_alt bitmap_ok_def)+
  have "of_nat b < sb_size (sb s)" using lim by (simp add: word_less_nat_alt unat_of_nat_small)
  then have n: "?n \<in> bitmap_blocks (sb s)" by (rule BBLOCK_bitmap)
  have nls: "?n \<notin> ls" using n less.prems(3) by blast
  obtain bp t where 1: "bread ?d ?n s = Inr (bp, t)" "own ?n bp t" "data (bufs t bp) = view s ?n"
    "in_op (Suc (Suc r)) (insert ?n ls) t" "view t = view s" "oframe ls s t" "clean ?n t"
    by (rule op_bread [OF less.prems(1) nls less.prems(2)])
  note f = oframe_log [OF 1(6)] oframe_fs [OF 1(6)]
  show ?case
  proof (cases "find (bit_free (view s ?n)) [0..<min BPB (?lim - b)]")
    case None
    obtain u where u: "brelse bp t = Inr u" "in_op (Suc (Suc r)) (insert ?n ls - {?n}) u" "view u = view t" "oframe (insert ?n ls) t u"
      by (rule op_brelse [OF 1(4,2) _ 1(7)]) auto
    note g = oframe_log [OF u(4)] oframe_fs [OF u(4)]
    have fr: "free_blocks u = free_blocks s" "bitmap_ok u = bitmap_ok s" by (rule bitmap_ok_view; simp add: 1(5) u(3) f g)+
    have ou: "oframe ls s u" using 1(6) oframe_mono [OF u(4)] by (auto intro: oframe_trans)
    have "\<exists>a t. balloc_loop (log_dev u) (unat (sb_size (sb u))) (b + BPB) u = Inr (a, t) \<and> a \<in> free_blocks u \<and>
      (\<forall>c\<in>free_blocks u. a \<le> c) \<and> in_op r ls t \<and> oframe ls u t \<and>
      view t = (view u)(BBLOCK a (sb u) := mark_used (view u (BBLOCK a (sb u))) (unat a mod BPB), a := replicate BSIZE 0)"
    proof (rule less.hyps)
      show "unat (sb_size (sb u)) - (b + BPB) < ?lim - b" using lim by (simp add: f g BPB_def BSIZE_def)
      show "\<forall>c\<in>free_blocks u. b + BPB \<le> unat c" using scan_miss [OF ok less.prems(6,7) None] by (simp add: fr)
    qed (use u(2) nls less.prems in \<open>simp_all add: fr f g\<close>)
    then obtain a v where v: "balloc_loop ?d ?lim (b + BPB) u = Inr (a, v)" "a \<in> free_blocks s" "\<forall>c\<in>free_blocks s. a \<le> c"
      "in_op r ls v" "oframe ls u v"
      "view v = (view s)(BBLOCK a (sb s) := mark_used (view s (BBLOCK a (sb s))) (unat a mod BPB), a := replicate BSIZE 0)"
      by (auto simp only: fr f g 1(5) u(3))
    have "balloc_loop ?d ?lim b s = Inr (a, v)" using 1(1,3) u(1) v(1) None lim by (subst balloc_loop.simps) simp
    then show ?thesis using v(2-6) oframe_trans [OF ou v(5)] by blast
  next
    case (Some i)
    note hit = scan_hit [OF ok less.prems(6,7) Some]
    let ?a = "of_nat (b + i) :: u32" and ?x = "mark_used (view s ?n) i"
    have sz: "sb_size (sb s) < 2 ^ 31" using ok by (simp add: bitmap_ok_def)
    note at = scan_bit [OF sz less.prems(6) hit(3,4)]
    have nl: "?n \<notin> log_area (log_start s)" using n ok by (auto simp: bitmap_ok_def)
    obtain u v where 2: "log_write bp (set_data bp ?x t) = Inr u" "brelse bp u = Inr v"
      "in_op (Suc r) (insert ?n ls - {?n}) v" "view v = (view t)(?n := ?x)" "oframe (insert ?n ls) t v"
      by (rule op_store [OF 1(4,2), of ?x]) (use nl view_length [OF less.prems(1)] f in auto)
    note g = oframe_log [OF 2(5)] oframe_fs [OF 2(5)]
    have a: "?a \<notin> ls" "?a \<notin> log_area (log_start s)" using hit(1) less.prems(4) ok by (auto simp: bitmap_ok_def)
    obtain w where 3: "bzero ?d ?a v = Inr w" "in_op r ls w" "view w = (view v)(?a := replicate BSIZE 0)" "oframe ls v w"
      by (rule op_bzero [of r ls v ?a ?d]) (use 2(3) nls less.prems(2) a in \<open>auto simp: f g\<close>)
    have "oframe ls s w" using 1(6) 2(5) 3(4) by (meson oframe_mono oframe_trans subset_insertI)
    moreover have "balloc_loop ?d ?lim b s = Inr (?a, w)" using 1(1,3,5) 2(1,2) 3(1) Some lim
      by (subst balloc_loop.simps) simp
    moreover have "view w = (view s)(BBLOCK ?a (sb s) := mark_used (view s (BBLOCK ?a (sb s))) (unat ?a mod BPB),
        ?a := replicate BSIZE 0)"
      unfolding at(2,4) by (simp only: 3(3) 2(4) 1(5))
    ultimately show ?thesis using hit(1,2) 3(2) by blast
  qed
qed

lemma balloc_loop_panics:
  assumes "in_op r ls s" "card ls \<le> 2" "ls \<inter> bitmap_blocks (sb s) = {}" "bitmap_ok s" "BPB dvd b" "free_blocks s = {}"
  shows "balloc_loop (log_dev s) (unat (sb_size (sb s))) b s = Inl (Panic ''balloc: out of blocks'')"
  using assms
proof (induction "unat (sb_size (sb s)) - b" arbitrary: b s rule: less_induct)
  case less
  let ?d = "log_dev s" and ?lim = "unat (sb_size (sb s))" and ?n = "BBLOCK (of_nat b) (sb s)"
  show ?case
  proof (cases "b < ?lim")
    case True
    have lim: "?lim < 2 ^ 31" using less.prems(4) by (simp add: bitmap_ok_def word_less_nat_alt)
    then have "of_nat b < sb_size (sb s)" using True by (simp add: word_less_nat_alt unat_of_nat_small)
    then have nls: "?n \<notin> ls" using less.prems(3) BBLOCK_bitmap by blast
    obtain bp t where 1: "bread ?d ?n s = Inr (bp, t)" "own ?n bp t" "data (bufs t bp) = view s ?n"
      "in_op r (insert ?n ls) t" "view t = view s" "oframe ls s t" "clean ?n t"
      by (rule op_bread [OF less.prems(1) nls less.prems(2)])
    note f = oframe_log [OF 1(6)] oframe_fs [OF 1(6)]
    obtain u where u: "brelse bp t = Inr u" "in_op r (insert ?n ls - {?n}) u" "view u = view t" "oframe (insert ?n ls) t u"
      by (rule op_brelse [OF 1(4,2) _ 1(7)]) auto
    note g = oframe_log [OF u(4)] oframe_fs [OF u(4)]
    have fr: "free_blocks u = free_blocks s" "bitmap_ok u = bitmap_ok s" by (rule bitmap_ok_view; simp add: 1(5) u(3) f g)+
    have "balloc_loop (log_dev u) (unat (sb_size (sb u))) (b + BPB) u = Inl (Panic ''balloc: out of blocks'')"
      by (rule less.hyps) (use True u(2) nls less.prems in \<open>simp_all add: fr f g BPB_def BSIZE_def\<close>)
    moreover have "find (bit_free (view s ?n)) [0..<min BPB (?lim - b)] = None"
      using scan_hit(1) [OF less.prems(4,5)] less.prems(6) by (cases "find (bit_free (view s ?n)) [0..<min BPB (?lim - b)]") auto
    ultimately show ?thesis using 1(1,3) u(1) True lim by (subst balloc_loop.simps) (simp add: f g)
  qed (subst balloc_loop.simps, simp)
qed

lemma op_balloc:
  assumes "in_op (Suc (Suc r)) ls s" "card ls \<le> 2" "ls \<inter> bitmap_blocks (sb s) = {}" "ls \<inter> free_blocks s = {}"
    "bitmap_ok s" "free_blocks s \<noteq> {}"
  obtains a t where "balloc (log_dev s) s = Inr (a, t)" "a \<in> free_blocks s" "\<forall>c\<in>free_blocks s. a \<le> c" "in_op r ls t"
    "oframe ls s t" "free_blocks t = free_blocks s - {a}" "view t a = replicate BSIZE 0"
    "\<And>m. m \<noteq> a \<Longrightarrow> m \<notin> bitmap_blocks (sb s) \<Longrightarrow> view t m = view s m"
proof -
  obtain a t where t: "balloc (log_dev s) s = Inr (a, t)" "a \<in> free_blocks s" "\<forall>c\<in>free_blocks s. a \<le> c" "in_op r ls t"
    "oframe ls s t"
    "view t = (view s)(BBLOCK a (sb s) := mark_used (view s (BBLOCK a (sb s))) (unat a mod BPB), a := replicate BSIZE 0)"
    using balloc_loop_finds [OF assms(1-5) _ _ assms(6), of 0] by (auto simp: balloc_def)
  have "BBLOCK a (sb s) \<in> bitmap_blocks (sb s)" using t(2) by (auto simp: free_blocks_def intro: BBLOCK_bitmap)
  moreover have "free_blocks t = free_blocks s - {a}"
    using free_blocks_take [OF t(2) assms(5,1) _ t(6)] oframe_fs(2) [OF t(5)] by simp
  ultimately show thesis by (intro that [OF t(1-5)]) (auto simp: t(6))
qed

lemma op_bfree:
  assumes "in_op (Suc r) ls s" "card ls \<le> 2" "ls \<inter> bitmap_blocks (sb s) = {}" "bitmap_ok s"
    "a < sb_size (sb s)" "a \<notin> free_blocks s"
  obtains t where "bfree (log_dev s) a s = Inr t" "in_op r ls t" "oframe ls s t" "free_blocks t = insert a (free_blocks s)"
    "\<And>m. m \<notin> bitmap_blocks (sb s) \<Longrightarrow> view t m = view s m"
proof -
  let ?n = "BBLOCK a (sb s)" and ?i = "unat a mod BPB"
  have n: "?n \<in> bitmap_blocks (sb s)" using assms(5) by (rule BBLOCK_bitmap)
  have nls: "?n \<notin> ls" "?n \<notin> log_area (log_start s)" using n assms(3,4) by (auto simp: bitmap_ok_def)
  obtain b t where 1: "bread (log_dev s) ?n s = Inr (b, t)" "own ?n b t" "data (bufs t b) = view s ?n"
    "in_op (Suc r) (insert ?n ls) t" "view t = view s" "oframe ls s t"
    by (rule op_bread [OF assms(1) nls(1) assms(2)]) blast
  let ?x = "mark_free (view s ?n) ?i"
  obtain u v where 2: "log_write b (set_data b ?x t) = Inr u" "brelse b u = Inr v"
    "in_op r (insert ?n ls - {?n}) v" "view v = (view t)(?n := ?x)" "oframe (insert ?n ls) t v"
    by (rule op_store [OF 1(4,2), of ?x]) (use nls(2) view_length [OF assms(1)] oframe_log [OF 1(6)] in auto)
  have o: "oframe ls s v" using 1(6) 2(5) by (meson oframe_mono oframe_trans subset_insertI)
  have "\<not> bit_free (view s ?n) ?i" using assms(5,6) by (simp add: free_blocks_def)
  then have "bfree (log_dev s) a s = Inr v" using 1(1,3) 2(1,2) by (simp add: bfree_def Let_def)
  moreover have "free_blocks v = insert a (free_blocks s)"
    by (rule free_blocks_give [OF assms(5,1)]) (use oframe_fs(2) [OF o] 1(5) 2(4) in auto)
  ultimately show thesis using n nls(1) 2(3,4) 1(5) o by (intro that [of v]) auto
qed

text \<open>
  C25. The block allocator. Inside a system call with room for two more blocks in the log, \<^verbatim>\<open>balloc\<close> returns the
  smallest free block, clears it, marks it as used, and changes no other block outside the bitmap; it panics exactly when no
  block is free. \<^verbatim>\<open>bfree\<close> of the block makes it free again, and panics if it is free.
\<close>

theorem balloc_takes_least:
  assumes "in_op 3 {} s" "bitmap_ok s"
  shows "if free_blocks s = {} then balloc (log_dev s) s = Inl (Panic ''balloc: out of blocks'')
    else \<exists>t u. balloc (log_dev s) s = Inr (Min (free_blocks s), t) \<and>
      free_blocks t = free_blocks s - {Min (free_blocks s)} \<and> view t (Min (free_blocks s)) = replicate BSIZE 0 \<and>
      (\<forall>m. m \<noteq> Min (free_blocks s) \<and> m \<notin> bitmap_blocks (sb s) \<longrightarrow> view t m = view s m) \<and>
      bfree (log_dev s) (Min (free_blocks s)) t = Inr u \<and> free_blocks u = free_blocks s \<and>
      bfree (log_dev s) (Min (free_blocks s)) u = Inl (Panic ''freeing free block'')"
proof (cases "free_blocks s = {}")
  case True
  then show ?thesis using balloc_loop_panics [OF assms(1) _ _ assms(2)] by (simp add: balloc_def)
next
  case False
  have 3: "in_op (Suc (Suc 1)) {} s" using assms(1) by (simp add: numeral_3_eq_3)
  obtain a t where t: "balloc (log_dev s) s = Inr (a, t)" "a \<in> free_blocks s" "\<forall>c\<in>free_blocks s. a \<le> c" "in_op (Suc 0) {} t"
    "oframe {} s t" "free_blocks t = free_blocks s - {a}" "view t a = replicate BSIZE 0"
    "\<And>m. m \<noteq> a \<Longrightarrow> m \<notin> bitmap_blocks (sb s) \<Longrightarrow> view t m = view s m"
    using op_balloc [OF 3 _ _ _ assms(2) False] by auto
  have a: "a = Min (free_blocks s)" using t(2,3) by (auto intro!: Min_eqI [symmetric])
  note f = oframe_log [OF t(5)] oframe_fs [OF t(5)]
  have ok: "bitmap_ok t" using assms(2) t(6) by (auto simp: bitmap_ok_def f)
  have lt: "a < sb_size (sb s)" using t(2) by (simp add: free_blocks_def)
  obtain u where u: "bfree (log_dev t) a t = Inr u" "in_op 0 {} u" "oframe {} t u" "free_blocks u = insert a (free_blocks t)"
    by (rule op_bfree [OF t(4) _ _ ok, of a]) (use t(6) lt in \<open>auto simp: f\<close>)
  note g = oframe_log [OF u(3)] oframe_fs [OF u(3)]
  have "bfree (log_dev s) a u = Inl (Panic ''freeing free block'')"
  proof -
    obtain b v where b: "bread (log_dev u) (BBLOCK a (sb u)) u = Inr (b, v)" "data (bufs v b) = view u (BBLOCK a (sb u))"
      by (rule op_bread [OF u(2)]) auto
    have "bit_free (view u (BBLOCK a (sb u))) (unat a mod BPB)" using u(4) by (auto simp: free_blocks_def)
    with b show ?thesis by (simp add: bfree_def f g Let_def)
  qed
  with False t u(1,4) show ?thesis by (auto simp: f insert_absorb simp flip: a)
qed

text \<open>A file system of 49 blocks, the last three of them free.\<close>

definition sample_map :: "u8 list" where
  "sample_map = [255, 255, 255, 255, 255, 63] @ replicate 1018 0"

definition fs_sample :: "(nat \<Rightarrow> inode) \<Rightarrow> fs" where
  "fs_sample q = log.extend (log.truncate ((boot_sample ((\<lambda>_. replicate 1024 0)(45 := sample_map)))
       \<lparr>outstanding := 1, proc := (\<lambda>_. empty_proc\<lparr>pid := 1, pagetable := 0x87ffe000\<rparr>)\<rparr>))
     (fs.fields q \<lparr>magic = FSMAGIC, sb_size = 49, nblocks = 3, ninodes = 200, nlog = 30, logstart = 2, inodestart = 32,
        bmapstart = 45\<rparr>)"

lemma fs_sample_fields:
  "log_dev (fs_sample q) = 1" "log_start (fs_sample q) = 2" "log_size (fs_sample q) = 30" "lh_n (fs_sample q) = 0"
  "outstanding (fs_sample q) = 1" "\<not> committing (fs_sample q)" "logged (fs_sample q) = []" "inode (fs_sample q) = q"
  "lh_block (fs_sample q) = replicate 30 0" "disk (fs_sample q) = (\<lambda>_. replicate 1024 0)(45 := sample_map)"
  "sb (fs_sample q) = \<lparr>magic = FSMAGIC, sb_size = 49, nblocks = 3, ninodes = 200, nlog = 30, logstart = 2, inodestart = 32,
     bmapstart = 45\<rparr>"
  by (simp_all add: fs_sample_def sample_defs fs.defs logged_def)

lemma fs_sample_bc: "bc 1 (pins {}) {} (fs_sample q)"
proof -
  have "pins {} = (\<lambda>_. 0)" by (simp add: pins_def fun_eq_iff)
  moreover have "bc 1 (\<lambda>_. 0) {} (fs_sample q)"
    by (rule bc_fresh) (auto simp: fs_sample_def sample_defs fs.defs NBUF_def BSIZE_def sample_map_def)
  ultimately show ?thesis by simp
qed

lemma fs_sample_op:
  assumes "r \<le> 27"
  shows "in_op r {} (fs_sample q)"
proof -
  have [simp]: "of_le (replicate 4 0) = 0" using of_le_zeros [of "replicate 4 ()"] by simp
  show ?thesis using assms fs_sample_bc [of q]
    by (simp add: in_op_def log_inv_def fs_sample_fields log_room_def LOGSIZE_def NBUF_def get32_def)
qed

lemma fs_sample_view: "view (fs_sample q) = (\<lambda>_. replicate 1024 0)(45 := sample_map)"
  using blk_clean [OF fs_sample_bc, of _ q] by (simp add: view_def fs_sample_fields fun_eq_iff)

lemma fs_sample_free: "free_blocks (fs_sample q) = {46, 47, 48}"
proof -
  have bits: "filter (bit_free sample_map) [0..<49] = [46, 47, 48]" unfolding sample_map_def by code_simp
  have "bit_free sample_map i \<longleftrightarrow> i \<in> {46, 47, 48}" if "i < 49" for i
    using arg_cong [OF bits, of set] that unfolding set_filter set_upt by (auto simp: set_eq_iff)
  moreover have "BBLOCK b (sb (fs_sample q)) = 45" if "b < 49" for b
  proof -
    have "b div 8192 = 0" using that by (simp add: word_unat_eq_iff unat_div_distrib word_less_nat_alt)
    then show ?thesis by (simp add: BBLOCK_def fs_sample_fields BPB_def BSIZE_def)
  qed
  moreover have "unat b mod BPB = unat b" if "b < 49" for b :: u32
    using that by (simp add: word_less_nat_alt BPB_def BSIZE_def)
  moreover have "unat b < 49" if "b < 49" for b :: u32 using that by (simp add: word_less_nat_alt)
  moreover have "sb_size (sb (fs_sample q)) = 49" "view (fs_sample q) 45 = sample_map"
    by (simp_all add: fs_sample_fields fs_sample_view)
  ultimately have "b \<in> free_blocks (fs_sample q) \<longleftrightarrow> b < 49 \<and> unat b \<in> {46, 47, 48}" for b
    unfolding free_blocks_def mem_Collect_eq by (cases "b < 49") (simp_all only: simp_thms)
  moreover have "unat b \<in> {46, 47, 48} \<longleftrightarrow> b \<in> {46, 47, 48}" for b :: u32 by (simp add: word_unat_eq_iff [of b])
  ultimately show ?thesis by (auto simp: set_eq_iff)
qed

lemma sample_area: "log_area 2 \<inter> {45, 46, 47, 48} = {}"
  by (auto simp: log_area_def LOGSIZE_def lessThan_nat_numeral lessThan_Suc)

lemma fs_sample_bitmap: "bitmap_blocks (sb (fs_sample q)) = {45}" "bitmap_ok (fs_sample q)"
proof -
  have "b div 8192 = 0" if "b < 49" for b :: u32
    using that by (simp add: word_unat_eq_iff unat_div_distrib word_less_nat_alt)
  then show b: "bitmap_blocks (sb (fs_sample q)) = {45}"
    by (auto simp: bitmap_blocks_def BBLOCK_def fs_sample_fields BPB_def BSIZE_def image_iff intro!: exI [of _ 0])
  show "bitmap_ok (fs_sample q)"
    using sample_area unfolding bitmap_ok_def b fs_sample_free by (auto simp: fs_sample_fields)
qed

theorem balloc_takes_least_witness:
  "\<exists>t u. balloc 1 (fs_sample (\<lambda>_. undefined)) = Inr (46, t) \<and> free_blocks t = {47, 48} \<and>
     view t 46 = replicate BSIZE 0 \<and> bfree 1 46 t = Inr u \<and> free_blocks u = {46, 47, 48}"
proof -
  have "Min {46, 47, 48 :: u32} = 46" by (simp add: min_def)
  moreover have "{46, 47, 48} - {46} = {47, 48 :: u32}" by auto
  ultimately show ?thesis
    using balloc_takes_least [OF fs_sample_op [of 3] fs_sample_bitmap(2), of "\<lambda>_. undefined"]
    by (simp add: fs_sample_free fs_sample_fields) blast
qed

end
