(* ===== verification/FileData.thy ===== *)
theory FileData
  imports BlockAlloc
begin

text \<open>
  The contents of files: \<^verbatim>\<open>bmap\<close>, \<^verbatim>\<open>readi\<close>, \<^verbatim>\<open>writei\<close> and \<^verbatim>\<open>iupdate\<close> of
  \<^verbatim>\<open>kernel/fs.c\<close> against a file as a sequence of bytes, with the invariant of inodes that they rely on and keep.
\<close>

subsection \<open>The blocks of a file\<close>

text \<open>
  The address in slot \<open>i\<close> of an inode: block \<open>i\<close> of the file for \<open>i < MAXFILE\<close>, in the inode or in the
  indirect block, and the indirect block itself for \<open>i = MAXFILE\<close>.
\<close>

definition slot_addr :: "(u32 \<Rightarrow> u8 list) \<Rightarrow> inode \<Rightarrow> nat \<Rightarrow> u32" where
  "slot_addr V q i =
     (if i < NDIRECT then addrs q ! i
      else if i \<ge> MAXFILE then addrs q ! NDIRECT
      else if addrs q ! NDIRECT = 0 then 0
      else get32 (V (addrs q ! NDIRECT)) (4 * (i - NDIRECT)))"

text \<open>The contents of a block of a file; a block that is not there reads as zeros.\<close>

definition file_block :: "(u32 \<Rightarrow> u8 list) \<Rightarrow> inode \<Rightarrow> nat \<Rightarrow> u8 list" where
  "file_block V q i = (if slot_addr V q i = 0 then replicate BSIZE 0 else V (slot_addr V q i))"

definition inode_blocks :: "(u32 \<Rightarrow> u8 list) \<Rightarrow> inode \<Rightarrow> u32 set" where
  "inode_blocks V q = slot_addr V q ` {..MAXFILE} - {0}"

definition inode_area :: "superblock \<Rightarrow> u32 set" where
  "inode_area q = (\<lambda>i. IBLOCK i q) ` {i. i < ninodes q}"

definition reserved :: "'a fs_scheme \<Rightarrow> u32 set" where
  "reserved s = {0, 1} \<union> log_area (log_start s) \<union> bitmap_blocks (sb s) \<union> inode_area (sb s)"

text \<open>The layout of the disk: the areas are apart, and no block of them is free.\<close>

definition layout_ok :: "'a fs_scheme \<Rightarrow> bool" where
  "layout_ok s \<longleftrightarrow> sb_size (sb s) < 2 ^ 31 \<and> log_area (log_start s) \<inter> (bitmap_blocks (sb s) \<union> inode_area (sb s)) = {} \<and>
     bitmap_blocks (sb s) \<inter> inode_area (sb s) = {} \<and> free_blocks s \<inter> reserved s = {}"

text \<open>
  An inode in memory is well formed: no block is in two slots, and its blocks are neither free nor reserved.
\<close>

definition file_ok :: "'a fs_scheme \<Rightarrow> nat \<Rightarrow> bool" where
  "file_ok s ip \<longleftrightarrow> layout_ok s \<and> idev (inode s ip) = log_dev s \<and> inum (inode s ip) < ninodes (sb s) \<and>
     length (addrs (inode s ip)) = NDIRECT + 1 \<and>
     inj_on (slot_addr (view s) (inode s ip)) {i. i \<le> MAXFILE \<and> slot_addr (view s) (inode s ip) i \<noteq> 0} \<and>
     inode_blocks (view s) (inode s ip) \<inter> (reserved s \<union> free_blocks s) = {}"

text \<open>
  What a step of an operation on the file \<open>ip\<close> leaves alone: all but its inode in memory, its blocks, the free blocks
  and the bitmap.
\<close>

definition iframe :: "u32 set \<Rightarrow> nat \<Rightarrow> 'a fs_scheme \<Rightarrow> 'a fs_scheme \<Rightarrow> bool" where
  "iframe ls ip s t \<longleftrightarrow> oframe ls (s\<lparr>inode := inode t\<rparr>) t \<and> (\<forall>j. j \<noteq> ip \<longrightarrow> inode t j = inode s j) \<and>
     free_blocks t \<subseteq> free_blocks s \<and>
     inode_blocks (view t) (inode t ip) \<subseteq> inode_blocks (view s) (inode s ip) \<union> free_blocks s \<and>
     (\<forall>m. m \<notin> bitmap_blocks (sb s) \<union> free_blocks s \<union> inode_blocks (view s) (inode s ip) \<longrightarrow> view t m = view s m)"

lemma inode_upd_view [simp]: "view (s\<lparr>inode := x\<rparr>) = view s"
  by (auto simp: view_def blk_def cached_def fun_eq_iff split: option.split)

lemma inode_upd_log [simp]:
  "log_inv ls (s\<lparr>inode := x\<rparr>) = log_inv ls s" "in_op r ls (s\<lparr>inode := x\<rparr>) = in_op r ls s"
  "own n b (s\<lparr>inode := x\<rparr>) = own n b s" "logged (s\<lparr>inode := x\<rparr>) = logged s" "clean n (s\<lparr>inode := x\<rparr>) = clean n s"
  "free_blocks (s\<lparr>inode := x\<rparr>) = free_blocks s" "reserved (s\<lparr>inode := x\<rparr>) = reserved s" "layout_ok (s\<lparr>inode := x\<rparr>) = layout_ok s"
  by (simp_all add: in_op_def log_inv_def bc_def bc_buf_def holds_def myproc_def logged_def own_def clean_def log_room_def
      free_blocks_def reserved_def layout_ok_def)

lemma layout_bitmap: "layout_ok s \<Longrightarrow> bitmap_ok s"
  by (auto simp: layout_ok_def bitmap_ok_def reserved_def)

lemma bframe_inode:
  assumes "bframe s (t :: 'a fs_scheme)"
  shows "bframe (s\<lparr>inode := x\<rparr>) (t\<lparr>inode := x\<rparr>)"
proof -
  obtain sl bf lr dk dw pr where t: "t = s\<lparr>slock := sl, bufs := bf, lru := lr, disk := dk, dwrites := dw, proc := pr\<rparr>"
    and k: "\<forall>l\<ge>NBUF. slock t l = slock s l" "\<forall>p. (proc t p)\<lparr>pstate := UNUSED\<rparr> = (proc s p)\<lparr>pstate := UNUSED\<rparr>"
    using assms unfolding bframe_def by blast
  have "t\<lparr>inode := x\<rparr> = s\<lparr>inode := x, slock := sl, bufs := bf, lru := lr, disk := dk, dwrites := dw, proc := pr\<rparr>"
    by (rule fs.equality) (simp_all add: t)
  then show ?thesis by (simp only:) (rule bframeI, use k in \<open>simp_all add: t\<close>)
qed

lemma oframe_inode:
  assumes "oframe ls s (t :: 'a fs_scheme)"
  shows "oframe ls (s\<lparr>inode := x\<rparr>) (t\<lparr>inode := x\<rparr>)"
proof -
  have f: "lframe s t" using assms by (simp add: oframe_def)
  have e: "s\<lparr>lh_n := a, lh_block := b\<rparr>\<lparr>inode := x\<rparr> = s\<lparr>inode := x\<rparr>\<lparr>lh_n := a, lh_block := b\<rparr>" for a b
    by (rule fs.equality) simp_all
  have "lframe (s\<lparr>inode := x\<rparr>) (t\<lparr>inode := x\<rparr>)"
    using bframe_inode [OF f [unfolded lframe_def], of x] unfolding lframe_def e by simp
  then show ?thesis using assms by (simp add: oframe_def wrote_def)
qed

lemma iframe_refl [simp]: "iframe ls ip s s"
  by (simp add: iframe_def)

lemma iframe_trans [trans]:
  assumes "iframe ls ip s t" "iframe ls ip t u"
  shows "iframe ls ip s u"
proof -
  have "oframe ls (s\<lparr>inode := inode u\<rparr>) (t\<lparr>inode := inode u\<rparr>)"
    using oframe_inode [of ls "s\<lparr>inode := inode t\<rparr>" t "inode u"] assms(1) by (simp add: iframe_def)
  then have "oframe ls (s\<lparr>inode := inode u\<rparr>) u" using assms(2) unfolding iframe_def by (blast intro: oframe_trans)
  moreover have "sb t = sb s" using oframe_fs(2) assms(1) unfolding iframe_def by force
  ultimately show ?thesis using assms unfolding iframe_def by (intro conjI) (blast | auto)+
qed

lemma iframe_fields:
  assumes "iframe ls ip s t"
  shows "log_dev t = log_dev s" "log_start t = log_start s" "sb t = sb s" "mem t = mem s" "disk t = disk s" "held t = held s"
    "me t = me s" "pid (proc t p) = pid (proc s p)" "pagetable (proc t p) = pagetable (proc s p)" "outstanding t = outstanding s"
    "committing t = committing s" "dwrites t = dwrites s"
  using oframe_log [of ls "s\<lparr>inode := inode t\<rparr>" t] oframe_fs [of ls "s\<lparr>inode := inode t\<rparr>" t] assms by (auto simp: iframe_def)

lemmas fs_consts = NDIRECT_def NINDIRECT_def MAXFILE_def BSIZE_def

text \<open>The result of filling an empty slot with a fresh, cleared block.\<close>

lemma fill_slot:
  assumes ok: "file_ok s ip" and a: "a \<in> free_blocks s" and fr: "free_blocks t = free_blocks s - {a}"
    and sb: "sb t = sb s" "log_start t = log_start s" "log_dev t = log_dev s"
    and ino: "inode t = (inode s)(ip := (inode s ip)\<lparr>addrs := as\<rparr>)" "length as = NDIRECT + 1"
    and i: "i \<le> MAXFILE" "slot_addr (view s) (inode s ip) i = 0"
    and slot: "\<And>j. j \<le> MAXFILE \<Longrightarrow>
      slot_addr (view t) (inode t ip) j = (if j = i then a else slot_addr (view s) (inode s ip) j)"
    and za: "view t a = replicate BSIZE 0"
    and rest: "\<And>m. m \<noteq> a \<Longrightarrow> m \<notin> bitmap_blocks (sb s) \<Longrightarrow> m = 0 \<or> m \<noteq> slot_addr (view s) (inode s ip) MAXFILE \<Longrightarrow>
      view t m = view s m"
  shows "file_ok t ip" "inode_blocks (view t) (inode t ip) = insert a (inode_blocks (view s) (inode s ip))"
    "\<And>j. j < MAXFILE \<Longrightarrow> file_block (view t) (inode t ip) j = file_block (view s) (inode s ip) j"
    "\<And>m. m \<notin> bitmap_blocks (sb s) \<union> free_blocks s \<union> inode_blocks (view s) (inode s ip) \<Longrightarrow> view t m = view s m"
proof -
  let ?S = "slot_addr (view s) (inode s ip)" and ?T = "slot_addr (view t) (inode t ip)"
  have lay: "layout_ok s" and inj: "inj_on ?S {i. i \<le> MAXFILE \<and> ?S i \<noteq> 0}"
    and dis: "inode_blocks (view s) (inode s ip) \<inter> (reserved s \<union> free_blocks s) = {}" using ok by (simp_all add: file_ok_def)
  have a0: "a \<noteq> 0" "a \<notin> reserved s" using lay a by (auto simp: layout_ok_def reserved_def)
  have mem: "?S j \<in> inode_blocks (view s) (inode s ip)" if "j \<le> MAXFILE" "?S j \<noteq> 0" for j
    using that by (auto simp: inode_blocks_def)
  have Sa: "?S j \<noteq> a" if "j \<le> MAXFILE" for j using mem [OF that] dis a a0(1) by (cases "?S j = 0") auto
  show ib: "inode_blocks (view t) (inode t ip) = insert a (inode_blocks (view s) (inode s ip))"
  proof -
    have "?T ` {..MAXFILE} - {0} = insert a (?S ` {..MAXFILE} - {0})"
      using slot i a0(1) by (auto simp: image_iff intro: bexI [of _ i])
    then show ?thesis by (simp only: inode_blocks_def)
  qed
  have "reserved t = reserved s" using sb by (simp add: reserved_def)
  moreover have "layout_ok t" using lay fr sb by (auto simp: layout_ok_def reserved_def)
  moreover have "inj_on ?T {i. i \<le> MAXFILE \<and> ?T i \<noteq> 0}"
    using inj slot Sa by (auto simp: inj_on_def)
  ultimately show "file_ok t ip"
    using ok a0(2) dis ino sb unfolding file_ok_def ib fr by auto
  show "file_block (view t) (inode t ip) j = file_block (view s) (inode s ip) j" if "j < MAXFILE" for j
  proof (cases "j = i \<or> ?S j = 0")
    case True
    then show ?thesis using slot [of j] i(2) za a0(1) that by (auto simp: file_block_def)
  next
    case False
    then have j: "?S j \<in> inode_blocks (view s) (inode s ip)" "?S j \<noteq> a" using mem Sa that by auto
    have "?S j \<noteq> ?S MAXFILE" using inj_onD [OF inj, of j MAXFILE] False that by auto
    moreover have "?S j \<notin> bitmap_blocks (sb s)" using j(1) dis by (auto simp: reserved_def)
    ultimately have "view t (?S j) = view s (?S j)" using rest j(2) by blast
    then show ?thesis using False slot [of j] that by (simp add: file_block_def)
  qed
  show "view t m = view s m" if "m \<notin> bitmap_blocks (sb s) \<union> free_blocks s \<union> inode_blocks (view s) (inode s ip)" for m
    by (rule rest) (use that a mem [of MAXFILE] in auto)
qed

text \<open>What \<^verbatim>\<open>bmap\<close> does to a file: it may fill slots, and the contents stay the same.\<close>

definition mapped :: "nat \<Rightarrow> 'a fs_scheme \<Rightarrow> 'a fs_scheme \<Rightarrow> bool" where
  "mapped ip s t \<longleftrightarrow> file_ok t ip \<and> inode t ip = (inode s ip)\<lparr>addrs := addrs (inode t ip)\<rparr> \<and>
     (\<forall>j<MAXFILE. file_block (view t) (inode t ip) j = file_block (view s) (inode s ip) j \<and>
       (slot_addr (view s) (inode s ip) j \<noteq> 0 \<longrightarrow> slot_addr (view t) (inode t ip) j = slot_addr (view s) (inode s ip) j))"

lemma mapped_refl: "file_ok s ip \<Longrightarrow> mapped ip s s"
  by (simp add: mapped_def)

lemma mapped_trans: "mapped ip s t \<Longrightarrow> mapped ip t u \<Longrightarrow> mapped ip s u"
  unfolding mapped_def
  by (intro conjI allI impI) (auto, metis inode.surjective inode.update_convs(10))

lemma slot_addr_low:
  "i < NDIRECT \<Longrightarrow> slot_addr V q i = addrs q ! i" "slot_addr V q MAXFILE = addrs q ! NDIRECT"
  "k < NINDIRECT \<Longrightarrow> slot_addr V q (NDIRECT + k) = (if addrs q ! NDIRECT = 0 then 0 else get32 (V (addrs q ! NDIRECT)) (4 * k))"
  by (simp_all add: slot_addr_def fs_consts)

definition bmap_post :: "u32 set \<Rightarrow> nat \<Rightarrow> nat \<Rightarrow> nat \<Rightarrow> nat \<Rightarrow> 'a fs_scheme \<Rightarrow> u32 \<Rightarrow> 'a fs_scheme \<Rightarrow> bool" where
  "bmap_post ls ip i r k s a t \<longleftrightarrow> a \<noteq> 0 \<and> slot_addr (view t) (inode t ip) i = a \<and> mapped ip s t \<and> iframe ls ip s t \<and>
     in_op r ls t \<and> card (free_blocks s) \<le> card (free_blocks t) + k"

lemma fill_slot_post:
  assumes "file_ok s ip" "a \<in> free_blocks s" "free_blocks t = free_blocks s - {a}" "oframe ls (s\<lparr>inode := inode t\<rparr>) t"
    "inode t = (inode s)(ip := (inode s ip)\<lparr>addrs := as\<rparr>)" "length as = NDIRECT + 1"
    "i \<le> MAXFILE" "slot_addr (view s) (inode s ip) i = 0"
    "\<And>j. j \<le> MAXFILE \<Longrightarrow>
      slot_addr (view t) (inode t ip) j = (if j = i then a else slot_addr (view s) (inode s ip) j)"
    "view t a = replicate BSIZE 0"
    "\<And>m. m \<noteq> a \<Longrightarrow> m \<notin> bitmap_blocks (sb s) \<Longrightarrow> m = 0 \<or> m \<noteq> slot_addr (view s) (inode s ip) MAXFILE \<Longrightarrow>
      view t m = view s m" "in_op r ls t"
  shows "bmap_post ls ip i r 1 s a t"
proof -
  have f: "sb t = sb s" "log_start t = log_start s" "log_dev t = log_dev s"
    using oframe_log [OF assms(4)] oframe_fs [OF assms(4)] by simp_all
  note fill = fill_slot [OF assms(1-3) f assms(5-11)]
  have "a \<noteq> 0" using assms(1,2) by (auto simp: file_ok_def layout_ok_def reserved_def)
  moreover have "mapped ip s t" using fill(1,3) assms(8,9) by (auto simp: mapped_def assms(5))
  moreover have "iframe ls ip s t" using assms(4) fill(2,4) assms(2,3) by (auto simp: iframe_def assms(5))
  moreover have "card (free_blocks s) \<le> card (free_blocks t) + 1" using assms(2,3) by simp
  moreover have "slot_addr (view t) (inode t ip) i = a" using assms(9) [OF assms(7)] by simp
  ultimately show ?thesis using assms(12) by (simp only: bmap_post_def simp_thms)
qed

lemma addrs_update_eq: "addrs_update (\<lambda>as. as[i := a]) q = q\<lparr>addrs := (addrs q)[i := a]\<rparr>"
  by (cases q) simp

subsection \<open>bmap\<close>

text \<open>The common part of the cases of \<^verbatim>\<open>bmap\<close>: a slot of the inode is filled if it is empty.\<close>

definition bmap_slot :: "nat \<Rightarrow> nat \<Rightarrow> 'a fs_scheme \<Rightarrow> (u32 \<times> 'a fs_scheme) res" where
  "bmap_slot ip i s = (let addr = addrs (inode s ip) ! i in
     if addr = 0
     then bindE (balloc (idev (inode s ip)) s) (\<lambda>(addr, s).
       Inr (addr, upd_inode ip (addrs_update (\<lambda>a. a[i := addr])) s))
     else Inr (addr, s))"

definition bmap_entry :: "nat \<Rightarrow> u32 \<Rightarrow> nat \<Rightarrow> 'a fs_scheme \<Rightarrow> (u32 \<times> 'a fs_scheme) res" where
  "bmap_entry ip ind k s = bindE (bread (idev (inode s ip)) ind s) (\<lambda>(bp, s).
     bindE (let addr = get32 (data (bufs s bp)) (4 * k) in
         if addr = 0
         then bindE (balloc (idev (inode s ip)) s) (\<lambda>(addr, s).
           bindE (log_write bp (set_data bp (put32 (4 * k) addr (data (bufs s bp))) s)) (\<lambda>s. Inr (addr, s)))
         else Inr (addr, s)) (\<lambda>(addr, s).
       bindE (brelse bp s) (\<lambda>s. Inr (addr, s))))"

lemma bmap_eq:
  assumes "i < MAXFILE"
  shows "bmap ip (of_nat i) s = (if i < NDIRECT then bmap_slot ip i s
    else bindE (bmap_slot ip NDIRECT s) (\<lambda>(ind, s). bmap_entry ip ind (i - NDIRECT) s))"
proof -
  have u: "unat (of_nat i :: u32) = i" using assms by (intro unat_of_nat_small) (simp add: fs_consts)
  have lt: "(of_nat i :: u32) < of_nat NDIRECT \<longleftrightarrow> i < NDIRECT" using u by (simp add: word_less_nat_alt fs_consts)
  show ?thesis
  proof (cases "i < NDIRECT")
    case True
    then show ?thesis using lt by (simp add: bmap_def bmap_slot_def Let_def u)
  next
    case False
    define w where "w = (of_nat i :: u32) - of_nat NDIRECT"
    have v: "unat w = i - NDIRECT" using False u unfolding w_def by (subst unat_sub) (simp_all add: word_le_nat_alt fs_consts)
    have "w < of_nat NINDIRECT" using v assms False by (simp add: word_less_nat_alt fs_consts)
    then show ?thesis using lt False
      unfolding bmap_def bmap_slot_def bmap_entry_def w_def [symmetric] Let_def v by simp
  qed
qed

lemma free_finite [simp]: "finite (free_blocks s)"
  by simp

lemma file_slot_mem:
  assumes "file_ok s ip" "i \<le> MAXFILE" "slot_addr (view s) (inode s ip) i \<noteq> 0"
  shows "slot_addr (view s) (inode s ip) i \<notin> reserved s" "slot_addr (view s) (inode s ip) i \<notin> free_blocks s"
  using assms by (auto simp: file_ok_def inode_blocks_def)

lemma NDIRECT_less: "NDIRECT < MAXFILE"
  by (simp add: fs_consts)

lemma own_data:
  assumes "in_op r ls s" "own n b s" "n \<in> ls"
  shows "data (bufs s b) = view s n"
proof -
  have bc: "bc (log_dev s) (pins (set (logged s))) ls s" using log_inv_bc [OF in_op_inv [OF assms(1)]] .
  have b: "b < NBUF" "dev (bufs s b) = log_dev s" "blockno (bufs s b) = n" using assms(2) by (simp_all add: own_def holds_def)
  have "valid (bufs s b)" using bc_bufE(4) [OF bc_bufD [OF bc b(1)] b(2,3)] assms(3) by simp
  moreover have "cached (log_dev s) n s = Some b" using bc_cached [OF bc] assms(2) by (simp add: own_def)
  ultimately show ?thesis by (simp add: view_def blk_def)
qed

lemma slot_cases:
  assumes "j \<le> MAXFILE"
  obtains "j < NDIRECT" | "j = MAXFILE" | n where "n < NINDIRECT" "j = NDIRECT + n"
  using assms that(1,2) that(3) [of "j - NDIRECT"] by (cases "j < NDIRECT"; cases "j = MAXFILE") (auto simp: MAXFILE_def)

lemma get32_zeros: "get32 (replicate BSIZE 0) off = 0"
proof -
  have "take 4 (drop off (replicate BSIZE (0 :: u8))) = map (\<lambda>_. 0) (take 4 (drop off (replicate BSIZE ())))" by simp
  then show ?thesis unfolding get32_def by (simp only: of_le_zeros)
qed

lemma bmap_slot_step:
  assumes "in_op (Suc (Suc r)) ls s" "card ls \<le> 2" "ls \<inter> (bitmap_blocks (sb s) \<union> free_blocks s) = {}" "file_ok s ip"
    "free_blocks s \<noteq> {}" "i \<le> NDIRECT"
  defines "k \<equiv> (if i < NDIRECT then i else MAXFILE)"
  obtains a t where "bmap_slot ip i s = Inr (a, t)" "bmap_post ls ip k r 1 s a t"
proof (cases "addrs (inode s ip) ! i = 0")
  case False
  have "slot_addr (view s) (inode s ip) k = addrs (inode s ip) ! i"
    using assms(6) by (auto simp: k_def slot_addr_low)
  with False show thesis
    using that [of "addrs (inode s ip) ! i" s] assms(1,4) in_op_less [OF assms(1), of r]
    by (simp add: bmap_slot_def bmap_post_def mapped_refl Let_def)
next
  case True
  note ok = assms(4)
  have lay: "layout_ok s" "idev (inode s ip) = log_dev s" "length (addrs (inode s ip)) = NDIRECT + 1"
    using ok by (simp_all add: file_ok_def)
  obtain a t where t: "balloc (log_dev s) s = Inr (a, t)" "a \<in> free_blocks s" "in_op r ls t"
    "oframe ls s t" "free_blocks t = free_blocks s - {a}" "view t a = replicate BSIZE 0"
    "\<And>m. m \<noteq> a \<Longrightarrow> m \<notin> bitmap_blocks (sb s) \<Longrightarrow> view t m = view s m"
    by (rule op_balloc [OF assms(1,2) _ _ layout_bitmap [OF lay(1)] assms(5)]) (use assms(3) in auto)
  note f = oframe_log [OF t(4)] oframe_fs [OF t(4)]
  let ?u = "upd_inode ip (addrs_update (\<lambda>as. as[i := a])) t" and ?as = "(addrs (inode s ip))[i := a]"
  have u: "view ?u = view t" "free_blocks ?u = free_blocks t" "sb ?u = sb t" "log_start ?u = log_start t" "log_dev ?u = log_dev t"
    "inode ?u = (inode s)(ip := (inode s ip)\<lparr>addrs := ?as\<rparr>)" "in_op r ls ?u"
    using t(3) by (simp_all add: upd_inode_def f addrs_update_eq)
  have a0: "a \<noteq> 0" "a \<notin> bitmap_blocks (sb s)" using lay(1) t(2) by (auto simp: layout_ok_def reserved_def)
  have slot: "slot_addr (view ?u) (inode ?u ip) j = (if j = k then a else slot_addr (view s) (inode s ip) j)"
    if "j \<le> MAXFILE" for j
  proof -
    from that show ?thesis
    proof (cases rule: slot_cases)
      case 1
      then show ?thesis using assms(6) lay(3) by (auto simp: slot_addr_low u k_def MAXFILE_def)
    next
      case 2
      then show ?thesis using assms(6) lay(3) NDIRECT_less by (auto simp: slot_addr_low u k_def)
    next
      case (3 n)
      have "k \<noteq> j" using 3 by (auto simp: k_def MAXFILE_def)
      moreover have "view t p = view s p" if "p = addrs (inode s ip) ! NDIRECT" "p \<noteq> 0" for p
        by (rule t(7)) (use that file_slot_mem [OF ok, of MAXFILE] t(2) in \<open>auto simp: slot_addr_low reserved_def\<close>)
      ultimately show ?thesis using 3(1) lay(3) assms(6) True t(6) get32_zeros a0(1)
        unfolding 3(2) by (auto simp: slot_addr_low u nth_list_update)
    qed
  qed
  have empty: "slot_addr (view s) (inode s ip) k = 0" using True assms(6) by (auto simp: k_def slot_addr_low)
  have of: "oframe ls (s\<lparr>inode := inode ?u\<rparr>) ?u" using oframe_inode [OF t(4), of "inode ?u"] by (simp add: upd_inode_def)
  have "bmap_post ls ip k r 1 s a ?u"
    by (rule fill_slot_post [OF ok t(2) _ of u(6) _ _ empty slot]) (use t(5-7) lay(3) u in \<open>auto simp: k_def MAXFILE_def\<close>)
  moreover have "bmap_slot ip i s = Inr (a, ?u)" using True t(1) lay(2) by (simp add: bmap_slot_def)
  ultimately show thesis by (rule that [rotated])
qed

lemma bmap_entry_step:
  assumes "in_op (Suc (Suc (Suc r))) ls s" "card ls \<le> 1" "ls \<inter> (bitmap_blocks (sb s) \<union> free_blocks s \<union> {p}) = {}" "file_ok s ip"
    "free_blocks s \<noteq> {}" "n < NINDIRECT" "p = addrs (inode s ip) ! NDIRECT" "p \<noteq> 0"
  obtains a t where "bmap_entry ip p n s = Inr (a, t)" "bmap_post ls ip (NDIRECT + n) r 1 s a t"
proof -
  note ok = assms(4)
  have lay: "layout_ok s" "idev (inode s ip) = log_dev s" using ok by (simp_all add: file_ok_def)
  have p: "slot_addr (view s) (inode s ip) MAXFILE = p" by (simp add: slot_addr_low assms(7))
  then have pr: "p \<notin> reserved s" "p \<notin> free_blocks s" using file_slot_mem [OF ok, of MAXFILE] assms(8) by simp_all
  let ?e = "get32 (view s p) (4 * n)"
  have pls: "p \<notin> ls" "card ls \<le> 2" using assms(2,3) by auto
  obtain b t where 1: "bread (log_dev s) p s = Inr (b, t)" "own p b t" "data (bufs t b) = view s p"
    "in_op (Suc (Suc (Suc r))) (insert p ls) t" "view t = view s" "oframe ls s t" "clean p t"
    by (rule op_bread [OF assms(1) pls])
  note f = oframe_log [OF 1(6)] oframe_fs [OF 1(6)]
  have slotn: "slot_addr (view s) (inode s ip) (NDIRECT + n) = ?e"
    using assms(6-8) by (simp add: slot_addr_low)
  show thesis
  proof (cases "?e = 0")
    case False
    obtain u where u: "brelse b t = Inr u" "in_op (Suc (Suc (Suc r))) (insert p ls - {p}) u" "view u = view t" "oframe (insert p ls) t u"
      by (rule op_brelse [OF 1(4,2) _ 1(7)]) auto
    note g = oframe_log [OF u(4)] oframe_fs [OF u(4)]
    have o: "oframe ls s u" using 1(6) u(4) by (meson oframe_mono oframe_trans subset_insertI)
    have same: "free_blocks u = free_blocks s" "layout_ok u = layout_ok s" "reserved u = reserved s"
      by (simp_all add: free_blocks_def layout_ok_def reserved_def f g u(3) 1(5))
    have "mapped ip s u" using ok by (simp add: mapped_def file_ok_def f g u(3) 1(5) same)
    moreover have "iframe ls ip s u" using o by (simp add: iframe_def f g u(3) 1(5) same)
    ultimately have "bmap_post ls ip (NDIRECT + n) r 1 s ?e u"
      using False slotn u(2) pls(1) in_op_less [OF u(2), of r] by (simp add: bmap_post_def f g u(3) 1(5) same)
    moreover have "bmap_entry ip p n s = Inr (?e, u)"
      using False 1(1,3) u(1) lay(2) by (simp add: bmap_entry_def Let_def)
    ultimately show thesis by (rule that [rotated])
  next
    case True
    have okt: "bitmap_ok t" "free_blocks t = free_blocks s" "sb t = sb s"
      using layout_bitmap [OF lay(1)] bitmap_ok_view [of t s] by (simp_all add: f 1(5))
    obtain a u where u: "balloc (log_dev t) t = Inr (a, u)" "a \<in> free_blocks t" "in_op (Suc r) (insert p ls) u"
      "oframe (insert p ls) t u" "free_blocks u = free_blocks t - {a}" "view u a = replicate BSIZE 0"
      "\<And>m. m \<noteq> a \<Longrightarrow> m \<notin> bitmap_blocks (sb t) \<Longrightarrow> view u m = view t m"
    proof (rule op_balloc [OF 1(4)])
      show "card (insert p ls) \<le> 2" using assms(2) card_insert_le_m1 [of 2 ls p] by simp
    qed (use assms(3,5) pr okt in \<open>auto simp: reserved_def\<close>)
    note g = oframe_log [OF u(4)] oframe_fs [OF u(4)]
    have pa: "p \<noteq> a" "p \<notin> bitmap_blocks (sb s)" "p \<notin> log_area (log_start s)" using pr u(2) okt by (auto simp: reserved_def)
    have own: "own p b u" using u(4) 1(2) by (auto simp: oframe_def)
    have vp: "view u p = view s p" using u(7) [of p] pa okt 1(5) by simp
    let ?x = "put32 (4 * n) a (view s p)"
    have len: "length (view s p) = BSIZE" "4 * n + 4 \<le> BSIZE" using view_length [OF assms(1)] assms(6) by (simp_all add: fs_consts)
    have du: "data (bufs u b) = view s p" using own_data [OF u(3) own] vp by simp
    obtain v w where 2: "log_write b (set_data b ?x u) = Inr v" "brelse b v = Inr w" "in_op r (insert p ls - {p}) w"
      "view w = (view u)(p := ?x)" "oframe (insert p ls) u w"
      by (rule op_store [OF u(3) own, of ?x]) (use pa len in \<open>auto simp: f g\<close>)
    note h = oframe_log [OF 2(5)] oframe_fs [OF 2(5)]
    have slot: "slot_addr (view w) (inode w ip) j = (if j = NDIRECT + n then a else slot_addr (view s) (inode s ip) j)"
      if "j \<le> MAXFILE" for j
      using that
    proof (cases rule: slot_cases)
      case (3 k)
      moreover have "4 * k + 4 \<le> BSIZE" using 3 by (simp add: fs_consts)
      ultimately show ?thesis using len assms(7,8)
        by (cases "k = n") (auto simp: slot_addr_low f g h 2(4) get32_put32_same intro!: get32_put32_other)
    next
      case 2
      moreover have "MAXFILE \<noteq> NDIRECT + n" using assms(6) by (simp add: MAXFILE_def)
      ultimately show ?thesis by (simp add: slot_addr_low f g h)
    qed (simp add: slot_addr_low f g h)
    have nle: "NDIRECT + n \<le> MAXFILE" using assms(6) by (simp add: MAXFILE_def)
    have "oframe ls (s\<lparr>inode := inode w\<rparr>) w"
      using 1(6) u(4) 2(5) by (simp add: f g h) (meson oframe_mono oframe_trans subset_insertI)
    moreover have "free_blocks w = free_blocks s - {a}"
    proof -
      have "view w (BBLOCK c (sb s)) = view u (BBLOCK c (sb s))" if "c < sb_size (sb s)" for c
        using pa(2) BBLOCK_bitmap [OF that] by (auto simp: 2(4))
      then show ?thesis using u(5) okt(2) by (auto simp: free_blocks_def f g h)
    qed
    ultimately have "bmap_post ls ip (NDIRECT + n) r 1 s a w"
      using True slotn slot u(2,6,7) 2(3,4) ok pa pls(1) assms(8) nle
      by (intro fill_slot_post [where as = "addrs (inode s ip)"]) (auto simp: okt f g h 1(5) p file_ok_def)
    moreover have "bmap_entry ip p n s = Inr (a, w)"
      using True 1(1,3) u(1) 2(1,2) lay(2) du by (simp add: bmap_entry_def Let_def f)
    ultimately show thesis by (rule that [rotated])
  qed
qed

lemma bmap_step:
  assumes "in_op (r + 5) {} s" "file_ok s ip" "2 \<le> card (free_blocks s)" "i < MAXFILE"
  obtains a t where "bmap ip (of_nat i) s = Inr (a, t)" "bmap_post {} ip i r 2 s a t"
proof (cases "i < NDIRECT")
  case True
  have pre: "in_op (Suc (Suc r)) {} s" "free_blocks s \<noteq> {}" using in_op_less [OF assms(1)] assms(3) by auto
  obtain a t where "bmap_slot ip i s = Inr (a, t)" "bmap_post {} ip (if i < NDIRECT then i else MAXFILE) r 1 s a t"
    by (rule bmap_slot_step [OF pre(1) _ _ assms(2) pre(2), of i]) (use True in auto)
  then show thesis using that [of a t] True assms(4) by (simp add: bmap_eq bmap_post_def)
next
  case False
  have 5: "in_op (Suc (Suc (r + 3))) {} s" using assms(1) by (simp add: add.commute)
  have ne: "free_blocks s \<noteq> {}" using assms(3) by auto
  obtain p t where 1: "bmap_slot ip NDIRECT s = Inr (p, t)"
    "bmap_post {} ip (if NDIRECT < NDIRECT then NDIRECT else MAXFILE) (r + 3) 1 s p t"
    by (rule bmap_slot_step [OF 5 _ _ assms(2) ne, of NDIRECT]) auto
  then have t: "p \<noteq> 0" "addrs (inode t ip) ! NDIRECT = p" "mapped ip s t" "iframe {} ip s t" "in_op (r + 3) {} t"
    "card (free_blocks s) \<le> card (free_blocks t) + 1" by (simp_all add: bmap_post_def slot_addr_low)
  have pre: "in_op (Suc (Suc (Suc r))) {} t" "file_ok t ip" "free_blocks t \<noteq> {}" "i - NDIRECT < NINDIRECT"
    using t(3,5,6) assms(3,4) False by (auto simp: mapped_def eval_nat_numeral MAXFILE_def)
  obtain a u where 2: "bmap_entry ip p (i - NDIRECT) t = Inr (a, u)" "bmap_post {} ip (NDIRECT + (i - NDIRECT)) r 1 t a u"
    by (rule bmap_entry_step [OF pre(1) _ _ pre(2-4), where p = p]) (use t(1,2) in auto)
  have "bmap_post {} ip i r 2 s a u"
    using 2(2) t(3,4,6) False by (auto simp: bmap_post_def intro: mapped_trans iframe_trans)
  moreover have "bmap ip (of_nat i) s = Inr (a, u)" using 1(1) 2(1) False assms(4) by (simp add: bmap_eq)
  ultimately show thesis by (rule that [rotated])
qed

subsection \<open>File contents\<close>

definition file_byte :: "(u32 \<Rightarrow> u8 list) \<Rightarrow> inode \<Rightarrow> nat \<Rightarrow> u8" where
  "file_byte V q x = file_block V q (x div BSIZE) ! (x mod BSIZE)"

definition file_bytes :: "(u32 \<Rightarrow> u8 list) \<Rightarrow> inode \<Rightarrow> nat \<Rightarrow> nat \<Rightarrow> u8 list" where
  "file_bytes V q x n = map (file_byte V q) [x..<x + n]"

text \<open>A file has no holes: every block below its size is there.\<close>

definition file_full :: "'a fs_scheme \<Rightarrow> nat \<Rightarrow> bool" where
  "file_full s ip \<longleftrightarrow> unat (isize (inode s ip)) \<le> MAXFILE * BSIZE \<and>
     (\<forall>i. i * BSIZE < unat (isize (inode s ip)) \<longrightarrow> slot_addr (view s) (inode s ip) i \<noteq> 0)"

lemma length_file_bytes [simp]: "length (file_bytes V q x n) = n"
  by (simp add: file_bytes_def)

lemma file_bytes_append: "file_bytes V q x (m + n) = file_bytes V q x m @ file_bytes V q (x + m) n"
proof -
  have "[x..<x + (m + n)] = [x..<x + m] @ [x + m..<x + m + n]" using upt_add_eq_append [of x "x + m" n] by (simp add: add.assoc)
  then show ?thesis by (simp add: file_bytes_def)
qed

lemma file_bytes_eqI:
  assumes "length xs = n" "\<And>i. i < n \<Longrightarrow> file_byte V q (x + i) = xs ! i"
  shows "file_bytes V q x n = xs"
  using assms by (intro nth_equalityI) (auto simp: file_bytes_def)

lemma div_mod_within:
  fixes x i :: nat
  assumes "i < BSIZE - x mod BSIZE"
  shows "(x + i) div BSIZE = x div BSIZE" "(x + i) mod BSIZE = x mod BSIZE + i"
proof -
  have "x mod BSIZE + i < BSIZE" using assms by arith
  moreover have "x + i = BSIZE * (x div BSIZE) + (x mod BSIZE + i)" by simp
  ultimately show "(x + i) div BSIZE = x div BSIZE" "(x + i) mod BSIZE = x mod BSIZE + i"
    by (metis div_mult_self4 div_less add.right_neutral BSIZE_def zero_neq_numeral, metis mod_mult_self4 mod_less)
qed

lemma file_bytes_slice:
  assumes "m \<le> BSIZE - x mod BSIZE" "length (file_block V q (x div BSIZE)) = BSIZE"
  shows "take m (drop (x mod BSIZE) (file_block V q (x div BSIZE))) = file_bytes V q x m"
proof (rule file_bytes_eqI [symmetric])
  fix i assume "i < m"
  then show "file_byte V q (x + i) = take m (drop (x mod BSIZE) (file_block V q (x div BSIZE))) ! i"
    using assms div_mod_within [of i x] by (simp add: file_byte_def)
qed (use assms in simp)

lemma file_block_length: "in_op r ls s \<Longrightarrow> length (file_block (view s) q i) = BSIZE"
  by (simp add: file_block_def view_length)

subsection \<open>Reading\<close>

lemma bmap_present:
  assumes "in_op r {} s" "file_ok s ip" "i < MAXFILE" "slot_addr (view s) (inode s ip) i \<noteq> 0"
  obtains t where "bmap ip (of_nat i) s = Inr (slot_addr (view s) (inode s ip) i, t)" "in_op r {} t" "view t = view s" "oframe {} s t"
proof (cases "i < NDIRECT")
  case True
  then show thesis using that [of s] assms by (simp add: bmap_eq bmap_slot_def slot_addr_low)
next
  case False
  let ?p = "addrs (inode s ip) ! NDIRECT" and ?k = "i - NDIRECT"
  have k: "?k < NINDIRECT" "i = NDIRECT + ?k" using assms(3) False by (simp_all add: MAXFILE_def)
  have "slot_addr (view s) (inode s ip) i = (if ?p = 0 then 0 else get32 (view s ?p) (4 * ?k))"
    using slot_addr_low(3) [OF k(1)] k(2) by metis
  then have p: "?p \<noteq> 0" "slot_addr (view s) (inode s ip) i = get32 (view s ?p) (4 * ?k)" using assms(4) by (auto split: if_splits)
  have d: "idev (inode s ip) = log_dev s" using assms(2) by (simp add: file_ok_def)
  obtain b t where 1: "bread (log_dev s) ?p s = Inr (b, t)" "own ?p b t" "data (bufs t b) = view s ?p" "in_op r {?p} t"
    "view t = view s" "oframe {} s t" "clean ?p t"
    by (rule op_bread [OF assms(1), of ?p]) auto
  obtain u where 2: "brelse b t = Inr u" "in_op r ({?p} - {?p}) u" "view u = view t" "oframe {?p} t u"
    by (rule op_brelse [OF 1(4,2) _ 1(7)]) auto
  have "oframe {} s u" using 1(6) oframe_mono [OF 2(4)] by (blast intro: oframe_trans)
  moreover have "bmap ip (of_nat i) s = Inr (slot_addr (view s) (inode s ip) i, u)"
    using False assms(3,4) p 1(1,3) 2(1) d by (simp add: bmap_eq bmap_slot_def bmap_entry_def Let_def)
  ultimately show thesis using that [of u] 2(2,3) 1(5) by simp
qed

lemma of_nat_div_block: "(off :: u32) div 1024 = of_nat (unat off div BSIZE)"
proof -
  have "unat off div 1024 < 2 ^ LENGTH(32)" using unat_less_exp [of off] by (simp add: div_less_dividend le_less_trans [OF div_le_dividend])
  then show ?thesis by (simp add: BSIZE_def word_unat_eq_iff [of "off div 1024"] unat_div_distrib unat_of_nat_small)
qed

lemma unat_mod_block: "unat (off mod 1024 :: u32) = unat off mod BSIZE"
  by (simp add: BSIZE_def unat_mod_1024)

lemma round_size_block: "unat (round_size left off) \<le> BSIZE - unat off mod BSIZE"
  using round_size_le(2) [of left off] by (simp add: BSIZE_def)

lemma file_ok_view:
  assumes "file_ok s ip" "view t = view s" "oframe ls s t"
  shows "file_ok t ip" "free_blocks t = free_blocks s" "file_full t ip = file_full s ip"
proof -
  note f = oframe_log [OF assms(3)] oframe_fs [OF assms(3)]
  show fr: "free_blocks t = free_blocks s" using bitmap_ok_view(1) [of t s] assms(2) f by simp
  have "layout_ok t = layout_ok s" "reserved t = reserved s" by (simp_all add: layout_ok_def reserved_def fr f)
  then show "file_ok t ip" using assms(1) by (simp add: file_ok_def assms(2) f fr)
  show "file_full t ip = file_full s ip" by (simp add: file_full_def assms(2) f)
qed

lemma readi_round:
  fixes off n tot :: u32
  assumes "in_op r {} s" "file_ok s ip" "file_full s ip" "tot < n"
    "unat off + unat (n - tot) \<le> unat (isize (inode s ip))"
  defines "m \<equiv> round_size (n - tot) off"
  obtains t where "readi_loop ip ToLocal off n tot s =
      bindE (readi_loop ip ToLocal (off + m) n (tot + m) t) (\<lambda>(k, cs, u). Inr (k, file_bytes (view s) (inode s ip) (unat off) (unat m) @ cs, u))"
    "in_op r {} t" "view t = view s" "oframe {} s t"
proof -
  let ?i = "unat off div BSIZE" and ?V = "view s" and ?q = "inode s ip"
  let ?a = "slot_addr ?V ?q ?i"
  have pos: "0 < unat (n - tot)" using assms(4) by (metis word_gt_0 word_less_nat_alt unat_0 right_minus_eq less_irrefl)
  then have lt: "unat off < unat (isize ?q)" using assms(5) by simp
  have "?i * BSIZE \<le> unat off" by simp
  then have a: "?a \<noteq> 0" using assms(3) lt by (meson file_full_def le_less_trans)
  have i: "?i < MAXFILE"
    using lt assms(3) by (auto simp: file_full_def less_mult_imp_div_less)
  have d: "idev ?q = log_dev s" using assms(2) by (simp add: file_ok_def)
  obtain s1 where 1: "bmap ip (of_nat ?i) s = Inr (?a, s1)" "in_op r {} s1" "view s1 = ?V" "oframe {} s s1"
    by (rule bmap_present [OF assms(1,2) i a])
  note f1 = oframe_log [OF 1(4)] oframe_fs [OF 1(4)]
  obtain b s2 where 2: "bread (log_dev s1) ?a s1 = Inr (b, s2)" "own ?a b s2" "data (bufs s2 b) = view s1 ?a" "in_op r {?a} s2"
    "view s2 = view s1" "oframe {} s1 s2" "clean ?a s2"
    by (rule op_bread [OF 1(2), of ?a]) auto
  obtain s3 where 3: "brelse b s2 = Inr s3" "in_op r ({?a} - {?a}) s3" "view s3 = view s2" "oframe {?a} s2 s3"
    by (rule op_brelse [OF 2(4,2) _ 2(7)]) auto
  have "take (unat m) (drop (unat off mod BSIZE) (?V ?a)) = file_bytes ?V ?q (unat off) (unat m)"
    using file_bytes_slice [of "unat m" "unat off" ?V ?q] view_length [OF assms(1)] round_size_block [of "n - tot" off] a
    by (simp add: file_block_def m_def)
  then have bs: "take (unat m) (drop (unat (off mod 1024)) (data (bufs s2 b))) = file_bytes ?V ?q (unat off) (unat m)"
    by (simp add: 2(3) 1(3) unat_mod_block)
  show thesis
  proof (rule that [of s3])
    show "readi_loop ip ToLocal off n tot s = bindE (readi_loop ip ToLocal (off + m) n (tot + m) s3)
        (\<lambda>(k, cs, u). Inr (k, file_bytes ?V ?q (unat off) (unat m) @ cs, u))"
      using 1(1) 2(1) 3(1) assms(4) bs d unfolding m_def
      by (subst readi_loop.simps) (simp add: of_nat_div_block f1 Let_def either_copyout_def dst_next_def)
    show "oframe {} s s3" using 1(4) 2(6) oframe_mono [OF 3(4)] by (blast intro: oframe_trans)
  qed (use 3(2,3) 2(5) 1(3) in simp_all)
qed

text \<open>The arithmetic of one round of the loops of \<^verbatim>\<open>readi\<close> and \<^verbatim>\<open>writei\<close>.\<close>

lemma round_arith:
  fixes off n tot :: u32
  assumes "tot < n" "unat off + unat (n - tot) < 2 ^ 32"
  defines "m \<equiv> round_size (n - tot) off"
  shows "unat (n - (tot + m)) = unat (n - tot) - unat m" "unat m \<le> unat (n - tot)" "0 < unat m" "tot + m \<le> n"
    "unat (off + m) = unat off + unat m" "unat (tot + m) = unat tot + unat m" "off + m + (n - (tot + m)) = off + (n - tot)"
proof -
  show le: "unat m \<le> unat (n - tot)" unfolding m_def by (rule round_size_le)
  have nt: "unat (n - tot) = unat n - unat tot" using assms(1) by (simp add: unat_sub word_less_nat_alt word_le_nat_alt)
  show "unat (n - (tot + m)) = unat (n - tot) - unat m"
    using le by (simp add: diff_diff_eq [symmetric] unat_sub word_le_nat_alt)
  show "0 < unat m" unfolding m_def by (rule round_size_pos) (use assms(1) in \<open>simp add: word_gt_0\<close>)
  show t: "unat (tot + m) = unat tot + unat m"
    using le nt assms(1) unat_less_exp [of n] by (intro unat_add_small) (simp add: word_less_nat_alt)
  show "tot + m \<le> n" unfolding word_le_nat_alt t using le nt assms(1) by (simp add: word_less_nat_alt)
  show "unat (off + m) = unat off + unat m" using le assms(2) by (intro unat_add_small) simp
  show "off + m + (n - (tot + m)) = off + (n - tot)" by simp
qed

lemma readi_loop_reads:
  fixes off n tot :: u32
  assumes "in_op r {} s" "file_ok s ip" "file_full s ip" "tot \<le> n" "unat off + unat (n - tot) \<le> unat (isize (inode s ip))"
  shows "\<exists>t. readi_loop ip ToLocal off n tot s = Inr (n, file_bytes (view s) (inode s ip) (unat off) (unat (n - tot)), t) \<and>
    in_op r {} t \<and> view t = view s \<and> oframe {} s t"
  using assms
proof (induction "unat (n - tot)" arbitrary: off tot s rule: less_induct)
  case less
  show ?case
  proof (cases "tot < n")
    case False
    then have "tot = n" using less.prems(4) by simp
    then show ?thesis using less.prems(1) by (subst readi_loop.simps) (simp add: file_bytes_def)
  next
    case True
    let ?m = "round_size (n - tot) off"
    have "unat off + unat (n - tot) < 2 ^ 32" using less.prems(5) unat_less_exp [of "isize (inode s ip)"] by simp
    note ar = round_arith [OF True this]
    obtain t where t: "readi_loop ip ToLocal off n tot s = bindE (readi_loop ip ToLocal (off + ?m) n (tot + ?m) t)
        (\<lambda>(k, cs, u). Inr (k, file_bytes (view s) (inode s ip) (unat off) (unat ?m) @ cs, u))"
      "in_op r {} t" "view t = view s" "oframe {} s t"
      by (rule readi_round [OF less.prems(1-3) True less.prems(5)])
    note f = oframe_fs [OF t(4)] and ok = file_ok_view [OF less.prems(2) t(3,4)]
    have "\<exists>u. readi_loop ip ToLocal (off + ?m) n (tot + ?m) t =
        Inr (n, file_bytes (view t) (inode t ip) (unat (off + ?m)) (unat (n - (tot + ?m))), u) \<and>
      in_op r {} u \<and> view u = view t \<and> oframe {} t u"
      by (rule less.hyps) (use less.prems(3,5) t(2) ok ar in \<open>simp_all add: f\<close>)
    then obtain u where u: "readi_loop ip ToLocal (off + ?m) n (tot + ?m) t =
        Inr (n, file_bytes (view s) (inode s ip) (unat off + unat ?m) (unat (n - tot) - unat ?m), u)"
      "in_op r {} u" "view u = view s" "oframe {} t u" by (auto simp: f t(3) ar)
    have "file_bytes (view s) (inode s ip) (unat off) (unat (n - tot)) = file_bytes (view s) (inode s ip) (unat off) (unat ?m) @
        file_bytes (view s) (inode s ip) (unat off + unat ?m) (unat (n - tot) - unat ?m)"
      using file_bytes_append [of "view s" "inode s ip" "unat off" "unat ?m" "unat (n - tot) - unat ?m"] ar(2) by simp
    then show ?thesis using t(1) u oframe_trans [OF t(4) u(4)] by auto
  qed
qed

text \<open>\<^verbatim>\<open>readi\<close> returns the bytes of the file from the offset, up to its end.\<close>

lemma readi_step:
  fixes off n :: u32
  assumes "in_op r {} s" "file_ok s ip" "file_full s ip" "off \<le> isize (inode s ip)" "unat off + unat n < 2 ^ 32"
  defines "k \<equiv> min (unat n) (unat (isize (inode s ip)) - unat off)"
  obtains t where "readi ip ToLocal off n s = Inr (int k, file_bytes (view s) (inode s ip) (unat off) k, t)"
    "in_op r {} t" "view t = view s" "oframe {} s t"
proof -
  let ?z = "isize (inode s ip)"
  let ?n = "if off + n > ?z then ?z - off else n"
  have add: "unat (off + n) = unat off + unat n" using assms(5) by (intro unat_add_small) simp
  have sub: "unat (?z - off) = unat ?z - unat off" using assms(4) by (simp add: unat_sub word_le_nat_alt)
  have n: "unat ?n = k" using assms(4) by (auto simp: k_def word_less_nat_alt word_le_nat_alt add sub)
  have no: "\<not> off + n < off" by (simp add: word_less_nat_alt add)
  have le: "unat off + unat (?n - 0) \<le> unat ?z" using n assms(4) by (simp add: k_def word_le_nat_alt)
  obtain t where t: "readi_loop ip ToLocal off ?n 0 s = Inr (?n, file_bytes (view s) (inode s ip) (unat off) (unat (?n - 0)), t)"
    "in_op r {} t" "view t = view s" "oframe {} s t"
    using readi_loop_reads [OF assms(1-3) word_zero_le le] by blast
  have "k \<le> unat ?z" unfolding k_def by linarith
  also have "\<dots> \<le> MAXFILE * BSIZE" using assms(3) by (simp add: file_full_def)
  finally have "k \<le> MAXFILE * BSIZE" .
  then have "k < 2 ^ 31" by (simp add: fs_consts)
  moreover have "?n = of_nat k" unfolding n [symmetric] by simp
  ultimately have "sint ?n = int k" using sint_of_nat_small [of k] by simp
  then have "readi ip ToLocal off n s = Inr (int k, file_bytes (view s) (inode s ip) (unat off) k, t)"
    using t(1) leD [OF assms(4)] no n by (simp add: readi_def Let_def)
  then show thesis using that t(2-4) by blast
qed

subsection \<open>The source of a write\<close>

text \<open>The source has the bytes \<open>xs\<close>, wherever it is: in user memory, in kernel memory, or a variable of the caller.\<close>

definition delivers :: "source \<Rightarrow> u8 list \<Rightarrow> 'a ptab_scheme \<Rightarrow> bool" where
  "delivers src xs s \<longleftrightarrow> (\<forall>tot m. tot + m \<le> length xs \<longrightarrow>
     either_copyin (src_at src (int tot)) (of_nat m) s = Inr (0, take m (drop tot xs)))"

lemma walk_loop_read: "mem t = mem s \<Longrightarrow> \<exists>p. walk_loop l r va False s = Inr (p, s) \<and> walk_loop l r va False t = Inr (p, t)"
  by (induction l arbitrary: r) (auto simp: Let_def)

lemma walkaddr_cong: "mem t = mem s \<Longrightarrow> walkaddr r va t = walkaddr r va s"
  using walk_loop_read [of t s 2 r va] by (auto simp: walkaddr_def walk_def)

lemma copyin_cong: "mem t = mem s \<Longrightarrow> copyin r va n t = copyin r va n s"
proof (induction r va n s rule: copyin.induct)
  case (1 r va n s)
  then show ?case
    by (subst (1 2) copyin.simps) (auto simp: Let_def walkaddr_cong [OF "1.prems"] intro!: bindE_cong)
qed

lemma delivers_cong:
  assumes "mem t = mem s" "me t = me s" "\<And>p. pagetable (proc t p) = pagetable (proc s p)"
  shows "delivers src xs t = delivers src xs s"
  using assms copyin_cong [OF assms(1)] by (simp add: delivers_def either_copyin_def myproc_def cong: source.case_cong)

lemma delivers_local: "length xs < 2 ^ 32 \<Longrightarrow> delivers (FromLocal xs) xs s"
  by (auto simp: delivers_def either_copyin_def src_at_def unsigned_ucast_eq unat_of_nat_small take_bit_nat_eq_self)

lemma uread_take:
  "m \<le> length ys \<Longrightarrow> (\<And>i. i < m \<Longrightarrow> U (va + of_nat i) = Some (ys ! i)) \<Longrightarrow> uread U va m = take m ys"
proof (induction m arbitrary: va ys)
  case (Suc m)
  then obtain y zs where ys: "ys = y # zs" by (cases ys) auto
  have "uread U (va + 1) m = take m zs"
    by (rule Suc.IH) (use Suc.prems(1) Suc.prems(2) [of "Suc _"] ys in \<open>auto simp: add.assoc\<close>)
  then show ?case using Suc.prems(2) [of 0] by (simp add: ys)
qed simp

lemma delivers_user:
  assumes "pt_wf (mem s) (pagetable (cur s))" "\<forall>i<length xs. uspace (mem s) (pagetable (cur s)) (a + of_nat i) = Some (xs ! i)"
    "length xs < 2 ^ 32"
  shows "delivers (FromUser a) xs s"
  unfolding delivers_def
proof (intro allI impI)
  fix tot m assume le: "tot + m \<le> length xs"
  have "uread (uspace (mem s) (pagetable (cur s))) (a + of_nat tot) m = take m (drop tot xs)"
    by (rule uread_take) (use le assms(2) in \<open>auto simp: add.assoc simp flip: of_nat_add\<close>)
  then show "either_copyin (src_at (FromUser a) (int tot)) (of_nat m) s = Inr (0, take m (drop tot xs))"
    using le assms(3) copyin_eq [OF assms(1)] by (simp add: either_copyin_def src_at_def unat_of_nat_small Let_def)
qed

subsection \<open>Writing\<close>

text \<open>Storing into a block of a file changes that block of the contents and nothing else.\<close>

lemma store_file_block:
  assumes ok: "file_ok s ip" and i: "i < MAXFILE" "slot_addr (view s) (inode s ip) i = a" "a \<noteq> 0"
    and v: "view t = (view s)(a := x)" and o: "oframe {} s t"
  shows "file_ok t ip" "\<And>j. j \<le> MAXFILE \<Longrightarrow> slot_addr (view t) (inode t ip) j = slot_addr (view s) (inode s ip) j"
    "\<And>j. j < MAXFILE \<Longrightarrow> file_block (view t) (inode t ip) j = (if j = i then x else file_block (view s) (inode s ip) j)"
    "iframe {} ip s t" "free_blocks t = free_blocks s" "inode t = inode s"
proof -
  note f = oframe_log [OF o] oframe_fs [OF o]
  let ?S = "slot_addr (view s) (inode s ip)"
  have inj: "inj_on ?S {i. i \<le> MAXFILE \<and> ?S i \<noteq> 0}" using ok by (simp add: file_ok_def)
  have a: "a \<notin> reserved s" "a \<notin> free_blocks s" "a \<in> inode_blocks (view s) (inode s ip)"
    using file_slot_mem [OF ok, of i] i by (auto simp: inode_blocks_def)
  have ne: "?S j \<noteq> a" if "j \<le> MAXFILE" "j \<noteq> i" for j
    using inj_onD [OF inj, of j i] that i by auto
  show "inode t = inode s" by (rule f)
  have S: "slot_addr (view t) (inode t ip) j = ?S j" for j
  proof -
    have "addrs (inode s ip) ! NDIRECT \<noteq> a" using ne [of MAXFILE] i(1) by (simp add: slot_addr_low)
    then show ?thesis by (simp add: slot_addr_def v f)
  qed
  then show "\<And>j. j \<le> MAXFILE \<Longrightarrow> slot_addr (view t) (inode t ip) j = ?S j" by blast
  show fr: "free_blocks t = free_blocks s"
  proof -
    have "view t (BBLOCK c (sb s)) = view s (BBLOCK c (sb s))" if "c < sb_size (sb s)" for c
      using a(1) BBLOCK_bitmap [OF that] by (auto simp: v reserved_def)
    then show ?thesis by (auto simp: free_blocks_def f)
  qed
  then have SS: "slot_addr (view t) (inode t ip) = ?S" using S by (simp add: fun_eq_iff)
  then have blocks: "inode_blocks (view t) (inode t ip) = inode_blocks (view s) (inode s ip)" by (simp add: inode_blocks_def)
  have "layout_ok t = layout_ok s" "reserved t = reserved s" by (simp_all add: layout_ok_def reserved_def fr f)
  then show "file_ok t ip" using ok unfolding file_ok_def SS blocks fr by (simp add: f)
  show "file_block (view t) (inode t ip) j = (if j = i then x else file_block (view s) (inode s ip) j)" if "j < MAXFILE" for j
    unfolding file_block_def SS using that ne [of j] i by (auto simp: v)
  show "iframe {} ip s t" using o a(3) unfolding iframe_def blocks fr by (auto simp: f v)
qed

definition blocks_touched :: "nat \<Rightarrow> nat \<Rightarrow> nat" where
  "blocks_touched off n = (if n = 0 then 0 else (off + n - 1) div BSIZE - off div BSIZE + 1)"

lemma blocks_touched_step:
  assumes "0 < n" "m = min n (BSIZE - off mod BSIZE)"
  shows "blocks_touched (off + m) (n - m) + 1 \<le> blocks_touched off n"
proof (cases "m = n")
  case False
  then have m: "m = BSIZE - off mod BSIZE" "m < n" using assms by auto
  have "off mod BSIZE < BSIZE" by (simp add: BSIZE_def)
  then have "off + m = off div BSIZE * BSIZE + BSIZE" using m(1) div_mult_mod_eq [of off BSIZE] by linarith
  then have "(off + m) div BSIZE = off div BSIZE + 1" by (simp add: BSIZE_def)
  moreover have "(off + m) div BSIZE \<le> (off + n - 1) div BSIZE" using m(2) by (intro div_le_mono) simp
  ultimately show ?thesis using m(2) by (simp add: blocks_touched_def)
qed (use assms in \<open>simp add: blocks_touched_def\<close>)

text \<open>The contents of a file after the bytes \<open>xs\<close> have been stored from the offset \<open>x\<close>.\<close>

definition wrote_bytes :: "nat \<Rightarrow> nat \<Rightarrow> u8 list \<Rightarrow> 'a fs_scheme \<Rightarrow> 'a fs_scheme \<Rightarrow> bool" where
  "wrote_bytes ip x xs s t \<longleftrightarrow> (\<forall>y<MAXFILE * BSIZE. file_byte (view t) (inode t ip) y =
     (if x \<le> y \<and> y < x + length xs then xs ! (y - x) else file_byte (view s) (inode s ip) y))"

lemma wrote_bytes_append:
  assumes "wrote_bytes ip x xs s t" "wrote_bytes ip (x + length xs) ys t u"
  shows "wrote_bytes ip x (xs @ ys) s u"
  using assms unfolding wrote_bytes_def by (auto simp: nth_append)

lemma splice_bytes:
  assumes "length xs \<le> BSIZE - x mod BSIZE" "\<And>j. j < MAXFILE \<Longrightarrow> length (file_block (view s) (inode s ip) j) = BSIZE"
    "\<And>j. j < MAXFILE \<Longrightarrow> file_block (view t) (inode t ip) j =
      (if j = x div BSIZE then splice (x mod BSIZE) xs (file_block (view s) (inode s ip) j) else file_block (view s) (inode s ip) j)"
  shows "wrote_bytes ip x xs s t"
  unfolding wrote_bytes_def
proof (intro allI impI)
  fix y assume "y < MAXFILE * BSIZE"
  then have j: "y div BSIZE < MAXFILE" by (simp add: less_mult_imp_div_less)
  have B: "0 < BSIZE" by (simp add: BSIZE_def)
  show "file_byte (view t) (inode t ip) y =
    (if x \<le> y \<and> y < x + length xs then xs ! (y - x) else file_byte (view s) (inode s ip) y)"
  proof (cases "y div BSIZE = x div BSIZE")
    case True
    define k where "k = x div BSIZE * BSIZE"
    have e: "x = k + x mod BSIZE" "y = k + y mod BSIZE"
      using div_mult_mod_eq [of y BSIZE] unfolding True k_def by simp_all
    have "y mod BSIZE - x mod BSIZE = y - x" "x mod BSIZE \<le> y mod BSIZE \<longleftrightarrow> x \<le> y"
      "y mod BSIZE < x mod BSIZE + length xs \<longleftrightarrow> y < x + length xs"
      using e by linarith+
    moreover have "y mod BSIZE < BSIZE" "x mod BSIZE + length xs \<le> BSIZE" using B assms(1) mod_less_divisor [OF B, of x] by (simp, arith)
    ultimately show ?thesis using True j assms(2,3) [OF j]
      by (auto simp: file_byte_def nth_splice)
  next
    case False
    have "\<not> (x \<le> y \<and> y < x + length xs)"
    proof
      assume in_xs: "x \<le> y \<and> y < x + length xs"
      then have "y - x < BSIZE - x mod BSIZE" using assms(1) by linarith
      from div_mod_within(1) [OF this] in_xs False show False by simp
    qed
    then show ?thesis using False assms(3) [OF j] by (auto simp: file_byte_def)
  qed
qed

text \<open>One round of the loop of \<^verbatim>\<open>writei\<close>.\<close>

definition write_post :: "nat \<Rightarrow> nat \<Rightarrow> nat \<Rightarrow> u8 list \<Rightarrow> nat \<Rightarrow> 'a fs_scheme \<Rightarrow> 'a fs_scheme \<Rightarrow> bool" where
  "write_post ip r x xs k s t \<longleftrightarrow> in_op r {} t \<and> file_ok t ip \<and> iframe {} ip s t \<and> wrote_bytes ip x xs s t \<and>
     inode t ip = (inode s ip)\<lparr>addrs := addrs (inode t ip)\<rparr> \<and> card (free_blocks s) \<le> card (free_blocks t) + k \<and>
     (\<forall>i<MAXFILE. slot_addr (view s) (inode s ip) i \<noteq> 0 \<or> (xs \<noteq> [] \<and> x div BSIZE \<le> i \<and> i * BSIZE < x + length xs) \<longrightarrow>
       slot_addr (view t) (inode t ip) i \<noteq> 0)"

lemma delivers_iframe: "iframe ls ip s t \<Longrightarrow> delivers src xs t = delivers src xs s"
  by (rule delivers_cong) (simp_all add: iframe_fields)

lemma delivers_oframe: "oframe ls s (t :: 'a fs_scheme) \<Longrightarrow> delivers src xs t = delivers src xs s"
  by (rule delivers_cong) (simp_all add: oframe_fs oframe_log)

lemma writei_round:
  fixes off n tot :: u32
  assumes "in_op (r + 6) {} s" "file_ok s ip" "2 \<le> card (free_blocks s)" "delivers src xs s" "unat n = length xs" "tot < n"
    "unat off + unat (n - tot) \<le> MAXFILE * BSIZE"
  defines "m \<equiv> round_size (n - tot) off"
  obtains t where "writei_loop ip src off n tot s = writei_loop ip src (off + m) n (tot + m) t"
    "write_post ip r (unat off) (take (unat m) (drop (unat tot) xs)) 2 s t"
proof -
  let ?i = "unat off div BSIZE" and ?ys = "take (unat m) (drop (unat tot) xs)"
  have MX: "MAXFILE * BSIZE < 2 ^ 32" by (simp add: fs_consts)
  have nt: "unat (n - tot) = unat n - unat tot" using assms(6) by (simp add: unat_sub word_less_nat_alt word_le_nat_alt)
  have "unat off + unat (n - tot) < 2 ^ 32" using assms(7) MX by linarith
  note ar = round_arith [OF assms(6) this, folded m_def]
  have ys: "length ?ys = unat m" "unat tot + unat m \<le> length xs" using ar(2) nt assms(5,6) by (auto simp: word_less_nat_alt)
  have within: "unat m \<le> BSIZE - unat off mod BSIZE" unfolding m_def by (rule round_size_block)
  have i: "?i < MAXFILE" using assms(7) ar(2,3) by (intro less_mult_imp_div_less) linarith
  have op: "in_op (Suc r + 5) {} s" using assms(1) by (simp add: add.commute)
  obtain a s1 where 1: "bmap ip (of_nat ?i) s = Inr (a, s1)" "bmap_post {} ip ?i (Suc r) 2 s a s1"
    by (rule bmap_step [OF op assms(2,3) i])
  then have p: "a \<noteq> 0" "slot_addr (view s1) (inode s1 ip) ?i = a" "mapped ip s s1" "iframe {} ip s s1" "in_op (Suc r) {} s1"
    "card (free_blocks s) \<le> card (free_blocks s1) + 2" by (simp_all add: bmap_post_def)
  have ok1: "file_ok s1 ip" using p(3) by (simp add: mapped_def)
  have d1: "idev (inode s1 ip) = log_dev s1" using ok1 by (simp add: file_ok_def)
  have a1: "a \<notin> log_area (log_start s1)" using file_slot_mem(1) [OF ok1, of ?i] i p(1,2) by (auto simp: reserved_def)
  obtain b s2 where 2: "bread (log_dev s1) a s1 = Inr (b, s2)" "own a b s2" "data (bufs s2 b) = view s1 a" "in_op (Suc r) {a} s2"
    "view s2 = view s1" "oframe {} s1 s2"
    by (rule op_bread [OF p(5), of a]) auto
  let ?x = "splice (unat off mod BSIZE) ?ys (view s1 a)"
  have len: "unat off mod BSIZE + unat m \<le> BSIZE" using within mod_less_divisor [of BSIZE "unat off"] by (simp add: BSIZE_def)
  have src: "either_copyin (src_at src (uint tot)) (ucast m) s2 = Inr (0, ?ys)"
  proof -
    have "delivers src xs s2" using assms(4) delivers_iframe [OF p(4)] delivers_oframe [OF 2(6)] by simp
    moreover have "uint tot = int (unat tot)" "ucast m = (of_nat (unat m) :: u64)" by simp_all
    ultimately show ?thesis using ys(2) unfolding delivers_def by metis
  qed
  obtain s3 s4 where 3: "log_write b (set_data b ?x s2) = Inr s3" "brelse b s3 = Inr s4" "in_op r ({a} - {a}) s4"
    "view s4 = (view s2)(a := ?x)" "oframe {a} s2 s4"
    by (rule op_store [OF 2(4,2), of ?x]) (use a1 oframe_log [OF 2(6)] view_length [OF p(5)] ys(1) len in auto)
  have o: "oframe {} s1 s4" using 2(6) oframe_mono [OF 3(5)] by (blast intro: oframe_trans)
  have v4: "view s4 = (view s1)(a := ?x)" using 3(4) 2(5) by simp
  note st = store_file_block [OF ok1 i p(2,1) v4 o]
  have wr: "wrote_bytes ip (unat off) ?ys s1 s4"
    by (rule splice_bytes) (use st(3) p(1,2) ys(1) within file_block_length [OF p(5)] in \<open>auto simp: file_block_def\<close>)
  have same: "file_byte (view s1) (inode s1 ip) y = file_byte (view s) (inode s ip) y" if "y < MAXFILE * BSIZE" for y
    using p(3) that by (simp add: mapped_def file_byte_def less_mult_imp_div_less)
  show thesis
  proof (rule that [of s4])
    show "writei_loop ip src off n tot s = writei_loop ip src (off + m) n (tot + m) s4"
      using 1(1) 2(1,3) 3(1,2) src assms(6) d1 unfolding m_def
      by (subst writei_loop.simps) (simp add: of_nat_div_block unat_mod_block Let_def)
    show "write_post ip r (unat off) ?ys 2 s s4" unfolding write_post_def
    proof (intro conjI allI impI)
      show "iframe {} ip s s4" using p(4) st(4) by (rule iframe_trans)
      show "wrote_bytes ip (unat off) ?ys s s4" using wr same by (simp add: wrote_bytes_def)
      show "inode s4 ip = (inode s ip)\<lparr>addrs := addrs (inode s4 ip)\<rparr>" using p(3) by (simp add: st(6) mapped_def)
      fix j assume j: "j < MAXFILE" "slot_addr (view s) (inode s ip) j \<noteq> 0 \<or>
        ?ys \<noteq> [] \<and> ?i \<le> j \<and> j * BSIZE < unat off + length ?ys"
      have "j = ?i" if "?i \<le> j" "j * BSIZE < unat off + length ?ys"
      proof -
        have "j * BSIZE < (?i + 1) * BSIZE" 
          using that(2) len div_mult_mod_eq [of "unat off" BSIZE] unfolding ys(1) add_mult_distrib by linarith
        then have "j < ?i + 1" by (simp only: mult_less_cancel2)
        then show ?thesis using that(1) by simp
      qed
      then show "slot_addr (view s4) (inode s4 ip) j \<noteq> 0" using j p(1-3) st(2) [of j] by (auto simp: mapped_def)
    qed (use 3(3) st(1,5) p(6) in simp_all)
  qed
qed

lemma write_post_trans:
  assumes "write_post ip r x xs k s t" "write_post ip r' (x + length xs) ys k' t u"
  shows "write_post ip r' x (xs @ ys) (k + k') s u"
  unfolding write_post_def
proof (intro conjI allI impI)
  show "iframe {} ip s u" using assms unfolding write_post_def by (blast intro: iframe_trans)
  show "wrote_bytes ip x (xs @ ys) s u" using assms unfolding write_post_def by (blast intro: wrote_bytes_append)
  show "inode u ip = (inode s ip)\<lparr>addrs := addrs (inode u ip)\<rparr>"
    using assms unfolding write_post_def by (metis inode.surjective inode.update_convs(10))
  fix i assume i: "i < MAXFILE" "slot_addr (view s) (inode s ip) i \<noteq> 0 \<or>
    xs @ ys \<noteq> [] \<and> x div BSIZE \<le> i \<and> i * BSIZE < x + length (xs @ ys)"
  show "slot_addr (view u) (inode u ip) i \<noteq> 0"
  proof (cases "slot_addr (view s) (inode s ip) i \<noteq> 0 \<or> xs \<noteq> [] \<and> x div BSIZE \<le> i \<and> i * BSIZE < x + length xs")
    case True
    then have "slot_addr (view t) (inode t ip) i \<noteq> 0" using assms(1) i(1) by (simp add: write_post_def)
    then show ?thesis using assms(2) i(1) by (simp add: write_post_def)
  next
    case False
    have "(x + length xs) div BSIZE \<le> i"
    proof (cases "xs = []")
      case f: False
      then have "x + length xs \<le> i * BSIZE" using False i(2) by auto
      from div_le_mono [OF this, of BSIZE] show ?thesis by (simp add: BSIZE_def)
    qed (use False i(2) in auto)
    moreover have "ys \<noteq> []" using False i(2) by auto
    ultimately show ?thesis using assms(2) i False by (auto simp: write_post_def add.assoc)
  qed
qed (use assms in \<open>auto simp: write_post_def\<close>)

lemma writei_loop_writes:
  fixes off n tot :: u32
  assumes "in_op (r + 6 * k) {} s" "file_ok s ip" "2 * k \<le> card (free_blocks s)" "delivers src xs s" "unat n = length xs"
    "tot \<le> n" "unat off + unat (n - tot) \<le> MAXFILE * BSIZE" "blocks_touched (unat off) (unat (n - tot)) \<le> k"
  shows "\<exists>t. writei_loop ip src off n tot s = Inr (off + (n - tot), t) \<and>
    write_post ip r (unat off) (drop (unat tot) xs) (2 * k) s t"
  using assms
proof (induction "unat (n - tot)" arbitrary: off tot s k rule: less_induct)
  case less
  show ?case
  proof (cases "tot < n")
    case False
    then have "tot = n" using less.prems(6) by simp
    then show ?thesis using less.prems(1,2,5) in_op_less [OF less.prems(1), of r]
      by (subst writei_loop.simps) (auto simp: write_post_def wrote_bytes_def intro: exI [of _ s])
  next
    case True
    let ?m = "round_size (n - tot) off" and ?ys = "take (unat (round_size (n - tot) off)) (drop (unat tot) xs)"
    have pos: "0 < unat (n - tot)" using True by (metis word_gt_0 word_less_nat_alt unat_0 right_minus_eq less_irrefl)
    then obtain l where k: "k = Suc l" using less.prems(8) by (cases k) (auto simp: blocks_touched_def split: if_splits)
    have "MAXFILE * BSIZE < 2 ^ 32" by (simp add: fs_consts)
    then have "unat off + unat (n - tot) < 2 ^ 32" using less.prems(7) by linarith
    note ar = round_arith [OF True this]
    have m: "unat ?m = min (unat (n - tot)) (BSIZE - unat off mod BSIZE)"
      by (simp add: round_size_def min_def word_le_nat_alt unat_block_rest BSIZE_def)
    have op: "in_op (r + 6 * l + 6) {} s" "2 \<le> card (free_blocks s)" using less.prems(1,3) by (simp_all add: k algebra_simps)
    obtain t where t: "writei_loop ip src off n tot s = writei_loop ip src (off + ?m) n (tot + ?m) t"
      "write_post ip (r + 6 * l) (unat off) ?ys 2 s t"
      by (rule writei_round [OF op(1) less.prems(2) op(2) less.prems(4,5) True less.prems(7)])
    have len: "length ?ys = unat ?m"
      using ar(2) less.prems(5) True by (simp add: unat_sub word_less_nat_alt word_le_nat_alt)
    have bt: "blocks_touched (unat off + unat ?m) (unat (n - tot) - unat ?m) + 1 \<le> blocks_touched (unat off) (unat (n - tot))"
      using blocks_touched_step [OF pos, of "unat ?m" "unat off"] m by simp
    have "\<exists>u. writei_loop ip src (off + ?m) n (tot + ?m) t = Inr (off + ?m + (n - (tot + ?m)), u) \<and>
      write_post ip r (unat (off + ?m)) (drop (unat (tot + ?m)) xs) (2 * l) t u"
    proof (rule less.hyps)
      have "iframe {} ip s t" using t(2) by (simp add: write_post_def)
      then show "delivers src xs t" using less.prems(4) delivers_iframe by blast
    qed (use t(2) ar less.prems(3,5,7,8) bt in \<open>auto simp: write_post_def k\<close>)
    then obtain u where u: "writei_loop ip src (off + ?m) n (tot + ?m) t = Inr (off + (n - tot), u)"
      "write_post ip r (unat off + length ?ys) (drop (unat tot + unat ?m) xs) (2 * l) t u"
      unfolding ar len by blast
    have split: "?ys @ drop (unat tot + unat ?m) xs = drop (unat tot) xs"
      using append_take_drop_id [of "unat ?m" "drop (unat tot) xs"] by (simp add: add.commute)
    have "write_post ip r (unat off) (drop (unat tot) xs) (2 * k) s u"
      using write_post_trans [OF t(2) u(2)] unfolding split by (simp add: k)
    then show ?thesis using t(1) u(1) by auto
  qed
qed

subsection \<open>The inode on disk\<close>

lemma length_dinode_bytes: "length (daddrs d) = NDIRECT + 1 \<Longrightarrow> length (bytes_of_dinode d) = 64"
  by (simp add: bytes_of_dinode_def length_concat comp_def sum_list_triv NDIRECT_def)

lemma drop_concat_words: "i < length ws \<Longrightarrow> take 4 (drop (4 * i) (concat (map (le_bytes 4) ws))) = le_bytes 4 (ws ! i)"
proof (induction ws arbitrary: i)
  case (Cons w ws)
  then show ?case by (cases i) (simp_all add: add.commute)
qed simp

lemma dinode_round_trip:
  assumes "length (daddrs d) = NDIRECT + 1"
  shows "dinode_of (bytes_of_dinode d) = d"
proof -
  have w: "words_of (bytes_of_dinode d) 12 (NDIRECT + 1) = daddrs d"
  proof (rule nth_equalityI)
    fix i assume "i < length (words_of (bytes_of_dinode d) 12 (NDIRECT + 1))"
    then have i: "i < length (daddrs d)" using assms by (simp add: words_of_def)
    have "get32 (bytes_of_dinode d) (12 + 4 * i) = of_le (take 4 (drop (4 * i) (concat (map (le_bytes 4) (daddrs d)))))"
      by (simp add: get32_def bytes_of_dinode_def)
    then show "words_of (bytes_of_dinode d) 12 (NDIRECT + 1) ! i = daddrs d ! i"
      using i assms by (simp add: words_of_def drop_concat_words of_le_le_bytes del: upt_Suc)
  qed (simp add: words_of_def assms)
  have h: "get16 (bytes_of_dinode d) 0 = dtype d" "get16 (bytes_of_dinode d) 2 = dmajor d" "get16 (bytes_of_dinode d) 4 = dminor d"
    "get16 (bytes_of_dinode d) 6 = dnlink d" "get32 (bytes_of_dinode d) 8 = dsize d"
    by (simp_all add: get16_def get32_def bytes_of_dinode_def of_le_le_bytes)
  show ?thesis unfolding dinode_of_def w h by simp
qed

lemma dinode_slot: "64 * (unat (i :: u32) mod IPB) + 64 \<le> BSIZE"
proof -
  have "unat i mod IPB < 16" by (simp add: IPB_def BSIZE_def)
  then show ?thesis by (simp add: BSIZE_def)
qed

lemma put_dinode:
  assumes "length bs = BSIZE" "length (daddrs d) = NDIRECT + 1"
  shows "length (put_dinode i d bs) = BSIZE" "dinode_at i (put_dinode i d bs) = d"
proof -
  note l = length_dinode_bytes [OF assms(2)]
  show "length (put_dinode i d bs) = BSIZE" using assms(1) l dinode_slot [of i] by (simp add: put_dinode_def)
  have "take 64 (drop (64 * (unat i mod IPB)) (put_dinode i d bs)) = bytes_of_dinode d"
    using splice_take_drop [of "64 * (unat i mod IPB)" "bytes_of_dinode d" bs] assms(1) l dinode_slot [of i]
    by (simp add: put_dinode_def)
  then show "dinode_at i (put_dinode i d bs) = d" by (simp add: dinode_at_def dinode_round_trip [OF assms(2)])
qed

lemma iupdate_step:
  assumes "in_op (Suc r) {} s" "file_ok s ip"
  defines "n \<equiv> inum (inode s ip)"
  defines "b \<equiv> IBLOCK n (sb s)"
  obtains t where "iupdate ip s = Inr t" "in_op r {} t" "oframe {} s t" "file_ok t ip" "\<And>m. m \<noteq> b \<Longrightarrow> view t m = view s m"
    "dinode_at n (view t b) = to_dinode (inode s ip)" "free_blocks t = free_blocks s"
    "slot_addr (view t) (inode t ip) = slot_addr (view s) (inode s ip)" "file_block (view t) (inode t ip) = file_block (view s) (inode s ip)"
proof -
  have ok: "idev (inode s ip) = log_dev s" "n < ninodes (sb s)" "length (addrs (inode s ip)) = NDIRECT + 1" "layout_ok s"
    "inode_blocks (view s) (inode s ip) \<inter> (reserved s \<union> free_blocks s) = {}"
    using assms(2) by (simp_all add: file_ok_def n_def)
  have ib: "b \<in> inode_area (sb s)" using ok(2) by (auto simp: b_def inode_area_def)
  then have nb: "b \<notin> log_area (log_start s)" "b \<notin> bitmap_blocks (sb s)" "b \<in> reserved s"
    using ok(4) by (auto simp: layout_ok_def reserved_def)
  let ?x = "put_dinode n (to_dinode (inode s ip)) (view s b)"
  have x: "length ?x = BSIZE" "dinode_at n ?x = to_dinode (inode s ip)"
    by (rule put_dinode; simp add: view_length [OF assms(1)] to_dinode_def ok(3))+
  obtain c t where 1: "bread (log_dev s) b s = Inr (c, t)" "own b c t" "data (bufs t c) = view s b" "in_op (Suc r) {b} t"
    "view t = view s" "oframe {} s t"
    by (rule op_bread [OF assms(1), of b]) auto
  note f = oframe_log [OF 1(6)] oframe_fs [OF 1(6)]
  obtain u v where 2: "log_write c (set_data c ?x t) = Inr u" "brelse c u = Inr v" "in_op r ({b} - {b}) v"
    "view v = (view t)(b := ?x)" "oframe {b} t v"
    by (rule op_store [OF 1(4,2), of ?x]) (use nb(1) x(1) in \<open>auto simp: f\<close>)
  have o: "oframe {} s v" using 1(6) oframe_mono [OF 2(5)] by (blast intro: oframe_trans)
  note g = oframe_log [OF o] oframe_fs [OF o]
  have vv: "view v = (view s)(b := ?x)" using 2(4) 1(5) by simp
  have ind: "addrs (inode s ip) ! NDIRECT \<noteq> b \<or> addrs (inode s ip) ! NDIRECT = 0"
    using file_slot_mem(1) [OF assms(2), of MAXFILE] nb(3) by (auto simp: slot_addr_low)
  have S: "slot_addr (view v) (inode v ip) = slot_addr (view s) (inode s ip)"
    using ind by (auto simp: fun_eq_iff slot_addr_def vv g)
  have ne: "slot_addr (view s) (inode s ip) j \<noteq> b \<or> slot_addr (view s) (inode s ip) j = 0" for j
  proof (cases "j \<le> MAXFILE")
    case True
    then show ?thesis using file_slot_mem(1) [OF assms(2) True] nb(3) by auto
  next
    case False
    then show ?thesis using ind by (auto simp: slot_addr_def MAXFILE_def)
  qed
  have fb: "file_block (view v) (inode v ip) = file_block (view s) (inode s ip)"
    unfolding file_block_def S using ne by (auto simp: vv fun_eq_iff)
  have fr: "free_blocks v = free_blocks s"
  proof -
    have "view v (BBLOCK c (sb s)) = view s (BBLOCK c (sb s))" if "c < sb_size (sb s)" for c
      using nb(2) BBLOCK_bitmap [OF that] by (auto simp: vv)
    then show ?thesis by (auto simp: free_blocks_def g)
  qed
  have "layout_ok v = layout_ok s" "reserved v = reserved s" by (simp_all add: layout_ok_def reserved_def fr g)
  then have okv: "file_ok v ip" using assms(2) unfolding file_ok_def S inode_blocks_def fr by (simp add: g)
  show thesis
    by (rule that [of v])
      (use 1(1,3) 2(1-3) o okv vv x(2) fr S fb ok(1) in \<open>simp_all add: iupdate_def n_def b_def Let_def f\<close>)
qed

subsection \<open>Writing a file\<close>

lemma slot_addr_isize [simp]:
  "slot_addr V (q\<lparr>isize := z\<rparr>) = slot_addr V q" "file_block V (q\<lparr>isize := z\<rparr>) = file_block V q"
  "inode_blocks V (q\<lparr>isize := z\<rparr>) = inode_blocks V q" "file_byte V (q\<lparr>isize := z\<rparr>) = file_byte V q"
  by (auto simp: slot_addr_def file_block_def inode_blocks_def file_byte_def fun_eq_iff)

lemma file_ok_isize: "file_ok (upd_inode ip (isize_update (\<lambda>_. z)) s) ip = file_ok s ip"
  by (simp add: file_ok_def upd_inode_def)

definition file_size :: "'a fs_scheme \<Rightarrow> nat \<Rightarrow> nat" where
  "file_size s ip = unat (isize (inode s ip))"

lemma writei_step:
  fixes off n :: u32
  assumes "in_op (r + 6 * blocks_touched (unat off) (unat n) + 1) {} s" "file_ok s ip" "file_full s ip"
    "2 * blocks_touched (unat off) (unat n) \<le> card (free_blocks s)" "delivers src xs s" "unat n = length xs" "xs \<noteq> []"
    "off \<le> isize (inode s ip)" "unat off + unat n \<le> MAXFILE * BSIZE"
  defines "b \<equiv> IBLOCK (inum (inode s ip)) (sb s)"
  obtains t where "writei ip src off n s = Inr (int (length xs), t)" "in_op r {} t" "file_ok t ip" "file_full t ip"
    "wrote_bytes ip (unat off) xs s t" "file_size t ip = max (file_size s ip) (unat off + length xs)"
    "dinode_at (inum (inode t ip)) (view t b) = to_dinode (inode t ip)"
    "\<And>m. m \<notin> insert b (bitmap_blocks (sb s) \<union> free_blocks s \<union> inode_blocks (view s) (inode s ip)) \<Longrightarrow> view t m = view s m"
    "\<And>j. j \<noteq> ip \<Longrightarrow> inode t j = inode s j" "disk t = disk s"
proof -
  let ?k = "blocks_touched (unat off) (unat n)"
  have MX: "MAXFILE * BSIZE < 2 ^ 31" by (simp add: fs_consts)
  have add: "unat (off + n) = unat off + unat n" using assms(9) MX by (intro unat_add_small) simp
  have op: "in_op (r + 1 + 6 * ?k) {} s" using assms(1) by (simp add: algebra_simps)
  obtain t where t: "writei_loop ip src off n 0 s = Inr (off + n, t)" "write_post ip (Suc r) (unat off) xs (2 * ?k) s t"
    using writei_loop_writes [OF op assms(2,4,5,6), of 0 off] assms(9) by auto
  then have p: "in_op (Suc r) {} t" "file_ok t ip" "iframe {} ip s t" "wrote_bytes ip (unat off) xs s t"
    "inode t ip = (inode s ip)\<lparr>addrs := addrs (inode t ip)\<rparr>"
    "\<And>i. i < MAXFILE \<Longrightarrow> slot_addr (view s) (inode s ip) i \<noteq> 0 \<or> (unat off div BSIZE \<le> i \<and> i * BSIZE < unat off + length xs) \<Longrightarrow>
      slot_addr (view t) (inode t ip) i \<noteq> 0" using assms(7) by (auto simp: write_post_def)
  have isz: "isize (inode t ip) = isize (inode s ip)" "inum (inode t ip) = inum (inode s ip)" by (subst p(5), simp)+
  let ?u = "if off + n > isize (inode t ip) then upd_inode ip (isize_update (\<lambda>_. off + n)) t else t"
  let ?z = "max (file_size s ip) (unat off + length xs)"
  have u: "in_op (Suc r) {} ?u" "file_ok ?u ip" "view ?u = view t" "free_blocks ?u = free_blocks t"
    "slot_addr (view ?u) (inode ?u ip) = slot_addr (view t) (inode t ip)"
    "file_byte (view ?u) (inode ?u ip) = file_byte (view t) (inode t ip)" "sb ?u = sb t" "inum (inode ?u ip) = inum (inode s ip)"
    "\<And>j. j \<noteq> ip \<Longrightarrow> inode ?u j = inode t j" "disk ?u = disk t"
    using p(1,2) isz file_ok_isize [of ip "off + n" t] by (simp_all add: upd_inode_def)
  have z: "unat (isize (inode ?u ip)) = ?z"
    by (simp add: upd_inode_def isz file_size_def word_less_nat_alt add assms(6))
  obtain v where v: "iupdate ip ?u = Inr v" "in_op r {} v" "oframe {} ?u v" "file_ok v ip" "\<And>m. m \<noteq> b \<Longrightarrow> view v m = view ?u m"
    "dinode_at (inum (inode ?u ip)) (view v b) = to_dinode (inode ?u ip)" "free_blocks v = free_blocks ?u"
    "slot_addr (view v) (inode v ip) = slot_addr (view ?u) (inode ?u ip)"
    "file_block (view v) (inode v ip) = file_block (view ?u) (inode ?u ip)"
    by (rule iupdate_step [OF u(1,2)]) (simp add: b_def u(7,8) iframe_fields(3) [OF p(3)])
  note g = oframe_log [OF v(3)] oframe_fs [OF v(3)]
  have fby: "file_byte (view v) (inode v ip) = file_byte (view t) (inode t ip)"
    unfolding u(6) [symmetric] by (simp only: file_byte_def v(9) fun_eq_iff simp_thms)
  have S: "slot_addr (view v) (inode v ip) = slot_addr (view t) (inode t ip)" unfolding v(8) u(5) ..
  have zv: "unat (isize (inode v ip)) = ?z" using z by (simp only: g)
  show thesis
  proof (rule that [of v])
    have "\<not> off + n < off" by (simp add: word_less_nat_alt add)
    moreover have "0 < n" using assms(6,7) by (simp add: word_less_nat_alt)
    moreover have "sint n = int (length xs)"
    proof -
      have "length xs < 2 ^ 31" using assms(6,9) MX by linarith
      moreover have "n = of_nat (length xs)" unfolding assms(6) [symmetric] by simp
      ultimately show ?thesis using sint_of_nat_small by simp
    qed
    ultimately show "writei ip src off n s = Inr (int (length xs), v)"
      using leD [OF assms(8)] t(1) v(1) assms(9) by (simp add: writei_def add)
    show "file_full v ip" unfolding file_full_def zv S
    proof (intro conjI allI impI)
      show le: "?z \<le> MAXFILE * BSIZE" using assms(3,6,9) by (simp add: file_full_def file_size_def)
      fix i assume i: "i * BSIZE < ?z"
      then have "i * BSIZE < MAXFILE * BSIZE" using le by linarith
      then have im: "i < MAXFILE" by (simp only: mult_less_cancel2)
      show "slot_addr (view t) (inode t ip) i \<noteq> 0"
      proof (cases "i * BSIZE < file_size s ip")
        case True
        then show ?thesis using p(6) [OF im] assms(3) by (simp add: file_full_def file_size_def)
      next
        case False
        then have "unat off \<le> i * BSIZE" using assms(8) by (simp add: file_size_def word_le_nat_alt)
        from div_le_mono [OF this, of BSIZE] have "unat off div BSIZE \<le> i" by (simp add: BSIZE_def)
        moreover have "i * BSIZE < unat off + length xs" using i False by linarith
        ultimately show ?thesis using p(6) [OF im] by blast
      qed
    qed
    show "wrote_bytes ip (unat off) xs s v" using p(4) by (simp add: wrote_bytes_def fby)
    show "file_size v ip = ?z" using zv by (simp add: file_size_def)
    show "dinode_at (inum (inode v ip)) (view v b) = to_dinode (inode v ip)" using v(6) by (simp only: g)
    show "view v m = view s m" if "m \<notin> insert b (bitmap_blocks (sb s) \<union> free_blocks s \<union> inode_blocks (view s) (inode s ip))" for m
      using that v(5) [of m] p(3) unfolding u(3) iframe_def by auto
    show "inode v j = inode s j" if "j \<noteq> ip" for j using p(3) that u(9) [OF that] unfolding g iframe_def by simp
    show "disk v = disk s" using iframe_fields(5) [OF p(3)] u(10) by (simp only: g)
  qed (fact v(2) v(4))+
qed

subsection \<open>Properties\<close>

text \<open>
  C4. Reading a file returns what was written. For a well-formed inode without holes, an offset not beyond its end and room
  in the log for six blocks per block touched and one for the inode, \<^verbatim>\<open>writei\<close> of the bytes that the source has
  stores all of them, in new blocks where there are none: it grows the file as needed, changes no other byte of it and no block
  that is not the file's, free, of the bitmap or the block of the inode, and logs the new inode. The inode is well formed again,
  and \<^verbatim>\<open>readi\<close> of the range returns the bytes, while the disk is as it was, until the transaction commits.
\<close>

theorem readi_after_writei:
  fixes off n :: u32
  assumes "in_op (r + 6 * blocks_touched (unat off) (unat n) + 1) {} s" "file_ok s ip" "file_full s ip"
    "2 * blocks_touched (unat off) (unat n) \<le> card (free_blocks s)" "delivers src xs s" "unat n = length xs" "xs \<noteq> []"
    "off \<le> isize (inode s ip)" "unat off + unat n \<le> MAXFILE * BSIZE"
  shows "\<exists>t u. writei ip src off n s = Inr (int (length xs), t) \<and> in_op r {} t \<and> file_ok t ip \<and> file_full t ip \<and>
    wrote_bytes ip (unat off) xs s t \<and> file_size t ip = max (file_size s ip) (unat off + length xs) \<and>
    (\<forall>m. m \<notin> insert (IBLOCK (inum (inode s ip)) (sb s))
      (bitmap_blocks (sb s) \<union> free_blocks s \<union> inode_blocks (view s) (inode s ip)) \<longrightarrow> view t m = view s m) \<and>
    dinode_at (inum (inode t ip)) (view t (IBLOCK (inum (inode s ip)) (sb s))) = to_dinode (inode t ip) \<and> disk t = disk s \<and>
    readi ip ToLocal off n t = Inr (int (length xs), xs, u)"
proof -
  obtain t where t: "writei ip src off n s = Inr (int (length xs), t)" "in_op r {} t" "file_ok t ip" "file_full t ip"
    "wrote_bytes ip (unat off) xs s t" "file_size t ip = max (file_size s ip) (unat off + length xs)"
    "dinode_at (inum (inode t ip)) (view t (IBLOCK (inum (inode s ip)) (sb s))) = to_dinode (inode t ip)"
    "\<And>m. m \<notin> insert (IBLOCK (inum (inode s ip)) (sb s)) (bitmap_blocks (sb s) \<union> free_blocks s \<union>
      inode_blocks (view s) (inode s ip)) \<Longrightarrow> view t m = view s m" "disk t = disk s"
    by (rule writei_step [OF assms]) blast
  have off: "off \<le> isize (inode t ip)" using t(6) assms(8) by (simp add: file_size_def word_le_nat_alt)
  have "MAXFILE * BSIZE < 2 ^ 32" by (simp add: fs_consts)
  then have lt: "unat off + unat n < 2 ^ 32" using assms(9) by linarith
  have k: "min (unat n) (unat (isize (inode t ip)) - unat off) = length xs"
    using t(6) assms(6) by (simp add: file_size_def)
  obtain u where u: "readi ip ToLocal off n t = Inr (int (length xs), file_bytes (view t) (inode t ip) (unat off) (length xs), u)"
    by (rule readi_step [OF t(2-4) off lt]) (simp add: k)
  have "file_bytes (view t) (inode t ip) (unat off) (length xs) = xs"
    by (rule file_bytes_eqI) (use t(5) assms(6,9) in \<open>auto simp: wrote_bytes_def\<close>)
  with t u show ?thesis by auto
qed

text \<open>The sample file system with an empty file.\<close>

definition sample_inode :: inode where
  "sample_inode = \<lparr>idev = 1, inum = 2, iref = 1, ivalid = True, itype = T_FILE, imajor = 0, iminor = 0, inlink = 1, isize = 0,
     addrs = replicate 13 0\<rparr>"

lemma sample_inode_area:
  assumes "m \<in> inode_area (sb (fs_sample q))"
  shows "32 \<le> unat m" "unat m < 45"
proof -
  obtain i where i: "i < 200" "m = i div 16 + 32"
    using assms by (auto simp: inode_area_def IBLOCK_def IPB_def BSIZE_def fs_sample_fields)
  have d: "unat (i div 16) = unat i div 16" by (simp add: unat_div_distrib)
  have lt: "unat i div 16 < 13" using i(1) by (simp add: word_less_nat_alt less_mult_imp_div_less)
  have "unat m = unat i div 16 + 32" unfolding i(2) using d lt by (subst unat_add_small) simp_all
  then show "32 \<le> unat m" "unat m < 45" using lt by simp_all
qed

lemma sample_log_area: "m \<in> log_area 2 \<Longrightarrow> unat m < 32"
  by (auto simp: log_area_def LOGSIZE_def lessThan_nat_numeral lessThan_Suc)

lemma sample_file:
  defines "s \<equiv> fs_sample (\<lambda>_. sample_inode)"
  shows "file_ok s 0" "file_full s 0" "card (free_blocks s) = 3"
proof -
  have S: "slot_addr V sample_inode i = 0" for V i
    by (simp add: slot_addr_def sample_inode_def NDIRECT_def nth_Cons' del: replicate_Suc split: nat.split)
  show "card (free_blocks s) = 3" unfolding s_def fs_sample_free by simp
  show "file_full s 0" by (simp add: s_def file_full_def fs_sample_fields sample_inode_def)
  have area: "m \<notin> {0, 1, 45, 46, 47, 48} \<and> m \<notin> log_area 2" if "m \<in> inode_area (sb s)" for m
    using sample_inode_area [OF that [unfolded s_def]] sample_log_area [of m] by auto
  moreover have "{0, 1, 45, 46, 47, 48} \<inter> log_area 2 = {}"
    by (auto simp: log_area_def LOGSIZE_def lessThan_nat_numeral lessThan_Suc)
  moreover have f: "free_blocks s = {46, 47, 48}" "bitmap_blocks (sb s) = {45}" "log_start s = 2" "sb_size (sb s) = 49"
    unfolding s_def by (rule fs_sample_free fs_sample_bitmap fs_sample_fields | simp add: fs_sample_fields)+
  ultimately have "layout_ok s" unfolding layout_ok_def reserved_def f by auto
  then show "file_ok s 0"
    unfolding file_ok_def inode_blocks_def
    by (simp add: s_def fs_sample_fields S) (auto simp: sample_inode_def NDIRECT_def)
qed

text \<open>Three bytes are written to the file and read back.\<close>

theorem readi_after_writei_witness:
  "\<exists>t u. writei 0 (FromLocal [7, 8, 9]) 0 3 (fs_sample (\<lambda>_. sample_inode)) = Inr (3, t) \<and> file_size t 0 = 3 \<and>
     readi 0 ToLocal 0 3 t = Inr (3, [7, 8, 9], u)"
proof -
  let ?s = "fs_sample (\<lambda>_. sample_inode)"
  have b: "blocks_touched (unat (0 :: u32)) (unat (3 :: u32)) = 1" by (simp add: blocks_touched_def BSIZE_def)
  have op: "in_op (0 + 6 * blocks_touched (unat (0 :: u32)) (unat (3 :: u32)) + 1) {} ?s" unfolding b by (rule fs_sample_op) simp
  have "delivers (FromLocal [7, 8, 9]) [7, 8, 9] ?s" by (rule delivers_local) simp
  from readi_after_writei [OF op sample_file(1,2) _ this] sample_file(3) show ?thesis
    unfolding b by (auto simp: file_size_def fs_consts fs_sample_fields sample_inode_def)
qed

text \<open>
  C24. \<^verbatim>\<open>bmap\<close> keeps inodes well formed. Inside a system call with room for five more blocks in the log and two free
  blocks, \<^verbatim>\<open>bmap\<close> of a block number below \<^verbatim>\<open>MAXFILE\<close> returns the block in that slot of the inode, which it
  allocates if the slot is empty. The inode has no block twice and none that is free or reserved, as before, the contents of the
  file and of every block outside it, the free blocks and the bitmap are the same, and at most two blocks are taken. A block
  number from \<^verbatim>\<open>MAXFILE\<close> on panics.
\<close>

theorem bmap_keeps_inode:
  assumes "in_op (r + 5) {} s" "file_ok s ip" "2 \<le> card (free_blocks s)"
  shows "if unat bn < MAXFILE
    then \<exists>a t. bmap ip bn s = Inr (a, t) \<and> a \<noteq> 0 \<and> slot_addr (view t) (inode t ip) (unat bn) = a \<and> file_ok t ip \<and> in_op r {} t \<and>
      (\<forall>j<MAXFILE. file_block (view t) (inode t ip) j = file_block (view s) (inode s ip) j) \<and>
      (\<forall>m. m \<notin> bitmap_blocks (sb s) \<union> free_blocks s \<union> inode_blocks (view s) (inode s ip) \<longrightarrow> view t m = view s m) \<and>
      card (free_blocks s) \<le> card (free_blocks t) + 2
    else bmap ip bn s = Inl (Panic ''bmap: out of range'')"
proof (cases "unat bn < MAXFILE")
  case True
  obtain a t where "bmap ip (of_nat (unat bn)) s = Inr (a, t)" "bmap_post {} ip (unat bn) r 2 s a t"
    by (rule bmap_step [OF assms True])
  then show ?thesis using True by (auto simp: bmap_post_def mapped_def iframe_def)
next
  case False
  then have "\<not> bn < of_nat NDIRECT" by (simp add: word_less_nat_alt fs_consts)
  moreover have "\<not> bn - of_nat NDIRECT < of_nat NINDIRECT"
    using False by (simp add: word_less_nat_alt unat_sub word_le_nat_alt fs_consts)
  ultimately show ?thesis using False by (simp add: bmap_def Let_def)
qed

theorem bmap_keeps_inode_witness:
  "\<exists>a t. bmap 0 5 (fs_sample (\<lambda>_. sample_inode)) = Inr (a, t) \<and> a \<noteq> 0 \<and> file_ok t 0 \<and>
     slot_addr (view t) (inode t 0) 5 = a \<and> bmap 0 268 (fs_sample (\<lambda>_. sample_inode)) = Inl (Panic ''bmap: out of range'')"
proof -
  have op: "in_op (0 + 5) {} (fs_sample (\<lambda>_. sample_inode))" by (rule fs_sample_op) simp
  have "2 \<le> card (free_blocks (fs_sample (\<lambda>_. sample_inode)))" by (simp add: sample_file(3))
  note keeps = bmap_keeps_inode [OF op sample_file(1) this]
  from keeps [of 5] keeps [of 268] show ?thesis by (auto simp: fs_consts)
qed

lemma set_data_same: "set_data b (data (bufs s b)) s = s"
  by (simp add: set_data_def upd_buf_def)

text \<open>
  C40. A write from a bad address is reported as complete. When the source is user memory that is not mapped,
  \<^verbatim>\<open>writei\<close> leaves its loop in the first round, having stored nothing: the size and the contents of the file are as
  before. It still returns the whole count.
\<close>

theorem writei_ignores_fault:
  fixes off n :: u32
  assumes "in_op (r + 6) {} s" "file_ok s ip" "2 \<le> card (free_blocks s)" "pt_wf (mem s) (pagetable (cur s))"
    "uspace (mem s) (pagetable (cur s)) a = None" "0 < n" "off \<le> isize (inode s ip)" "unat off + unat n \<le> MAXFILE * BSIZE"
  shows "\<exists>t. writei ip (FromUser a) off n s = Inr (int (unat n), t) \<and> file_size t ip = file_size s ip \<and>
    (\<forall>y<MAXFILE * BSIZE. file_byte (view t) (inode t ip) y = file_byte (view s) (inode s ip) y)"
proof -
  let ?i = "unat off div BSIZE" and ?m = "round_size n off"
  have MX: "MAXFILE * BSIZE < 2 ^ 31" by (simp add: fs_consts)
  have n0: "0 < unat n" using assms(6) by (simp add: word_less_nat_alt)
  have i: "?i < MAXFILE" using assms(8) n0 by (intro less_mult_imp_div_less) linarith
  have op: "in_op (Suc r + 5) {} s" using assms(1) by (simp add: add.commute)
  obtain c s1 where 1: "bmap ip (of_nat ?i) s = Inr (c, s1)" "bmap_post {} ip ?i (Suc r) 2 s c s1"
    by (rule bmap_step [OF op assms(2,3) i])
  then have p: "mapped ip s s1" "iframe {} ip s s1" "in_op (Suc r) {} s1" by (simp_all add: bmap_post_def)
  have ok1: "file_ok s1 ip" "idev (inode s1 ip) = log_dev s1" using p(1) by (simp_all add: mapped_def file_ok_def)
  obtain b s2 where 2: "bread (log_dev s1) c s1 = Inr (b, s2)" "own c b s2" "in_op (Suc r) {c} s2" "view s2 = view s1" "oframe {} s1 s2"
    "clean c s2" by (rule op_bread [OF p(3), of c]) auto
  obtain s3 where 3: "brelse b s2 = Inr s3" "in_op (Suc r) ({c} - {c}) s3" "view s3 = view s2" "oframe {c} s2 s3"
    by (rule op_brelse [OF 2(3,2) _ 2(6)]) auto
  have o: "oframe {} s1 s3" using 2(5) oframe_mono [OF 3(4)] by (blast intro: oframe_trans)
  note f = iframe_fields [OF p(2)] oframe_fs [OF 2(5)] oframe_log [OF 2(5)]
  have "uread (uspace (mem s) (pagetable (cur s))) a (unat (ucast ?m :: u64)) = []" for k
    using assms(5) by (cases "unat (ucast ?m :: u64)") simp_all
  moreover have "unat (ucast ?m :: u64) \<noteq> 0" using round_size_pos [OF assms(6), of off] by (simp add: unat_ucast_up)
  ultimately have "copyin (pagetable (cur s)) a (ucast ?m) s = Inr (- 1, [])"
    using copyin_eq [OF assms(4), of a "ucast ?m"] by (simp add: Let_def)
  moreover have "mem s2 = mem s" "pagetable (cur s2) = pagetable (cur s)" by (simp_all add: f myproc_def)
  ultimately have src: "either_copyin (src_at (FromUser a) (uint (0 :: u32))) (ucast ?m) s2 = Inr (- 1, [])"
    using copyin_cong [of s2 s] by (simp add: either_copyin_def src_at_def)
  have loop: "writei_loop ip (FromUser a) off n 0 s = Inr (off, s3)"
    using 1(1) 2(1) 3(1) src assms(6) ok1(2)
    by (subst writei_loop.simps) (simp add: of_nat_div_block Let_def splice_def set_data_same)
  have ok3: "file_ok s3 ip" using file_ok_view(1) [OF ok1(1) _ o] 2(4) 3(3) by simp
  have op3: "in_op (Suc r) {} s3" using 3(2) by simp
  have same: "isize (inode s3 ip) = isize (inode s ip)"
    using oframe_fs(1) [OF o] p(1) unfolding mapped_def by (metis inode.select_convs(9) inode.surjective inode.update_convs(10))
  obtain t where t: "iupdate ip s3 = Inr t" "oframe {} s3 t" "file_block (view t) (inode t ip) = file_block (view s3) (inode s3 ip)"
    by (rule iupdate_step [OF op3 ok3]) blast
  have "\<not> off + n < off" "unat (off + n) = unat off + unat n"
    using assms(8) MX by (simp_all add: word_less_nat_alt unat_add_small)
  moreover have "sint n = int (unat n)" using sint_of_nat_small [of "unat n"] assms(8) MX by simp
  ultimately have "writei ip (FromUser a) off n s = Inr (int (unat n), t)"
    using loop t(1) leD [OF assms(7)] assms(6,8) same by (simp add: writei_def)
  moreover have "file_size t ip = file_size s ip" using oframe_fs(1) [OF t(2)] same by (simp add: file_size_def)
  moreover have "file_byte (view t) (inode t ip) y = file_byte (view s) (inode s ip) y" if "y < MAXFILE * BSIZE" for y
    using p(1) that oframe_fs(1) [OF o] 2(4) 3(3) by (simp add: file_byte_def t(3) mapped_def less_mult_imp_div_less)
  ultimately show ?thesis by blast
qed

theorem writei_ignores_fault_witness:
  "\<exists>t. writei 0 (FromUser 0) 0 3 (fs_sample (\<lambda>_. sample_inode)) = Inr (3, t) \<and> file_size t 0 = 0"
proof -
  let ?s = "fs_sample (\<lambda>_. sample_inode)"
  have m: "mem ?s = (\<lambda>_. 0)" "pagetable (cur ?s) = 0x87ffe000" by (simp_all add: fs_sample_def sample_defs fs.defs)
  have "page_aligned 0x87ffe000" by (simp add: page_aligned_def)
  note e = empty_table [OF this, of "\<lambda>_. 0"]
  have "pt_wf (mem ?s) (pagetable (cur ?s))" unfolding m by (rule e) simp_all
  moreover have "uspace (mem ?s) (pagetable (cur ?s)) 0 = None"
    unfolding m using e(4) by (simp add: uspace_def user_ok_def)
  moreover have "in_op (0 + 6) {} ?s" by (rule fs_sample_op) simp
  ultimately show ?thesis
    using writei_ignores_fault [of 0 ?s 0 0 3 0] sample_file
    by (auto simp: fs_consts file_size_def fs_sample_fields sample_inode_def)
qed

end
