(* ===== verification/Paths.thy ===== *)
theory Paths
  imports Dir
begin

text \<open>
  Path names: the elements that \<^verbatim>\<open>namex\<close> of \<^verbatim>\<open>kernel/fs.c\<close> takes from a path by \<^verbatim>\<open>skipelem\<close>,
  against the fields of the path between slashes.
\<close>

function path_elems :: "u8 list \<Rightarrow> u8 list list" where
  "path_elems path = (case skipelem path of None \<Rightarrow> [] | Some (e, rest) \<Rightarrow> e # path_elems rest)"
  by pat_completeness auto
termination
  by (relation "measure length") (auto simp: skipelem_shorter)

declare path_elems.simps [simp del]

fun fields :: "u8 list \<Rightarrow> u8 list list" where
  "fields [] = [[]]"
| "fields (c # cs) = (if c = 47 then [] # fields cs else case fields cs of f # fs \<Rightarrow> (c # f) # fs | [] \<Rightarrow> [[c]])"

lemma fields_first:
  "fields p = takeWhile (\<lambda>c. c \<noteq> 47) p # (case dropWhile (\<lambda>c. c \<noteq> 47) p of [] \<Rightarrow> [] | _ # r \<Rightarrow> fields r)"
  by (induction p) auto

lemma fields_slashes: "filter (\<lambda>f. f \<noteq> []) (fields (dropWhile (\<lambda>c. c = 47) p)) = filter (\<lambda>f. f \<noteq> []) (fields p)"
  by (induction p) auto

lemma skipelem_fields:
  "skipelem p = None \<Longrightarrow> filter (\<lambda>f. f \<noteq> []) (fields p) = []"
  "skipelem p = Some (e, r) \<Longrightarrow> \<exists>f. filter (\<lambda>f. f \<noteq> []) (fields p) = f # filter (\<lambda>f. f \<noteq> []) (fields r) \<and> e = take DIRSIZ f"
proof -
  define q where "q = dropWhile (\<lambda>c. c = 47) p"
  note q = fields_slashes [of p, folded q_def]
  show "filter (\<lambda>f. f \<noteq> []) (fields p) = []" if "skipelem p = None"
    using that q by (auto simp: skipelem_def Let_def simp flip: q_def split: if_splits)
  assume "skipelem p = Some (e, r)"
  then have ne: "q \<noteq> []" and e: "e = take DIRSIZ (takeWhile (\<lambda>c. c \<noteq> 47) q)"
    and r: "r = dropWhile (\<lambda>c. c = 47) (dropWhile (\<lambda>c. c \<noteq> 47) q)"
    by (auto simp: skipelem_def Let_def simp flip: q_def split: if_splits)
  have "takeWhile (\<lambda>c. c \<noteq> 47) q \<noteq> []" using ne hd_dropWhile [of "\<lambda>c. c = 47" p] by (cases q) (auto simp: q_def)
  moreover have "filter (\<lambda>f. f \<noteq> []) (case dropWhile (\<lambda>c. c \<noteq> 47) q of [] \<Rightarrow> [] | _ # r \<Rightarrow> fields r) = filter (\<lambda>f. f \<noteq> []) (fields r)"
    using hd_dropWhile [of "\<lambda>c. c \<noteq> 47" q] unfolding r fields_slashes
    by (cases "dropWhile (\<lambda>c. c \<noteq> 47) q") (simp_all del: dropWhile_eq_Nil_conv)
  ultimately show "\<exists>f. filter (\<lambda>f. f \<noteq> []) (fields p) = f # filter (\<lambda>f. f \<noteq> []) (fields r) \<and> e = take DIRSIZ f"
    using q fields_first [of q] e by (intro exI [of _ "takeWhile (\<lambda>c. c \<noteq> 47) q"]) simp
qed

text \<open>
  C35. Repeated calls of \<^verbatim>\<open>skipelem\<close> on a path give its fields between slashes, without the empty ones, each cut to the
  fourteen bytes of a directory entry: leading, trailing and repeated slashes do not matter.
\<close>

theorem skipelem_splits_path:
  "path_elems path = map (take DIRSIZ) (filter (\<lambda>f. f \<noteq> []) (fields path))"
proof (induction path rule: path_elems.induct)
  case (1 path)
  show ?case
  proof (cases "skipelem path")
    case None
    then show ?thesis using skipelem_fields(1) by (subst path_elems.simps) simp
  next
    case (Some x)
    obtain e r where x: "x = (e, r)" by fastforce
    from skipelem_fields(2) [of path e r] Some x 1 [OF Some x [symmetric]] show ?thesis by (subst path_elems.simps) auto
  qed
qed

end
