(* ===== verification/Shell.thy ===== *)
theory Shell
  imports Syscall
begin

text \<open>
  The shell, \<^verbatim>\<open>user/sh.c\<close>: the parser, the null-termination of the strings of a command, and the system calls
  that running a command makes. The command line is the buffer with its bytes, up to and including the null byte, and pointers
  into it are indices; \<^verbatim>\<open>malloc\<close> of a command is taken to succeed.
\<close>

subsection \<open>Commands\<close>

type_synonym token = "nat \<times> nat"

datatype cmd =
    EXEC "token list"
  | REDIR cmd token u32 int
  | PIPE cmd cmd
  | LIST cmd cmd
  | BACK cmd

definition MAXARGS :: nat where "MAXARGS = 10"

subsection \<open>Tokens\<close>

definition whitespace :: "u8 list" where "whitespace = [32, 9, 13, 10, 11]"
definition symbols :: "u8 list" where "symbols = cstr ''<|>&;()''"

definition strchr :: "u8 list \<Rightarrow> u8 \<Rightarrow> bool" where
  "strchr str c \<longleftrightarrow> c \<in> set str"

function skip_ws :: "u8 list \<Rightarrow> nat \<Rightarrow> nat \<Rightarrow> nat" where
  "skip_ws b es s = (if s < es \<and> strchr whitespace (b ! s) then skip_ws b es (s + 1) else s)"
  by pat_completeness auto
termination
  by (relation "measure (\<lambda>(_, es, s). es - s)") auto

function skip_word :: "u8 list \<Rightarrow> nat \<Rightarrow> nat \<Rightarrow> nat" where
  "skip_word b es s =
     (if s < es \<and> \<not> strchr whitespace (b ! s) \<and> \<not> strchr symbols (b ! s) then skip_word b es (s + 1) else s)"
  by pat_completeness auto
termination
  by (relation "measure (\<lambda>(_, es, s). es - s)") auto

declare skip_ws.simps [simp del] skip_word.simps [simp del]

text \<open>The kind of token, where it starts and ends, and where the next one starts.\<close>

definition token_end :: "u8 list \<Rightarrow> nat \<Rightarrow> nat \<Rightarrow> u8 \<times> nat" where
  "token_end b es s = (let c = b ! s in
     if c = 0 then (0, s)
     else if c \<in> set (cstr ''|();&<'') then (c, s + 1)
     else if c = 62 then if b ! (s + 1) = 62 then (43, s + 2) else (62, s + 1)
     else (97, skip_word b es s))"

definition gettoken :: "u8 list \<Rightarrow> nat \<Rightarrow> nat \<Rightarrow> u8 \<times> token \<times> nat" where
  "gettoken b es s = (let q = skip_ws b es s; (kind, eq) = token_end b es q in (kind, (q, eq), skip_ws b es eq))"

definition peek :: "u8 list \<Rightarrow> nat \<Rightarrow> string \<Rightarrow> nat \<Rightarrow> bool \<times> nat" where
  "peek b es toks s = (let s = skip_ws b es s in (b ! s \<noteq> 0 \<and> strchr (cstr toks) (b ! s), s))"

subsection \<open>The parser\<close>

text \<open>
  A round of a loop takes one unit of fuel, and so does a call of a parser. The loops of \<^verbatim>\<open>parseline\<close>,
  \<^verbatim>\<open>parseredirs\<close> and \<^verbatim>\<open>parseexec\<close> move on by a byte in every round, so that one round for every byte
  and a last one are enough.
\<close>

primrec parseredirs :: "nat \<Rightarrow> cmd \<Rightarrow> u8 list \<Rightarrow> nat \<Rightarrow> nat \<Rightarrow> (cmd \<times> nat) res" where
  "parseredirs 0 c b es s = Inl OutOfFuel"
| "parseredirs (Suc k) c b es s = (let (p, s) = peek b es ''<>'' s in
     if \<not> p then Inr (c, s)
     else let (tok, _, s) = gettoken b es s; (kind, file, s) = gettoken b es s in
       if kind \<noteq> 97 then Inl (Panic ''missing file for redirection'')
       else parseredirs k
         (if tok = 60 then REDIR c file O_RDONLY 0
          else if tok = 62 then REDIR c file (O_WRONLY OR O_CREATE OR O_TRUNC) 1
          else if tok = 43 then REDIR c file (O_WRONLY OR O_CREATE) 1
          else c) b es s)"

text \<open>
  The \<^verbatim>\<open>struct execcmd\<close> of \<^verbatim>\<open>parseexec\<close> is inside the redirections already parsed when an argument is
  added to it.
\<close>

primrec add_arg :: "token \<Rightarrow> cmd \<Rightarrow> cmd" where
  "add_arg a (EXEC as) = EXEC (as @ [a])"
| "add_arg a (REDIR c f m d) = REDIR (add_arg a c) f m d"
| "add_arg a (PIPE c d) = PIPE c d"
| "add_arg a (LIST c d) = LIST c d"
| "add_arg a (BACK c) = BACK c"

primrec parseargs :: "nat \<Rightarrow> nat \<Rightarrow> cmd \<Rightarrow> u8 list \<Rightarrow> nat \<Rightarrow> nat \<Rightarrow> (cmd \<times> nat) res" where
  "parseargs 0 argc c b es s = Inl OutOfFuel"
| "parseargs (Suc k) argc c b es s = (let (p, s) = peek b es ''|)&;'' s in
     if p then Inr (c, s)
     else let (tok, a, s) = gettoken b es s in
       if tok = 0 then Inr (c, s)
       else if tok \<noteq> 97 then Inl (Panic ''syntax'')
       else if argc + 1 \<ge> MAXARGS then Inl (Panic ''too many args'')
       else bindE (parseredirs (es + 1) (add_arg a c) b es s) (\<lambda>(c, s). parseargs k (argc + 1) c b es s))"

primrec parseback :: "nat \<Rightarrow> cmd \<Rightarrow> u8 list \<Rightarrow> nat \<Rightarrow> nat \<Rightarrow> (cmd \<times> nat) res" where
  "parseback 0 c b es s = Inl OutOfFuel"
| "parseback (Suc k) c b es s = (let (p, s) = peek b es ''&'' s in
     if p then let (_, _, s) = gettoken b es s in parseback k (BACK c) b es s else Inr (c, s))"

text \<open>The mutually recursive parsers, each given the parsers that it calls.\<close>

datatype production = Line | Pipeline | Block | Simple

type_synonym parser = "u8 list \<Rightarrow> nat \<Rightarrow> nat \<Rightarrow> (cmd \<times> nat) res"

definition parseline :: "(production \<Rightarrow> parser) \<Rightarrow> parser" where
  "parseline parse b es s = bindE (parse Pipeline b es s) (\<lambda>(c, s).
     bindE (parseback (es + 1) c b es s) (\<lambda>(c, s).
     let (p, s) = peek b es '';'' s in
     if p then let (_, _, s) = gettoken b es s in bindE (parse Line b es s) (\<lambda>(d, s). Inr (LIST c d, s))
     else Inr (c, s)))"

definition parsepipe :: "(production \<Rightarrow> parser) \<Rightarrow> parser" where
  "parsepipe parse b es s = bindE (parse Simple b es s) (\<lambda>(c, s).
     let (p, s) = peek b es ''|'' s in
     if p then let (_, _, s) = gettoken b es s in bindE (parse Pipeline b es s) (\<lambda>(d, s). Inr (PIPE c d, s))
     else Inr (c, s))"

definition parseblock :: "(production \<Rightarrow> parser) \<Rightarrow> parser" where
  "parseblock parse b es s = (let (p, s) = peek b es ''('' s in
     if \<not> p then Inl (Panic ''parseblock'')
     else let (_, _, s) = gettoken b es s in
       bindE (parse Line b es s) (\<lambda>(c, s).
       let (p, s) = peek b es '')'' s in
       if \<not> p then Inl (Panic ''syntax - missing )'')
       else let (_, _, s) = gettoken b es s in parseredirs (es + 1) c b es s))"

definition parseexec :: "(production \<Rightarrow> parser) \<Rightarrow> parser" where
  "parseexec parse b es s = (let (p, s) = peek b es ''('' s in
     if p then parse Block b es s
     else bindE (parseredirs (es + 1) (EXEC []) b es s) (\<lambda>(c, s). parseargs (es + 1) 0 c b es s))"

primrec parse :: "nat \<Rightarrow> production \<Rightarrow> parser" where
  "parse 0 n = (\<lambda>b es s. Inl OutOfFuel)"
| "parse (Suc f) n = (case n of Line \<Rightarrow> parseline (parse f) | Pipeline \<Rightarrow> parsepipe (parse f)
     | Block \<Rightarrow> parseblock (parse f) | Simple \<Rightarrow> parseexec (parse f))"

primrec nulterminate :: "cmd \<Rightarrow> u8 list \<Rightarrow> u8 list" where
  "nulterminate (EXEC as) b = fold (\<lambda>(_, e) b. b[e := 0]) as b"
| "nulterminate (REDIR c f m d) b = (nulterminate c b)[snd f := 0]"
| "nulterminate (PIPE c d) b = nulterminate d (nulterminate c b)"
| "nulterminate (LIST c d) b = nulterminate d (nulterminate c b)"
| "nulterminate (BACK c) b = nulterminate c b"

text \<open>
  Four nested calls for every byte and four more are enough for the parsers. The line that is printed before the panic on
  leftovers is not kept.
\<close>

definition parsecmd :: "u8 list \<Rightarrow> (cmd \<times> u8 list) res" where
  "parsecmd b = (let es = length (takeWhile (\<lambda>c. c \<noteq> 0) b) in
     bindE (parse (4 * es + 4) Line b es 0) (\<lambda>(c, s).
     let (_, s) = peek b es '''' s in
     if s \<noteq> es then Inl (Panic ''syntax'') else Inr (c, nulterminate c b)))"

subsection \<open>Tokens of a command line\<close>

definition cline :: "u8 list \<Rightarrow> nat \<Rightarrow> bool" where
  "cline b es \<longleftrightarrow> es < length b \<and> b ! es = 0 \<and> (\<forall>i<es. b ! i \<noteq> 0)"

definition word_char :: "u8 \<Rightarrow> bool" where
  "word_char c \<longleftrightarrow> c \<noteq> 0 \<and> \<not> strchr whitespace c \<and> \<not> strchr symbols c"

text \<open>A word: it is not empty, and the byte after it ends it.\<close>

definition is_word :: "u8 list \<Rightarrow> nat \<Rightarrow> token \<Rightarrow> bool" where
  "is_word b es t \<longleftrightarrow> fst t < snd t \<and> snd t \<le> es \<and> (\<forall>i. fst t \<le> i \<and> i < snd t \<longrightarrow> word_char (b ! i)) \<and>
     \<not> word_char (b ! snd t)"

lemma cline_end: "cline b es \<Longrightarrow> s \<le> es \<Longrightarrow> b ! s = 0 \<longleftrightarrow> s = es"
  by (auto simp: cline_def) (metis le_neq_implies_less)

lemma skip_ws_bounds:
  assumes "s \<le> es"
  shows "s \<le> skip_ws b es s" "skip_ws b es s \<le> es" "skip_ws b es s < es \<Longrightarrow> \<not> strchr whitespace (b ! skip_ws b es s)"
proof -
  have "s \<le> skip_ws b es s \<and> skip_ws b es s \<le> es \<and> (skip_ws b es s < es \<longrightarrow> \<not> strchr whitespace (b ! skip_ws b es s))"
    using assms
  proof (induction b es s rule: skip_ws.induct)
    case (1 b es s)
    then show ?case by (subst (1 2 3 4) skip_ws.simps) auto
  qed
  then show "s \<le> skip_ws b es s" "skip_ws b es s \<le> es" "skip_ws b es s < es \<Longrightarrow> \<not> strchr whitespace (b ! skip_ws b es s)" by auto
qed

lemma skip_ws_again: "s \<le> es \<Longrightarrow> skip_ws b es (skip_ws b es s) = skip_ws b es s"
  using skip_ws_bounds [of s es b] by (subst skip_ws.simps) auto

lemma skip_word_bounds:
  assumes "cline b es" "s \<le> es"
  shows "s \<le> skip_word b es s \<and> skip_word b es s \<le> es \<and> (\<forall>i. s \<le> i \<and> i < skip_word b es s \<longrightarrow> word_char (b ! i)) \<and>
    \<not> word_char (b ! skip_word b es s)"
  using assms
proof (induction b es s rule: skip_word.induct)
  case (1 b es s)
  show ?case
  proof (cases "s < es \<and> \<not> strchr whitespace (b ! s) \<and> \<not> strchr symbols (b ! s)")
    case True
    have w: "word_char (b ! s)" using True "1.prems"(1) by (simp add: word_char_def cline_def)
    have e: "skip_word b es s = skip_word b es (s + 1)" using True by (subst skip_word.simps) simp
    have IH: "s + 1 \<le> skip_word b es (s + 1) \<and> skip_word b es (s + 1) \<le> es \<and>
        (\<forall>i. s + 1 \<le> i \<and> i < skip_word b es (s + 1) \<longrightarrow> word_char (b ! i)) \<and> \<not> word_char (b ! skip_word b es (s + 1))"
      using "1.IH" [OF True] "1.prems" True by simp
    have "word_char (b ! i)" if "s \<le> i" "i < skip_word b es (s + 1)" for i
      using that w IH by (cases "i = s") auto
    then show ?thesis using IH unfolding e by auto
  next
    case False
    then have e: "skip_word b es s = s" by (subst skip_word.simps) auto
    have "\<not> word_char (b ! s)" using False "1.prems" by (auto simp: word_char_def cline_def not_less)
    then show ?thesis using "1.prems" by (auto simp: e)
  qed
qed

lemma symbol_cases: "strchr symbols c \<longleftrightarrow> c \<in> set (cstr ''|();&<'') \<or> c = 62"
  by (auto simp: strchr_def symbols_def cstr_def)

lemma gettoken_step:
  assumes "cline b es" "s \<le> es" "gettoken b es s = (k, t, s')"
  shows "s \<le> s'" "s' \<le> es" "k = 97 \<Longrightarrow> is_word b es t" "b ! skip_ws b es s \<noteq> 0 \<Longrightarrow> s < s'" "k \<noteq> 0 \<Longrightarrow> s < s'"
proof -
  let ?q = "skip_ws b es s"
  obtain e where e: "token_end b es ?q = (k, e)" "t = (?q, e)" "s' = skip_ws b es e"
    using assms(3) by (auto simp: gettoken_def Let_def split: prod.splits)
  note q = skip_ws_bounds [OF assms(2), of b]
  have at: "b ! ?q = 0 \<longleftrightarrow> ?q = es" using cline_end [OF assms(1) q(2)] .
  have key: "?q \<le> e \<and> e \<le> es \<and> (k \<noteq> 0 \<longleftrightarrow> ?q < es) \<and> (k \<noteq> 0 \<longrightarrow> ?q < e) \<and> (k = 97 \<longrightarrow> is_word b es (?q, e))"
  proof (cases "?q = es")
    case True
    then show ?thesis using e(1) at by (simp add: token_end_def)
  next
    case False
    then have lt: "?q < es" "b ! ?q \<noteq> 0" using q(2) at by auto
    have nx: "b ! (?q + 1) = 62 \<Longrightarrow> ?q + 2 \<le> es"
      using lt(1) assms(1) by (cases "?q + 1 = es") (auto simp: cline_def)
    note w = skip_word_bounds [OF assms(1) q(2)]
    show ?thesis
    proof (cases "strchr symbols (b ! ?q)")
      case True
      then show ?thesis using e(1) lt nx
        by (auto simp: token_end_def symbol_cases cstr_def Let_def split: if_splits)
    next
      case f: False
      have "word_char (b ! ?q)" using f lt q(3) by (simp add: word_char_def)
      then have "?q < skip_word b es ?q" using w by (metis le_neq_implies_less)
      moreover have "k = 97" "e = skip_word b es ?q" using e(1) f lt(2) by (auto simp: token_end_def symbol_cases Let_def)
      ultimately show ?thesis using w lt(1) by (auto simp: is_word_def)
    qed
  qed
  note s' = skip_ws_bounds [of e es b]
  show "s \<le> s'" "s' \<le> es" "k = 97 \<Longrightarrow> is_word b es t" "k \<noteq> 0 \<Longrightarrow> s < s'" "b ! ?q \<noteq> 0 \<Longrightarrow> s < s'"
    using key q s' at e(2,3) by auto
qed

lemma peek_step:
  assumes "cline b es" "s \<le> es" "peek b es toks s = (p, s')"
  shows "s \<le> s'" "s' \<le> es" "p \<Longrightarrow> b ! skip_ws b es s' \<noteq> 0" "s' = skip_ws b es s"
  using assms skip_ws_bounds [OF assms(2), of b] skip_ws_again [OF assms(2), of b] by (auto simp: peek_def Let_def)

subsection \<open>The parsers return\<close>

primrec tokens :: "cmd \<Rightarrow> token list" where
  "tokens (EXEC as) = as"
| "tokens (REDIR c f m d) = f # tokens c"
| "tokens (PIPE c d) = tokens c @ tokens d"
| "tokens (LIST c d) = tokens c @ tokens d"
| "tokens (BACK c) = tokens c"

text \<open>The number of arguments of the command inside its redirections, and the bound on those of every command.\<close>

primrec argcount :: "cmd \<Rightarrow> nat option" where
  "argcount (EXEC as) = Some (length as)"
| "argcount (REDIR c f m d) = argcount c"
| "argcount (PIPE c d) = None"
| "argcount (LIST c d) = None"
| "argcount (BACK c) = None"

primrec args_fit :: "cmd \<Rightarrow> bool" where
  "args_fit (EXEC as) \<longleftrightarrow> length as < MAXARGS"
| "args_fit (REDIR c f m d) \<longleftrightarrow> args_fit c"
| "args_fit (PIPE c d) \<longleftrightarrow> args_fit c \<and> args_fit d"
| "args_fit (LIST c d) \<longleftrightarrow> args_fit c \<and> args_fit d"
| "args_fit (BACK c) \<longleftrightarrow> args_fit c"

definition cmd_ok :: "u8 list \<Rightarrow> nat \<Rightarrow> cmd \<Rightarrow> bool" where
  "cmd_ok b es c \<longleftrightarrow> (\<forall>t\<in>set (tokens c). is_word b es t) \<and> args_fit c"

text \<open>A parser that started at \<open>s\<close> panics or returns a command and a place not before \<open>s\<close>.\<close>

definition parsed :: "u8 list \<Rightarrow> nat \<Rightarrow> nat \<Rightarrow> (cmd \<Rightarrow> bool) \<Rightarrow> (cmd \<times> nat) res \<Rightarrow> bool" where
  "parsed b es s P r = (case r of Inl e \<Rightarrow> \<exists>m. e = Panic m | Inr (c, s') \<Rightarrow> s \<le> s' \<and> s' \<le> es \<and> cmd_ok b es c \<and> P c)"

lemma parsed_bind:
  assumes "parsed b es s P r" "\<And>c s'. s \<le> s' \<Longrightarrow> s' \<le> es \<Longrightarrow> cmd_ok b es c \<Longrightarrow> P c \<Longrightarrow> parsed b es s Q (g (c, s'))"
  shows "parsed b es s Q (bindE r g)"
proof (cases r)
  case (Inl e)
  then show ?thesis using assms(1) by (simp add: parsed_def)
next
  case (Inr x)
  moreover obtain c s' where "x = (c, s')" by fastforce
  ultimately show ?thesis using assms by (auto simp: parsed_def)
qed

lemma parsed_later: "parsed b es s' P r \<Longrightarrow> s \<le> s' \<Longrightarrow> parsed b es s P r"
  by (auto simp: parsed_def split: sum.splits prod.splits)

lemma parsed_panic [simp]: "parsed b es s P (Inl (Panic m))"
  by (simp add: parsed_def)

lemma parsed_return: "parsed b es s P (Inr (c, s')) \<longleftrightarrow> s \<le> s' \<and> s' \<le> es \<and> cmd_ok b es c \<and> P c"
  by (simp add: parsed_def)

lemma parseredirs_returns:
  assumes "cline b es" "s \<le> es" "es - s < k" "cmd_ok b es c"
  shows "parsed b es s (\<lambda>d. argcount d = argcount c) (parseredirs k c b es s)"
  using assms(2-)
proof (induction k arbitrary: c s)
  case (Suc k)
  obtain p s1 where p: "peek b es ''<>'' s = (p, s1)" by fastforce
  note 1 = peek_step [OF assms(1) Suc.prems(1) p]
  obtain tok t s2 where g: "gettoken b es s1 = (tok, t, s2)" using prod_cases3 by blast
  obtain kind file' s3 where h: "gettoken b es s2 = (kind, file', s3)" using prod_cases3 by blast
  note 2 = gettoken_step [OF assms(1) 1(2) g]
  note 3 = gettoken_step [OF assms(1) 2(2) h]
  let ?c = "if tok = 60 then REDIR c file' O_RDONLY 0 else if tok = 62 then REDIR c file' (O_WRONLY OR O_CREATE OR O_TRUNC) 1
    else if tok = 43 then REDIR c file' (O_WRONLY OR O_CREATE) 1 else c"
  show ?case
  proof (cases "p \<and> kind = 97")
    case True
    then have lt: "s1 < s2" using 1(3) 2(4) by blast
    have "cmd_ok b es ?c" using True 3(3) Suc.prems(3) by (auto simp: cmd_ok_def)
    moreover have "argcount ?c = argcount c" by simp
    ultimately have "parsed b es s3 (\<lambda>d. argcount d = argcount c) (parseredirs k ?c b es s3)"
      using Suc.IH [of s3 ?c] 3(1,2) 1(1) lt Suc.prems(2) by simp
    from parsed_later [OF this, of s] have "parsed b es s (\<lambda>d. argcount d = argcount c) (parseredirs k ?c b es s3)"
      using 1(1) 2(1) 3(1) by linarith
    then show ?thesis using True by (simp add: p g h)
  next
    case False
    then show ?thesis using 1(1,2) Suc.prems(3) by (auto simp: p g h parsed_return)
  qed
qed simp

lemma add_arg_simps:
  "argcount (add_arg a c) = map_option Suc (argcount c)"
  "argcount c = Some n \<Longrightarrow> set (tokens (add_arg a c)) = insert a (set (tokens c))"
  "argcount c = Some n \<Longrightarrow> args_fit (add_arg a c) \<longleftrightarrow> n + 1 < MAXARGS"
  by (induction c) auto

lemma add_arg_ok:
  assumes "argcount c = Some n" "cmd_ok b es c" "is_word b es a" "n + 1 < MAXARGS"
  shows "cmd_ok b es (add_arg a c)" "argcount (add_arg a c) = Some (n + 1)"
  using assms by (simp_all add: cmd_ok_def add_arg_simps)

lemma parseargs_returns:
  assumes "cline b es" "s \<le> es" "es - s < k" "cmd_ok b es c" "argcount c = Some argc"
  shows "parsed b es s (\<lambda>_. True) (parseargs k argc c b es s)"
  using assms(2-)
proof (induction k arbitrary: argc c s)
  case (Suc k)
  obtain p s1 where p: "peek b es ''|)&;'' s = (p, s1)" by fastforce
  note 1 = peek_step [OF assms(1) Suc.prems(1) p]
  obtain tok a s2 where g: "gettoken b es s1 = (tok, a, s2)" using prod_cases3 by blast
  note 2 = gettoken_step [OF assms(1) 1(2) g]
  show ?case
  proof (cases "\<not> p \<and> tok = 97 \<and> argc + 1 < MAXARGS")
    case True
    then have lt: "s < s2" using 1(1) 2(5) by auto
    note a = add_arg_ok [OF Suc.prems(4,3) 2(3)]
    have r: "parsed b es s2 (\<lambda>d. argcount d = argcount (add_arg a c)) (parseredirs (es + 1) (add_arg a c) b es s2)"
      using a True 2(2) by (intro parseredirs_returns [OF assms(1)]) auto
    have "parsed b es s2 (\<lambda>_. True)
        (bindE (parseredirs (es + 1) (add_arg a c) b es s2) (\<lambda>(c, s). parseargs k (argc + 1) c b es s))"
    proof (rule parsed_bind [OF r])
      fix d s' assume d: "s2 \<le> s'" "s' \<le> es" "cmd_ok b es d" "argcount d = argcount (add_arg a c)"
      then have "parsed b es s' (\<lambda>_. True) (parseargs k (argc + 1) d b es s')"
        using lt Suc.prems(2) a(2) True by (intro Suc.IH) auto
      then show "parsed b es s2 (\<lambda>_. True) (case (d, s') of (c, s) \<Rightarrow> parseargs k (argc + 1) c b es s)"
        using parsed_later d(1) by simp
    qed
    from parsed_later [OF this, of s] show ?thesis using True lt by (simp add: p g)
  next
    case False
    then show ?thesis using 1(1,2) 2(1,2) Suc.prems(3) by (auto simp: p g parsed_return)
  qed
qed simp

lemma parseback_returns:
  assumes "cline b es" "s \<le> es" "es - s < k" "cmd_ok b es c"
  shows "parsed b es s (\<lambda>_. True) (parseback k c b es s)"
  using assms(2-)
proof (induction k arbitrary: c s)
  case (Suc k)
  obtain p s1 where p: "peek b es ''&'' s = (p, s1)" by fastforce
  note 1 = peek_step [OF assms(1) Suc.prems(1) p]
  obtain tok a s2 where g: "gettoken b es s1 = (tok, a, s2)" using prod_cases3 by blast
  note 2 = gettoken_step [OF assms(1) 1(2) g]
  show ?case
  proof (cases p)
    case True
    then have lt: "s < s2" using 1(1,3) 2(4) by auto
    have "cmd_ok b es (BACK c)" using Suc.prems(3) by (simp add: cmd_ok_def)
    then have "parsed b es s2 (\<lambda>_. True) (parseback k (BACK c) b es s2)"
      using lt Suc.prems(2) 2(2) by (intro Suc.IH) auto
    from parsed_later [OF this, of s] show ?thesis using True lt by (simp add: p g)
  next
    case False
    then show ?thesis using 1(1,2) Suc.prems(3) by (simp add: p parsed_return)
  qed
qed simp

text \<open>The fuel that a parser needs: four units for every byte to come, and its place in the chain of calls.\<close>

definition rank :: "production \<Rightarrow> nat" where
  "rank n = (case n of Line \<Rightarrow> 4 | Pipeline \<Rightarrow> 3 | Simple \<Rightarrow> 2 | Block \<Rightarrow> 1)"

definition parses :: "(production \<Rightarrow> parser) \<Rightarrow> nat \<Rightarrow> u8 list \<Rightarrow> nat \<Rightarrow> bool" where
  "parses P f b es \<longleftrightarrow> (\<forall>n s. s \<le> es \<and> 4 * (es - s) + rank n \<le> f \<longrightarrow> parsed b es s (\<lambda>_. True) (P n b es s))"

lemma parsesD: "parses P f b es \<Longrightarrow> s \<le> es \<Longrightarrow> 4 * (es - s) + rank n \<le> f \<Longrightarrow> parsed b es s (\<lambda>_. True) (P n b es s)"
  by (simp add: parses_def)

text \<open>The end of \<^verbatim>\<open>parseline\<close> and \<^verbatim>\<open>parsepipe\<close>: a separator and the rest of the line.\<close>

lemma parse_rest:
  assumes "cline b es" "parses P f b es" "4 * (es - s) + rank n \<le> f + 4" "s \<le> s2" "s2 \<le> es" "cmd_ok b es c"
    "\<And>d. cmd_ok b es d \<Longrightarrow> cmd_ok b es (F c d)"
  shows "parsed b es s (\<lambda>_. True) (let (p, s) = peek b es seps s2 in
     if p then let (_, _, s) = gettoken b es s in bindE (P n b es s) (\<lambda>(d, s). Inr (F c d, s)) else Inr (c, s))"
proof -
  obtain p s3 where p: "peek b es seps s2 = (p, s3)" by fastforce
  note 3 = peek_step [OF assms(1,5) p]
  obtain k t s4 where g: "gettoken b es s3 = (k, t, s4)" using prod_cases3 by blast
  note 4 = gettoken_step [OF assms(1) 3(2) g]
  show ?thesis
  proof (cases p)
    case True
    then have lt: "s < s4" using assms(4) 3(1,3) 4(4) by auto
    then have "4 * (es - s4) + rank n \<le> f" using assms(3) 4(2) by linarith
    then have r: "parsed b es s4 (\<lambda>_. True) (P n b es s4)" using 4(2) by (intro parsesD [OF assms(2)])
    have "parsed b es s (\<lambda>_. True) (bindE (P n b es s4) (\<lambda>(d, s). Inr (F c d, s)))"
      by (rule parsed_bind [OF parsed_later [OF r]]) (use lt assms(7) in \<open>simp_all add: parsed_return\<close>)
    then show ?thesis using True by (simp add: p g)
  next
    case False
    then show ?thesis using assms(4-6) 3 by (simp add: p parsed_return)
  qed
qed

lemma parsepipe_returns:
  assumes "cline b es" "parses P f b es" "s \<le> es" "4 * (es - s) + 3 \<le> Suc f"
  shows "parsed b es s (\<lambda>_. True) (parsepipe P b es s)"
proof -
  have r: "parsed b es s (\<lambda>_. True) (P Simple b es s)"
    using assms(3,4) by (intro parsesD [OF assms(2)]) (simp_all add: rank_def)
  show ?thesis unfolding parsepipe_def
    by (rule parsed_bind [OF r], unfold prod.case, rule parse_rest [OF assms(1,2)])
      (use assms(4) in \<open>auto simp: rank_def cmd_ok_def\<close>)
qed

lemma parseline_returns:
  assumes "cline b es" "parses P f b es" "s \<le> es" "4 * (es - s) + 4 \<le> Suc f"
  shows "parsed b es s (\<lambda>_. True) (parseline P b es s)"
proof -
  have r: "parsed b es s (\<lambda>_. True) (P Pipeline b es s)"
    using assms(3,4) by (intro parsesD [OF assms(2)]) (simp_all add: rank_def)
  have bk: "parsed b es s (\<lambda>_. True) (parseback (es + 1) c b es s')" if "s \<le> s'" "s' \<le> es" "cmd_ok b es c" for c s'
    using that by (intro parsed_later [OF parseback_returns [OF assms(1)]]) auto
  show ?thesis unfolding parseline_def
    by (rule parsed_bind [OF r], unfold prod.case, rule parsed_bind [OF bk], assumption+, unfold prod.case,
        rule parse_rest [OF assms(1,2)]) (use assms(4) in \<open>auto simp: rank_def cmd_ok_def\<close>)
qed

lemma parseblock_returns:
  assumes "cline b es" "parses P f b es" "s \<le> es" "4 * (es - s) + 1 \<le> Suc f"
  shows "parsed b es s (\<lambda>_. True) (parseblock P b es s)"
proof -
  obtain p s1 where p: "peek b es ''('' s = (p, s1)" by fastforce
  note 1 = peek_step [OF assms(1,3) p]
  obtain k t s2 where g: "gettoken b es s1 = (k, t, s2)" using prod_cases3 by blast
  note 2 = gettoken_step [OF assms(1) 1(2) g]
  show ?thesis
  proof (cases p)
    case True
    then have lt: "s < s2" using 1(1,3) 2(4) by auto
    have line: "parsed b es s2 (\<lambda>_. True) (P Line b es s2)"
      using lt 2(2) assms(4) by (intro parsesD [OF assms(2)]) (auto simp: rank_def)
    have "parsed b es s2 (\<lambda>_. True) (bindE (P Line b es s2) (\<lambda>(c, s).
       let (p, s) = peek b es '')'' s in
       if \<not> p then Inl (Panic ''syntax - missing )'')
       else let (_, _, s) = gettoken b es s in parseredirs (es + 1) c b es s))"
    proof (rule parsed_bind [OF line])
      fix c s3 assume 3: "s2 \<le> s3" "s3 \<le> es" "cmd_ok b es c"
      obtain p' s4 where p': "peek b es '')'' s3 = (p', s4)" by fastforce
      note 4 = peek_step [OF assms(1) 3(2) p']
      obtain k t s5 where h: "gettoken b es s4 = (k, t, s5)" using prod_cases3 by blast
      note 5 = gettoken_step [OF assms(1) 4(2) h]
      have "parsed b es s5 (\<lambda>d. argcount d = argcount c) (parseredirs (es + 1) c b es s5)"
        using 5(2) 3(3) by (intro parseredirs_returns [OF assms(1)]) auto
      then have "parsed b es s5 (\<lambda>_. True) (parseredirs (es + 1) c b es s5)" by (auto simp: parsed_def split: sum.splits prod.splits)
      from parsed_later [OF this, of s2]
      show "parsed b es s2 (\<lambda>_. True) (case (c, s3) of (c, s) \<Rightarrow> let (p, s) = peek b es '')'' s in
       if \<not> p then Inl (Panic ''syntax - missing )'')
       else let (_, _, s) = gettoken b es s in parseredirs (es + 1) c b es s)"
        using 3(1) 4(1) 5(1) by (simp add: p' h)
    qed
    from parsed_later [OF this, of s] show ?thesis using True lt by (simp add: parseblock_def p g)
  qed (simp add: parseblock_def p)
qed

lemma parseexec_returns:
  assumes "cline b es" "parses P f b es" "s \<le> es" "4 * (es - s) + 2 \<le> Suc f"
  shows "parsed b es s (\<lambda>_. True) (parseexec P b es s)"
proof -
  obtain p s1 where p: "peek b es ''('' s = (p, s1)" by fastforce
  note 1 = peek_step [OF assms(1,3) p]
  have "parsed b es s1 (\<lambda>_. True) (parseexec P b es s)"
  proof (cases p)
    case True
    then show ?thesis using 1(1,2) assms(4) by (simp add: parseexec_def p) (rule parsesD [OF assms(2)], auto simp: rank_def)
  next
    case False
    have "cmd_ok b es (EXEC [])" by (simp add: cmd_ok_def MAXARGS_def)
    then have "parsed b es s1 (\<lambda>d. argcount d = argcount (EXEC [])) (parseredirs (es + 1) (EXEC []) b es s1)"
      using 1(2) by (intro parseredirs_returns [OF assms(1)]) auto
    then have "parsed b es s1 (\<lambda>_. True)
        (bindE (parseredirs (es + 1) (EXEC []) b es s1) (\<lambda>(c, s). parseargs (es + 1) 0 c b es s))"
    proof (rule parsed_bind)
      fix c s2 assume 2: "s1 \<le> s2" "s2 \<le> es" "cmd_ok b es c" "argcount c = argcount (EXEC [])"
      then have "parsed b es s2 (\<lambda>_. True) (parseargs (es + 1) 0 c b es s2)"
        by (intro parseargs_returns [OF assms(1)]) auto
      then show "parsed b es s1 (\<lambda>_. True) (case (c, s2) of (c, s) \<Rightarrow> parseargs (es + 1) 0 c b es s)"
        using parsed_later 2(1) by simp
    qed
    then show ?thesis using False by (simp add: parseexec_def p del: parseredirs.simps parseargs.simps)
  qed
  then show ?thesis using parsed_later 1(1) by blast
qed

lemma parse_returns: "cline b es \<Longrightarrow> parses (parse f) f b es"
proof (induction f)
  case 0
  then show ?case by (auto simp: parses_def rank_def split: production.splits)
next
  case (Suc f)
  note r = parseline_returns [OF Suc.prems Suc.IH] parsepipe_returns [OF Suc.prems Suc.IH]
    parseblock_returns [OF Suc.prems Suc.IH] parseexec_returns [OF Suc.prems Suc.IH]
  show ?case unfolding parses_def
  proof (intro allI impI)
    fix n s assume "s \<le> es \<and> 4 * (es - s) + rank n \<le> Suc f"
    with Suc.prems r show "parsed b es s (\<lambda>_. True) (parse (Suc f) n b es s)" by (cases n) (simp_all add: rank_def)
  qed
qed

subsection \<open>The strings of a command\<close>

lemma clear_length: "length (fold (\<lambda>(_, e) b. b[e := 0]) as b) = length b"
  by (induction as arbitrary: b) auto

lemma clear_nth:
  "i < length b \<Longrightarrow> fold (\<lambda>(_, e) b. b[e := 0]) as b ! i = (if i \<in> snd ` set as then 0 else b ! i)"
proof (induction as arbitrary: b)
  case (Cons a as)
  then show ?case by (cases a) (simp add: nth_list_update)
qed simp

lemma nulterminate_length: "length (nulterminate c b) = length b"
  by (induction c arbitrary: b) (simp_all add: clear_length)

lemma nulterminate_nth:
  "i < length b \<Longrightarrow> nulterminate c b ! i = (if i \<in> snd ` set (tokens c) then 0 else b ! i)"
proof (induction c arbitrary: b)
  case (REDIR c f m d)
  then show ?case by (cases "i = snd f") (simp_all add: nulterminate_length)
qed (simp_all add: clear_nth nulterminate_length image_Un)

lemma nulterminate_word:
  assumes "cline b es" "\<forall>t\<in>set (tokens c). is_word b es t" "(q, e) \<in> set (tokens c)"
  shows "takeWhile (\<lambda>x. x \<noteq> 0) (drop q (nulterminate c b)) = take (e - q) (drop q b)"
proof -
  let ?b = "nulterminate c b"
  have t: "q < e" "e \<le> es" "\<And>i. q \<le> i \<Longrightarrow> i < e \<Longrightarrow> word_char (b ! i)" using assms(2,3) by (auto simp: is_word_def)
  have len: "e < length b" using t(2) assms(1) by (simp add: cline_def)
  have z: "?b ! e = 0" using assms(3) len by (force simp: nulterminate_nth)
  have keep: "?b ! i = b ! i" "b ! i \<noteq> 0" if "q \<le> i" "i < e" for i
  proof -
    have "i \<notin> snd ` set (tokens c)" using assms(2) t(3) [OF that] by (auto simp: is_word_def)
    then show "?b ! i = b ! i" "b ! i \<noteq> 0" using t(3) [OF that] that(2) len by (simp_all add: nulterminate_nth word_char_def)
  qed
  have pre: "take (e - q) (drop q ?b) = take (e - q) (drop q b)"
    using len t(1) by (intro nth_equalityI) (simp_all add: nulterminate_length keep)
  have "drop q ?b = take (e - q) (drop q b) @ 0 # drop (Suc e) ?b"
    using pre z len t(1) Cons_nth_drop_Suc [of e ?b] append_take_drop_id [of "e - q" "drop q ?b"] by (simp add: nulterminate_length)
  moreover have "\<forall>x\<in>set (take (e - q) (drop q b)). x \<noteq> 0" using keep(2) len by (auto simp: in_set_conv_nth)
  ultimately show ?thesis by (simp add: takeWhile_append2)
qed

text \<open>
  C33. The parser of the shell always comes to an end: on every command line it panics with a message or returns a command. The
  fuel of the model, four calls for every byte and four more, is never used up. In a command that it returns, every
  \<^verbatim>\<open>argv\<close> array has room for its null pointer, and after \<^verbatim>\<open>nulterminate\<close> every pointer in it is the C string of
  the word it was parsed from: ending one word does not damage another.
\<close>

theorem parsecmd_returns:
  assumes "0 \<in> set b"
  shows "(\<exists>m. parsecmd b = Inl (Panic m)) \<or>
    (\<exists>c b'. parsecmd b = Inr (c, b') \<and> length b' = length b \<and> args_fit c \<and>
      (\<forall>(q, e)\<in>set (tokens c). q < e \<and> e < length b \<and> takeWhile (\<lambda>x. x \<noteq> 0) (drop q b') = take (e - q) (drop q b)))"
proof -
  let ?es = "length (takeWhile (\<lambda>c. c \<noteq> 0) b)"
  have lt: "?es < length b" using assms by (induction b) auto
  have cl: "cline b ?es" unfolding cline_def
    using lt nth_length_takeWhile [OF lt] nth_mem set_takeWhileD by (fastforce simp: takeWhile_nth [symmetric])
  have "parsed b ?es 0 (\<lambda>_. True) (parse (4 * ?es + 4) Line b ?es 0)"
    by (rule parsesD [OF parse_returns [OF cl]]) (simp_all add: rank_def)
  then consider m where "parse (4 * ?es + 4) Line b ?es 0 = Inl (Panic m)"
    | c s where "parse (4 * ?es + 4) Line b ?es 0 = Inr (c, s)" "cmd_ok b ?es c"
    by (auto simp: parsed_def split: sum.splits)
  then show ?thesis
  proof cases
    case (2 c s)
    obtain p s' where "peek b ?es '''' s = (p, s')" by fastforce
    then have r: "parsecmd b = (if s' \<noteq> ?es then Inl (Panic ''syntax'') else Inr (c, nulterminate c b))"
      using 2(1) by (simp add: parsecmd_def Let_def del: parse.simps)
    have "q < e \<and> e < length b \<and> takeWhile (\<lambda>x. x \<noteq> 0) (drop q (nulterminate c b)) = take (e - q) (drop q b)"
      if "(q, e) \<in> set (tokens c)" for q e
      using 2(2) that lt nulterminate_word [OF cl _ that] by (force simp: cmd_ok_def is_word_def)
    then show ?thesis using r 2(2) by (auto simp: cmd_ok_def nulterminate_length)
  qed (simp add: parsecmd_def Let_def del: parse.simps)
qed

theorem parsecmd_returns_witness:
  "\<exists>c b'. parsecmd (cstr ''cat<f|wc &'' @ [0]) = Inr (c, b') \<and> tokens c = [(4, 5), (0, 3), (6, 8)] \<and>
    takeWhile (\<lambda>x. x \<noteq> 0) (drop 0 b') = cstr ''cat'' \<and> takeWhile (\<lambda>x. x \<noteq> 0) (drop 6 b') = cstr ''wc''"
proof -
  let ?b = "cstr ''cat<f|wc &'' @ [0]"
  have "parsecmd ?b = Inr (BACK (PIPE (REDIR (EXEC [(0, 3)]) (4, 5) 0 0) (EXEC [(6, 8)])), [99, 97, 116, 0, 102, 0, 119, 99, 0, 38, 0])"
    by code_simp
  with parsecmd_returns [of ?b] show ?thesis by (auto simp: cstr_def)
qed

subsection \<open>Running a command\<close>

text \<open>
  The system calls that a process of the shell makes, as a tree: after a call the process goes on as a function of the result,
  which for \<^verbatim>\<open>pipe\<close> has the two descriptors with it. \<^verbatim>\<open>fork\<close> returns twice, and the tree has what the
  child does for the result 0; \<^verbatim>\<open>exec\<close> only returns when it has failed.
\<close>

datatype ucall =
    Uclose int
  | Uopen "u8 list" u32
  | Udup int
  | Upipe
  | Ufork
  | Uwait
  | Uexec "u8 list" "u8 list list"
  | Uchdir "u8 list"
  | Uprint "u8 list"

datatype uprog = Uexit int | Ucall ucall "int \<times> int \<times> int \<Rightarrow> uprog"

definition string_at :: "u8 list \<Rightarrow> token \<Rightarrow> u8 list" where
  "string_at b t = takeWhile (\<lambda>c. c \<noteq> 0) (drop (fst t) b)"

definition sh_panic :: "string \<Rightarrow> uprog" where
  "sh_panic m = Ucall (Uprint (cstr m @ [10])) (\<lambda>_. Uexit 1)"

definition fork1 :: "(int \<Rightarrow> uprog) \<Rightarrow> uprog" where
  "fork1 k = Ucall Ufork (\<lambda>(pid, _). if pid = - 1 then sh_panic ''fork'' else k pid)"

text \<open>A sequence of calls whose results are not looked at.\<close>

definition calls :: "ucall list \<Rightarrow> uprog \<Rightarrow> uprog" where
  "calls cs k = foldr (\<lambda>c k. Ucall c (\<lambda>_. k)) cs k"

primrec runcmd :: "u8 list \<Rightarrow> cmd \<Rightarrow> uprog" where
  "runcmd b (EXEC as) =
     (case as of [] \<Rightarrow> Uexit 1
      | a # _ \<Rightarrow> calls [Uexec (string_at b a) (map (string_at b) as),
          Uprint (cstr ''exec '' @ string_at b a @ cstr '' failed'' @ [10])] (Uexit 0))"
| "runcmd b (REDIR c f mode fd) = Ucall (Uclose fd) (\<lambda>_.
     Ucall (Uopen (string_at b f) mode) (\<lambda>(r, _).
       if r < 0 then calls [Uprint (cstr ''open '' @ string_at b f @ cstr '' failed'' @ [10])] (Uexit 1)
       else runcmd b c))"
| "runcmd b (LIST c d) = fork1 (\<lambda>pid. if pid = 0 then runcmd b c else calls [Uwait] (runcmd b d))"
| "runcmd b (PIPE c d) = Ucall Upipe (\<lambda>(r, p0, p1).
     if r < 0 then sh_panic ''pipe''
     else fork1 (\<lambda>pid.
       if pid = 0 then calls [Uclose 1, Udup p1, Uclose p0, Uclose p1] (runcmd b c)
       else fork1 (\<lambda>pid.
         if pid = 0 then calls [Uclose 0, Udup p0, Uclose p0, Uclose p1] (runcmd b d)
         else calls [Uclose p0, Uclose p1, Uwait, Uwait] (Uexit 0))))"
| "runcmd b (BACK c) = fork1 (\<lambda>pid. if pid = 0 then runcmd b c else Uexit 0)"

text \<open>A round of the loop of \<^verbatim>\<open>main\<close> on the line in the buffer; \<open>k\<close> is the rest of the loop.\<close>

definition main_round :: "u8 list \<Rightarrow> uprog \<Rightarrow> uprog" where
  "main_round b k =
     (if take 3 b = cstr ''cd ''
      then let b = b[length (takeWhile (\<lambda>c. c \<noteq> 0) b) - 1 := 0]; d = string_at b (3, 0) in
        Ucall (Uchdir d) (\<lambda>(r, _). if r < 0 then calls [Uprint (cstr ''cannot cd '' @ d @ [10])] k else k)
      else fork1 (\<lambda>pid.
        if pid = 0
        then (case parsecmd b of Inr (c, b) \<Rightarrow> runcmd b c | Inl (Panic m) \<Rightarrow> sh_panic m | Inl _ \<Rightarrow> Uexit 1)
        else calls [Uwait] k))"

text \<open>
  What the calls do to the descriptors of a process: \<^verbatim>\<open>close\<close> frees one, \<^verbatim>\<open>dup\<close> copies one to the lowest
  free one, as \<^verbatim>\<open>fdalloc\<close> in the kernel does, and \<^verbatim>\<open>pipe\<close> opens two. A process runs along a list of results of
  its calls.
\<close>

datatype end_of = ReadEnd | WriteEnd | Other nat

type_synonym fds = "int \<Rightarrow> end_of option"

definition fd_effect :: "ucall \<Rightarrow> int \<times> int \<times> int \<Rightarrow> fds \<Rightarrow> fds" where
  "fd_effect c a fds = (case c of
     Uclose fd \<Rightarrow> fds(fd := None)
   | Udup fd \<Rightarrow> (case find (\<lambda>i. fds i = None) (map int [0..<NOFILE]) of None \<Rightarrow> fds | Some i \<Rightarrow> fds(i := fds fd))
   | Upipe \<Rightarrow> (case a of (r, p0, p1) \<Rightarrow> if r < 0 then fds else fds(p0 := Some ReadEnd, p1 := Some WriteEnd))
   | _ \<Rightarrow> fds)"

fun run_process :: "(int \<times> int \<times> int) list \<Rightarrow> uprog \<Rightarrow> fds \<Rightarrow> uprog \<times> fds" where
  "run_process (a # as) (Ucall c k) fds = run_process as (k a) (fd_effect c a fds)"
| "run_process as p fds = (p, fds)"

lemma calls_simps [simp]: "calls [] k = k" "calls (c # cs) k = Ucall c (\<lambda>_. calls cs k)"
  by (simp_all add: calls_def)

lemma lowest_fd:
  "find (\<lambda>i. (fds(0 := None)) i = None) (map int [0..<NOFILE]) = Some 0"
  "fds 0 \<noteq> None \<Longrightarrow> find (\<lambda>i. (fds(1 := None)) i = None) (map int [0..<NOFILE]) = Some 1"
  by (simp_all add: NOFILE_def upt_conv_Cons)

text \<open>
  C34. The processes of a pipeline have the right ends of the pipe and no others. When the shell has its standard input open and
  \<^verbatim>\<open>pipe\<close> and \<^verbatim>\<open>fork\<close> succeed, the left command starts with the descriptors of the shell but for its standard
  output, which is the write end; the right command with those of the shell but for its standard input, which is the read end;
  and the shell has closed both ends before it waits, so that the right command sees the end of its input when the left one is done.
\<close>

theorem pipeline_descriptors:
  assumes "fds 0 \<noteq> None" "p0 \<notin> {0, 1}" "p1 \<notin> {0, 1}" "p0 \<noteq> p1" "fds p0 = None" "fds p1 = None" "0 < n" "0 < n'"
  shows "run_process [(0, p0, p1), (0, x), r1, r2, r3, r4] (runcmd b (PIPE c d)) fds = (runcmd b c, fds(1 := Some WriteEnd)) \<and>
    run_process [(0, p0, p1), (n, x), (0, x), r1, r2, r3, r4] (runcmd b (PIPE c d)) fds =
      (runcmd b d, fds(0 := Some ReadEnd)) \<and>
    run_process [(0, p0, p1), (n, x), (n', x), r1, r2] (runcmd b (PIPE c d)) fds =
      (Ucall Uwait (\<lambda>_. Ucall Uwait (\<lambda>_. Uexit 0)), fds)"
proof -
  let ?g = "fds(p0 := Some ReadEnd, p1 := Some WriteEnd)"
  have g: "?g 0 \<noteq> None" using assms(1-3) by auto
  note low = lowest_fd(1) [of ?g] lowest_fd(2) [where fds = ?g, OF g]
  have e: "?g(1 := None, 1 := Some WriteEnd, p0 := None, p1 := None) = fds(1 := Some WriteEnd)"
    "?g(0 := None, 0 := Some ReadEnd, p0 := None, p1 := None) = fds(0 := Some ReadEnd)" "?g(p0 := None, p1 := None) = fds"
    using assms by (auto simp: fun_eq_iff)
  show ?thesis using assms(2-4,7,8) low e by (simp add: fork1_def fd_effect_def)
qed

theorem pipeline_descriptors_witness:
  "run_process [(0, 3, 4), (0, 0, 0), (0, 0, 0), (0, 0, 0), (0, 0, 0), (0, 0, 0)]
     (runcmd (cstr ''a|b'' @ [0]) (PIPE (EXEC [(0, 1)]) (EXEC [(2, 3)])))
     [0 \<mapsto> Other 0, 1 \<mapsto> Other 0, 2 \<mapsto> Other 0] =
   (runcmd (cstr ''a|b'' @ [0]) (EXEC [(0, 1)]), [0 \<mapsto> Other 0, 1 \<mapsto> WriteEnd, 2 \<mapsto> Other 0])"
proof -
  have "([0 \<mapsto> Other 0, 1 \<mapsto> Other 0, 2 \<mapsto> Other 0] :: fds)(1 := Some WriteEnd) =
      [0 \<mapsto> Other 0, 1 \<mapsto> WriteEnd, 2 \<mapsto> Other 0]"
    by (simp add: fun_eq_iff)
  with pipeline_descriptors [of "[0 \<mapsto> Other 0, 1 \<mapsto> Other 0, 2 \<mapsto> Other 0]" 3 4 1 1 "(0, 0)"] show ?thesis by simp
qed

end
