(* ===== verification/Spec2Isabelle.thy ===== *)
theory Spec2Isabelle
  imports Freewalk Uvmcopy Trap Asm Transaction Sched Grep DiskRequest FileData Paths Shell
begin

text \<open>
  A verification library for xv6 on RISC-V: the kernel (\<^verbatim>\<open>kernel/\<close>), and of the user programs the
  shell and the matcher of grep (\<^verbatim>\<open>user/\<close>).

  \<^bold>\<open>The program.\<close> The kernel boots in machine mode (\<^verbatim>\<open>start.c\<close>), initialises its
  parts (\<^verbatim>\<open>main.c\<close>) and runs processes on several CPUs. Processes (\<^verbatim>\<open>proc.c\<close>)
  live in page tables (\<^verbatim>\<open>vm.c\<close>) over the page allocator (\<^verbatim>\<open>kalloc.c\<close>); they
  enter the kernel through the assembly of \<^verbatim>\<open>trampoline.S\<close> and \<^verbatim>\<open>trap.c\<close>,
  which dispatches system calls (\<^verbatim>\<open>syscall.c\<close>, \<^verbatim>\<open>sysproc.c\<close>,
  \<^verbatim>\<open>sysfile.c\<close>) and device interrupts. A system call on a file goes through the table of open files
  (\<^verbatim>\<open>file.c\<close>), inodes and directories (\<^verbatim>\<open>fs.c\<close>), the log
  (\<^verbatim>\<open>log.c\<close>), the buffer cache (\<^verbatim>\<open>bio.c\<close>) and the disk driver
  (\<^verbatim>\<open>virtio_disk.c\<close>); one on the console or a pipe goes through \<^verbatim>\<open>console.c\<close>,
  \<^verbatim>\<open>uart.c\<close> and \<^verbatim>\<open>pipe.c\<close>. Spin locks and sleep locks
  (\<^verbatim>\<open>spinlock.c\<close>, \<^verbatim>\<open>sleeplock.c\<close>) protect all of them.

  \<^bold>\<open>Conventions.\<close> Machine integers are words of their width, so arithmetic wraps as in C. Physical memory
  is a function from addresses to bytes, and what the code keeps in memory, page tables and the free list, is read from those
  bytes. Kernel code is state passing over records; the record of a component extends that of the components it calls
  (\<open>kview\<close>, \<open>phys\<close>, \<open>vm\<close>, \<open>ptab\<close>, \<open>pipes\<close>,
  \<open>uart\<close>, \<open>console\<close>, \<open>sleeplocks\<close>, \<open>bio\<close>, \<open>log\<close>,
  \<open>fs\<close>, \<open>ftab\<close>, \<open>virtio\<close>, \<open>trap\<close>, in this order), and its operations work
  on every further extension. Code that may not return has the result \<open>stop + 'a\<close>: a panic with its message, a
  sleep, an endless spin, undefined behaviour, or the end of the fuel. A function that sleeps is cut at the switch: one
  definition up to it, and one, named \<open>_return\<close>, from the wakeup on. Concurrent code is a step relation:
  \<open>spin_step\<close> for \<^verbatim>\<open>acquire\<close> and \<^verbatim>\<open>release\<close>,
  \<open>scheduler\<close> for the scheduler. The rest is the code of one thread between two switches, which is how the locks
  let it be read. The view of one thread has no interrupt state: the check of \<^verbatim>\<open>sched\<close> that
  interrupts are off, which \<open>spin_nesting\<close> shows to pass, and the \<^verbatim>\<open>push_off\<close> and
  \<^verbatim>\<open>pop_off\<close> of \<^verbatim>\<open>uartputc_sync\<close>, which cancel by
  \<open>push_pop_off\<close>, are left out.

  \<^bold>\<open>Theories and sources.\<close> \<open>Prelude\<close> has the types, the result type and byte encodings.
  Then:

  \<^item> \<open>Riscv\<close>, \<open>Csr\<close>: \<^verbatim>\<open>riscv.h\<close>,
    \<^verbatim>\<open>memlayout.h\<close>, \<^verbatim>\<open>start.c\<close>. \<open>Kstring\<close>:
    \<^verbatim>\<open>string.c\<close>.
  \<^item> \<open>Spinlock\<close>: \<^verbatim>\<open>spinlock.c\<close>. Mutual exclusion, the meaning of the nesting
    counter, and the simulation that lets the other components see the locks as the set of those that the thread holds.
  \<^item> \<open>Kalloc\<close>: \<^verbatim>\<open>kalloc.c\<close>. The free list in memory against a list of pages; the
    locale \<open>page_allocator\<close>, interpreted on \<^verbatim>\<open>kalloc\<close> and
    \<^verbatim>\<open>kfree\<close>, has the conservation of pages over any sequence of calls.
  \<^item> \<open>Vm\<close>: \<^verbatim>\<open>vm.c\<close>. \<open>Pagetable\<close> says what a page table in memory
    denotes and what \<^verbatim>\<open>walk\<close> and \<^verbatim>\<open>mappages\<close> do to it; \<open>UserMem\<close>
    and \<open>UserCopy\<close> are about \<^verbatim>\<open>copyin\<close>, \<^verbatim>\<open>copyout\<close> and
    \<^verbatim>\<open>copyinstr\<close>; \<open>VmFrame\<close>, \<open>Uvm\<close>, \<open>Freewalk\<close> and
    \<open>Uvmcopy\<close> are about growing, shrinking, freeing and copying an address space, with no page lost on any path.
  \<^item> \<open>Proc\<close>, \<open>Life\<close>: \<^verbatim>\<open>proc.c\<close>, \<^verbatim>\<open>exec.c\<close>.
    The locks at a switch, and \<^verbatim>\<open>kill\<close>. \<open>Sched\<close>: the scheduler on several CPUs; no
    process runs on two, and a runnable one is running within a bounded number of steps of the loop of any CPU.
  \<^item> \<open>Ring\<close>: the locales \<open>ring_size\<close> and \<open>bounded_queue\<close> of ring buffers with
    wrapping counters, interpreted on \<^verbatim>\<open>pipe.c\<close> (\<open>Pipe\<close>),
    \<^verbatim>\<open>uart.c\<close> (\<open>Uart\<close>) and, the first, \<^verbatim>\<open>console.c\<close>
    (\<open>Console\<close>). Pipes and the transmit buffer keep the order of the bytes; the console refines a line editor.
  \<^item> \<open>Printf\<close>: \<^verbatim>\<open>printf.c\<close>. \<open>Sleeplock\<close>:
    \<^verbatim>\<open>sleeplock.c\<close>. \<open>Bio\<close>: \<^verbatim>\<open>bio.c\<close>; the cache agrees with the
    disk.
  \<^item> \<open>Log\<close>: \<^verbatim>\<open>log.c\<close>. \<open>LogCrash\<close>: the writes of a commit and of a
    recovery as lists, and that a crash after every prefix of them, in the commit and again in any number of recoveries,
    leaves all or nothing of a transaction. \<open>Transaction\<close>: the locale \<open>tx_store\<close> of a transactional
    store, interpreted on the log.
  \<^item> \<open>Fs\<close>, \<open>Dir\<close>: \<^verbatim>\<open>fs.c\<close>. \<open>BlockAlloc\<close>: the bitmap.
    \<open>FileData\<close>: \<^verbatim>\<open>bmap\<close>, \<^verbatim>\<open>readi\<close> and
    \<^verbatim>\<open>writei\<close> against a file as a sequence of bytes. \<open>Paths\<close>: the splitting of path
    names.
  \<^item> \<open>File\<close>: \<^verbatim>\<open>file.c\<close> and \<^verbatim>\<open>pipealloc\<close>.
    \<open>Syscall\<close>: \<^verbatim>\<open>syscall.c\<close>, \<^verbatim>\<open>sysproc.c\<close>,
    \<^verbatim>\<open>sysfile.c\<close>.
  \<^item> \<open>Virtio\<close>: \<^verbatim>\<open>virtio_disk.c\<close>. \<open>DiskRequest\<close>: a request from the
    call to its return, for any device with the documented behaviour, which takes only what is published and notified, is the
    single transfer that the buffer cache relies on.
  \<^item> \<open>Trap\<close>: \<^verbatim>\<open>trap.c\<close>, \<^verbatim>\<open>plic.c\<close>,
    \<^verbatim>\<open>main.c\<close>. \<open>Asm\<close>: \<^verbatim>\<open>swtch.S\<close>,
    \<^verbatim>\<open>trampoline.S\<close>, \<^verbatim>\<open>kernelvec.S\<close>, \<^verbatim>\<open>entry.S\<close> as
    lists of instructions, and what they save and restore.
  \<^item> \<open>Grep\<close>: the matcher of \<^verbatim>\<open>user/grep.c\<close> against the language of a pattern.
    \<open>Shell\<close>: \<^verbatim>\<open>user/sh.c\<close>; the parser ends, and a pipeline has the right descriptors.

  \<^verbatim>\<open>exec\<close>, the system calls, \<^verbatim>\<open>trap.c\<close>, \<^verbatim>\<open>main.c\<close> and
  \<^verbatim>\<open>start.c\<close> are definitions in full on which no theorem of this library rests yet.

  \<^bold>\<open>Where the code falls short.\<close> Five theorems state what the code does where it is not what it means to
  do: \<open>consolewrite_full_panics\<close>, \<open>reservation_overflow\<close>, \<open>recovery_underflows\<close>,
  \<open>kill_zero_marks_unused\<close> and \<open>writei_ignores_fault\<close>.

  \<^bold>\<open>Fuel and bounds.\<close> \<^verbatim>\<open>freewalk\<close> has fuel 3, the depth of a page table, and is
  shown to return for well-formed tables. The loop of \<^verbatim>\<open>free_chain\<close> has one round more than there are
  descriptors, since a longer chain meets one twice and panics; that of \<^verbatim>\<open>virtio_disk_intr\<close> has as
  many rounds as there are descriptors, since both of its indices count modulo that number. The loop of
  \<^verbatim>\<open>loadseg\<close> has as many rounds as its 32-bit counter has page-aligned values.
  \<^verbatim>\<open>uartintr\<close> has a round for every byte that the device delivers and one more. The parsers of the
  shell nest four calls for every byte of the line and four more, and each of their loops has a round for every byte and one
  more; the fuel is shown never to run out. All other loops are structural or have a termination proof. Loops on device
  registers run along the list of the values that the device gives. The theorem on \<^verbatim>\<open>writei\<close> asks for
  room in the log: six entries for every block that is touched, and one for the inode.

  \<^bold>\<open>Not modelled.\<close> Weak memory: the steps of the locks are sequentially consistent, so the fences of
  \<^verbatim>\<open>acquire\<close> and \<^verbatim>\<open>release\<close> have no effect. Translation caches:
  \<^verbatim>\<open>sfence_vma\<close> has none either. Devices beyond the values they deliver; a write of one disk block is
  atomic. The interleaving of system calls on the file system is only as far as the contract of the log goes. Of the user
  side, the C library, \<^verbatim>\<open>malloc\<close>, formatted output, reading of lines in grep and the shell, the other
  utilities and the tests are not modelled: they are mostly sequences of system calls. \<^verbatim>\<open>ramdisk.c\<close>
  is not linked. \<^verbatim>\<open>mkfs.c\<close> runs on the host; the layout it produces is a hypothesis of the theorems
  on the file system. The linker script, the generated stubs of system calls and the build and grading scripts are not code
  of the system.
\<close>

end
